(* ===== verification/Mvrlu_Prelude.thy ===== *)
theory Mvrlu_Prelude
  imports Main "HOL-Library.Word"
begin

text \<open>
  Shared vocabulary of the development: the C integer types as words, pointers as 64-bit
  words, the collections of rewrite rules that the component theories extend, and the lemmas on
  words and lists that more than one component needs.

  The kernel is compiled for x86-64: \<open>unsigned long\<close> and pointers have 64 bits,
  \<open>unsigned int\<close> has 32, \<open>unsigned short\<close> has 16.  All C arithmetic on unsigned types
  is the wrapping arithmetic of \<^typ>\<open>'a word\<close>; a C conversion to a narrower type is
  \<open>ucast\<close>.
\<close>

unbundle bit_operations_syntax

section \<open>C types\<close>

type_synonym u8 = "8 word"
type_synonym u16 = "16 word"
type_synonym u32 = "32 word"
type_synonym u64 = "64 word"
type_synonym addr = "64 word"

abbreviation NULL :: addr where
  "NULL \<equiv> 0"

section \<open>Collections of rules\<close>

named_theorems clock_simps \<open>definitions of the clock comparisons\<close>
named_theorems layout_simps \<open>pointer arithmetic between an object and its headers\<close>
named_theorems size_simps \<open>values of the configuration constants and structure sizes\<close>
named_theorems frame_simps \<open>parts of the state an operation leaves alone\<close>

section \<open>Words\<close>

lemma unat_and_mask: "unat (x AND mask n) = unat (x :: 'a::len word) mod 2 ^ n"
proof -
  have "unat (x AND mask n) = unat (take_bit n x)"
    by (simp add: take_bit_eq_mask)
  also have "\<dots> = take_bit n (unat x)"
    by (rule unsigned_take_bit_eq)
  finally show ?thesis
    by (simp add: take_bit_eq_mod)
qed

lemma unat_and_not_mask:
  "unat (x AND NOT (mask n)) = unat (x :: 'a::len word) - unat x mod 2 ^ n"
proof -
  have "x AND NOT (mask n) = push_bit n (drop_bit n x)"
    by (rule bit_eqI) (auto simp: bit_simps)
  then have "x AND NOT (mask n) = x - (x AND mask n)"
    using bits_ident [of n x] by (simp add: take_bit_eq_mask algebra_simps)
  moreover have "x AND mask n \<le> x"
    by (simp add: word_le_nat_alt unat_and_mask)
  ultimately show ?thesis
    by (simp add: unat_sub unat_and_mask)
qed

lemma unat_ucast_u32_u64 [simp]: "unat (ucast (x :: u32) :: u64) = unat x"
  by (simp add: unsigned_ucast_eq take_bit_nat_eq_self_iff
      order_less_le_trans [OF unsigned_less])

lemma unat_ucast_u16_u32 [simp]: "unat (ucast (x :: u16) :: u32) = unat x"
  by (simp add: unsigned_ucast_eq take_bit_nat_eq_self_iff
      order_less_le_trans [OF unsigned_less])

lemma unat_ucast_u64_u32: "unat (ucast (x :: u64) :: u32) = unat x mod 2 ^ 32"
  by (simp add: unsigned_ucast_eq take_bit_eq_mod)

lemma unat_ucast_u32_u16: "unat (ucast (x :: u32) :: u16) = unat x mod 2 ^ 16"
  by (simp add: unsigned_ucast_eq take_bit_eq_mod)

lemma unat_of_nat_u64: "k < 2 ^ 64 \<Longrightarrow> unat (of_nat k :: u64) = k"
  by (simp add: unat_of_nat)

lemma unat_of_nat_u32: "k < 2 ^ 32 \<Longrightarrow> unat (of_nat k :: u32) = k"
  by (simp add: unat_of_nat)

lemma ucast_u32_u64_unat: "(ucast (x :: u32) :: u64) = of_nat (unat x)"
  by (simp add: word_unat_eq_iff unat_of_nat order_less_trans [OF unsigned_less])

lemma unat_add_no_wrap:
  "unat (a :: 'a::len word) + unat b < 2 ^ LENGTH('a) \<Longrightarrow> unat (a + b) = unat a + unat b"
  by (simp add: unat_add_lem)

lemma word_less_unat: "(a :: 'a::len word) < b \<longleftrightarrow> unat a < unat b"
  by (rule word_less_nat_alt)

lemma unat_u64_lt [simp]: "unat (x :: u64) < 18446744073709551616"
  using unsigned_less [of x] by simp

lemma unat_u32_lt [simp]: "unat (x :: u32) < 4294967296"
  using unsigned_less [of x] by simp

lemma unat_u16_lt [simp]: "unat (x :: u16) < 65536"
  using unsigned_less [of x] by simp

text \<open>A word from its bytes, least significant first.\<close>

lemma bytes_of_word:
  "ucast (ucast v :: u8) OR push_bit 8 (ucast (ucast (drop_bit 8 v) :: u8)) OR push_bit 16 (ucast (ucast (drop_bit 16 v) :: u8)) OR
   push_bit 24 (ucast (ucast (drop_bit 24 v) :: u8)) = (v :: u32)"
proof (rule bit_word_eqI)
  fix n assume "n < LENGTH(32)"
  then have "n < 8 \<or> 8 \<le> n \<and> n < 16 \<or> 16 \<le> n \<and> n < 24 \<or> 24 \<le> n \<and> n < 32" by auto
  then show "bit (ucast (ucast v :: u8) OR push_bit 8 (ucast (ucast (drop_bit 8 v) :: u8)) OR
      push_bit 16 (ucast (ucast (drop_bit 16 v) :: u8)) OR push_bit 24 (ucast (ucast (drop_bit 24 v) :: u8)) :: u32) n = bit v n"
    by (elim disjE conjE; simp add: bit_simps less_diff_conv2)
qed

end
