(* ===== verification/Ordo_Clock.thy ===== *)
theory Ordo_Clock
  imports Mvrlu_Prelude
begin

text \<open>
  The two time bases of MV-RLU: the ORDO clock of \<open>include/mvrlu/ordo_clock.h\<close> (per-core
  timestamp counters whose readings may disagree by at most \<open>__ORDO_BOUNDARY\<close> cycles), which
  the kernel configuration selects, and the logical clock of \<open>kernel/mvrlu/mvrlu.c\<close> used
  when \<open>MVRLU_ORDO_TIMESTAMPING\<close> is off.

  A time stamp counter is hardware: it is the parameter \<open>tsc\<close>, where \<open>tsc n\<close> is the
  value returned by the \<open>n\<close>-th \<open>rdtsc\<close> that the machine executes, on whichever core.
  \<open>ordo_synced\<close> states what ORDO relies on: a later reading is never more than the boundary
  behind an earlier one.

  The locale \<open>version_order\<close> is the contract the rest of MV-RLU uses: which write clocks a
  snapshot sees.  Both time bases are interpretations of it, on the clock values that do not
  overflow.
\<close>

section \<open>The ORDO clock\<close>

definition ordo_boundary :: u64 where
  "ordo_boundary = 267"

definition ordo_lt_clock :: "u64 \<Rightarrow> u64 \<Rightarrow> bool" where
  "ordo_lt_clock t1 t2 \<longleftrightarrow> t1 + ordo_boundary < t2"

definition ordo_gt_clock :: "u64 \<Rightarrow> u64 \<Rightarrow> bool" where
  "ordo_gt_clock t1 t2 \<longleftrightarrow> t1 > t2 + ordo_boundary"

definition ORDO_LESS_THAN :: int where "ORDO_LESS_THAN = -1"
definition ORDO_GREATER_THAN :: int where "ORDO_GREATER_THAN = 1"
definition ORDO_UNCERTAIN :: int where "ORDO_UNCERTAIN = 0"

definition ordo_cmp_clock :: "u64 \<Rightarrow> u64 \<Rightarrow> int" where
  "ordo_cmp_clock t1 t2 =
     (if ordo_lt_clock t1 t2 then ORDO_LESS_THAN
      else if ordo_gt_clock t1 t2 then ORDO_GREATER_THAN
      else ORDO_UNCERTAIN)"

text \<open>
  \<open>ordo_get_clock\<close> executes one \<open>rdtsc\<close>: it returns reading number \<open>n\<close> and the next
  reading will be number \<open>n + 1\<close>.
\<close>

definition ordo_get_clock :: "(nat \<Rightarrow> u64) \<Rightarrow> nat \<Rightarrow> u64 \<times> nat" where
  "ordo_get_clock tsc n = (tsc n, Suc n)"

text \<open>
  \<open>ordo_new_clock\<close> spins until the counter has moved past \<open>t\<close> by more than the boundary.
  The loop need not end, so its value is an option.
\<close>

partial_function (option) ordo_new_clock ::
    "(nat \<Rightarrow> u64) \<Rightarrow> nat \<Rightarrow> u64 \<Rightarrow> (u64 \<times> nat) option" where
  "ordo_new_clock tsc n t =
     (let (new_clk, n') = ordo_get_clock tsc n
      in if \<not> ordo_gt_clock new_clk t then ordo_new_clock tsc n' t
         else Some (new_clk, n'))"

section \<open>The clock interface of MV-RLU\<close>

definition MAX_VERSION :: u64 where
  "MAX_VERSION = - 1 - 1"

definition MIN_VERSION :: u64 where
  "MIN_VERSION = 0"

text \<open>The configuration that is built: \<open>MVRLU_ORDO_TIMESTAMPING\<close>.\<close>

definition gte_clock :: "u64 \<Rightarrow> u64 \<Rightarrow> bool" where
  "gte_clock t1 t2 = ordo_gt_clock t1 t2"

definition lte_clock :: "u64 \<Rightarrow> u64 \<Rightarrow> bool" where
  "lte_clock t1 t2 = ordo_lt_clock t1 t2"

definition new_clock :: "(nat \<Rightarrow> u64) \<Rightarrow> nat \<Rightarrow> u64 \<Rightarrow> (u64 \<times> nat) option" where
  "new_clock tsc n local_clk = ordo_new_clock tsc n (local_clk + ordo_boundary)"

definition correct_qp_clk :: "u64 \<Rightarrow> u64" where
  "correct_qp_clk qp_clk = qp_clk - ordo_boundary"

text \<open>
  The configuration without ORDO: one logical clock \<open>g_wrt_clk\<close>, which
  \<open>advance_clock\<close> increments.
\<close>

definition g_gte_clock :: "u64 \<Rightarrow> u64 \<Rightarrow> bool" where
  "g_gte_clock t1 t2 \<longleftrightarrow> t1 \<ge> t2"

definition g_lte_clock :: "u64 \<Rightarrow> u64 \<Rightarrow> bool" where
  "g_lte_clock t1 t2 \<longleftrightarrow> t1 \<le> t2"

definition g_get_clock :: "u64 \<Rightarrow> u64" where
  "g_get_clock g_wrt_clk = g_wrt_clk"

definition g_new_clock :: "u64 \<Rightarrow> u64" where
  "g_new_clock g_wrt_clk = g_wrt_clk + 1"

definition g_advance_clock :: "u64 \<Rightarrow> u64" where
  "g_advance_clock g_wrt_clk = g_wrt_clk + 1"

lemmas [clock_simps] =
  ordo_lt_clock_def ordo_gt_clock_def ordo_boundary_def gte_clock_def lte_clock_def
  MAX_VERSION_def MIN_VERSION_def

section \<open>Comparisons of clocks that do not overflow\<close>

text \<open>
  \<open>t + ordo_boundary\<close> is computed in 64 bits.  \<open>clock_ok\<close> holds for the values on which
  the addition does not wrap.
\<close>

definition clock_ok :: "u64 \<Rightarrow> bool" where
  "clock_ok t \<longleftrightarrow> unat t < 2 ^ 64 - 267"

lemma unat_add_boundary: "clock_ok t \<Longrightarrow> unat (t + ordo_boundary) = unat t + 267"
  by (simp add: clock_ok_def ordo_boundary_def unat_add_no_wrap)

lemma lte_clock_unat: "clock_ok t1 \<Longrightarrow> lte_clock t1 t2 \<longleftrightarrow> unat t1 + 267 < unat t2"
  by (simp add: lte_clock_def ordo_lt_clock_def word_less_unat unat_add_boundary)

lemma gte_clock_unat: "clock_ok t2 \<Longrightarrow> gte_clock t1 t2 \<longleftrightarrow> unat t2 + 267 < unat t1"
  by (simp add: gte_clock_def ordo_gt_clock_def word_less_unat unat_add_boundary)

lemma gte_clock_iff_lte_clock: "gte_clock t1 t2 \<longleftrightarrow> lte_clock t2 t1"
  by (auto simp: clock_simps)

lemma ordo_cmp_clock_sym:
  assumes "clock_ok t1" and "clock_ok t2"
  shows "ordo_cmp_clock t2 t1 = - ordo_cmp_clock t1 t2"
  using lte_clock_unat [OF assms(1), of t2] lte_clock_unat [OF assms(2), of t1]
  by (auto simp: ordo_cmp_clock_def ORDO_LESS_THAN_def ORDO_GREATER_THAN_def ORDO_UNCERTAIN_def
      lte_clock_def ordo_gt_clock_def ordo_lt_clock_def)

lemma unat_MAX_VERSION [simp]: "unat MAX_VERSION = 2 ^ 64 - 2"
  by (simp add: MAX_VERSION_def)

lemma MAX_VERSION_not_ok: "\<not> clock_ok MAX_VERSION"
  by (simp add: clock_ok_def)

lemma lte_clock_MAX_VERSION: "lte_clock MAX_VERSION t \<longleftrightarrow> 265 < t"
  by (simp add: clock_simps)

lemma clock_ok_neq_MAX: "clock_ok t \<Longrightarrow> t \<noteq> MAX_VERSION"
  using MAX_VERSION_not_ok by blast

section \<open>Taking a new clock\<close>

lemma ordo_new_clock_Some:
  assumes ret: "ordo_new_clock tsc n t = Some r"
  shows "\<exists>k \<ge> n. r = (tsc k, Suc k) \<and> ordo_gt_clock (tsc k) t"
proof (rule ordo_new_clock.raw_induct
    [where P = "\<lambda>tsc n t r. \<exists>k \<ge> n. r = (tsc k, Suc k) \<and> ordo_gt_clock (tsc k) t",
     OF _ ret])
  fix f :: "(nat \<Rightarrow> u64) \<Rightarrow> nat \<Rightarrow> u64 \<Rightarrow> (u64 \<times> nat) option" and tsc n t r
  assume IH: "\<And>tsc n t r. f tsc n t = Some r \<Longrightarrow>
      \<exists>k \<ge> n. r = (tsc k, Suc k) \<and> ordo_gt_clock (tsc k) t"
    and eq: "(let (new_clk, n') = ordo_get_clock tsc n
      in if \<not> ordo_gt_clock new_clk t then f tsc n' t else Some (new_clk, n')) = Some r"
  show "\<exists>k \<ge> n. r = (tsc k, Suc k) \<and> ordo_gt_clock (tsc k) t"
  proof (cases "ordo_gt_clock (tsc n) t")
    case True
    with eq show ?thesis by (auto simp: ordo_get_clock_def)
  next
    case False
    with eq have "f tsc (Suc n) t = Some r" by (simp add: ordo_get_clock_def)
    from IH [OF this] show ?thesis using Suc_leD by blast
  qed
qed

lemma ordo_new_clock_returns:
  assumes "n \<le> k" and "ordo_gt_clock (tsc k) t"
  shows "\<exists>clk n'. ordo_new_clock tsc n t = Some (clk, n')"
  using assms
proof (induction "k - n" arbitrary: n)
  case 0
  then show ?case by (subst ordo_new_clock.simps) (simp add: ordo_get_clock_def)
next
  case (Suc d)
  then have "\<exists>clk n'. ordo_new_clock tsc (Suc n) t = Some (clk, n')" by simp
  then show ?case by (subst ordo_new_clock.simps) (simp add: ordo_get_clock_def)
qed

lemma new_clock_Some:
  assumes "new_clock tsc n l = Some (clk, n')" and "unat l + 534 < 2 ^ 64"
  shows "unat l + 534 < unat clk" and "\<exists>k \<ge> n. n' = Suc k \<and> clk = tsc k"
proof -
  from assms(1) obtain k where k: "k \<ge> n" "n' = Suc k" "clk = tsc k"
      and gt: "ordo_gt_clock clk (l + ordo_boundary)"
    unfolding new_clock_def by (auto dest: ordo_new_clock_Some)
  from assms(2) have "unat (l + ordo_boundary + ordo_boundary) = unat l + 534"
    by (simp add: ordo_boundary_def unat_add_no_wrap)
  with gt show "unat l + 534 < unat clk"
    by (simp add: ordo_gt_clock_def word_less_unat)
  from k show "\<exists>k \<ge> n. n' = Suc k \<and> clk = tsc k" by blast
qed

section \<open>What ORDO assumes of the hardware\<close>

definition ordo_synced :: "(nat \<Rightarrow> u64) \<Rightarrow> bool" where
  "ordo_synced tsc \<longleftrightarrow> (\<forall>n m. n \<le> m \<longrightarrow> unat (tsc n) \<le> unat (tsc m) + 267)"

text \<open>A reading certainly above another one was taken later.\<close>

lemma ordo_synced_later:
  assumes "ordo_synced tsc" and "clock_ok (tsc n)" and "lte_clock (tsc n) (tsc m)"
  shows "n < m"
proof (rule ccontr)
  assume "\<not> n < m"
  with assms(1) have "unat (tsc m) \<le> unat (tsc n) + 267" by (simp add: ordo_synced_def)
  with assms(2,3) show False by (simp add: lte_clock_unat)
qed

section \<open>The contract of a time base\<close>

text \<open>
  \<open>ok\<close> are the clock values the time base handles, \<open>sees w l\<close> decides whether a snapshot
  taken at \<open>l\<close> includes a version written at \<open>w\<close>.
\<close>

locale version_order =
  fixes ok :: "u64 \<Rightarrow> bool"
    and sees :: "u64 \<Rightarrow> u64 \<Rightarrow> bool"
  assumes sees_older: "\<lbrakk>ok w; ok w'; w \<le> w'; sees w' l\<rbrakk> \<Longrightarrow> sees w l"
    and sees_later: "\<lbrakk>ok w; l \<le> l'; sees w l\<rbrakk> \<Longrightarrow> sees w l'"
    and sees_trans: "\<lbrakk>ok u; ok v; sees u v; sees v w\<rbrakk> \<Longrightarrow> sees u w"
    and sees_le: "\<lbrakk>ok w; sees w l\<rbrakk> \<Longrightarrow> w \<le> l"
begin

text \<open>
  In a chain of versions ordered from the newest to the oldest, the versions a snapshot sees
  form a suffix, so the first one it sees is the newest.
\<close>

lemma first_seen_is_newest:
  assumes "sorted_wrt (\<lambda>a b. b \<le> a) ws" and "\<forall>w \<in> set ws. ok w"
    and "find (\<lambda>w. sees w l) ws = Some w" and "v \<in> set ws" and "sees v l"
  shows "v \<le> w"
  using assms
proof (induction ws)
  case Nil
  then show ?case by simp
next
  case (Cons a ws)
  show ?case
  proof (cases "sees a l")
    case True
    with Cons.prems show ?thesis by auto
  next
    case False
    with Cons.prems(5) have "v \<noteq> a" by blast
    with Cons.prems False show ?thesis by (auto intro: Cons.IH)
  qed
qed

lemma seen_suffix:
  assumes "sorted_wrt (\<lambda>a b. b \<le> a) (as @ w # bs)" and "\<forall>x \<in> set (as @ w # bs). ok x"
    and "sees w l" and "x \<in> set bs"
  shows "sees x l"
  using assms by (auto simp: sorted_wrt_append intro: sees_older)

end

interpretation ordo: version_order clock_ok lte_clock
proof
  fix w w' l assume "clock_ok w" "clock_ok w'" "w \<le> w'" "lte_clock w' l"
  then show "lte_clock w l" by (simp add: lte_clock_unat word_le_nat_alt)
next
  fix w l l' assume "clock_ok w" "l \<le> l'" "lte_clock w l"
  then show "lte_clock w l'" by (simp add: lte_clock_unat word_le_nat_alt)
next
  fix u v w assume "clock_ok u" "clock_ok v" "lte_clock u v" "lte_clock v w"
  then show "lte_clock u w" by (simp add: lte_clock_unat)
next
  fix w l assume "clock_ok w" "lte_clock w l"
  then show "w \<le> l" by (simp add: lte_clock_unat word_le_nat_alt)
qed

interpretation global_clk: version_order "\<lambda>_. True" g_lte_clock
  by unfold_locales (auto simp: g_lte_clock_def)

end
