(* ===== verification/Mvrlu_Types.thy ===== *)
theory Mvrlu_Types
  imports Ordo_Clock
begin

text \<open>
  The data of MV-RLU, from \<open>include/mvrlu/mvrlu_i.h\<close> and \<open>include/mvrlu/config.h\<close>:
  configuration constants, object headers, write sets, logs, threads, and the memory that the
  operations work on.

  Memory is kept as one heap per structure type, each a function from the address of the
  structure to its value: \<open>ahs_heap\<close> for the headers in front of actual (master) objects,
  \<open>chs_heap\<close> for the headers in front of copies in a log, \<open>ws_heap\<close> for write sets, and
  \<open>obj_heap\<close> for the bytes of an object, by the address of its first byte.  Pointers between
  the structures are 64-bit addresses, and the conversions between an object and its header are
  the pointer arithmetic of the code.  \<open>ahs_live\<close> says which actual objects are allocated.
\<close>

section \<open>Configuration (config.h)\<close>

definition MVRLU_LOG_SIZE :: u64 where
  "MVRLU_LOG_SIZE = push_bit 17 1"

definition MVRLU_LOG_MASK :: u64 where
  "MVRLU_LOG_MASK = NOT (MVRLU_LOG_SIZE - 1)"

definition MVRLU_MAX_THREAD_NUM :: u64 where
  "MVRLU_MAX_THREAD_NUM = push_bit 7 1"

definition MVRLU_MAX_FREE_PTRS :: u32 where
  "MVRLU_MAX_FREE_PTRS = 512"

definition MVRLU_QP_INTERVAL_USEC :: u64 where
  "MVRLU_QP_INTERVAL_USEC = 500"

definition MVRLU_LOG_LOW_MARK :: u64 where
  "MVRLU_LOG_LOW_MARK = drop_bit 1 MVRLU_LOG_SIZE"

definition MVRLU_LOG_HIGH_MARK :: u64 where
  "MVRLU_LOG_HIGH_MARK = MVRLU_LOG_SIZE - drop_bit 2 MVRLU_LOG_SIZE"

definition MVRLU_DEREF_MIN_ACT_OBJ :: int where
  "MVRLU_DEREF_MIN_ACT_OBJ = 50"

definition MVRLU_DEREF_MARK :: int where
  "MVRLU_DEREF_MARK = 3"

definition MVRLU_CACHE_LINE_SIZE :: u32 where
  "MVRLU_CACHE_LINE_SIZE = 64"

definition MVRLU_CACHE_LINE_MASK :: u32 where
  "MVRLU_CACHE_LINE_MASK = NOT (MVRLU_CACHE_LINE_SIZE - 1)"

section \<open>Structures (mvrlu_i.h)\<close>

datatype obj_type = TYPE_ACTUAL | TYPE_WRT_SET | TYPE_COPY | TYPE_FREE | TYPE_BOGUS

datatype thread_status = THREAD_LIVE | THREAD_LIVE_ZOMBIE | THREAD_DEAD_ZOMBIE

record obj_hdr =
  obj_size :: u32
  padding_size :: u16
  obj_type :: obj_type
  p_copy :: addr

record act_hdr_struct =
  p_lock :: addr
  ahs_obj_hdr :: obj_hdr

record cpy_hdr_struct =
  p_wrt_clk :: addr
  wrt_clk_next :: u64
  own_wrt_clk :: u64 \<comment> \<open>\<open>__wrt_clk\<close> in the source\<close>
  p_act :: addr
  chs_obj_hdr :: obj_hdr

record wrt_set =
  wrt_clk :: u64
  num_objs :: u32
  start_tail_cnt :: u64
  ws_thread :: addr

record mvrlu_log =
  qp_clk1 :: u64
  qp_clk2 :: u64
  reclaim_lock :: bool
  need_reclaim :: bool
  head_cnt :: u64
  tail_cnt :: u64
  cur_wrt_set :: addr
  log_buffer :: addr

record qp_info =
  need_wait :: bool
  qp_run_cnt :: u32

record mvrlu_thread_struct =
  tid :: u32
  is_write_detected :: bool
  free_ptrs :: "addr list"
  run_cnt :: u32
  local_clk :: u64
  live_status :: thread_status
  thr_qp_info :: qp_info
  thr_log :: mvrlu_log
  num_act_obj :: int
  num_deref :: int

record mvrlu_qp_thread =
  qp_clk :: u64
  stop_requested :: bool
  qp_need_reclaim :: bool

text \<open>Sizes of the packed structures on x86-64.\<close>

definition sizeof_obj_hdr :: nat where "sizeof_obj_hdr = 16"
definition sizeof_ahs :: nat where "sizeof_ahs = 24"
definition sizeof_chs :: nat where "sizeof_chs = 48"
definition sizeof_ws :: nat where "sizeof_ws = 32"
definition sizeof_wss :: nat where "sizeof_wss = 80"

lemmas [size_simps] =
  MVRLU_LOG_SIZE_def MVRLU_LOG_MASK_def MVRLU_MAX_THREAD_NUM_def MVRLU_MAX_FREE_PTRS_def
  MVRLU_LOG_LOW_MARK_def MVRLU_LOG_HIGH_MARK_def MVRLU_CACHE_LINE_SIZE_def
  MVRLU_CACHE_LINE_MASK_def sizeof_obj_hdr_def sizeof_ahs_def sizeof_chs_def sizeof_ws_def
  sizeof_wss_def

text \<open>\<open>memset(p, 0, sizeof *p)\<close> on the structures.\<close>

definition zero_obj_hdr :: obj_hdr where
  "zero_obj_hdr = \<lparr>obj_size = 0, padding_size = 0, obj_type = TYPE_ACTUAL, p_copy = NULL\<rparr>"

definition zero_ahs :: act_hdr_struct where
  "zero_ahs = \<lparr>p_lock = NULL, ahs_obj_hdr = zero_obj_hdr\<rparr>"

definition zero_chs :: cpy_hdr_struct where
  "zero_chs = \<lparr>p_wrt_clk = NULL, wrt_clk_next = 0, own_wrt_clk = 0, p_act = NULL,
     chs_obj_hdr = zero_obj_hdr\<rparr>"

definition zero_log :: mvrlu_log where
  "zero_log = \<lparr>qp_clk1 = 0, qp_clk2 = 0, reclaim_lock = False, need_reclaim = False,
     head_cnt = 0, tail_cnt = 0, cur_wrt_set = NULL, log_buffer = NULL\<rparr>"

definition zero_thread :: mvrlu_thread_struct where
  "zero_thread = \<lparr>tid = 0, is_write_detected = False, free_ptrs = [], run_cnt = 0, local_clk = 0,
     live_status = THREAD_LIVE, thr_qp_info = \<lparr>need_wait = False, qp_run_cnt = 0\<rparr>,
     thr_log = zero_log, num_act_obj = 0, num_deref = 0\<rparr>"

section \<open>Memory\<close>

record mem =
  ahs_heap :: "addr \<Rightarrow> act_hdr_struct"
  chs_heap :: "addr \<Rightarrow> cpy_hdr_struct"
  ws_heap :: "addr \<Rightarrow> wrt_set"
  obj_heap :: "addr \<Rightarrow> u8 list"
  ahs_live :: "addr \<Rightarrow> bool"

definition upd_ahs :: "addr \<Rightarrow> (act_hdr_struct \<Rightarrow> act_hdr_struct) \<Rightarrow> mem \<Rightarrow> mem" where
  "upd_ahs a f m = m\<lparr>ahs_heap := (ahs_heap m)(a := f (ahs_heap m a))\<rparr>"

definition upd_chs :: "addr \<Rightarrow> (cpy_hdr_struct \<Rightarrow> cpy_hdr_struct) \<Rightarrow> mem \<Rightarrow> mem" where
  "upd_chs a f m = m\<lparr>chs_heap := (chs_heap m)(a := f (chs_heap m a))\<rparr>"

definition upd_ws :: "addr \<Rightarrow> (wrt_set \<Rightarrow> wrt_set) \<Rightarrow> mem \<Rightarrow> mem" where
  "upd_ws a f m = m\<lparr>ws_heap := (ws_heap m)(a := f (ws_heap m a))\<rparr>"

text \<open>\<open>memcpy(dst, src, n)\<close> between objects.\<close>

definition memcpy :: "addr \<Rightarrow> addr \<Rightarrow> nat \<Rightarrow> mem \<Rightarrow> mem" where
  "memcpy dst src n m =
     m\<lparr>obj_heap := (obj_heap m)(dst := take n (obj_heap m src) @ drop n (obj_heap m dst))\<rparr>"

text \<open>Field updates through a nested header, as the code writes \<open>ahs->obj_hdr.p_copy = v\<close>.\<close>

definition set_p_lock :: "addr \<Rightarrow> addr \<Rightarrow> mem \<Rightarrow> mem" where
  "set_p_lock a v = upd_ahs a (\<lambda>h. h\<lparr>p_lock := v\<rparr>)"

definition set_act_p_copy :: "addr \<Rightarrow> addr \<Rightarrow> mem \<Rightarrow> mem" where
  "set_act_p_copy a v = upd_ahs a (\<lambda>h. h\<lparr>ahs_obj_hdr := (ahs_obj_hdr h)\<lparr>p_copy := v\<rparr>\<rparr>)"

definition act_p_copy :: "mem \<Rightarrow> addr \<Rightarrow> addr" where
  "act_p_copy m a = p_copy (ahs_obj_hdr (ahs_heap m a))"

definition act_p_lock :: "mem \<Rightarrow> addr \<Rightarrow> addr" where
  "act_p_lock m a = p_lock (ahs_heap m a)"

definition set_cpy_type :: "addr \<Rightarrow> obj_type \<Rightarrow> mem \<Rightarrow> mem" where
  "set_cpy_type c v = upd_chs c (\<lambda>h. h\<lparr>chs_obj_hdr := (chs_obj_hdr h)\<lparr>obj_type := v\<rparr>\<rparr>)"

definition cpy_type :: "mem \<Rightarrow> addr \<Rightarrow> obj_type" where
  "cpy_type m c = obj_type (chs_obj_hdr (chs_heap m c))"

definition cpy_p_copy :: "mem \<Rightarrow> addr \<Rightarrow> addr" where
  "cpy_p_copy m c = p_copy (chs_obj_hdr (chs_heap m c))"

definition cpy_obj_size :: "mem \<Rightarrow> addr \<Rightarrow> u32" where
  "cpy_obj_size m c = obj_size (chs_obj_hdr (chs_heap m c))"

lemma upd_ahs_sel [simp]:
  "ahs_heap (upd_ahs a f m) = (ahs_heap m)(a := f (ahs_heap m a))"
  "chs_heap (upd_ahs a f m) = chs_heap m"
  "ws_heap (upd_ahs a f m) = ws_heap m"
  "obj_heap (upd_ahs a f m) = obj_heap m"
  "ahs_live (upd_ahs a f m) = ahs_live m"
  by (simp_all add: upd_ahs_def)

lemma upd_chs_sel [simp]:
  "ahs_heap (upd_chs a g m) = ahs_heap m"
  "chs_heap (upd_chs a g m) = (chs_heap m)(a := g (chs_heap m a))"
  "ws_heap (upd_chs a g m) = ws_heap m"
  "obj_heap (upd_chs a g m) = obj_heap m"
  "ahs_live (upd_chs a g m) = ahs_live m"
  by (simp_all add: upd_chs_def)

lemma upd_ws_sel [simp]:
  "ahs_heap (upd_ws a k m) = ahs_heap m"
  "chs_heap (upd_ws a k m) = chs_heap m"
  "ws_heap (upd_ws a k m) = (ws_heap m)(a := k (ws_heap m a))"
  "obj_heap (upd_ws a k m) = obj_heap m"
  "ahs_live (upd_ws a k m) = ahs_live m"
  by (simp_all add: upd_ws_def)

lemma memcpy_sel [simp]:
  "ahs_heap (memcpy d s n m) = ahs_heap m"
  "chs_heap (memcpy d s n m) = chs_heap m"
  "ws_heap (memcpy d s n m) = ws_heap m"
  "obj_heap (memcpy d s n m) =
     (obj_heap m)(d := take n (obj_heap m s) @ drop n (obj_heap m d))"
  "ahs_live (memcpy d s n m) = ahs_live m"
  by (simp_all add: memcpy_def)

end
