(* ===== verification/Buffer_Pool.thy ===== *)
theory Buffer_Pool
  imports Main
begin

text \<open>
  The contract of an allocator of buffers of one size: it keeps a list of distinct free buffers,
  gives out the first one, or a null value when there is none, and takes a buffer back.  The log
  buffers of MV-RLU and the physical pages of xv6 are handed out under it.  Whatever the sequence of
  requests, no buffer is given out twice and none is lost.
\<close>

locale buffer_pool =
  fixes repr :: "'s \<Rightarrow> 'b list \<Rightarrow> bool"
    and alloc :: "'s \<Rightarrow> 'b \<times> 's"
    and release :: "'b \<Rightarrow> 's \<Rightarrow> 's option"
    and null :: 'b
    and buffers :: "'b set"
  assumes repr_distinct: "repr s bs \<Longrightarrow> distinct bs \<and> set bs \<subseteq> buffers"
    and null_no_buffer: "repr s bs \<Longrightarrow> null \<notin> buffers"
    and alloc_cons: "repr s (b # bs) \<Longrightarrow> \<exists>s'. alloc s = (b, s') \<and> repr s' bs"
    and alloc_nil: "repr s [] \<Longrightarrow> alloc s = (null, s)"
    and release_ok: "repr s bs \<Longrightarrow> b \<in> buffers \<Longrightarrow> b \<notin> set bs \<Longrightarrow> \<exists>s'. release b s = Some s' \<and> repr s' (b # bs)"
begin

lemma alloc_release:
  assumes "repr s (b # bs)"
  shows "\<exists>s1 s2. alloc s = (b, s1) \<and> repr s1 bs \<and> release b s1 = Some s2 \<and> repr s2 (b # bs)"
proof -
  obtain s1 where "alloc s = (b, s1)" "repr s1 bs" using alloc_cons [OF assms] by blast
  with release_ok [of s1 bs b] repr_distinct [OF assms] show ?thesis by auto
qed

text \<open>
  A client: a request without an argument allocates, one with a buffer gives it back if the client
  has it.  The client keeps a list of the buffers that it has.
\<close>

fun serve :: "'b option list \<Rightarrow> 's \<Rightarrow> 'b list \<Rightarrow> ('s \<times> 'b list) option" where
  "serve [] s own = Some (s, own)"
| "serve (None # rs) s own = (let (b, s') = alloc s in serve rs s' (if b = null then own else b # own))"
| "serve (Some b # rs) s own =
     (if b \<in> set own then Option.bind (release b s) (\<lambda>s'. serve rs s' (remove1 b own)) else serve rs s own)"

text \<open>Free buffers and those of the client are disjoint and make up a fixed set.\<close>

definition account :: "'b set \<Rightarrow> 's \<Rightarrow> 'b list \<Rightarrow> bool" where
  "account T s own \<longleftrightarrow> (\<exists>bs. repr s bs \<and> distinct (own @ bs) \<and> set (own @ bs) = T \<and> T \<subseteq> buffers)"

lemma account_alloc:
  assumes "account T s own"
  shows "account T (snd (alloc s)) (if fst (alloc s) = null then own else fst (alloc s) # own)"
proof -
  obtain bs where bs: "repr s bs" "distinct (own @ bs)" "set (own @ bs) = T" "T \<subseteq> buffers"
    using assms by (auto simp: account_def)
  show ?thesis
  proof (cases bs)
    case Nil
    then show ?thesis using alloc_nil bs assms by auto
  next
    case (Cons b cs)
    then obtain s' where "alloc s = (b, s')" "repr s' cs" using alloc_cons bs(1) by blast
    moreover have "b \<noteq> null" using null_no_buffer [OF bs(1)] bs Cons by auto
    ultimately show ?thesis using bs Cons by (auto simp: account_def intro!: exI [of _ cs])
  qed
qed

lemma account_release:
  assumes "account T s own" "b \<in> set own"
  shows "\<exists>s'. release b s = Some s' \<and> account T s' (remove1 b own)"
proof -
  obtain bs where bs: "repr s bs" "distinct (own @ bs)" "set (own @ bs) = T" "T \<subseteq> buffers"
    using assms by (auto simp: account_def)
  then have "b \<in> buffers" "b \<notin> set bs" using assms(2) by auto
  then obtain s' where "release b s = Some s'" "repr s' (b # bs)" using release_ok bs(1) by blast
  then show ?thesis using bs assms(2) by (auto simp: account_def intro!: exI [of _ "b # bs"])
qed

theorem serve_accounts: "account T s own \<Longrightarrow> \<exists>s' own'. serve rs s own = Some (s', own') \<and> account T s' own'"
proof (induction rs arbitrary: s own)
  case (Cons r rs)
  show ?case
  proof (cases r)
    case None
    then show ?thesis using Cons.IH [OF account_alloc [OF Cons.prems]] by (simp add: case_prod_unfold Let_def)
  next
    case (Some b)
    then show ?thesis using account_release [OF Cons.prems, of b] Cons by (cases "b \<in> set own") auto
  qed
qed simp

end

end
