(* ===== verification/Log_Allocator.thy ===== *)
theory Log_Allocator
  imports Mvrlu_Types Buffer_Pool
begin

text \<open>
  The pool of log buffers, \<open>kernel/mvrlu/log_allocator.cc\<close> and
  \<open>include/mvrlu/log_allocator.hh\<close>, and the functions of \<open>kernel/mvrlu/port-kernel.cc\<close>
  that call it.  A block is a link followed by \<open>MVRLU_LOG_SIZE\<close> bytes of log; the pool is
  the list of the free blocks' addresses, front first.  \<open>addr_in_log_region\<close> is how MV-RLU
  tells a copy from an actual object.
\<close>

record log_allocator =
  log_pool :: "addr list"
  start_addr :: u64
  end_addr :: u64

datatype panic = Panic string

definition sizeof_islink :: u64 where
  "sizeof_islink = 8"

definition sizeof_log_block :: u64 where
  "sizeof_log_block = sizeof_islink + MVRLU_LOG_SIZE"

definition log_part :: "addr \<Rightarrow> addr" where
  "log_part b = b + sizeof_islink"

definition cast_to_block :: "addr \<Rightarrow> addr" where
  "cast_to_block log_reg = log_reg - sizeof_islink"

text \<open>The constructor: \<open>log_chunks\<close> is the address of the freshly allocated array of blocks.\<close>

definition block_at :: "addr \<Rightarrow> nat \<Rightarrow> addr" where
  "block_at log_chunks i = log_chunks + of_nat i * sizeof_log_block"

definition log_allocator_init :: "addr \<Rightarrow> log_allocator" where
  "log_allocator_init log_chunks =
     \<lparr>log_pool = fold (\<lambda>i pool. block_at log_chunks i # pool) [0..<unat MVRLU_MAX_THREAD_NUM] [],
      start_addr = log_chunks,
      end_addr = log_chunks + sizeof_log_block * MVRLU_MAX_THREAD_NUM\<rparr>"

definition alloc_log_mem :: "log_allocator \<Rightarrow> addr \<times> log_allocator" where
  "alloc_log_mem la =
     (case log_pool la of
        block # rest \<Rightarrow> (log_part block, la\<lparr>log_pool := rest\<rparr>)
      | [] \<Rightarrow> (NULL, la))"

definition addr_in_log_region :: "log_allocator \<Rightarrow> addr \<Rightarrow> bool" where
  "addr_in_log_region la a \<longleftrightarrow> a \<ge> start_addr la \<and> a < end_addr la"

definition free_log_mem :: "log_allocator \<Rightarrow> addr \<Rightarrow> panic + log_allocator" where
  "free_log_mem la p =
     (let b = cast_to_block p
      in if addr_in_log_region la b then Inr (la\<lparr>log_pool := b # log_pool la\<rparr>)
         else Inl (Panic ''free failed''))"

text \<open>The port layer, with \<open>MVRLU_USE_VMALLOC\<close> off.\<close>

definition port_log_region_init :: "u64 \<Rightarrow> u64 \<Rightarrow> int" where
  "port_log_region_init sz num = 0"

definition port_alloc_log_mem :: "log_allocator \<Rightarrow> addr \<times> log_allocator" where
  "port_alloc_log_mem la = alloc_log_mem la"

definition port_free_log_mem :: "log_allocator \<Rightarrow> addr \<Rightarrow> panic + log_allocator" where
  "port_free_log_mem la a = free_log_mem la a"

definition port_addr_in_log_region :: "log_allocator \<Rightarrow> addr \<Rightarrow> bool" where
  "port_addr_in_log_region la a = addr_in_log_region la a"

section \<open>The pool invariant\<close>

text \<open>
  \<open>pool_inv base la\<close>: \<open>la\<close> manages the array of blocks at \<open>base\<close>, which lies inside the
  address space, and its free list holds some of the blocks, none of them twice.
\<close>

definition pool_inv :: "addr \<Rightarrow> log_allocator \<Rightarrow> bool" where
  "pool_inv base la \<longleftrightarrow>
     unat base + 131080 * 128 < 2 ^ 64 \<and>
     start_addr la = base \<and> end_addr la = base + sizeof_log_block * MVRLU_MAX_THREAD_NUM \<and>
     distinct (log_pool la) \<and> set (log_pool la) \<subseteq> block_at base ` {..<128}"

lemma unat_MVRLU_MAX_THREAD_NUM [simp]: "unat MVRLU_MAX_THREAD_NUM = 128"
  by (simp add: MVRLU_MAX_THREAD_NUM_def)

lemma unat_sizeof_log_block [simp]: "unat sizeof_log_block = 131080"
  by (simp add: sizeof_log_block_def sizeof_islink_def MVRLU_LOG_SIZE_def)

lemma unat_block_at:
  assumes "unat base + 131080 * 128 < 2 ^ 64" and "i \<le> 128"
  shows "unat (block_at base i) = unat base + 131080 * i"
proof -
  have i: "unat (of_nat i :: u64) = i" using assms(2) by (simp add: unat_of_nat_u64)
  then have "unat (of_nat i * sizeof_log_block) = 131080 * i"
    using assms(2) by (subst unat_mult_lem [THEN iffD1]) (auto simp: mult.commute)
  with assms show ?thesis
    unfolding block_at_def by (subst unat_add_no_wrap) auto
qed

lemma block_at_inj:
  assumes "unat base + 131080 * 128 < 2 ^ 64"
  shows "inj_on (block_at base) {..<128}"
  by (rule inj_onI) (metis assms lessThan_iff less_imp_le unat_block_at add_left_cancel
      mult_cancel1 zero_neq_numeral)

lemma end_addr_eq: "base + sizeof_log_block * MVRLU_MAX_THREAD_NUM = block_at base 128"
  by (simp add: block_at_def MVRLU_MAX_THREAD_NUM_def)

lemma pool_init_eq: "fold (\<lambda>i pool. f i # pool) [0..<n] [] = rev (map f [0..<n])"
  by (induction n) auto

lemma pool_inv_init:
  assumes "unat base + 131080 * 128 < 2 ^ 64"
  shows "pool_inv base (log_allocator_init base)"
  using assms block_at_inj [OF assms]
  by (auto simp: pool_inv_def log_allocator_init_def pool_init_eq distinct_map atLeast0LessThan
      simp flip: lessThan_atLeast0)

lemma pool_inv_alloc: "pool_inv base la \<Longrightarrow> pool_inv base (snd (alloc_log_mem la))"
  by (auto simp: pool_inv_def alloc_log_mem_def split: list.splits)

lemma cast_log_part [simp]: "cast_to_block (log_part b) = b"
  by (simp add: cast_to_block_def log_part_def)

lemma block_in_region:
  assumes "pool_inv base la" and "i < 128"
  shows "addr_in_log_region la (block_at base i)"
  using assms unat_block_at [of base i] unat_block_at [of base 128]
  by (simp add: pool_inv_def addr_in_log_region_def end_addr_eq word_le_nat_alt word_less_nat_alt)

text \<open>Every byte of a block's log lies in the log region.\<close>

lemma log_bytes_in_region:
  assumes "pool_inv base la" and "i < 128" and "k < 131072"
  shows "addr_in_log_region la (log_part (block_at base i) + of_nat k)"
proof -
  from assms have u: "unat (block_at base i) = unat base + 131080 * i"
      "unat (block_at base 128) = unat base + 131080 * 128"
      and b: "unat base + 131080 * 128 < 2 ^ 64"
    by (simp_all add: pool_inv_def unat_block_at)
  have k: "unat (of_nat k :: u64) = k" using assms(3) by (simp add: unat_of_nat_u64)
  from assms(2) have le: "131080 * i + 131080 \<le> 131080 * (128 :: nat)" by simp
  have lp: "unat (log_part (block_at base i)) = unat base + 131080 * i + 8"
    unfolding log_part_def sizeof_islink_def using u le b by (subst unat_add_no_wrap) auto
  have "unat (log_part (block_at base i) + of_nat k) = unat base + 131080 * i + 8 + k"
    using lp k u le b assms(3) by (subst unat_add_no_wrap) auto
  with assms(1,3) u le show ?thesis
    by (simp add: pool_inv_def addr_in_log_region_def end_addr_eq word_le_nat_alt word_less_nat_alt)
qed

text \<open>The logs of different blocks do not overlap.\<close>

lemma log_parts_disjoint:
  assumes "unat base + 131080 * 128 < 2 ^ 64" and "i < j" and "j < 128"
  shows "unat (log_part (block_at base i)) + 131072 \<le> unat (log_part (block_at base j))"
proof -
  from assms have le: "131080 * Suc i \<le> 131080 * j" "131080 * Suc j \<le> 131080 * (128 :: nat)"
    by simp_all
  have "unat (log_part (block_at base k)) = unat base + 131080 * k + 8" if "k \<le> j" for k
    unfolding log_part_def sizeof_islink_def
    using that assms unat_block_at [of base k] by (subst unat_add_no_wrap) auto
  with assms(2) le show ?thesis by simp
qed

section \<open>The contract of a buffer pool\<close>

text \<open>The log allocator keeps the contract; its buffers are the log parts of its blocks.\<close>

lemma free_log_mem_block:
  assumes "pool_inv base la" and "i < 128" and "block_at base i \<notin> set (log_pool la)"
  shows "free_log_mem la (log_part (block_at base i)) =
           Inr (la\<lparr>log_pool := block_at base i # log_pool la\<rparr>)"
    and "pool_inv base (la\<lparr>log_pool := block_at base i # log_pool la\<rparr>)"
  using assms block_in_region [OF assms(1,2)]
  by (auto simp: free_log_mem_def Let_def pool_inv_def)

text \<open>A buffer that is taken from the pool and given back is at the front of the pool again.\<close>

lemma log_mem_round_trip:
  assumes "pool_inv base la" and "log_pool la = b # bs"
  shows "alloc_log_mem la = (log_part b, la\<lparr>log_pool := bs\<rparr>)" and "pool_inv base (la\<lparr>log_pool := bs\<rparr>)"
    and "free_log_mem (la\<lparr>log_pool := bs\<rparr>) (log_part b) = Inr la"
proof -
  let ?la = "la\<lparr>log_pool := bs\<rparr>"
  show al: "alloc_log_mem la = (log_part b, ?la)" using assms(2) by (simp add: alloc_log_mem_def)
  then show inv: "pool_inv base ?la" using pool_inv_alloc [OF assms(1)] by simp
  obtain i where "i < 128" "b = block_at base i" using assms by (auto simp: pool_inv_def)
  then have "free_log_mem ?la (log_part b) = Inr (?la\<lparr>log_pool := b # log_pool ?la\<rparr>)"
    using free_log_mem_block(1) [OF inv, of i] assms by (auto simp: pool_inv_def)
  then show "free_log_mem ?la (log_part b) = Inr la" using assms(2) by (cases la) simp
qed

lemma log_part_inj [simp]: "log_part a = log_part b \<longleftrightarrow> a = b"
  by (simp add: log_part_def)

text \<open>\<open>free_log_mem\<close> with its panics left out.\<close>

definition give_back :: "addr \<Rightarrow> log_allocator \<Rightarrow> log_allocator option" where
  "give_back a la = (case free_log_mem la a of Inl _ \<Rightarrow> None | Inr la' \<Rightarrow> Some la')"

definition pool_repr :: "addr \<Rightarrow> log_allocator \<Rightarrow> addr list \<Rightarrow> bool" where
  "pool_repr base la bs \<longleftrightarrow> pool_inv base la \<and> bs = map log_part (log_pool la)"

definition log_bufs :: "addr \<Rightarrow> addr set" where
  "log_bufs base = log_part ` block_at base ` {..<128}"

lemma unat_log_part:
  assumes "pool_inv base la" and "i < 128"
  shows "unat (log_part (block_at base i)) = unat base + 131080 * i + 8"
  using assms unat_block_at [of base i] unfolding log_part_def sizeof_islink_def
  by (subst unat_add_no_wrap) (auto simp: pool_inv_def)

interpretation log_pool: buffer_pool "pool_repr base" alloc_log_mem give_back NULL "log_bufs base"
  for base
proof
  fix la bs assume r: "pool_repr base la bs"
  then show "distinct bs \<and> set bs \<subseteq> log_bufs base"
    by (auto simp: pool_repr_def pool_inv_def log_bufs_def distinct_map inj_on_def)
  show "NULL \<notin> log_bufs base"
  proof
    assume "NULL \<in> log_bufs base"
    then obtain i where "i < 128" "log_part (block_at base i) = NULL" by (auto simp: log_bufs_def)
    then show False using unat_log_part [of base la i] r by (simp add: pool_repr_def)
  qed
next
  fix la b bs assume "pool_repr base la (b # bs)"
  then show "\<exists>la'. alloc_log_mem la = (b, la') \<and> pool_repr base la' bs"
    using pool_inv_alloc [of base la] by (auto simp: pool_repr_def alloc_log_mem_def split: list.splits)
next
  fix la assume "pool_repr base la []"
  then show "alloc_log_mem la = (NULL, la)" by (simp add: pool_repr_def alloc_log_mem_def)
next
  fix la bs b assume r: "pool_repr base la bs" "b \<in> log_bufs base" "b \<notin> set bs"
  then obtain i where "i < 128" "b = log_part (block_at base i)" "block_at base i \<notin> set (log_pool la)"
    by (auto simp: log_bufs_def pool_repr_def)
  with free_log_mem_block [of base la i] r(1) show "\<exists>la'. give_back b la = Some la' \<and> pool_repr base la' (b # bs)"
    by (auto simp: pool_repr_def give_back_def)
qed

text \<open>A fresh allocator has all of its buffers.\<close>

lemma log_pool_init:
  assumes "unat base + 131080 * 128 < 2 ^ 64"
  shows "log_pool.account base (log_bufs base) (log_allocator_init base) []"
  unfolding log_pool.account_def using pool_inv_init [OF assms]
  by (auto simp: pool_repr_def log_allocator_init_def pool_init_eq pool_inv_def log_bufs_def
      distinct_map inj_on_def image_image atLeast0LessThan)

section \<open>Alignment of the buffers\<close>

text \<open>
  \<open>mvrlu_thread_init\<close> expects cache-line aligned buffers, but the blocks are
  \<open>8 + MVRLU_LOG_SIZE\<close> bytes long, so neighbouring buffers differ by 8 modulo 64.
\<close>

definition cacheline_aligned :: "addr \<Rightarrow> bool" where
  "cacheline_aligned a \<longleftrightarrow> unat a mod 64 = 0"

lemma log_part_alignment:
  assumes "unat base + 131080 * 128 < 2 ^ 64" and "i < 128"
  shows "unat (log_part (block_at base i)) mod 64 = (unat base + 8 * Suc i) mod 64"
proof -
  from assms(2) have le: "131080 * Suc i \<le> 131080 * (128 :: nat)" by simp
  have "unat (log_part (block_at base i)) = unat base + 131080 * i + 8"
    unfolding log_part_def sizeof_islink_def
    using assms le unat_block_at [of base i] by (subst unat_add_no_wrap) auto
  also have "\<dots> = (unat base + 8 * Suc i) + 64 * (2048 * i)" by simp
  finally show ?thesis by (simp only: mod_mult_self2)
qed

end
