(* ===== verification/Mvrlu_Object.thy ===== *)
theory Mvrlu_Object
  imports Log_Allocator
begin

text \<open>
  Object access and object copy operations of \<open>kernel/mvrlu/mvrlu.c\<close>: from an object to its
  headers and back, from a copy to its actual object, the write clock of a copy, locking an
  actual object for a new copy, and writing a copy back, detaching it and freeing.

  Operations that use a compare-and-swap take the steps of other threads as parameters: a
  function from memory to memory that runs between two accesses of the operation.
\<close>

section \<open>Pointer arithmetic\<close>

definition obj_to_ahs :: "addr \<Rightarrow> addr" where
  "obj_to_ahs obj = obj - of_nat sizeof_ahs"

definition obj_to_chs :: "addr \<Rightarrow> addr" where
  "obj_to_chs obj = obj - of_nat sizeof_chs"

definition obj_to_obj_hdr :: "addr \<Rightarrow> addr" where
  "obj_to_obj_hdr obj = obj - of_nat sizeof_obj_hdr"

text \<open>\<open>ahs->obj_hdr.obj\<close> and \<open>chs->obj_hdr.obj\<close>: the object behind a header.\<close>

definition ahs_to_obj :: "addr \<Rightarrow> addr" where
  "ahs_to_obj a = a + of_nat sizeof_ahs"

definition chs_to_obj :: "addr \<Rightarrow> addr" where
  "chs_to_obj c = c + of_nat sizeof_chs"

lemmas [layout_simps] =
  obj_to_ahs_def obj_to_chs_def obj_to_obj_hdr_def ahs_to_obj_def chs_to_obj_def

definition is_obj_actual :: "log_allocator \<Rightarrow> addr \<Rightarrow> bool" where
  "is_obj_actual la hdr \<longleftrightarrow> \<not> port_addr_in_log_region la hdr"

definition get_act_obj :: "log_allocator \<Rightarrow> mem \<Rightarrow> addr \<Rightarrow> addr" where
  "get_act_obj la m obj =
     (if is_obj_actual la (obj_to_obj_hdr obj) then obj
      else p_act (chs_heap m (obj_to_chs obj)))"

definition align_uint_to_cacheline :: "u32 \<Rightarrow> u32" where
  "align_uint_to_cacheline unum = (unum + NOT MVRLU_CACHE_LINE_MASK) AND MVRLU_CACHE_LINE_MASK"

definition align_ptr_to_cacheline :: "addr \<Rightarrow> addr" where
  "align_ptr_to_cacheline p = (p + 63) AND NOT 63"

section \<open>Object copies\<close>

definition get_log_size :: "cpy_hdr_struct \<Rightarrow> u32" where
  "get_log_size chs = obj_size (chs_obj_hdr chs) + ucast (padding_size (chs_obj_hdr chs))"

definition get_wrt_clk :: "mem \<Rightarrow> addr \<Rightarrow> u64" where
  "get_wrt_clk m c =
     (let clk = own_wrt_clk (chs_heap m c)
      in if clk = MAX_VERSION then wrt_clk (ws_heap m (p_wrt_clk (chs_heap m c))) else clk)"

definition cas_p_lock :: "addr \<Rightarrow> addr \<Rightarrow> addr \<Rightarrow> mem \<Rightarrow> bool \<times> mem" where
  "cas_p_lock a old_v new_v m =
     (if act_p_lock m a = old_v then (True, set_p_lock a new_v m) else (False, m))"

definition cas_p_copy :: "addr \<Rightarrow> addr \<Rightarrow> addr \<Rightarrow> mem \<Rightarrow> bool \<times> mem" where
  "cas_p_copy a old_v new_v m =
     (if act_p_copy m a = old_v then (True, set_act_p_copy a new_v m) else (False, m))"

text \<open>
  \<open>env1\<close> and \<open>env2\<close> are what other threads do before and after the compare-and-swap of
  the lock word.
\<close>

definition try_lock_obj ::
    "(mem \<Rightarrow> mem) \<Rightarrow> (mem \<Rightarrow> mem) \<Rightarrow> addr \<Rightarrow> addr \<Rightarrow> addr \<Rightarrow> mem \<Rightarrow> bool \<times> mem" where
  "try_lock_obj env1 env2 ahs p_old_copy p_new_copy m =
     (if act_p_lock m ahs \<noteq> NULL \<or> act_p_copy m ahs \<noteq> p_old_copy then (False, m)
      else let (ret, m1) = cas_p_lock ahs NULL p_new_copy (env1 m)
           in if \<not> ret then (False, m1)
              else let m2 = env2 m1
                   in if act_p_copy m2 ahs \<noteq> p_old_copy then (False, set_p_lock ahs NULL m2)
                      else (True, m2))"

definition try_detach_obj :: "(mem \<Rightarrow> mem) \<Rightarrow> addr \<Rightarrow> mem \<Rightarrow> mem" where
  "try_detach_obj env c m =
     (let ahs = obj_to_ahs (p_act (chs_heap m c));
          copy = chs_to_obj c
      in if act_p_copy m ahs \<noteq> copy then m
         else snd (cas_p_copy ahs copy NULL (env m)))"

definition try_writeback_obj :: "addr \<Rightarrow> mem \<Rightarrow> bool \<times> mem" where
  "try_writeback_obj c m =
     (let act = p_act (chs_heap m c);
          ahs = obj_to_ahs act;
          copy = chs_to_obj c
      in if act_p_copy m ahs \<noteq> copy then (False, m)
         else (True, memcpy act copy (unat (cpy_obj_size m c)) m))"

text \<open>\<open>port_free\<close> on the header of an actual object; without free poisoning.\<close>

definition port_free_ahs :: "addr \<Rightarrow> mem \<Rightarrow> mem" where
  "port_free_ahs a m = m\<lparr>ahs_live := (ahs_live m)(a := False)\<rparr>"

definition free_obj :: "addr \<Rightarrow> mem \<Rightarrow> mem" where
  "free_obj c m = port_free_ahs (obj_to_ahs (p_act (chs_heap m c))) m"

section \<open>Layout lemmas\<close>

lemma obj_to_ahs_to_obj [simp]: "ahs_to_obj (obj_to_ahs p) = p" "obj_to_ahs (ahs_to_obj a) = a"
  by (simp_all add: layout_simps)

lemma obj_to_chs_to_obj [simp]: "chs_to_obj (obj_to_chs p) = p" "obj_to_chs (chs_to_obj c) = c"
  by (simp_all add: layout_simps)

lemma obj_to_ahs_inj [simp]: "obj_to_ahs p = obj_to_ahs q \<longleftrightarrow> p = q"
  by (simp add: layout_simps)

lemma obj_to_chs_inj [simp]: "obj_to_chs p = obj_to_chs q \<longleftrightarrow> p = q"
  by (simp add: layout_simps)

lemma chs_to_obj_inj [simp]: "chs_to_obj p = chs_to_obj q \<longleftrightarrow> p = q"
  by (simp add: layout_simps)

lemma set_p_lock_sel [simp]:
  "act_p_lock (set_p_lock a v m) b = (if b = a then v else act_p_lock m b)"
  "act_p_copy (set_p_lock a v m) = act_p_copy m"
  "chs_heap (set_p_lock a v m) = chs_heap m" "ws_heap (set_p_lock a v m) = ws_heap m"
  "obj_heap (set_p_lock a v m) = obj_heap m" "ahs_live (set_p_lock a v m) = ahs_live m"
  by (auto simp: set_p_lock_def act_p_lock_def act_p_copy_def)

lemma set_act_p_copy_sel [simp]:
  "act_p_copy (set_act_p_copy a v m) b = (if b = a then v else act_p_copy m b)"
  "act_p_lock (set_act_p_copy a v m) = act_p_lock m"
  "chs_heap (set_act_p_copy a v m) = chs_heap m" "ws_heap (set_act_p_copy a v m) = ws_heap m"
  "obj_heap (set_act_p_copy a v m) = obj_heap m" "ahs_live (set_act_p_copy a v m) = ahs_live m"
  by (auto simp: set_act_p_copy_def act_p_lock_def act_p_copy_def)

lemma act_upd_frame [simp]:
  "act_p_lock (upd_chs c g m) = act_p_lock m" "act_p_copy (upd_chs c g m) = act_p_copy m"
  "act_p_lock (upd_ws w k m) = act_p_lock m" "act_p_copy (upd_ws w k m) = act_p_copy m"
  "act_p_lock (memcpy d s n m) = act_p_lock m" "act_p_copy (memcpy d s n m) = act_p_copy m"
  by (auto simp: act_p_lock_def act_p_copy_def)

lemma set_cpy_type_sel [simp]:
  "ahs_heap (set_cpy_type c v m) = ahs_heap m" "ws_heap (set_cpy_type c v m) = ws_heap m"
  "obj_heap (set_cpy_type c v m) = obj_heap m" "ahs_live (set_cpy_type c v m) = ahs_live m"
  "act_p_lock (set_cpy_type c v m) = act_p_lock m" "act_p_copy (set_cpy_type c v m) = act_p_copy m"
  by (simp_all add: set_cpy_type_def)

lemma port_free_ahs_sel [simp]:
  "ahs_heap (port_free_ahs a m) = ahs_heap m" "chs_heap (port_free_ahs a m) = chs_heap m"
  "ws_heap (port_free_ahs a m) = ws_heap m" "obj_heap (port_free_ahs a m) = obj_heap m"
  "ahs_live (port_free_ahs a m) = (ahs_live m)(a := False)"
  "act_p_lock (port_free_ahs a m) = act_p_lock m" "act_p_copy (port_free_ahs a m) = act_p_copy m"
  by (auto simp: port_free_ahs_def act_p_lock_def act_p_copy_def)

section \<open>Alignment\<close>

lemma MVRLU_CACHE_LINE_MASK_eq: "MVRLU_CACHE_LINE_MASK = NOT (mask 6)"
  by (simp add: MVRLU_CACHE_LINE_MASK_def MVRLU_CACHE_LINE_SIZE_def mask_eq_exp_minus_1)

lemma unat_align_uint:
  assumes "unat n + 63 < 2 ^ 32"
  shows "unat (align_uint_to_cacheline n) = 64 * ((unat n + 63) div 64)"
proof -
  have "unat (n + mask 6) = unat n + 63"
    using assms by (simp add: mask_eq_exp_minus_1 unat_add_no_wrap)
  then show ?thesis
    by (simp add: align_uint_to_cacheline_def MVRLU_CACHE_LINE_MASK_eq unat_and_not_mask
        minus_mod_eq_mult_div)
qed

lemma unat_align_uint_bounds:
  assumes "unat n + 63 < 2 ^ 32"
  shows "unat n \<le> unat (align_uint_to_cacheline n)"
    and "unat (align_uint_to_cacheline n) < unat n + 64"
    and "64 dvd unat (align_uint_to_cacheline n)"
  using unat_align_uint [OF assms] by auto

section \<open>Locking an actual object\<close>

lemma try_lock_obj_seq:
  "try_lock_obj id id a old new m =
     (if act_p_lock m a = NULL \<and> act_p_copy m a = old then (True, set_p_lock a new m)
      else (False, m))"
  by (auto simp: try_lock_obj_def cas_p_lock_def)

text \<open>
  Whatever the other threads do in between, as long as they respect a held lock, a successful
  \<open>try_lock_obj\<close> ends with the lock held for the new copy and the chain head unchanged.
\<close>

lemma try_lock_obj_success:
  assumes "try_lock_obj env1 env2 a old new m = (True, m')"
    and respects: "\<And>m. act_p_lock m a = new \<Longrightarrow> act_p_lock (env2 m) a = new"
  shows "act_p_lock m' a = new" and "act_p_copy m' a = old"
    and "act_p_lock (env1 m) a = NULL"
  using assms
  by (auto simp: try_lock_obj_def cas_p_lock_def Let_def split: if_splits)

lemma try_lock_obj_failure:
  assumes "try_lock_obj env1 env2 a old new m = (False, m')" and "new \<noteq> NULL"
    and respects: "\<And>m. act_p_lock m a = new \<Longrightarrow> act_p_lock (env2 m) a = new"
    and foreign: "act_p_lock (env1 m) a \<noteq> new" "act_p_lock m a \<noteq> new"
  shows "act_p_lock m' a \<noteq> new"
  using assms
  by (auto simp: try_lock_obj_def cas_p_lock_def Let_def split: if_splits)

section \<open>Write-back and detach\<close>

lemma try_writeback_obj_sel [simp]:
  "ahs_heap (snd (try_writeback_obj c m)) = ahs_heap m"
  "chs_heap (snd (try_writeback_obj c m)) = chs_heap m"
  "ws_heap (snd (try_writeback_obj c m)) = ws_heap m"
  "ahs_live (snd (try_writeback_obj c m)) = ahs_live m"
  by (simp_all add: try_writeback_obj_def Let_def)

text \<open>Writing back the newest copy makes the actual object equal to it.\<close>

lemma try_writeback_obj_newest:
  assumes "act_p_copy m (obj_to_ahs (p_act (chs_heap m c))) = chs_to_obj c"
    and "length (obj_heap m (chs_to_obj c)) = unat (cpy_obj_size m c)"
    and "length (obj_heap m (p_act (chs_heap m c))) = unat (cpy_obj_size m c)"
  shows "fst (try_writeback_obj c m)"
    and "obj_heap (snd (try_writeback_obj c m)) (p_act (chs_heap m c)) = obj_heap m (chs_to_obj c)"
  using assms by (simp_all add: try_writeback_obj_def Let_def)

lemma try_writeback_obj_stale:
  "act_p_copy m (obj_to_ahs (p_act (chs_heap m c))) \<noteq> chs_to_obj c \<Longrightarrow>
   try_writeback_obj c m = (False, m)"
  by (simp add: try_writeback_obj_def Let_def)

text \<open>
  Detaching loses no commit: if another thread links a newer copy before the compare-and-swap,
  the newer copy stays at the head of the chain.
\<close>

lemma try_detach_obj_keeps_newer:
  assumes "a = obj_to_ahs (p_act (chs_heap m c))"
    and "act_p_copy (env m) a \<noteq> chs_to_obj c" and "act_p_copy m a = chs_to_obj c"
  shows "try_detach_obj env c m = env m"
  using assms by (simp add: try_detach_obj_def Let_def cas_p_copy_def)

lemma try_detach_obj_seq:
  "try_detach_obj id c m =
     (let a = obj_to_ahs (p_act (chs_heap m c))
      in if act_p_copy m a = chs_to_obj c then set_act_p_copy a NULL m else m)"
  by (simp add: try_detach_obj_def cas_p_copy_def Let_def)

end
