(* ===== verification/Mvrlu_Log.thy ===== *)
theory Mvrlu_Log
  imports Mvrlu_Object
begin

text \<open>
  The per-thread log of \<open>kernel/mvrlu/mvrlu.c\<close>: a ring of \<open>MVRLU_LOG_SIZE\<close> bytes addressed
  by ever-growing 64-bit counters.  A write set is a \<open>TYPE_WRT_SET\<close> entry followed by one
  entry per locked object; entries never straddle the end of the ring, a \<open>TYPE_BOGUS\<close> entry or
  extra padding fills it up.  The operations return the new log and the new memory.
\<close>

section \<open>Log operations\<close>

definition log_used :: "mvrlu_log \<Rightarrow> u64" where
  "log_used l = tail_cnt l - head_cnt l"

definition log_index :: "u64 \<Rightarrow> u32" where
  "log_index cnt = ucast (cnt AND NOT MVRLU_LOG_MASK)"

definition log_at :: "mvrlu_log \<Rightarrow> u64 \<Rightarrow> addr" where
  "log_at l cnt = log_buffer l + ucast (log_index cnt)"

definition add_extra_padding :: "mvrlu_log \<Rightarrow> u32 \<Rightarrow> u32 \<Rightarrow> bool \<Rightarrow> u32" where
  "add_extra_padding l log_size extra bogus =
     (let extra1 = extra + of_nat sizeof_chs;
          extra2 = align_uint_to_cacheline extra1
      in if \<not> bogus \<and>
            log_index (tail_cnt l + ucast log_size + ucast extra2) < log_index (tail_cnt l)
         then ucast (MVRLU_LOG_SIZE - ucast (log_index (tail_cnt l + ucast log_size)))
         else 0)"

definition log_alloc ::
    "mvrlu_log \<Rightarrow> mem \<Rightarrow> u32 \<Rightarrow> bool \<Rightarrow> addr \<times> bool \<times> mvrlu_log \<times> mem" where
  "log_alloc l m sz bogus =
     (let log_size = align_uint_to_cacheline (sz + of_nat sizeof_chs);
          (l1, m1, bogus1) =
            (if log_index (tail_cnt l + ucast log_size) < log_index (tail_cnt l) then
               let c = log_at l (tail_cnt l);
                   bogus_size = ucast (MVRLU_LOG_SIZE - ucast (log_index (tail_cnt l))) :: u32;
                   m1 = upd_chs c (\<lambda>_. zero_chs\<lparr>chs_obj_hdr := zero_obj_hdr
                          \<lparr>padding_size := ucast bogus_size, obj_type := TYPE_BOGUS\<rparr>\<rparr>) m
               in (l\<lparr>tail_cnt := tail_cnt l + ucast bogus_size\<rparr>, m1, True)
             else (l, m, bogus));
          extra_pad = add_extra_padding l1 log_size (of_nat sizeof_wss) bogus1;
          log_size1 = log_size + extra_pad;
          c = log_at l1 (tail_cnt l1);
          m2 = upd_chs c (\<lambda>_. zero_chs\<lparr>own_wrt_clk := MAX_VERSION, chs_obj_hdr := zero_obj_hdr
                 \<lparr>obj_size := sz, padding_size := ucast (log_size1 - sz)\<rparr>\<rparr>) m1
      in (c, bogus1, l1, m2))"

text \<open>\<open>self\<close> is the thread that \<open>log_to_thread\<close> finds.\<close>

definition log_open_wrt_set ::
    "mvrlu_log \<Rightarrow> mem \<Rightarrow> addr \<Rightarrow> bool \<times> mvrlu_log \<times> mem" where
  "log_open_wrt_set l m self =
     (let (c, bogus, l1, m1) = log_alloc l m (of_nat sizeof_ws) False;
          ws = chs_to_obj c;
          m2 = upd_chs c (\<lambda>h. h\<lparr>p_wrt_clk := ws,
                 chs_obj_hdr := (chs_obj_hdr h)\<lparr>obj_type := TYPE_WRT_SET\<rparr>\<rparr>) m1;
          m3 = upd_ws ws (\<lambda>_. \<lparr>wrt_clk = MAX_VERSION, num_objs = 0,
                 start_tail_cnt = tail_cnt l1, ws_thread = self\<rparr>) m2;
          l2 = l1\<lparr>cur_wrt_set := ws\<rparr>;
          l3 = l2\<lparr>tail_cnt := tail_cnt l2 + ucast (get_log_size (chs_heap m3 c))\<rparr>
      in (bogus, l3, m3))"

definition log_append_begin ::
    "mvrlu_log \<Rightarrow> mem \<Rightarrow> addr \<Rightarrow> addr \<Rightarrow> u32 \<Rightarrow> addr \<times> bool \<times> mvrlu_log \<times> mem" where
  "log_append_begin l m self act sz =
     (let (bogus0, l0, m0) =
            (if cur_wrt_set l = NULL then log_open_wrt_set l m self else (False, l, m));
          (c, bogus1, l1, m1) = log_alloc l0 m0 sz bogus0;
          m2 = upd_chs c (\<lambda>h. h\<lparr>p_wrt_clk := cur_wrt_set l1, p_act := act,
                 chs_obj_hdr := (chs_obj_hdr h)\<lparr>obj_type := TYPE_COPY\<rparr>\<rparr>) m1
      in (c, bogus1, l1, m2))"

definition log_append_abort :: "mvrlu_log \<Rightarrow> addr \<Rightarrow> mvrlu_log" where
  "log_append_abort l c = l"

definition log_append_end :: "mvrlu_log \<Rightarrow> mem \<Rightarrow> addr \<Rightarrow> bool \<Rightarrow> mvrlu_log \<times> mem" where
  "log_append_end l m c bogus_allocated =
     (let l1 = l\<lparr>tail_cnt := tail_cnt l + ucast (get_log_size (chs_heap m c))\<rparr>;
          m1 = upd_ws (cur_wrt_set l1) (\<lambda>w. w\<lparr>num_objs := num_objs w + 1\<rparr>) m;
          m2 = (if bogus_allocated
                then upd_ws (cur_wrt_set l1) (\<lambda>w. w\<lparr>num_objs := num_objs w + 1\<rparr>) m1 else m1)
      in (l1, m2))"

definition ws_iter_begin :: "mem \<Rightarrow> addr \<Rightarrow> u64" where
  "ws_iter_begin m ws =
     start_tail_cnt (ws_heap m ws) + ucast (get_log_size (chs_heap m (obj_to_chs ws)))"

definition ws_iter_next :: "mem \<Rightarrow> u64 \<Rightarrow> addr \<Rightarrow> u64" where
  "ws_iter_next m iter c = iter + ucast (get_log_size (chs_heap m c))"

definition fp_is_free :: "addr list \<Rightarrow> addr \<Rightarrow> bool" where
  "fp_is_free fps ahs \<longleftrightarrow> ahs_to_obj ahs \<in> set fps"

definition fp_reset :: "addr list \<Rightarrow> addr list" where
  "fp_reset fps = []"

text \<open>
  \<open>ws_for_each\<close>: \<open>n\<close> objects are left, \<open>cnt\<close> is the log counter of the next one.
  The body works on the local variables of the loop and on memory; it may itself loop, so it
  returns an option.  The size of an entry is read after the body ran on it.  The result includes
  the counter behind the last entry.
\<close>

fun ws_for_each :: "mvrlu_log \<Rightarrow> (addr \<Rightarrow> 's \<times> mem \<Rightarrow> ('s \<times> mem) option) \<Rightarrow>
    nat \<Rightarrow> u64 \<Rightarrow> 's \<times> mem \<Rightarrow> (u64 \<times> 's \<times> mem) option" where
  "ws_for_each l body 0 cnt sm = Some (cnt, sm)"
| "ws_for_each l body (Suc n) cnt sm =
     (case body (log_at l cnt) sm of
        None \<Rightarrow> None
      | Some sm1 \<Rightarrow> ws_for_each l body n (ws_iter_next (snd sm1) cnt (log_at l cnt)) sm1)"

text \<open>A body without local variables that always returns.\<close>

definition plain_body :: "(addr \<Rightarrow> mem \<Rightarrow> mem) \<Rightarrow> addr \<Rightarrow> unit \<times> mem \<Rightarrow> (unit \<times> mem) option" where
  "plain_body f c sm = Some ((), f c (snd sm))"

section \<open>Counters as natural numbers\<close>

abbreviation log_sz :: nat where
  "log_sz \<equiv> 131072"

lemma unat_MVRLU_LOG_SIZE [simp]: "unat MVRLU_LOG_SIZE = log_sz"
  by (simp add: MVRLU_LOG_SIZE_def)

lemma unat_log_index [simp]: "unat (log_index cnt) = unat cnt mod log_sz"
proof -
  have "NOT MVRLU_LOG_MASK = mask 17"
    by (simp add: MVRLU_LOG_MASK_def MVRLU_LOG_SIZE_def mask_eq_exp_minus_1)
  then have "unat (log_index cnt) = unat (cnt AND mask 17) mod 2 ^ 32"
    by (simp add: log_index_def unat_ucast_u64_u32)
  then show ?thesis by (simp add: unat_and_mask)
qed

lemma log_index_less: "log_index a < log_index b \<longleftrightarrow> unat a mod log_sz < unat b mod log_sz"
  by (simp add: word_less_unat)

lemma ucast_log_index: "unat (ucast (log_index cnt) :: u64) = unat cnt mod log_sz"
  by simp

lemma log_at_eq_iff: "log_at l a = log_at l b \<longleftrightarrow> unat a mod log_sz = unat b mod log_sz"
  by (metis add_left_cancel log_at_def ucast_log_index word_unat_eq_iff)

lemma log_at_cong [simp]:
  "log_at (l\<lparr>tail_cnt := t\<rparr>) = log_at l" "log_at (l\<lparr>cur_wrt_set := w\<rparr>) = log_at l"
  "log_at (l\<lparr>head_cnt := h\<rparr>) = log_at l" "log_at (l\<lparr>need_reclaim := b\<rparr>) = log_at l"
  "log_at (l\<lparr>reclaim_lock := b\<rparr>) = log_at l"
  by (auto simp: log_at_def)

lemma mod_window_inj:
  assumes "(a :: nat) < b" and "b < a + n"
  shows "a mod n \<noteq> b mod n"
proof
  assume "a mod n = b mod n"
  then have "n dvd b - a" using assms(1) by (metis less_imp_le mod_eq_dvd_iff_nat)
  with assms show False by (auto dest: dvd_imp_le)
qed


section \<open>Where an entry is placed\<close>

text \<open>
  The placement rule of \<open>log_alloc\<close> on natural numbers, for an entry of \<open>n\<close> bytes at
  counter \<open>t\<close>: it starts at \<open>alloc_start t n\<close> and ends, padding included, at
  \<open>alloc_end t n\<close>.
\<close>


lemma mod_add_once:
  assumes "(n :: nat) \<le> s" and "0 < s"
  shows "(t + n) mod s = (if t mod s + n < s then t mod s + n else t mod s + n - s)"
proof -
  have "(t + n) mod s = (t mod s + n) mod s" by (simp add: mod_simps)
  also have "\<dots> = (if t mod s + n < s then t mod s + n else t mod s + n - s)"
    using assms mod_less_divisor [OF assms(2), of t] by (auto simp: le_mod_geq not_less)
  finally show ?thesis .
qed

definition alloc_size :: "nat \<Rightarrow> nat" where
  "alloc_size sz = 64 * ((sz + 48 + 63) div 64)"

text \<open>Does an entry of \<open>n\<close> bytes at counter \<open>t\<close> reach the end of the ring?\<close>

definition wraps :: "nat \<Rightarrow> nat \<Rightarrow> bool" where
  "wraps t n \<longleftrightarrow> log_sz \<le> t mod log_sz + n"

text \<open>The bytes from counter \<open>t\<close> to the end of the ring.\<close>

definition ring_rest :: "nat \<Rightarrow> nat" where
  "ring_rest t = log_sz - t mod log_sz"

definition alloc_start :: "nat \<Rightarrow> nat \<Rightarrow> nat" where
  "alloc_start t n = (if wraps t n then t + ring_rest t else t)"

definition alloc_pad :: "nat \<Rightarrow> nat \<Rightarrow> nat" where
  "alloc_pad t n =
     (if \<not> wraps t n \<and> wraps t (n + 128) then log_sz - (t mod log_sz + n) else 0)"

definition alloc_end :: "nat \<Rightarrow> nat \<Rightarrow> nat" where
  "alloc_end t n = alloc_start t n + n + alloc_pad t n"

definition log_room :: "nat \<Rightarrow> bool" where
  "log_room t \<longleftrightarrow> 64 dvd t \<and> t mod log_sz + 128 < log_sz"

lemma wraps_word:
  assumes "0 < unat n" and "unat n < log_sz" and "unat t + log_sz < 2 ^ 64"
  shows "log_index (t + ucast n) < log_index t \<longleftrightarrow> wraps (unat t) (unat (n :: u32))"
proof -
  have "unat (t + ucast n) = unat t + unat n" using assms by (simp add: unat_add_no_wrap)
  with assms show ?thesis
    by (auto simp: log_index_less mod_add_once [of "unat n" log_sz] wraps_def)
qed

lemma alloc_start_mod: "alloc_start t n mod log_sz = (if wraps t n then 0 else t mod log_sz)"
proof (cases "wraps t n")
  case True
  have "t + ring_rest t = log_sz * (t div log_sz) + log_sz"
    unfolding ring_rest_def using mult_div_mod_eq [of log_sz t] mod_less_divisor [of log_sz t] by linarith
  with True show ?thesis by (simp add: alloc_start_def)
qed (simp add: alloc_start_def)

text \<open>An entry and its padding lie inside the ring.\<close>

lemma alloc_fits:
  assumes "n + 128 < log_sz"
  shows "alloc_start t n mod log_sz + n + alloc_pad t n \<le> log_sz"
  using assms by (auto simp: alloc_start_mod alloc_pad_def wraps_def)

lemma alloc_start_bound: "t \<le> alloc_start t n \<and> alloc_start t n < t + n + 1"
  by (auto simp: alloc_start_def wraps_def ring_rest_def)

lemma alloc_end_bound: "alloc_start t n + n \<le> alloc_end t n" "alloc_end t n \<le> t + 2 * n + 128"
  using alloc_start_bound [of t n] by (auto simp: alloc_end_def alloc_pad_def wraps_def)

lemma alloc_end_room:
  assumes "64 dvd t" and "64 dvd n" and "n + 128 < log_sz"
  shows "log_room (alloc_end t n)"
proof -
  have d: "64 dvd alloc_start t n" "64 dvd alloc_pad t n"
    using assms by (auto simp: alloc_start_def alloc_pad_def ring_rest_def mod_eq_0_iff_dvd dvd_mod_iff
        intro!: dvd_diff_nat dvd_add dvd_mod)
  then have "64 dvd alloc_end t n" using assms(2) by (simp add: alloc_end_def)
  moreover have "alloc_end t n mod log_sz + 128 < log_sz"
  proof (cases "wraps t n")
    case True
    then have "alloc_end t n mod log_sz = n"
      using assms(3) alloc_start_mod [of t n] mod_add_once [of n log_sz "alloc_start t n"]
      by (auto simp: alloc_end_def alloc_pad_def)
    with assms(3) show ?thesis by simp
  next
    case False
    then have s: "alloc_start t n = t" by (simp add: alloc_start_def)
    show ?thesis
    proof (cases "wraps t (n + 128)")
      case True
      have "(t + (n + alloc_pad t n)) mod log_sz = 0"
        using False True assms(3) mod_add_once [of "n + alloc_pad t n" log_sz t]
        by (auto simp: alloc_pad_def wraps_def)
      then show ?thesis by (simp add: alloc_end_def s add.assoc)
    next
      case F2: False
      then have "(t + n) mod log_sz = t mod log_sz + n"
        using mod_add_once [of n log_sz t] assms(3) by (auto simp: wraps_def)
      with F2 False show ?thesis by (simp add: alloc_end_def s alloc_pad_def wraps_def)
    qed
  qed
  ultimately show ?thesis by (simp add: log_room_def)
qed

lemma unat_alloc_size:
  assumes "unat sz \<le> 130832"
  shows "unat (align_uint_to_cacheline (sz + of_nat sizeof_chs)) = alloc_size (unat sz)"
proof -
  have "unat (sz + of_nat sizeof_chs) = unat sz + 48"
    using assms by (simp add: sizeof_chs_def unat_add_no_wrap)
  with assms show ?thesis by (simp add: unat_align_uint alloc_size_def)
qed

lemma alloc_size_bounds: "sz + 48 \<le> alloc_size sz" "alloc_size sz < sz + 112" "64 dvd alloc_size sz"
  by (auto simp: alloc_size_def)

lemma alloc_size_le: "sz \<le> 130832 \<Longrightarrow> alloc_size sz + 128 < log_sz"
  unfolding alloc_size_def by linarith


section \<open>The headers that an allocation writes\<close>


definition bogus_hdr :: "nat \<Rightarrow> cpy_hdr_struct" where
  "bogus_hdr k = zero_chs\<lparr>chs_obj_hdr := zero_obj_hdr
     \<lparr>padding_size := of_nat k, obj_type := TYPE_BOGUS\<rparr>\<rparr>"

definition fresh_hdr :: "u32 \<Rightarrow> nat \<Rightarrow> cpy_hdr_struct" where
  "fresh_hdr sz k = zero_chs\<lparr>own_wrt_clk := MAX_VERSION, chs_obj_hdr := zero_obj_hdr
     \<lparr>obj_size := sz, padding_size := of_nat k\<rparr>\<rparr>"

lemma ucast_u64_u32_of_nat: "ucast (of_nat k :: u64) = (of_nat k :: u32)"
  by (simp add: word_unat_eq_iff unat_ucast_u64_u32 unat_of_nat mod_mod_cancel)

lemma ucast_u32_u16_of_nat: "ucast (of_nat k :: u32) = (of_nat k :: u16)"
  by (simp add: word_unat_eq_iff unat_ucast_u32_u16 unat_of_nat mod_mod_cancel)

lemma ucast_u32_u64_of_nat: "k < 2 ^ 32 \<Longrightarrow> ucast (of_nat k :: u32) = (of_nat k :: u64)"
  by (simp add: word_unat_eq_iff unat_of_nat)

lemma rest_of_ring: "MVRLU_LOG_SIZE - ucast (log_index t) = of_nat (ring_rest (unat t))"
proof -
  have "ucast (log_index t) \<le> MVRLU_LOG_SIZE"
    by (simp add: word_le_nat_alt less_imp_le)
  then have "unat (MVRLU_LOG_SIZE - ucast (log_index t)) = ring_rest (unat t)"
    by (simp add: unat_sub ring_rest_def)
  moreover have "ring_rest (unat t) < 2 ^ 64" by (simp add: ring_rest_def)
  ultimately show ?thesis by (simp add: word_unat_eq_iff unat_of_nat_u64)
qed

lemma add_extra_padding_spec:
  assumes "unat n + 128 < log_sz" and "0 < unat n" and "unat (tail_cnt l) + log_sz < 2 ^ 64"
    and "\<not> bogus \<Longrightarrow> \<not> wraps (unat (tail_cnt l)) (unat n)"
  shows "add_extra_padding l n (of_nat sizeof_wss) bogus =
    (if bogus then 0 else of_nat (alloc_pad (unat (tail_cnt l)) (unat n)))"
proof (cases bogus)
  case True
  then show ?thesis by (simp add: add_extra_padding_def)
next
  case False
  let ?t = "tail_cnt l"
  have e: "align_uint_to_cacheline (of_nat sizeof_wss + of_nat sizeof_chs) = (128 :: u32)"
    by (simp add: align_uint_to_cacheline_def MVRLU_CACHE_LINE_MASK_def MVRLU_CACHE_LINE_SIZE_def
        sizeof_wss_def sizeof_chs_def)
  have s: "?t + ucast n + ucast (128 :: u32) = ?t + ucast (n + 128)"
    using assms(1,3) by (simp add: word_unat_eq_iff unat_add_no_wrap)
  have "unat (n + 128) = unat n + 128" using assms(1) by (simp add: unat_add_no_wrap)
  then have w: "log_index (?t + ucast (n + 128)) < log_index ?t \<longleftrightarrow>
      wraps (unat ?t) (unat n + 128)"
    using wraps_word [of "n + 128" ?t] assms(1,3) by simp
  have "unat (?t + ucast n) = unat ?t + unat n"
    using assms(1,3) by (simp add: unat_add_no_wrap)
  moreover have "\<not> wraps (unat ?t) (unat n)" using assms(4) False .
  ultimately have i: "unat (?t + ucast n) mod log_sz = unat ?t mod log_sz + unat n"
    using assms(1) mod_add_once [of "unat n" log_sz "unat ?t"] by (auto simp: wraps_def)
  then have r: "ring_rest (unat (?t + ucast n)) = log_sz - (unat ?t mod log_sz + unat n)"
    by (simp add: ring_rest_def)
  show ?thesis
    unfolding add_extra_padding_def Let_def e s w rest_of_ring r ucast_u64_u32_of_nat alloc_pad_def
    using False assms(4) by simp
qed

lemma log_alloc_eq:
  fixes l m sz
  defines "t \<equiv> unat (tail_cnt l)" and "n \<equiv> alloc_size (unat sz)"
  defines "T \<equiv> of_nat (alloc_start t n)"
  assumes sz: "unat sz \<le> 130832" and t: "unat (tail_cnt l) + 2 * log_sz < 2 ^ 64"
  shows "log_alloc l m sz False =
    (log_at l T, wraps t n, l\<lparr>tail_cnt := T\<rparr>,
     upd_chs (log_at l T) (\<lambda>_. fresh_hdr sz (n + alloc_pad t n - unat sz))
      (if wraps t n
       then upd_chs (log_at l (tail_cnt l)) (\<lambda>_. bogus_hdr (ring_rest t)) m else m))"
proof -
  let ?ls = "align_uint_to_cacheline (sz + of_nat sizeof_chs)"
  have ls: "unat ?ls = n" using unat_alloc_size [OF sz] by (simp add: n_def)
  have n: "0 < n" "n + 128 < log_sz" "unat sz + 48 \<le> n"
    using alloc_size_bounds [of "unat sz"] alloc_size_le [OF sz] by (auto simp: n_def)
  have w: "log_index (tail_cnt l + ucast ?ls) < log_index (tail_cnt l) \<longleftrightarrow> wraps t n"
    using wraps_word [of ?ls "tail_cnt l"] ls n t by (simp add: t_def)
  have k: "ucast (of_nat (ring_rest t) :: u32) = (of_nat (ring_rest t) :: u64)"
    by (rule ucast_u32_u64_of_nat) (simp add: ring_rest_def)
  have T: "tail_cnt l + ucast (of_nat (ring_rest t) :: u32) = T" if "wraps t n"
    unfolding k T_def alloc_start_def of_nat_add using that by (simp add: t_def)
  have T0: "T = tail_cnt l" if "\<not> wraps t n"
    using that by (simp add: T_def alloc_start_def t_def)
  have sub: "?ls + of_nat p - sz = of_nat (n + p - unat sz)" if "p < log_sz" for p
  proof -
    have "?ls + of_nat p - sz = of_nat n + of_nat p - of_nat (unat sz)"
      by (simp flip: ls)
    also have "\<dots> = of_nat (n + p - unat sz)" using n by simp
    finally show ?thesis .
  qed
  have p: "alloc_pad t n < log_sz" using n by (auto simp: alloc_pad_def)
  have uT: "unat T = alloc_start t n"
    unfolding T_def using alloc_start_bound [of t n] n t
    by (intro unat_of_nat_u64) (simp add: t_def)
  show ?thesis
  proof (cases "wraps t n")
    case True
    then have "alloc_pad t n = 0" by (simp add: alloc_pad_def)
    with True w T sub [OF p] show ?thesis
      unfolding log_alloc_def Let_def
      by (simp add: rest_of_ring ucast_u64_u32_of_nat ucast_u32_u16_of_nat
          fresh_hdr_def bogus_hdr_def t_def [symmetric] add_extra_padding_def)
  next
    case False
    have "add_extra_padding l ?ls (of_nat sizeof_wss) False = of_nat (alloc_pad t n)"
      using add_extra_padding_spec [of ?ls l False] ls n t False by (simp add: t_def)
    with False w T0 sub [OF p] show ?thesis
      unfolding log_alloc_def Let_def
      by (simp add: ucast_u32_u16_of_nat fresh_hdr_def)
  qed
qed

end
