(* ===== verification/Write_Set.thy ===== *)
theory Write_Set
  imports Mvrlu_Log
begin

text \<open>
  The write set a thread is building: which log entries belong to it, that appending an object
  keeps the entries a gap-free tiling of the log behind the write set header, and that
  \<open>ws_for_each\<close> visits exactly these entries.  The locale \<open>log_walk\<close> is the contract of a
  loop body that leaves the sizes of log entries alone; the loops of commit, abort and
  reclamation are interpretations of it.
\<close>

section \<open>Tilings of the log\<close>

definition entry :: "mvrlu_log \<Rightarrow> nat \<Rightarrow> addr" where
  "entry l e = log_at l (of_nat e)"

definition entry_size :: "mvrlu_log \<Rightarrow> mem \<Rightarrow> nat \<Rightarrow> nat" where
  "entry_size l m e = unat (get_log_size (chs_heap m (entry l e)))"

fun tiles :: "(nat \<Rightarrow> nat) \<Rightarrow> nat \<Rightarrow> nat list \<Rightarrow> nat \<Rightarrow> bool" where
  "tiles sz t [] t' \<longleftrightarrow> t = t'"
| "tiles sz t (e # es) t' \<longleftrightarrow> e = t \<and> 0 < sz e \<and> tiles sz (t + sz e) es t'"

lemma tiles_append: "tiles sz t (xs @ ys) t' \<longleftrightarrow> (\<exists>u. tiles sz t xs u \<and> tiles sz u ys t')"
  by (induction xs arbitrary: t) auto

lemma tiles_le: "tiles sz t es t' \<Longrightarrow> t \<le> t'"
  by (induction es arbitrary: t) fastforce+

lemma tiles_bounds: "tiles sz t es t' \<Longrightarrow> e \<in> set es \<Longrightarrow> t \<le> e \<and> e < t'"
  by (induction es arbitrary: t) (use tiles_le in fastforce)+

lemma tiles_sorted: "tiles sz t es t' \<Longrightarrow> sorted_wrt (<) es"
proof (induction es arbitrary: t)
  case (Cons e es)
  then have t: "tiles sz (t + sz e) es t'" "e = t" "0 < sz e" by auto
  from Cons.IH [OF t(1)] tiles_bounds [OF t(1)] t show ?case by fastforce
qed simp

lemma tiles_cong: "(\<And>e. e \<in> set es \<Longrightarrow> sz e = sz' e) \<Longrightarrow> tiles sz t es t' = tiles sz' t es t'"
  by (induction es arbitrary: t) auto

lemma entry_distinct:
  assumes "e < e'" and "e' < e + log_sz" and "e' < 2 ^ 64"
  shows "entry l e \<noteq> entry l e'"
  using assms mod_window_inj [of e e' log_sz]
  by (auto simp: entry_def log_at_eq_iff unat_of_nat_u64)

lemma tiles_entries_distinct:
  assumes "tiles sz t es t'" and "t' \<le> t + log_sz" and "t' < 2 ^ 64"
  shows "distinct (map (entry l) es)"
proof -
  have "entry l a \<noteq> entry l b" if "a \<in> set es" "b \<in> set es" "a < b" for a b
    using that assms(2,3) tiles_bounds [OF assms(1) that(1)] tiles_bounds [OF assms(1) that(2)]
    by (intro entry_distinct) auto
  then have "inj_on (entry l) (set es)"
    by (intro inj_onI) (metis linorder_neqE_nat)
  moreover have "distinct es"
    using tiles_sorted [OF assms(1)] by (simp add: strict_sorted_iff)
  ultimately show ?thesis by (simp add: distinct_map)
qed

section \<open>Walking a write set\<close>

fun run_body :: "(addr \<Rightarrow> 's \<times> mem \<Rightarrow> ('s \<times> mem) option) \<Rightarrow> addr list \<Rightarrow>
    's \<times> mem \<Rightarrow> ('s \<times> mem) option" where
  "run_body body [] sm = Some sm"
| "run_body body (c # cs) sm =
     (case body c sm of None \<Rightarrow> None | Some sm1 \<Rightarrow> run_body body cs sm1)"

lemma run_body_plain: "run_body (plain_body f) cs sm = Some ((), fold f cs (snd sm))"
  by (induction cs arbitrary: sm) (auto simp: plain_body_def)

text \<open>
  A loop body that is run on the entries in \<open>C\<close> and leaves their sizes alone.
\<close>

locale log_walk =
  fixes body :: "addr \<Rightarrow> 's \<times> mem \<Rightarrow> ('s \<times> mem) option" and C :: "addr set"
  assumes body_size: "body c sm = Some sm' \<Longrightarrow> c \<in> C \<Longrightarrow> d \<in> C \<Longrightarrow>
    get_log_size (chs_heap (snd sm') d) = get_log_size (chs_heap (snd sm) d)"
begin

lemma body_entry_size:
  "body c sm = Some sm' \<Longrightarrow> c \<in> C \<Longrightarrow> entry l e \<in> C \<Longrightarrow> entry_size l (snd sm') e = entry_size l (snd sm) e"
  by (simp add: entry_size_def body_size)

text \<open>The loop runs the body once on every entry, in log order, and ends behind the last.\<close>

lemma ws_for_each_run:
  assumes "tiles (entry_size l (snd sm)) t es t'" and "entry l ` set es \<subseteq> C"
  shows "ws_for_each l body (length es) (of_nat t) sm =
    map_option (Pair (of_nat t')) (run_body body (map (entry l) es) sm)"
  using assms
proof (induction es arbitrary: t sm)
  case Nil
  then show ?case by simp
next
  case (Cons e es)
  from Cons.prems have e: "e = t" "entry l e \<in> C" "entry l ` set es \<subseteq> C"
      and rest: "tiles (entry_size l (snd sm)) (t + entry_size l (snd sm) e) es t'"
    by auto
  show ?case
  proof (cases "body (entry l e) sm")
    case None
    then show ?thesis using e by (simp flip: entry_def)
  next
    case (Some sm1)
    have "ws_iter_next (snd sm1) (of_nat t) (entry l t) = of_nat (t + entry_size l (snd sm) e)"
      using body_size [OF Some e(2) e(2)] e(1)
      unfolding ws_iter_next_def entry_size_def of_nat_add ucast_u32_u64_unat by simp
    moreover have "tiles (entry_size l (snd sm1)) (t + entry_size l (snd sm) e) es t'"
      using rest tiles_cong [of es "entry_size l (snd sm1)" "entry_size l (snd sm)"]
        body_entry_size [OF Some e(2)] e(3) by (simp add: image_subset_iff)
    ultimately show ?thesis
      using Cons.IH [where sm = sm1 and t = "t + entry_size l (snd sm) e"] Some e
      by (simp flip: entry_def)
  qed
qed

end

section \<open>The write set being built\<close>

definition buf_ok :: "mvrlu_log \<Rightarrow> bool" where
  "buf_ok l \<longleftrightarrow> 0 < unat (log_buffer l) \<and> unat (log_buffer l) + log_sz + 48 < 2 ^ 64"

text \<open>
  \<open>ws_inv l m s es\<close>: the current write set of log \<open>l\<close> has its header at counter \<open>s\<close>
  and the entries \<open>es\<close>, which fill the log up to its tail; nothing of it is committed.
\<close>

definition ws_inv :: "mvrlu_log \<Rightarrow> mem \<Rightarrow> nat \<Rightarrow> nat list \<Rightarrow> bool" where
  "ws_inv l m s es \<longleftrightarrow>
     cur_wrt_set l \<noteq> NULL \<and>
     chs_to_obj (entry l s) = cur_wrt_set l \<and>
     start_tail_cnt (ws_heap m (cur_wrt_set l)) = of_nat s \<and>
     cpy_type m (entry l s) = TYPE_WRT_SET \<and>
     0 < entry_size l m s \<and>
     wrt_clk (ws_heap m (cur_wrt_set l)) = MAX_VERSION \<and>
     num_objs (ws_heap m (cur_wrt_set l)) = of_nat (length es) \<and>
     length es < 2 ^ 32 \<and>
     tiles (entry_size l m) (s + entry_size l m s) es (unat (tail_cnt l)) \<and>
     (\<forall>e \<in> set es. cpy_type m (entry l e) = TYPE_BOGUS \<or>
        cpy_type m (entry l e) = TYPE_COPY \<and>
        p_wrt_clk (chs_heap m (entry l e)) = cur_wrt_set l \<and>
        own_wrt_clk (chs_heap m (entry l e)) = MAX_VERSION)"

lemma ws_invD:
  assumes "ws_inv l m s es"
  shows "cur_wrt_set l \<noteq> NULL" and "chs_to_obj (entry l s) = cur_wrt_set l"
    and "obj_to_chs (cur_wrt_set l) = entry l s"
    and "start_tail_cnt (ws_heap m (cur_wrt_set l)) = of_nat s"
    and "unat (num_objs (ws_heap m (cur_wrt_set l))) = length es"
    and "tiles (entry_size l m) (s + entry_size l m s) es (unat (tail_cnt l))"
    and "wrt_clk (ws_heap m (cur_wrt_set l)) = MAX_VERSION"
    and "s < unat (tail_cnt l)"
proof -
  show "unat (num_objs (ws_heap m (cur_wrt_set l))) = length es"
    using assms by (simp add: ws_inv_def unat_of_nat_u32)
  show "obj_to_chs (cur_wrt_set l) = entry l s"
    using assms by (metis ws_inv_def obj_to_chs_to_obj(2))
  show t: "tiles (entry_size l m) (s + entry_size l m s) es (unat (tail_cnt l))"
    using assms by (simp add: ws_inv_def)
  from tiles_le [OF t] assms show "s < unat (tail_cnt l)" by (simp add: ws_inv_def)
qed (use assms in \<open>simp_all add: ws_inv_def\<close>)

text \<open>
  What a walk needs of a write set, open or committed: its header is at counter \<open>s\<close>, its
  entries are \<open>es\<close>, and it ends at counter \<open>t'\<close>.
\<close>

definition ws_shape :: "mvrlu_log \<Rightarrow> mem \<Rightarrow> nat \<Rightarrow> nat list \<Rightarrow> nat \<Rightarrow> bool" where
  "ws_shape l m s es t' \<longleftrightarrow>
     start_tail_cnt (ws_heap m (chs_to_obj (entry l s))) = of_nat s \<and>
     num_objs (ws_heap m (chs_to_obj (entry l s))) = of_nat (length es) \<and>
     length es < 2 ^ 32 \<and>
     tiles (entry_size l m) (s + entry_size l m s) es t'"

lemma ws_inv_shape: "ws_inv l m s es \<Longrightarrow> ws_shape l m s es (unat (tail_cnt l))"
  by (simp add: ws_inv_def ws_shape_def)

lemma ws_shape_cong:
  assumes "ws_shape l m s es t'" and "ws_heap m' (chs_to_obj (entry l s)) = ws_heap m (chs_to_obj (entry l s))"
    and "\<And>e. e \<in> set (s # es) \<Longrightarrow> entry_size l m' e = entry_size l m e"
  shows "ws_shape l m' s es t'"
  using assms tiles_cong [of es "entry_size l m'" "entry_size l m"] by (simp add: ws_shape_def)

lemma ws_iter_begin_eq:
  assumes "ws_shape l m s es t'"
  shows "ws_iter_begin m (chs_to_obj (entry l s)) = of_nat (s + entry_size l m s)"
  using assms
  unfolding ws_iter_begin_def ws_shape_def entry_size_def of_nat_add ucast_u32_u64_unat by simp

context log_walk
begin

lemma ws_for_each_shape:
  assumes "ws_shape l m s es t'" and "entry l ` set es \<subseteq> C"
  shows "ws_for_each l body (unat (num_objs (ws_heap m (chs_to_obj (entry l s)))))
      (ws_iter_begin m (chs_to_obj (entry l s))) (x, m) =
    map_option (Pair (of_nat t')) (run_body body (map (entry l) es) (x, m))"
proof -
  have "tiles (entry_size l (snd (x, m))) (s + entry_size l m s) es t'"
    "unat (num_objs (ws_heap m (chs_to_obj (entry l s)))) = length es"
    using assms(1) by (simp_all add: ws_shape_def unat_of_nat_u32)
  with ws_for_each_run [OF this(1) assms(2)] show ?thesis
    unfolding ws_iter_begin_eq [OF assms(1)] by simp
qed

end

section \<open>Sizes of the entries\<close>

definition copy_hdr :: "addr \<Rightarrow> addr \<Rightarrow> u32 \<Rightarrow> nat \<Rightarrow> cpy_hdr_struct" where
  "copy_hdr ws act sz k = (fresh_hdr sz k)\<lparr>p_wrt_clk := ws, p_act := act,
     chs_obj_hdr := (chs_obj_hdr (fresh_hdr sz k))\<lparr>obj_type := TYPE_COPY\<rparr>\<rparr>"

lemma get_log_size_cong [simp]:
  "get_log_size (h\<lparr>p_wrt_clk := w\<rparr>) = get_log_size h"
  "get_log_size (h\<lparr>p_act := a\<rparr>) = get_log_size h"
  "get_log_size (h\<lparr>own_wrt_clk := x\<rparr>) = get_log_size h"
  "get_log_size (h\<lparr>wrt_clk_next := x\<rparr>) = get_log_size h"
  "get_log_size (h\<lparr>chs_obj_hdr := (chs_obj_hdr h)\<lparr>obj_type := ty\<rparr>\<rparr>) = get_log_size h"
  "get_log_size (h\<lparr>chs_obj_hdr := (chs_obj_hdr h)\<lparr>p_copy := p\<rparr>\<rparr>) = get_log_size h"
  by (simp_all add: get_log_size_def)

lemma unat_get_log_size_fresh:
  assumes "k < 65536" and "unat sz < 131072"
  shows "unat (get_log_size (fresh_hdr sz k)) = unat sz + k"
  using assms by (simp add: get_log_size_def fresh_hdr_def unat_add_no_wrap unat_of_nat)

lemma unat_get_log_size_bogus: "unat (get_log_size (bogus_hdr k)) = k mod 65536"
  by (simp add: get_log_size_def bogus_hdr_def zero_obj_hdr_def unat_of_nat)

lemma get_log_size_copy_hdr [simp]: "get_log_size (copy_hdr ws act sz k) = get_log_size (fresh_hdr sz k)"
  by (simp add: copy_hdr_def get_log_size_def)

lemma copy_hdr_sel [simp]:
  "p_wrt_clk (copy_hdr ws act sz k) = ws" "p_act (copy_hdr ws act sz k) = act"
  "own_wrt_clk (copy_hdr ws act sz k) = MAX_VERSION"
  "obj_type (chs_obj_hdr (copy_hdr ws act sz k)) = TYPE_COPY"
  "obj_size (chs_obj_hdr (copy_hdr ws act sz k)) = sz"
  by (simp_all add: copy_hdr_def fresh_hdr_def)

lemma bogus_hdr_type [simp]: "obj_type (chs_obj_hdr (bogus_hdr k)) = TYPE_BOGUS"
  by (simp add: bogus_hdr_def)

lemma entry_tail: "entry l (unat (tail_cnt l)) = log_at l (tail_cnt l)"
  by (simp add: entry_def)

lemma entry_cong [simp]: "entry (l\<lparr>tail_cnt := t\<rparr>) = entry l" "entry (l\<lparr>cur_wrt_set := w\<rparr>) = entry l"
  by (simp_all add: entry_def fun_eq_iff)

lemma entry_obj_not_NULL:
  assumes "buf_ok l"
  shows "chs_to_obj (entry l e) \<noteq> NULL"
proof -
  have i: "unat (of_nat e :: u64) mod log_sz < log_sz" by simp
  have "unat (entry l e) = unat (log_buffer l) + unat (of_nat e :: u64) mod log_sz"
    unfolding entry_def log_at_def using assms i
    by (subst unat_add_no_wrap) (auto simp: buf_ok_def)
  then have "unat (chs_to_obj (entry l e)) = unat (log_buffer l) + unat (of_nat e :: u64) mod log_sz + 48"
    unfolding chs_to_obj_def using assms i
    by (subst unat_add_no_wrap) (auto simp: buf_ok_def sizeof_chs_def)
  then show ?thesis by auto
qed

section \<open>Opening a write set\<close>

lemma alloc_size_ws: "alloc_size 32 = 128"
  by (simp add: alloc_size_def)

lemma log_room_no_wrap: "log_room t \<Longrightarrow> \<not> wraps t 128"
  by (simp add: log_room_def wraps_def)

lemma log_open_wrt_set_inv:
  assumes room: "log_room (unat (tail_cnt l))" and "buf_ok l"
    and t: "unat (tail_cnt l) + 2 * log_sz < 2 ^ 64"
    and "log_open_wrt_set l m self = (b, l', m')"
  shows "\<not> b" and "ws_inv l' m' (unat (tail_cnt l)) []"
    and "unat (tail_cnt l') = alloc_end (unat (tail_cnt l)) 128"
    and "log_room (unat (tail_cnt l'))"
    and "l' = l\<lparr>tail_cnt := tail_cnt l', cur_wrt_set := cur_wrt_set l'\<rparr>"
    and "ahs_heap m' = ahs_heap m" "obj_heap m' = obj_heap m" "ahs_live m' = ahs_live m"
    and "\<And>c. c \<noteq> entry l (unat (tail_cnt l)) \<Longrightarrow> chs_heap m' c = chs_heap m c"
    and "\<And>w. w \<noteq> cur_wrt_set l' \<Longrightarrow> ws_heap m' w = ws_heap m w"
    and "ws_thread (ws_heap m' (cur_wrt_set l')) = self"
proof -
  let ?t = "unat (tail_cnt l)" and ?c = "log_at l (tail_cnt l)"
  let ?p = "alloc_pad ?t 128"
  have sz: "unat (of_nat sizeof_ws :: u32) = 32" by (simp add: sizeof_ws_def)
  have nw: "\<not> wraps ?t 128" using room by (rule log_room_no_wrap)
  then have st: "alloc_start ?t 128 = ?t" by (simp add: alloc_start_def)
  have p: "?p < log_sz" "?p \<le> 128" using nw by (auto simp: alloc_pad_def wraps_def)
  let ?h = "(fresh_hdr (of_nat sizeof_ws) (128 + ?p - 32))\<lparr>p_wrt_clk := chs_to_obj ?c,
     chs_obj_hdr := (chs_obj_hdr (fresh_hdr (of_nat sizeof_ws) (128 + ?p - 32)))
       \<lparr>obj_type := TYPE_WRT_SET\<rparr>\<rparr>"
  let ?w = "\<lparr>wrt_clk = MAX_VERSION, num_objs = 0, start_tail_cnt = tail_cnt l, ws_thread = self\<rparr>"
  have "get_log_size ?h = get_log_size (fresh_hdr (of_nat sizeof_ws) (128 + ?p - 32))"
    by (simp add: get_log_size_def)
  then have hs: "unat (get_log_size ?h) = 128 + ?p"
    using p unat_get_log_size_fresh [of "128 + ?p - 32" "of_nat sizeof_ws"] sz by simp
  have al: "log_alloc l m (of_nat sizeof_ws) False = (?c, False, l\<lparr>tail_cnt := tail_cnt l\<rparr>,
      upd_chs ?c (\<lambda>_. fresh_hdr (of_nat sizeof_ws) (128 + ?p - 32)) m)"
    using log_alloc_eq [of "of_nat sizeof_ws" l m] t nw st by (simp add: sz alloc_size_ws)
  have eq: "b = False"
    "l' = l\<lparr>cur_wrt_set := chs_to_obj ?c, tail_cnt := tail_cnt l + ucast (get_log_size ?h)\<rparr>"
    "m' = upd_ws (chs_to_obj ?c) (\<lambda>_. ?w) (upd_chs ?c (\<lambda>h. h\<lparr>p_wrt_clk := chs_to_obj ?c,
        chs_obj_hdr := (chs_obj_hdr h)\<lparr>obj_type := TYPE_WRT_SET\<rparr>\<rparr>)
          (upd_chs ?c (\<lambda>_. fresh_hdr (of_nat sizeof_ws) (128 + ?p - 32)) m))"
    using assms(4) by (auto simp: log_open_wrt_set_def al Let_def)
  show tl: "unat (tail_cnt l') = alloc_end ?t 128"
    unfolding eq using hs p t st by (simp add: unat_add_no_wrap alloc_end_def)
  show "log_room (unat (tail_cnt l'))"
    unfolding tl using room by (intro alloc_end_room) (auto simp: log_room_def)
  show "\<not> b" by (simp add: eq)
  have e: "entry l' ?t = ?c" by (simp add: eq entry_tail)
  have es: "entry_size l' m' ?t = 128 + ?p"
    using hs e by (simp add: entry_size_def eq)
  show "ws_inv l' m' ?t []"
    unfolding ws_inv_def
    using entry_obj_not_NULL [OF assms(2), of ?t] e es tl st
    by (simp add: eq entry_tail cpy_type_def alloc_end_def)
  show "l' = l\<lparr>tail_cnt := tail_cnt l', cur_wrt_set := cur_wrt_set l'\<rparr>" by (simp add: eq)
  show "ahs_heap m' = ahs_heap m" "obj_heap m' = obj_heap m" "ahs_live m' = ahs_live m"
    by (simp_all add: eq)
  show "\<And>c. c \<noteq> entry l ?t \<Longrightarrow> chs_heap m' c = chs_heap m c"
    by (simp add: eq entry_tail)
  show "\<And>w. w \<noteq> cur_wrt_set l' \<Longrightarrow> ws_heap m' w = ws_heap m w"
    "ws_thread (ws_heap m' (cur_wrt_set l')) = self"
    by (simp_all add: eq)
qed

section \<open>Appending an object\<close>

definition append_entries :: "nat \<Rightarrow> nat \<Rightarrow> nat list" where
  "append_entries t n = (if wraps t n then [t] else []) @ [alloc_start t n]"

lemma log_append_begin_eq:
  fixes l m sz
  defines "t \<equiv> unat (tail_cnt l)" and "n \<equiv> alloc_size (unat sz)"
  defines "T \<equiv> alloc_start t n"
  assumes cur: "cur_wrt_set l \<noteq> NULL"
    and sz: "unat sz \<le> 130832" and t: "unat (tail_cnt l) + 2 * log_sz < 2 ^ 64"
  shows "log_append_begin l m self act sz =
    (entry l T, wraps t n, l\<lparr>tail_cnt := of_nat T\<rparr>,
     upd_chs (entry l T) (\<lambda>_. copy_hdr (cur_wrt_set l) act sz (n + alloc_pad t n - unat sz))
      (if wraps t n then upd_chs (entry l t) (\<lambda>_. bogus_hdr (ring_rest t)) m else m))"
proof -
  have "entry l T = log_at l (of_nat T)" "entry l t = log_at l (tail_cnt l)"
    by (simp_all add: entry_def t_def)
  then show ?thesis
    unfolding log_append_begin_def
    using log_alloc_eq [OF sz t, of m] cur
    by (simp add: t_def [symmetric] n_def [symmetric] T_def [symmetric] copy_hdr_def upd_chs_def)
qed


lemma append_entries_tiles:
  assumes "sz (alloc_start t n) = n + alloc_pad t n" and "0 < n"
    and "wraps t n \<Longrightarrow> sz t = ring_rest t"
  shows "tiles sz t (append_entries t n) (alloc_end t n)"
  using assms by (auto simp: append_entries_def alloc_end_def alloc_start_def ring_rest_def)

text \<open>
  Appending an object to an open write set, up to the end of \<open>log_append_end\<close>.  Between the
  two calls neither \<open>_mvrlu_try_lock\<close> nor another thread changes the entries of this log or
  its write set.  The bound on the
  size keeps the filler entry in the 16 bits of \<open>padding_size\<close>; the last premises say that
  the write set does not run into its own beginning.
\<close>

lemma log_append_inv:
  fixes l m sz
  defines "t \<equiv> unat (tail_cnt l)" and "n \<equiv> alloc_size (unat sz)"
  assumes inv: "ws_inv l m s es" and room: "log_room (unat (tail_cnt l))"
    and sz: "unat sz \<le> 65424" and tb: "unat (tail_cnt l) + 2 * log_sz < 2 ^ 64"
    and win: "alloc_end t n \<le> s + log_sz" and len: "length es + 2 < 2 ^ 32"
    and beg: "log_append_begin l m self act sz = (c, b, l1, m1)"
    and same: "\<And>e. e \<in> set (s # es @ append_entries t n) \<Longrightarrow> chs_heap m2 (entry l e) = chs_heap m1 (entry l e)"
      "ws_heap m2 (cur_wrt_set l) = ws_heap m1 (cur_wrt_set l)"
    and app: "log_append_end l1 m2 c b = (l3, m3)"
  shows "ws_inv l3 m3 s (es @ append_entries t n)"
    and "unat (tail_cnt l3) = alloc_end t n" and "log_room (unat (tail_cnt l3))"
    and "l3 = l\<lparr>tail_cnt := tail_cnt l3\<rparr>" and "c = entry l (alloc_start t n)"
    and "b = wraps t n"
    and "chs_heap m3 c = copy_hdr (cur_wrt_set l) act sz (n + alloc_pad t n - unat sz)"
    and "\<And>e. e = s \<or> e \<in> set es \<Longrightarrow> chs_heap m1 (entry l e) = chs_heap m (entry l e)"
    and "chs_heap m3 = chs_heap m2"
    and "\<And>w. w \<noteq> cur_wrt_set l \<Longrightarrow> ws_heap m3 w = ws_heap m2 w"
proof -
  let ?T = "alloc_start t n" and ?p = "alloc_pad t n" and ?ws = "cur_wrt_set l"
  have n: "0 < n" "n < 65536" "n + 128 < log_sz" "unat sz + 48 \<le> n" "64 dvd n" "n < unat sz + 112"
    using alloc_size_bounds [of "unat sz"] sz
    by (auto simp: n_def alloc_size_def)
  note D = ws_invD [OF inv]
  have eq: "c = entry l ?T" "b = wraps t n" "l1 = l\<lparr>tail_cnt := of_nat ?T\<rparr>"
    "m1 = upd_chs (entry l ?T) (\<lambda>_. copy_hdr ?ws act sz (n + ?p - unat sz))
      (if wraps t n then upd_chs (entry l t) (\<lambda>_. bogus_hdr (ring_rest t)) m else m)"
    using beg log_append_begin_eq [OF D(1) _ tb, of sz m self act] sz
    by (auto simp: t_def [symmetric] n_def [symmetric])
  have p: "?p \<le> 128" by (auto simp: alloc_pad_def wraps_def)
  have T: "t \<le> ?T" "?T + n \<le> alloc_end t n" "alloc_end t n = ?T + n + ?p"
    by (auto simp: alloc_end_def alloc_start_def)
  have st: "s < t" using D(8) by (simp add: t_def)
  have Tb: "alloc_end t n < 2 ^ 64" using alloc_end_bound(2) [of t n] n tb by (simp add: t_def)
  have uT: "unat (of_nat ?T :: u64) = ?T" using T Tb by (intro unat_of_nat_u64) simp
  have rr: "ring_rest t < 65536" if "wraps t n" using that n by (auto simp: ring_rest_def wraps_def)
  have tT: "t < ?T" if "wraps t n" using that by (simp add: alloc_start_def ring_rest_def)
  have dTt: "entry l t \<noteq> entry l ?T" if "wraps t n"
    using tT [OF that] alloc_start_bound [of t n] n T Tb by (intro entry_distinct) auto
  have gT: "unat (get_log_size (chs_heap m1 (entry l ?T))) = n + ?p"
    using n p unat_get_log_size_fresh [of "n + ?p - unat sz" sz] by (simp add: eq)
  have l3: "l3 = l\<lparr>tail_cnt := of_nat ?T + ucast (get_log_size (chs_heap m1 (entry l ?T)))\<rparr>"
    using app same(1) [of ?T] by (auto simp: log_append_end_def Let_def eq append_entries_def)
  show tl: "unat (tail_cnt l3) = alloc_end t n"
    unfolding l3 using gT uT T Tb by (simp add: unat_add_no_wrap)
  show "log_room (unat (tail_cnt l3))"
    unfolding tl using room n by (intro alloc_end_room) (auto simp: log_room_def t_def)
  show "l3 = l\<lparr>tail_cnt := tail_cnt l3\<rparr>" by (simp add: l3)
  show "c = entry l ?T" "b = wraps t n" by (simp_all add: eq)
  have ch: "chs_heap m3 = chs_heap m2" and wh: "ws_heap m3 = (ws_heap m2)(?ws := (ws_heap m2 ?ws)
      \<lparr>num_objs := num_objs (ws_heap m2 ?ws) + of_nat (length (append_entries t n))\<rparr>)"
    using app by (auto simp: log_append_end_def Let_def eq append_entries_def)
  have ws2: "ws_heap m2 ?ws = ws_heap m ?ws" using same(2) by (simp add: eq)
  have new1: "chs_heap m3 (entry l e) = chs_heap m1 (entry l e)" if "e \<in> set (append_entries t n)" for e
    using same(1) that by (simp add: ch)
  show "chs_heap m3 c = copy_hdr ?ws act sz (n + ?p - unat sz)"
    using new1 [of ?T] by (simp add: eq append_entries_def)
  show "chs_heap m3 = chs_heap m2" by (rule ch)
  show "\<And>w. w \<noteq> ?ws \<Longrightarrow> ws_heap m3 w = ws_heap m2 w" by (simp add: wh)
  have new: "entry l e \<noteq> entry l e'"
    if "e = s \<or> e \<in> set es" "e' \<in> set (append_entries t n)" for e e'
  proof -
    have "s \<le> e" "e < t"
      using that(1) st tiles_bounds [OF D(6), of e] by (auto simp: t_def)
    moreover have "t \<le> e'" "e' \<le> ?T"
      using that(2) T by (auto simp: append_entries_def split: if_splits)
    ultimately show ?thesis using win T n Tb by (intro entry_distinct) auto
  qed
  show old1: "chs_heap m1 (entry l e) = chs_heap m (entry l e)" if "e = s \<or> e \<in> set es" for e
    using new [OF that] by (auto simp: eq append_entries_def split: if_splits)
  have old: "chs_heap m3 (entry l e) = chs_heap m (entry l e)" if "e = s \<or> e \<in> set es" for e
    using old1 [OF that] same(1) [of e] that by (auto simp: ch)
  have old_size: "entry_size l3 m3 e = entry_size l m e" if "e = s \<or> e \<in> set es" for e
    using old [OF that] by (simp add: entry_size_def l3)
  have old_type: "cpy_type m3 (entry l e) = cpy_type m (entry l e)" if "e = s \<or> e \<in> set es" for e
    using old [OF that] by (simp add: cpy_type_def)
  have e3: "entry l3 = entry l" by (simp add: l3)
  have "tiles (entry_size l3 m3) t (append_entries t n) (alloc_end t n)"
  proof (rule append_entries_tiles)
    show "entry_size l3 m3 ?T = n + ?p"
      using gT new1 [of ?T] by (simp add: entry_size_def e3 append_entries_def)
    show "wraps t n \<Longrightarrow> entry_size l3 m3 t = ring_rest t"
      using dTt rr new1 [of t] by (simp add: entry_size_def e3 append_entries_def eq unat_get_log_size_bogus)
  qed (rule n)
  moreover have "tiles (entry_size l3 m3) (s + entry_size l3 m3 s) es t"
    using D(6) tiles_cong [of es "entry_size l3 m3" "entry_size l m"] old_size
    by (simp add: t_def)
  ultimately have tiling: "tiles (entry_size l3 m3) (s + entry_size l3 m3 s)
      (es @ append_entries t n) (unat (tail_cnt l3))"
    unfolding tl tiles_append by blast
  have types: "cpy_type m3 (entry l e) = TYPE_BOGUS \<or> cpy_type m3 (entry l e) = TYPE_COPY \<and>
      p_wrt_clk (chs_heap m3 (entry l e)) = ?ws \<and> own_wrt_clk (chs_heap m3 (entry l e)) = MAX_VERSION"
    if "e \<in> set (es @ append_entries t n)" for e
  proof (cases "e \<in> set es")
    case True
    with inv old old_type show ?thesis by (auto simp: ws_inv_def)
  next
    case False
    with that have "e \<in> set (append_entries t n)" by simp
    with new1 [OF this] show ?thesis
      using dTt by (auto simp: append_entries_def cpy_type_def eq split: if_splits)
  qed
  show "ws_inv l3 m3 s (es @ append_entries t n)"
    unfolding ws_inv_def e3
  proof (intro conjI)
    show "num_objs (ws_heap m3 (cur_wrt_set l3)) = of_nat (length (es @ append_entries t n))"
      using inv by (simp add: wh ws2 l3 ws_inv_def)
    show "length (es @ append_entries t n) < 2 ^ 32"
      using len by (simp add: append_entries_def)
    show "\<forall>e \<in> set (es @ append_entries t n). cpy_type m3 (entry l e) = TYPE_BOGUS \<or>
        cpy_type m3 (entry l e) = TYPE_COPY \<and>
        p_wrt_clk (chs_heap m3 (entry l e)) = cur_wrt_set l3 \<and>
        own_wrt_clk (chs_heap m3 (entry l e)) = MAX_VERSION"
      using types by (simp add: l3)
  qed (use inv tiling old_size [of s] old_type [of s] in \<open>simp_all add: ws_inv_def wh ws2 l3\<close>)
qed

end
