(* ===== verification/Mvrlu_Commit.thy ===== *)
theory Mvrlu_Commit
  imports Write_Set
begin

text \<open>
  Committing and aborting a write set (\<open>ws_move_lock_to_copy\<close>, \<open>ws_unlock\<close>,
  \<open>log_commit\<close>, \<open>log_abort\<close> of \<open>kernel/mvrlu/mvrlu.c\<close>).

  While a thread commits, other threads may detach the newest copy of an object it has locked
  (log reclamation).  \<open>env c k\<close> is what they do just before the \<open>k\<close>-th compare-and-swap for
  the copy with header \<open>c\<close>; \<open>keeps\<close> is the rely condition under which the commit is shown to
  finish and to publish the write set.
\<close>

section \<open>Operations\<close>

definition ahs_of :: "mem \<Rightarrow> addr \<Rightarrow> addr" where
  "ahs_of m c = obj_to_ahs (p_act (chs_heap m c))"

definition init_link :: "addr \<Rightarrow> addr \<Rightarrow> mem \<Rightarrow> mem" where
  "init_link c p_old_copy m =
     upd_chs c (\<lambda>h. h\<lparr>wrt_clk_next :=
         (if p_old_copy = NULL then MIN_VERSION else get_wrt_clk m (obj_to_chs p_old_copy)),
       chs_obj_hdr := (chs_obj_hdr h)\<lparr>p_copy := p_old_copy\<rparr>\<rparr>) m"

partial_function (option) link_copy ::
    "(nat \<Rightarrow> mem \<Rightarrow> mem) \<Rightarrow> nat \<Rightarrow> addr \<Rightarrow> addr \<Rightarrow> addr \<Rightarrow> mem \<Rightarrow> mem option" where
  "link_copy env k c ahs p_old_copy m =
     (let (swapped, m1) = cas_p_copy ahs p_old_copy (chs_to_obj c) (env k (init_link c p_old_copy m))
      in if swapped then Some m1
         else link_copy env (Suc k) c ahs (act_p_copy m1 ahs) m1)"

definition ws_move_obj :: "(addr \<Rightarrow> nat \<Rightarrow> mem \<Rightarrow> mem) \<Rightarrow> addr list \<Rightarrow> addr \<Rightarrow>
    u32 \<times> mem \<Rightarrow> (u32 \<times> mem) option" where
  "ws_move_obj env fps c sm =
     (let num_free = fst sm; m = snd sm; ahs = ahs_of m c
      in if cpy_type m c = TYPE_BOGUS then Some (num_free, m)
         else if num_free > 0 \<and> fp_is_free fps ahs
           then Some (num_free - 1, set_cpy_type c TYPE_FREE m)
         else if cpy_obj_size m c = 0 then Some (num_free, m)
         else map_option (Pair num_free) (link_copy (env c) 0 c ahs (act_p_copy m ahs) m))"

definition ws_move_lock_to_copy ::
    "(addr \<Rightarrow> nat \<Rightarrow> mem \<Rightarrow> mem) \<Rightarrow> mvrlu_log \<Rightarrow> addr list \<Rightarrow> mem \<Rightarrow> mem option" where
  "ws_move_lock_to_copy env l fps m =
     map_option (\<lambda>(cnt, num_free, m'). m')
       (ws_for_each l (ws_move_obj env fps) (unat (num_objs (ws_heap m (cur_wrt_set l))))
          (ws_iter_begin m (cur_wrt_set l)) (of_nat (length fps), m))"

definition ws_unlock_obj :: "u64 \<Rightarrow> addr \<Rightarrow> mem \<Rightarrow> mem" where
  "ws_unlock_obj clk c m =
     (if cpy_type m c = TYPE_BOGUS then m
      else let m1 = (if clk \<noteq> MAX_VERSION then upd_chs c (\<lambda>h. h\<lparr>own_wrt_clk := clk\<rparr>) m else m)
           in if cpy_type m1 c = TYPE_COPY then set_p_lock (ahs_of m1 c) NULL m1 else m1)"

definition ws_unlock :: "mvrlu_log \<Rightarrow> mem \<Rightarrow> mem option" where
  "ws_unlock l m =
     (let ws = cur_wrt_set l; clk = wrt_clk (ws_heap m ws)
      in map_option (\<lambda>(cnt, u, m'). m')
           (ws_for_each l (plain_body (ws_unlock_obj clk)) (unat (num_objs (ws_heap m ws)))
              (ws_iter_begin m ws) ((), m)))"

text \<open>\<open>advance_clock\<close> is empty in the ORDO configuration.\<close>

definition log_commit :: "(nat \<Rightarrow> u64) \<Rightarrow> (addr \<Rightarrow> nat \<Rightarrow> mem \<Rightarrow> mem) \<Rightarrow> mvrlu_log \<Rightarrow> addr list \<Rightarrow>
    u64 \<Rightarrow> nat \<Rightarrow> mem \<Rightarrow> (mvrlu_log \<times> addr list \<times> nat \<times> mem) option" where
  "log_commit tsc env l fps lclk n m =
     (case ws_move_lock_to_copy env l fps m of
        None \<Rightarrow> None
      | Some m1 \<Rightarrow>
          (case new_clock tsc n lclk of
             None \<Rightarrow> None
           | Some (clk, n1) \<Rightarrow>
               map_option (\<lambda>m3. (l\<lparr>cur_wrt_set := NULL\<rparr>, fp_reset fps, n1, m3))
                 (ws_unlock l (upd_ws (cur_wrt_set l) (\<lambda>w. w\<lparr>wrt_clk := clk\<rparr>) m1))))"

definition log_abort :: "mvrlu_log \<Rightarrow> addr list \<Rightarrow> mem \<Rightarrow> (mvrlu_log \<times> addr list \<times> mem) option" where
  "log_abort l fps m =
     map_option (\<lambda>m1. (l\<lparr>tail_cnt := start_tail_cnt (ws_heap m1 (cur_wrt_set l)),
                         cur_wrt_set := NULL\<rparr>, fp_reset fps, m1))
       (ws_unlock l m)"

section \<open>What the other threads may do during a commit\<close>

definition keeps :: "addr set \<Rightarrow> addr \<Rightarrow> addr set \<Rightarrow> mem \<Rightarrow> mem \<Rightarrow> bool" where
  "keeps own ws C m m' \<longleftrightarrow>
     ws_heap m' ws = ws_heap m ws \<and> chs_heap m' (obj_to_chs ws) = chs_heap m (obj_to_chs ws) \<and>
     (\<forall>c \<in> C. chs_heap m' c = chs_heap m c \<and>
       (cpy_type m c \<noteq> TYPE_BOGUS \<longrightarrow>
          (let a = ahs_of m c; p = act_p_copy m a
           in act_p_lock m' a = act_p_lock m a \<and>
              (act_p_copy m' a = p \<and> get_wrt_clk m' (obj_to_chs p) = get_wrt_clk m (obj_to_chs p) \<or>
               act_p_copy m' a = NULL \<and> p \<notin> chs_to_obj ` own))))"

lemma keeps_refl: "keeps own ws C m m"
  by (simp add: keeps_def Let_def)

lemma keeps_mono: "keeps own ws C m m' \<Longrightarrow> C' \<subseteq> C \<Longrightarrow> keeps own ws C' m m'"
  by (auto simp: keeps_def)

lemma keeps_chs: "keeps own ws C m m' \<Longrightarrow> c \<in> C \<Longrightarrow> chs_heap m' c = chs_heap m c"
  by (simp add: keeps_def)

lemma keeps_ws:
  assumes "keeps own ws C m m'"
  shows "ws_heap m' ws = ws_heap m ws" and "chs_heap m' (obj_to_chs ws) = chs_heap m (obj_to_chs ws)"
  using assms by (simp_all add: keeps_def)

lemma keeps_act:
  assumes "keeps own ws C m m'" and "c \<in> C" and "cpy_type m c \<noteq> TYPE_BOGUS"
  shows "act_p_lock m' (ahs_of m c) = act_p_lock m (ahs_of m c)"
    and "act_p_copy m' (ahs_of m c) = act_p_copy m (ahs_of m c) \<and>
       get_wrt_clk m' (obj_to_chs (act_p_copy m (ahs_of m c))) =
         get_wrt_clk m (obj_to_chs (act_p_copy m (ahs_of m c))) \<or>
     act_p_copy m' (ahs_of m c) = NULL \<and> act_p_copy m (ahs_of m c) \<notin> chs_to_obj ` own"
  using assms by (auto simp: keeps_def Let_def)

lemma keeps_trans:
  assumes "keeps own ws C m m'" and "keeps own ws C m' m''" and null: "NULL \<notin> chs_to_obj ` own"
  shows "keeps own ws C m m''"
  unfolding keeps_def
proof (intro conjI ballI impI)
  show "ws_heap m'' ws = ws_heap m ws" "chs_heap m'' (obj_to_chs ws) = chs_heap m (obj_to_chs ws)"
    using assms by (simp_all add: keeps_def)
next
  fix c assume c: "c \<in> C"
  have h: "chs_heap m' c = chs_heap m c" "chs_heap m'' c = chs_heap m' c"
    using keeps_chs [OF assms(1) c] keeps_chs [OF assms(2) c] by auto
  then show "chs_heap m'' c = chs_heap m c" by simp
  assume b: "cpy_type m c \<noteq> TYPE_BOGUS"
  then have b': "cpy_type m' c \<noteq> TYPE_BOGUS" and a: "ahs_of m' c = ahs_of m c"
    using h by (auto simp: cpy_type_def ahs_of_def)
  show "let a = ahs_of m c; p = act_p_copy m a
    in act_p_lock m'' a = act_p_lock m a \<and>
       (act_p_copy m'' a = p \<and> get_wrt_clk m'' (obj_to_chs p) = get_wrt_clk m (obj_to_chs p) \<or>
        act_p_copy m'' a = NULL \<and> p \<notin> chs_to_obj ` own)"
    using keeps_act [OF assms(1) c b] keeps_act [OF assms(2) c b', unfolded a] null
    unfolding Let_def by auto
qed

text \<open>Every entry of the write set that is not filler holds the lock of its object.\<close>

definition owns :: "addr set \<Rightarrow> mem \<Rightarrow> bool" where
  "owns C m \<longleftrightarrow> (\<forall>c \<in> C. cpy_type m c \<noteq> TYPE_BOGUS \<longrightarrow> act_p_lock m (ahs_of m c) = chs_to_obj c)"

lemma owns_inj:
  assumes "owns C m" and "c \<in> C" "cpy_type m c \<noteq> TYPE_BOGUS" and "d \<in> C" "cpy_type m d \<noteq> TYPE_BOGUS"
    and "ahs_of m c = ahs_of m d"
  shows "c = d"
  using assms by (metis owns_def chs_to_obj_inj)

lemma owns_keeps: "owns C m \<Longrightarrow> keeps own ws C m m' \<Longrightarrow> owns C m'"
  by (auto simp: owns_def keeps_def Let_def cpy_type_def ahs_of_def)

lemma owns_mono: "owns C m \<Longrightarrow> D \<subseteq> C \<Longrightarrow> owns D m"
  by (auto simp: owns_def)

section \<open>Linking one copy\<close>

definition linked_hdr :: "mem \<Rightarrow> addr \<Rightarrow> addr \<Rightarrow> cpy_hdr_struct" where
  "linked_hdr m c q = (chs_heap m c)\<lparr>wrt_clk_next :=
       (if q = NULL then MIN_VERSION else get_wrt_clk m (obj_to_chs q)),
     chs_obj_hdr := (chs_obj_hdr (chs_heap m c))\<lparr>p_copy := q\<rparr>\<rparr>"

lemma linked_hdr_sel [simp]:
  "p_act (linked_hdr m c q) = p_act (chs_heap m c)"
  "obj_type (chs_obj_hdr (linked_hdr m c q)) = obj_type (chs_obj_hdr (chs_heap m c))"
  "own_wrt_clk (linked_hdr m c q) = own_wrt_clk (chs_heap m c)"
  "p_wrt_clk (linked_hdr m c q) = p_wrt_clk (chs_heap m c)"
  "p_copy (chs_obj_hdr (linked_hdr m c q)) = q"
  "get_log_size (linked_hdr m c q) = get_log_size (chs_heap m c)"
  by (simp_all add: linked_hdr_def get_log_size_def)

lemma init_link_sel [simp]:
  "chs_heap (init_link c q m) = (chs_heap m)(c := linked_hdr m c q)"
  "ws_heap (init_link c q m) = ws_heap m"
  "act_p_lock (init_link c q m) = act_p_lock m" "act_p_copy (init_link c q m) = act_p_copy m"
  by (simp_all add: init_link_def linked_hdr_def)

lemma get_wrt_clk_init_link [simp]: "get_wrt_clk (init_link c q m) d = get_wrt_clk m d"
  by (simp add: get_wrt_clk_def Let_def)

lemma get_wrt_clk_set_act_p_copy [simp]: "get_wrt_clk (set_act_p_copy a v m) d = get_wrt_clk m d"
  by (simp add: get_wrt_clk_def Let_def)

lemma linked_hdr_init_link:
  "get_wrt_clk m' (obj_to_chs q) = get_wrt_clk m (obj_to_chs q) \<or> q = NULL \<Longrightarrow>
   chs_heap m' c = linked_hdr m c p \<Longrightarrow> linked_hdr m' c q = linked_hdr m c q"
  by (auto simp: linked_hdr_def)

lemma keeps_init_link: "c \<notin> C \<Longrightarrow> c \<noteq> obj_to_chs ws \<Longrightarrow> keeps own ws C m (init_link c q m)"
  by (auto simp: keeps_def Let_def)

lemma keeps_set_act_p_copy:
  "(\<And>d. d \<in> C \<Longrightarrow> cpy_type m d \<noteq> TYPE_BOGUS \<Longrightarrow> ahs_of m d \<noteq> a) \<Longrightarrow>
   keeps own ws C m (set_act_p_copy a v m)"
  by (auto simp: keeps_def Let_def)

text \<open>
  The environment during one compare-and-swap keeps all entries of the write set.  The loop then
  needs at most two attempts: the chain head can only change by being detached.
\<close>

lemma link_copy_links:
  assumes env: "\<And>k m. keeps own ws own m (env k m)" and own: "owns own m"
    and c: "c \<in> own" "cpy_type m c \<noteq> TYPE_BOGUS" and null: "NULL \<notin> chs_to_obj ` own"
    and hd: "obj_to_chs ws \<notin> own" and fresh: "act_p_copy m (ahs_of m c) \<notin> chs_to_obj ` own"
  shows "\<exists>m' q. link_copy env k c (ahs_of m c) (act_p_copy m (ahs_of m c)) m = Some m' \<and>
      q \<in> {act_p_copy m (ahs_of m c), NULL} \<and> chs_heap m' c = linked_hdr m c q \<and>
      act_p_copy m' (ahs_of m c) = chs_to_obj c \<and> act_p_lock m' (ahs_of m c) = chs_to_obj c \<and>
      keeps own ws (own - {c}) m m'"
proof -
  let ?a = "ahs_of m c" and ?p = "act_p_copy m (ahs_of m c)"
  let ?C = "own - {c}"
  have lock: "act_p_lock m ?a = chs_to_obj c" using own c by (simp add: owns_def)
  have others: "ahs_of m d \<noteq> ?a" if "d \<in> ?C" "cpy_type m d \<noteq> TYPE_BOGUS" for d
    using owns_inj [OF own c, of d] that by auto
  define m1 where "m1 = env k (init_link c ?p m)"
  have k1: "keeps own ws own (init_link c ?p m) m1" by (simp add: m1_def env)
  have K1: "keeps own ws ?C m m1"
    by (rule keeps_trans [OF keeps_init_link keeps_mono [OF k1]]) (use null c hd in auto)
  have a1: "ahs_of (init_link c ?p m) c = ?a" "cpy_type (init_link c ?p m) c \<noteq> TYPE_BOGUS"
    using c(2) by (simp_all add: ahs_of_def cpy_type_def)
  have h1: "chs_heap m1 c = linked_hdr m c ?p" using keeps_chs [OF k1 c(1)] by simp
  have l1: "act_p_lock m1 ?a = chs_to_obj c"
    using keeps_act(1) [OF k1 c(1) a1(2)] lock by (simp add: a1(1))
  have keep: "keeps own ws ?C m (set_act_p_copy ?a v m')" if "keeps own ws ?C m m'" for v m'
  proof (rule keeps_trans [OF that keeps_set_act_p_copy null])
    fix d assume "d \<in> ?C" "cpy_type m' d \<noteq> TYPE_BOGUS"
    with keeps_chs [OF that, of d] others [of d] show "ahs_of m' d \<noteq> ?a"
      by (simp add: cpy_type_def ahs_of_def)
  qed
  have p1: "act_p_copy m1 ?a = ?p \<or> act_p_copy m1 ?a = NULL"
    using keeps_act(2) [OF k1 c(1) a1(2)] by (auto simp: a1(1))
  show ?thesis
  proof (cases "act_p_copy m1 ?a = ?p")
    case True
    then have "link_copy env k c ?a ?p m = Some (set_act_p_copy ?a (chs_to_obj c) m1)"
      by (subst link_copy.simps) (simp add: cas_p_copy_def m1_def)
    then show ?thesis using h1 l1 keep [OF K1] by auto
  next
    case False
    with p1 have 2: "act_p_copy m1 ?a = NULL" "act_p_copy m1 ?a \<noteq> ?p" by auto
    define m2 where "m2 = env (Suc k) (init_link c NULL m1)"
    have k2: "keeps own ws own (init_link c NULL m1) m2" by (simp add: m2_def env)
    have K2: "keeps own ws ?C m m2"
      by (rule keeps_trans [OF K1 keeps_trans [OF keeps_init_link keeps_mono [OF k2]]])
        (use null c hd in auto)
    have a2: "ahs_of (init_link c NULL m1) c = ?a" "cpy_type (init_link c NULL m1) c \<noteq> TYPE_BOGUS"
      using c(2) by (simp_all add: ahs_of_def cpy_type_def h1)
    have h2: "chs_heap m2 c = linked_hdr m c NULL"
      using keeps_chs [OF k2 c(1)] linked_hdr_init_link [OF _ h1] by simp
    have l2: "act_p_lock m2 ?a = chs_to_obj c"
      using keeps_act(1) [OF k2 c(1) a2(2)] l1 by (simp add: a2(1))
    have "act_p_copy m2 ?a = NULL"
      using keeps_act(2) [OF k2 c(1) a2(2)] 2 by (auto simp: a2(1))
    then have "link_copy env k c ?a ?p m = Some (set_act_p_copy ?a (chs_to_obj c) m2)"
      using 2 by (subst link_copy.simps, subst link_copy.simps)
        (simp add: cas_p_copy_def m1_def [symmetric] m2_def)
    then show ?thesis using h2 l2 keep [OF K2] by auto
  qed
qed

section \<open>Moving the whole write set\<close>

definition moved :: "addr list \<Rightarrow> mem \<Rightarrow> mem \<Rightarrow> addr \<Rightarrow> bool" where
  "moved fps m m' c \<longleftrightarrow>
     (let a = ahs_of m c
      in if cpy_type m c = TYPE_BOGUS then chs_heap m' c = chs_heap m c
         else act_p_lock m' a = chs_to_obj c \<and>
           (if fp_is_free fps a then
              chs_heap m' c = (chs_heap m c)\<lparr>chs_obj_hdr :=
                (chs_obj_hdr (chs_heap m c))\<lparr>obj_type := TYPE_FREE\<rparr>\<rparr> \<and>
              act_p_copy m' a \<in> {act_p_copy m a, NULL}
            else if cpy_obj_size m c = 0 then
              chs_heap m' c = chs_heap m c \<and> act_p_copy m' a \<in> {act_p_copy m a, NULL}
            else act_p_copy m' a = chs_to_obj c \<and>
              (\<exists>q \<in> {act_p_copy m a, NULL}. chs_heap m' c = linked_hdr m c q)))"

lemma moved_p_act:
  assumes "moved fps m m' c"
  shows "p_act (chs_heap m' c) = p_act (chs_heap m c)"
    and "get_log_size (chs_heap m' c) = get_log_size (chs_heap m c)"
    and "own_wrt_clk (chs_heap m' c) = own_wrt_clk (chs_heap m c)"
    and "p_wrt_clk (chs_heap m' c) = p_wrt_clk (chs_heap m c)"
    and "cpy_type m' c = TYPE_BOGUS \<longleftrightarrow> cpy_type m c = TYPE_BOGUS"
  using assms by (auto simp: moved_def Let_def cpy_type_def split: if_splits)

lemma moved_later:
  assumes "moved fps m0 m c" and "keeps own ws {c} m m'" and "c \<in> own"
  shows "moved fps m0 m' c"
proof -
  have h: "chs_heap m' c = chs_heap m c" using keeps_chs [OF assms(2)] by simp
  show ?thesis
  proof (cases "cpy_type m0 c = TYPE_BOGUS")
    case True
    with assms(1) h show ?thesis by (simp add: moved_def)
  next
    case False
    then have b: "cpy_type m c \<noteq> TYPE_BOGUS" and a: "ahs_of m c = ahs_of m0 c"
      using moved_p_act [OF assms(1)] by (auto simp: ahs_of_def)
    show ?thesis
      using assms(1,3) keeps_act [OF assms(2) _ b, unfolded a] h False
      by (auto simp: moved_def Let_def split: if_splits)
  qed
qed

lemma moved_earlier:
  assumes "keeps own ws {c} m0 m" and "moved fps m m' c"
  shows "moved fps m0 m' c"
proof -
  have h: "chs_heap m c = chs_heap m0 c" using keeps_chs [OF assms(1)] by simp
  then have e: "ahs_of m c = ahs_of m0 c" "cpy_type m c = cpy_type m0 c"
    "cpy_obj_size m c = cpy_obj_size m0 c" by (auto simp: ahs_of_def cpy_type_def cpy_obj_size_def)
  show ?thesis
  proof (cases "cpy_type m0 c = TYPE_BOGUS")
    case True
    with assms(2) h e show ?thesis by (simp add: moved_def)
  next
    case False
    note k = keeps_act(2) [OF assms(1) _ False, simplified]
    have "linked_hdr m c q = linked_hdr m0 c q" if "q \<in> {act_p_copy m (ahs_of m0 c), NULL}" for q
      using k that h by (auto simp: linked_hdr_def)
    moreover have "{act_p_copy m (ahs_of m0 c), NULL} \<subseteq> {act_p_copy m0 (ahs_of m0 c), NULL}"
      using k by auto
    ultimately show ?thesis
      using assms(2) e h False unfolding moved_def Let_def
      by (auto split: if_splits) 
  qed
qed

lemma keeps_set_cpy_type:
  "c \<notin> C \<Longrightarrow> c \<noteq> obj_to_chs ws \<Longrightarrow> keeps own ws C m (set_cpy_type c v m)"
  by (auto simp: keeps_def Let_def get_wrt_clk_def set_cpy_type_def)

lemma owns_moved:
  assumes "owns own m" and "keeps own ws (own - {c}) m m'" and "moved fps m m' c" and "c \<in> own"
  shows "owns own m'"
proof -
  have "owns (own - {c}) m'"
    using owns_keeps [OF owns_mono [OF assms(1)] assms(2)] by simp
  moreover have "cpy_type m' c \<noteq> TYPE_BOGUS \<longrightarrow> act_p_lock m' (ahs_of m' c) = chs_to_obj c"
    using assms(3) moved_p_act(1,5) [OF assms(3)] by (auto simp: moved_def Let_def ahs_of_def)
  ultimately show ?thesis by (auto simp: owns_def)
qed

definition is_freed :: "addr list \<Rightarrow> mem \<Rightarrow> addr \<Rightarrow> bool" where
  "is_freed fps m c \<longleftrightarrow> cpy_type m c \<noteq> TYPE_BOGUS \<and> fp_is_free fps (ahs_of m c)"

lemma ws_move_obj_step:
  assumes env: "\<And>k m. keeps own ws own m (env c k m)" and own: "owns own m"
    and c: "c \<in> own" and null: "NULL \<notin> chs_to_obj ` own"
    and hd: "obj_to_chs ws \<notin> own" and fresh: "cpy_type m c \<noteq> TYPE_BOGUS \<Longrightarrow> act_p_copy m (ahs_of m c) \<notin> chs_to_obj ` own"
    and nf: "is_freed fps m c \<Longrightarrow> nf > 0"
  shows "\<exists>m'. ws_move_obj env fps c (nf, m) = Some (if is_freed fps m c then nf - 1 else nf, m') \<and>
      keeps own ws (own - {c}) m m' \<and> moved fps m m' c"
proof -
  have lock: "cpy_type m c \<noteq> TYPE_BOGUS \<Longrightarrow> act_p_lock m (ahs_of m c) = chs_to_obj c"
    using own c by (simp add: owns_def)
  have "c \<noteq> obj_to_chs ws" using c hd by auto
  then have free: "keeps own ws (own - {c}) m (set_cpy_type c TYPE_FREE m)"
    by (intro keeps_set_cpy_type) auto
  consider (bogus) "cpy_type m c = TYPE_BOGUS" | (freed) "is_freed fps m c"
    | (const) "cpy_type m c \<noteq> TYPE_BOGUS" "\<not> is_freed fps m c" "cpy_obj_size m c = 0"
    | (link) "cpy_type m c \<noteq> TYPE_BOGUS" "\<not> is_freed fps m c" "cpy_obj_size m c \<noteq> 0"
    by (auto simp: is_freed_def)
  then show ?thesis
  proof cases
    case link
    obtain m' q where "link_copy (env c) 0 c (ahs_of m c) (act_p_copy m (ahs_of m c)) m = Some m'"
      "q \<in> {act_p_copy m (ahs_of m c), NULL}" "chs_heap m' c = linked_hdr m c q"
      "act_p_copy m' (ahs_of m c) = chs_to_obj c" "act_p_lock m' (ahs_of m c) = chs_to_obj c"
      "keeps own ws (own - {c}) m m'"
      using link_copy_links [where env = "env c" and k = 0, OF env own c link(1) null hd fresh [OF link(1)]]
      by blast
    with link show ?thesis
      by (auto simp: ws_move_obj_def Let_def is_freed_def moved_def)
  next
    case freed
    then show ?thesis
      using nf lock free by (auto simp: ws_move_obj_def Let_def is_freed_def moved_def)
        (simp_all add: set_cpy_type_def)
  qed (use lock in \<open>auto simp: ws_move_obj_def Let_def is_freed_def moved_def keeps_refl\<close>)
qed

lemma run_ws_move:
  assumes env: "\<And>c k m. keeps own ws own m (env c k m)" and null: "NULL \<notin> chs_to_obj ` own"
    and hd: "obj_to_chs ws \<notin> own"
    and "distinct cs" and "set cs \<subseteq> own" and "owns own m"
    and "\<And>c. c \<in> set cs \<Longrightarrow> cpy_type m c \<noteq> TYPE_BOGUS \<Longrightarrow>
      act_p_copy m (ahs_of m c) \<notin> chs_to_obj ` own"
    and "length (filter (is_freed fps m) cs) \<le> unat nf"
  shows "\<exists>nf' m'. run_body (ws_move_obj env fps) cs (nf, m) = Some (nf', m') \<and>
    keeps own ws (own - set cs) m m' \<and> (\<forall>c \<in> set cs. moved fps m m' c) \<and> owns own m'"
  using assms(4-)
proof (induction cs arbitrary: nf m)
  case Nil
  then show ?case by (auto simp: keeps_refl)
next
  case (Cons c cs)
  have c: "c \<in> own" "c \<notin> set cs" "distinct cs" "set cs \<subseteq> own" using Cons.prems by auto
  have pos: "is_freed fps m c \<Longrightarrow> nf > 0"
    using Cons.prems(5) by (auto simp: word_less_unat)
  obtain m1 where 1: "ws_move_obj env fps c (nf, m) = Some (if is_freed fps m c then nf - 1 else nf, m1)"
      and k1: "keeps own ws (own - {c}) m m1" and mv: "moved fps m m1 c"
    using ws_move_obj_step [where env = env and fps = fps and c = c,
        OF env Cons.prems(3) c(1) null hd Cons.prems(4) pos] by auto
  let ?nf = "if is_freed fps m c then nf - 1 else nf"
  have same: "chs_heap m1 d = chs_heap m d" if "d \<in> set cs" for d
    using keeps_chs [OF k1, of d] that c by auto
  have fresh: "act_p_copy m1 (ahs_of m1 d) \<notin> chs_to_obj ` own"
    if "d \<in> set cs" "cpy_type m1 d \<noteq> TYPE_BOGUS" for d
  proof -
    have d: "d \<in> own - {c}" "cpy_type m d \<noteq> TYPE_BOGUS" "ahs_of m1 d = ahs_of m d"
      using that c same [OF that(1)] by (auto simp: cpy_type_def ahs_of_def)
    show ?thesis
      using keeps_act(2) [OF k1 d(1,2)] Cons.prems(4) [of d] that d null by auto
  qed
  have "filter (is_freed fps m1) cs = filter (is_freed fps m) cs"
    by (rule filter_cong) (auto simp: same is_freed_def cpy_type_def ahs_of_def)
  then have "length (filter (is_freed fps m1) cs) \<le> unat ?nf"
    using Cons.prems(5) pos by (auto simp: unat_minus_one word_gt_0)
  from Cons.IH [OF c(3,4) owns_moved [OF Cons.prems(3) k1 mv c(1)] fresh this]
  obtain nf2 m2 where 2: "run_body (ws_move_obj env fps) cs (?nf, m1) = Some (nf2, m2)"
      "keeps own ws (own - set cs) m1 m2" "\<forall>c \<in> set cs. moved fps m1 m2 c" "owns own m2"
    by blast
  have "keeps own ws (own - set (c # cs)) m m2"
    by (rule keeps_trans [OF keeps_mono [OF k1] keeps_mono [OF 2(2)] null]) auto
  moreover have "moved fps m m2 d" if "d \<in> set (c # cs)" for d
  proof (cases "d = c")
    case True
    then show ?thesis using moved_later [OF mv keeps_mono [OF 2(2)]] c by auto
  next
    case False
    with that c have d: "d \<in> set cs" "{d} \<subseteq> own - {c}" by auto
    with 2(3) show ?thesis using moved_earlier [OF keeps_mono [OF k1 d(2)]] by blast
  qed
  ultimately show ?case using 1 2 by auto
qed


lemma link_copy_sizes:
  assumes ret: "link_copy env k c a p m = Some r"
    and env: "\<And>k m d. d \<in> C \<Longrightarrow> get_log_size (chs_heap (env k m) d) = get_log_size (chs_heap m d)"
    and d: "d \<in> C"
  shows "get_log_size (chs_heap r d) = get_log_size (chs_heap m d)"
proof -
  have init: "get_log_size (chs_heap (init_link c p m) d) = get_log_size (chs_heap m d)" for p m
    by simp
  have "(\<forall>k m. get_log_size (chs_heap (env k m) d) = get_log_size (chs_heap m d)) \<longrightarrow>
     get_log_size (chs_heap r d) = get_log_size (chs_heap m d)"
  proof (rule link_copy.raw_induct [where P = "\<lambda>env k c a p m r.
      (\<forall>k m. get_log_size (chs_heap (env k m) d) = get_log_size (chs_heap m d)) \<longrightarrow>
      get_log_size (chs_heap r d) = get_log_size (chs_heap m d)", OF _ ret])
    fix f :: "(nat \<Rightarrow> mem \<Rightarrow> mem) \<Rightarrow> nat \<Rightarrow> addr \<Rightarrow> addr \<Rightarrow> addr \<Rightarrow> mem \<Rightarrow> mem option"
      and env k c a p m r
    assume IH: "\<And>env k c a p m r. f env k c a p m = Some r \<Longrightarrow>
        (\<forall>k m. get_log_size (chs_heap (env k m) d) = get_log_size (chs_heap m d)) \<longrightarrow>
        get_log_size (chs_heap r d) = get_log_size (chs_heap m d)"
      and r: "(let (swapped, m1) = cas_p_copy a p (chs_to_obj c) (env k (init_link c p m))
        in if swapped then Some m1 else f env (Suc k) c a (act_p_copy m1 a) m1) = Some r"
    show "(\<forall>k m. get_log_size (chs_heap (env k m) d) = get_log_size (chs_heap m d)) \<longrightarrow>
        get_log_size (chs_heap r d) = get_log_size (chs_heap m d)"
      using r IH by (auto simp: cas_p_copy_def Let_def split: if_splits)
  qed
  with env d show ?thesis by blast
qed

lemma ws_move_obj_walk:
  assumes env: "\<And>c k m d. d \<in> C \<Longrightarrow> get_log_size (chs_heap (env c k m) d) = get_log_size (chs_heap m d)"
  shows "log_walk (ws_move_obj env fps) C"
proof
  fix c sm sm' d
  assume "ws_move_obj env fps c sm = Some sm'" "d \<in> C"
  then show "get_log_size (chs_heap (snd sm') d) = get_log_size (chs_heap (snd sm) d)"
    using link_copy_sizes [where env = "env c" and C = C, OF _ env]
    by (auto simp: ws_move_obj_def Let_def set_cpy_type_def split: if_splits)
qed

lemma ws_unlock_obj_size: "get_log_size (chs_heap (ws_unlock_obj clk c m) d) = get_log_size (chs_heap m d)"
  by (simp add: ws_unlock_obj_def Let_def)

interpretation unlock_walk: log_walk "plain_body (ws_unlock_obj clk)" UNIV for clk
  by unfold_locales (auto simp: plain_body_def ws_unlock_obj_size)

text \<open>
  What a thread can rely on when it commits: its entries hold the locks of their objects, no
  entry is linked yet, and the pointers recorded by \<open>mvrlu_free\<close> fit their 32-bit counter.
\<close>

definition commit_ready :: "mvrlu_log \<Rightarrow> mem \<Rightarrow> nat \<Rightarrow> nat list \<Rightarrow> addr list \<Rightarrow> bool" where
  "commit_ready l m s es fps \<longleftrightarrow>
     ws_inv l m s es \<and> buf_ok l \<and> unat (tail_cnt l) \<le> s + log_sz \<and>
     owns (entry l ` set es) m \<and> length fps < 2 ^ 32 \<and>
     (\<forall>c \<in> entry l ` set es. cpy_type m c \<noteq> TYPE_BOGUS \<longrightarrow>
        act_p_copy m (ahs_of m c) \<notin> chs_to_obj ` entry l ` set es)"

lemma commit_ready_distinct:
  assumes "commit_ready l m s es fps"
  shows "distinct (map (entry l) es)" and "entry l s \<notin> entry l ` set es"
proof -
  have inv: "ws_inv l m s es" and w: "unat (tail_cnt l) \<le> s + log_sz"
    using assms by (auto simp: commit_ready_def)
  note D = ws_invD [OF inv]
  show "distinct (map (entry l) es)"
    using w by (intro tiles_entries_distinct [OF D(6)]) auto
  show "entry l s \<notin> entry l ` set es"
  proof
    assume "entry l s \<in> entry l ` set es"
    then obtain e where e: "e \<in> set es" "entry l s = entry l e" by auto
    have "0 < entry_size l m s" using inv by (simp add: ws_inv_def)
    then have "s < e" "e < s + log_sz" using tiles_bounds [OF D(6) e(1)] w by auto
    moreover have "e < 2 ^ 64"
      using less_trans [OF conjunct2 [OF tiles_bounds [OF D(6) e(1)]] unat_u64_lt] by simp
    ultimately show False using entry_distinct [of s e] e(2) by simp
  qed
qed

lemma count_freed:
  assumes "owns (set cs) m" and "distinct cs"
  shows "length (filter (is_freed fps m) cs) \<le> length fps"
proof -
  let ?F = "set (filter (is_freed fps m) cs)"
  have "inj_on (\<lambda>c. ahs_to_obj (ahs_of m c)) ?F"
  proof (rule inj_onI)
    fix c d assume "c \<in> ?F" "d \<in> ?F" "ahs_to_obj (ahs_of m c) = ahs_to_obj (ahs_of m d)"
    then show "c = d"
      using owns_inj [OF assms(1), of c d] by (auto simp: is_freed_def ahs_to_obj_def)
  qed
  moreover have "(\<lambda>c. ahs_to_obj (ahs_of m c)) ` ?F \<subseteq> set fps"
    by (auto simp: is_freed_def fp_is_free_def)
  ultimately have "card ?F \<le> card (set fps)" by (metis card_inj_on_le List.finite_set)
  then show ?thesis
    using card_length [of fps] distinct_card [of "filter (is_freed fps m) cs"] assms(2)
    by (simp del: set_filter)
qed

text \<open>
  Under any interference that respects the locks the loop terminates, and afterwards every entry
  is moved: freed objects are marked, the copies of the others head their version chains.
\<close>

lemma ws_move_lock_to_copy_moves:
  assumes r: "commit_ready l m s es fps"
    and env: "\<And>c k m. keeps (entry l ` set es) (cur_wrt_set l) (entry l ` set es) m (env c k m)"
  shows "\<exists>m'. ws_move_lock_to_copy env l fps m = Some m' \<and>
    (\<forall>e \<in> set es. moved fps m m' (entry l e)) \<and> owns (entry l ` set es) m' \<and>
    ws_heap m' (cur_wrt_set l) = ws_heap m (cur_wrt_set l) \<and>
    chs_heap m' (entry l s) = chs_heap m (entry l s)"
proof -
  let ?own = "entry l ` set es" and ?nf = "of_nat (length fps) :: u32"
  have inv: "ws_inv l m s es" and own: "owns ?own m" and b: "buf_ok l"
    using r by (auto simp: commit_ready_def)
  have null: "NULL \<notin> chs_to_obj ` ?own" using entry_obj_not_NULL [OF b] by force
  have "length (filter (is_freed fps m) (map (entry l) es)) \<le> length fps"
    using own commit_ready_distinct(1) [OF r] by (intro count_freed) auto
  also have "length fps = unat ?nf"
    using r by (simp add: commit_ready_def unat_of_nat_u32)
  finally have cnt: "length (filter (is_freed fps m) (map (entry l) es)) \<le> unat ?nf" .
  have fresh: "c \<in> set (map (entry l) es) \<Longrightarrow> cpy_type m c \<noteq> TYPE_BOGUS \<Longrightarrow>
      act_p_copy m (ahs_of m c) \<notin> chs_to_obj ` ?own" for c
    using r unfolding commit_ready_def by auto
  have hd: "obj_to_chs (cur_wrt_set l) \<notin> ?own"
    using commit_ready_distinct(2) [OF r] ws_invD(3) [OF inv] by simp
  have "set (map (entry l) es) \<subseteq> ?own" by simp
  from run_ws_move [where env = env, OF env null hd commit_ready_distinct(1) [OF r] this own fresh cnt]
  obtain nf m' where run: "run_body (ws_move_obj env fps) (map (entry l) es) (?nf, m) = Some (nf, m')"
      and k: "keeps ?own (cur_wrt_set l) (?own - ?own) m m'"
      and mv: "\<forall>c \<in> ?own. moved fps m m' c" "owns ?own m'"
    by auto
  have "log_walk (ws_move_obj env fps) ?own"
    using keeps_chs [OF env] by (intro ws_move_obj_walk) simp
  from log_walk.ws_for_each_shape [OF this ws_inv_shape [OF inv], of ?nf] run
  have "ws_move_lock_to_copy env l fps m = Some m'"
    by (simp add: ws_move_lock_to_copy_def ws_invD(2) [OF inv])
  with mv keeps_ws [OF k] ws_invD(3) [OF inv] show ?thesis by auto
qed

section \<open>Unlocking a write set\<close>

definition unlocks :: "addr set \<Rightarrow> mem \<Rightarrow> addr \<Rightarrow> bool" where
  "unlocks C m a \<longleftrightarrow> (\<exists>c \<in> C. cpy_type m c = TYPE_COPY \<and> ahs_of m c = a)"

lemma ws_unlock_obj_sel [simp]:
  "act_p_copy (ws_unlock_obj clk c m) = act_p_copy m" "ws_heap (ws_unlock_obj clk c m) = ws_heap m"
  "obj_heap (ws_unlock_obj clk c m) = obj_heap m" "ahs_live (ws_unlock_obj clk c m) = ahs_live m"
  "chs_heap (ws_unlock_obj clk c m) d =
     (if d = c \<and> cpy_type m c \<noteq> TYPE_BOGUS \<and> clk \<noteq> MAX_VERSION
      then (chs_heap m d)\<lparr>own_wrt_clk := clk\<rparr> else chs_heap m d)"
  "act_p_lock (ws_unlock_obj clk c m) a =
     (if cpy_type m c = TYPE_COPY \<and> ahs_of m c = a then NULL else act_p_lock m a)"
  by (auto simp: ws_unlock_obj_def Let_def cpy_type_def ahs_of_def)

lemma ws_unlock_obj_type [simp]:
  "cpy_type (ws_unlock_obj clk c m) d = cpy_type m d" "ahs_of (ws_unlock_obj clk c m) d = ahs_of m d"
  by (simp_all add: cpy_type_def ahs_of_def)

lemma fold_unlock:
  defines "unl clk cs \<equiv> fold (ws_unlock_obj clk) cs"
  shows "act_p_copy (unl clk cs m) = act_p_copy m" "ws_heap (unl clk cs m) = ws_heap m"
    "obj_heap (unl clk cs m) = obj_heap m" "ahs_live (unl clk cs m) = ahs_live m"
    "chs_heap (unl clk cs m) d =
       (if d \<in> set cs \<and> cpy_type m d \<noteq> TYPE_BOGUS \<and> clk \<noteq> MAX_VERSION
        then (chs_heap m d)\<lparr>own_wrt_clk := clk\<rparr> else chs_heap m d)"
    "act_p_lock (unl clk cs m) a = (if unlocks (set cs) m a then NULL else act_p_lock m a)"
  unfolding unl_def
  by (induction cs arbitrary: m) (auto simp: unlocks_def cpy_type_def split: if_splits)

lemma ws_unlock_shape:
  assumes "ws_shape l m s es t'" and "cur_wrt_set l = chs_to_obj (entry l s)"
  shows "ws_unlock l m =
    Some (fold (ws_unlock_obj (wrt_clk (ws_heap m (cur_wrt_set l)))) (map (entry l) es) m)"
  using unlock_walk.ws_for_each_shape [OF assms(1), of "wrt_clk (ws_heap m (cur_wrt_set l))" "()"] assms(2)
  by (simp add: ws_unlock_def Let_def run_body_plain)

section \<open>Commit\<close>

definition committed :: "addr list \<Rightarrow> u64 \<Rightarrow> mem \<Rightarrow> mem \<Rightarrow> addr \<Rightarrow> bool" where
  "committed fps clk m m' c \<longleftrightarrow>
     (let a = ahs_of m c; p = act_p_copy m a
      in get_wrt_clk m' c = clk \<and>
         (if fp_is_free fps a then cpy_type m' c = TYPE_FREE \<and> act_p_lock m' a = chs_to_obj c
          else cpy_type m' c = TYPE_COPY \<and> act_p_lock m' a = NULL \<and>
            (if cpy_obj_size m c = 0 then act_p_copy m' a \<in> {p, NULL}
             else act_p_copy m' a = chs_to_obj c \<and>
               (cpy_p_copy m' c = NULL \<and> wrt_clk_next (chs_heap m' c) = MIN_VERSION \<or>
                cpy_p_copy m' c = p \<and> p \<noteq> NULL \<and>
                  wrt_clk_next (chs_heap m' c) = get_wrt_clk m (obj_to_chs p)))))"

lemma moved_committed:
  fixes l es clk m1
  defines "m2 \<equiv> upd_ws (cur_wrt_set l) (\<lambda>w. w\<lparr>wrt_clk := clk\<rparr>) m1"
  defines "m' \<equiv> fold (ws_unlock_obj clk) (map (entry l) es) m2"
  assumes mv: "\<forall>e \<in> set es. moved fps m m1 (entry l e)" and own: "owns (entry l ` set es) m1"
    and clk: "clk \<noteq> MAX_VERSION" and e: "e \<in> set es"
    and ty: "cpy_type m (entry l e) = TYPE_COPY"
  shows "committed fps clk m m' (entry l e)"
proof -
  let ?c = "entry l e"
  have m2: "chs_heap m2 = chs_heap m1" "act_p_lock m2 = act_p_lock m1" "act_p_copy m2 = act_p_copy m1"
    by (simp_all add: m2_def)
  have t2: "cpy_type m2 = cpy_type m1" "ahs_of m2 = ahs_of m1"
    by (simp_all add: cpy_type_def ahs_of_def m2 fun_eq_iff)
  note mc = bspec [OF mv e]
  have nb: "cpy_type m1 ?c \<noteq> TYPE_BOGUS" and a: "ahs_of m1 ?c = ahs_of m ?c"
    using moved_p_act(1,5) [OF mc] ty by (auto simp: ahs_of_def)
  have ch: "chs_heap m' ?c = (chs_heap m1 ?c)\<lparr>own_wrt_clk := clk\<rparr>"
    using e clk nb by (simp add: m'_def fold_unlock t2 m2)
  have lk: "act_p_lock m' (ahs_of m ?c) =
      (if cpy_type m1 ?c = TYPE_COPY then NULL else act_p_lock m1 (ahs_of m ?c))"
    using owns_inj [OF own _ _ _ nb] e a
    by (fastforce simp: m'_def fold_unlock t2 m2 unlocks_def)
  have pc: "act_p_copy m' = act_p_copy m1" by (simp add: m'_def fold_unlock m2)
  show ?thesis
    using mc ty lk clk
    by (auto simp: committed_def moved_def Let_def get_wrt_clk_def ch pc cpy_type_def cpy_p_copy_def
        linked_hdr_def split: if_splits)
qed

lemma log_commit_eq:
  assumes r: "commit_ready l m s es fps"
    and env: "\<And>c k m. keeps (entry l ` set es) (cur_wrt_set l) (entry l ` set es) m (env c k m)"
    and clk: "new_clock tsc n lclk = Some (clk, n1)"
  obtains m1 where "ws_move_lock_to_copy env l fps m = Some m1"
    and "\<forall>e \<in> set es. moved fps m m1 (entry l e)" and "owns (entry l ` set es) m1"
    and "log_commit tsc env l fps lclk n m = Some (l\<lparr>cur_wrt_set := NULL\<rparr>, [], n1,
      fold (ws_unlock_obj clk) (map (entry l) es) (upd_ws (cur_wrt_set l) (\<lambda>w. w\<lparr>wrt_clk := clk\<rparr>) m1))"
proof -
  obtain m1 where 1: "ws_move_lock_to_copy env l fps m = Some m1"
      "\<forall>e \<in> set es. moved fps m m1 (entry l e)" "owns (entry l ` set es) m1"
      "ws_heap m1 (cur_wrt_set l) = ws_heap m (cur_wrt_set l)"
      "chs_heap m1 (entry l s) = chs_heap m (entry l s)"
    using ws_move_lock_to_copy_moves [where env = env, OF r env] by blast
  let ?m2 = "upd_ws (cur_wrt_set l) (\<lambda>w. w\<lparr>wrt_clk := clk\<rparr>) m1"
  have inv: "ws_inv l m s es" using r by (simp add: commit_ready_def)
  have sz: "entry_size l m1 e = entry_size l m e" if "e \<in> set (s # es)" for e
    using that moved_p_act(2) [OF bspec [OF 1(2)]] 1(5) by (auto simp: entry_size_def)
  have "ws_shape l m1 s es (unat (tail_cnt l))"
    using ws_shape_cong [OF ws_inv_shape [OF inv]] 1(4) sz by (simp add: ws_invD(2) [OF inv])
  then have "ws_shape l ?m2 s es (unat (tail_cnt l))"
    by (simp add: ws_shape_def entry_size_def [abs_def] ws_invD(2) [OF inv])
  from ws_unlock_shape [OF this] have "ws_unlock l ?m2 =
      Some (fold (ws_unlock_obj clk) (map (entry l) es) ?m2)"
    by (simp add: ws_invD(2) [OF inv])
  then have "log_commit tsc env l fps lclk n m = Some (l\<lparr>cur_wrt_set := NULL\<rparr>, [], n1,
      fold (ws_unlock_obj clk) (map (entry l) es) ?m2)"
    using 1(1) clk by (simp add: log_commit_def fp_reset_def)
  with 1(1-3) show thesis by (rule that)
qed

text \<open>
  The whole of \<open>log_commit\<close>: it returns, and afterwards every object of the write set carries
  the one new write clock; freed objects stay locked, all others are unlocked with the new copy
  first in the version chain.
\<close>

lemma log_commit_commits:
  assumes r: "commit_ready l m s es fps"
    and env: "\<And>c k m. keeps (entry l ` set es) (cur_wrt_set l) (entry l ` set es) m (env c k m)"
    and clk: "new_clock tsc n lclk = Some (clk, n1)" and ok: "clk \<noteq> MAX_VERSION"
  shows "\<exists>m'. log_commit tsc env l fps lclk n m = Some (l\<lparr>cur_wrt_set := NULL\<rparr>, [], n1, m') \<and>
    wrt_clk (ws_heap m' (cur_wrt_set l)) = clk \<and>
    (\<forall>e \<in> set es. cpy_type m (entry l e) = TYPE_COPY \<longrightarrow> committed fps clk m m' (entry l e))"
proof -
  obtain m1 where 1: "\<forall>e \<in> set es. moved fps m m1 (entry l e)" "owns (entry l ` set es) m1"
      "log_commit tsc env l fps lclk n m = Some (l\<lparr>cur_wrt_set := NULL\<rparr>, [], n1,
        fold (ws_unlock_obj clk) (map (entry l) es) (upd_ws (cur_wrt_set l) (\<lambda>w. w\<lparr>wrt_clk := clk\<rparr>) m1))"
    using log_commit_eq [where env = env, OF r env clk] by blast
  show ?thesis
    using 1(3) moved_committed [OF 1(1,2) ok] by (auto simp: fold_unlock)
qed

section \<open>Abort\<close>

text \<open>
  \<open>log_abort\<close> gives back every lock of the write set and its log space and leaves all else as
  it is.  The tail may be behind the last entry (an append that failed after its filler entry).
\<close>

lemma log_abort_rolls_back:
  assumes "ws_shape l m s es t'" and "cur_wrt_set l = chs_to_obj (entry l s)"
    and "wrt_clk (ws_heap m (cur_wrt_set l)) = MAX_VERSION"
  shows "\<exists>m'. log_abort l fps m =
      Some (l\<lparr>tail_cnt := of_nat s, cur_wrt_set := NULL\<rparr>, [], m') \<and>
    (\<forall>a. act_p_lock m' a = (if unlocks (entry l ` set es) m a then NULL else act_p_lock m a)) \<and>
    act_p_copy m' = act_p_copy m \<and> chs_heap m' = chs_heap m \<and> ws_heap m' = ws_heap m \<and>
    obj_heap m' = obj_heap m \<and> ahs_live m' = ahs_live m"
proof -
  have "start_tail_cnt (ws_heap m (cur_wrt_set l)) = of_nat s"
    using assms by (simp add: ws_shape_def)
  then show ?thesis
    using ws_unlock_shape [OF assms(1,2)] assms(3)
    by (auto simp: log_abort_def fold_unlock fp_reset_def fun_eq_iff)
qed

end
