(* ===== verification/Mvrlu_Deref.thy ===== *)
theory Mvrlu_Deref
  imports Mvrlu_Object
begin

text \<open>
  Dereferencing (\<open>mvrlu_deref\<close>, \<open>mvrlu_cmp_ptrs\<close>, \<open>_mvrlu_assign_pointer\<close> of
  \<open>kernel/mvrlu/mvrlu.c\<close>): which version of an object a critical section reads.  A version
  chain is the Isabelle list of the copies behind an actual object, newest first.
\<close>

section \<open>Operations\<close>

partial_function (option) deref_walk ::
    "mem \<Rightarrow> u64 \<Rightarrow> u64 \<Rightarrow> addr \<Rightarrow> addr \<Rightarrow> addr option" where
  "deref_walk m lclk qp2 act copy =
     (let c = obj_to_chs copy
      in if lte_clock (get_wrt_clk m c) lclk then Some copy
         else if lte_clock (wrt_clk_next (chs_heap m c)) qp2 then Some act
         else let next = cpy_p_copy m c
              in if next \<noteq> NULL then deref_walk m lclk qp2 act next else Some act)"

definition mvrlu_deref :: "log_allocator \<Rightarrow> mem \<Rightarrow> mvrlu_thread_struct \<Rightarrow> addr \<Rightarrow>
    (addr \<times> mvrlu_thread_struct) option" where
  "mvrlu_deref la m self obj =
     (if obj = NULL then Some (NULL, self)
      else let act = get_act_obj la m obj;
               self1 = self\<lparr>num_act_obj := num_act_obj self + 1\<rparr>;
               copy = act_p_copy m (obj_to_ahs act)
           in if copy \<noteq> NULL then
                let self2 = self1\<lparr>num_deref := num_deref self1 + 1\<rparr>
                in map_option (\<lambda>p. (p, self2))
                     (deref_walk m (local_clk self) (qp_clk2 (thr_log self)) act copy)
              else Some (act, self1))"

definition mvrlu_cmp_ptrs :: "log_allocator \<Rightarrow> mem \<Rightarrow> addr \<Rightarrow> addr \<Rightarrow> bool" where
  "mvrlu_cmp_ptrs la m obj1 obj2 =
     (let p1 = (if obj1 \<noteq> NULL then get_act_obj la m obj1 else obj1);
          p2 = (if obj2 \<noteq> NULL then get_act_obj la m obj2 else obj2)
      in p1 = p2)"

text \<open>The value that \<open>_mvrlu_assign_pointer\<close> stores.\<close>

definition assign_pointer_val :: "log_allocator \<Rightarrow> mem \<Rightarrow> addr \<Rightarrow> addr" where
  "assign_pointer_val la m obj = (if obj \<noteq> NULL then get_act_obj la m obj else obj)"

section \<open>Version chains\<close>

fun vchain :: "mem \<Rightarrow> addr \<Rightarrow> addr list \<Rightarrow> bool" where
  "vchain m p [] \<longleftrightarrow> p = NULL"
| "vchain m p (q # qs) \<longleftrightarrow> p = q \<and> q \<noteq> NULL \<and> vchain m (cpy_p_copy m (obj_to_chs q)) qs"

definition copy_clk :: "mem \<Rightarrow> addr \<Rightarrow> u64" where
  "copy_clk m q = get_wrt_clk m (obj_to_chs q)"

text \<open>
  The copies a walk looks at: it stops behind a copy whose successor is older than
  \<open>qp_clk2\<close> (the actual object then holds the successor's value).
\<close>

fun live_versions :: "mem \<Rightarrow> u64 \<Rightarrow> addr list \<Rightarrow> addr list" where
  "live_versions m qp2 [] = []"
| "live_versions m qp2 (q # qs) =
     (if lte_clock (wrt_clk_next (chs_heap m (obj_to_chs q))) qp2 then [q]
      else q # live_versions m qp2 qs)"

lemma vchain_unique: "vchain m p qs \<Longrightarrow> vchain m p qs' \<Longrightarrow> qs = qs'"
proof (induction qs arbitrary: p qs')
  case (Cons q qs)
  then show ?case by (cases qs') auto
qed (metis vchain.simps neq_Nil_conv)

lemma vchain_cong:
  "(\<And>q. q \<in> set qs \<Longrightarrow> cpy_p_copy m' (obj_to_chs q) = cpy_p_copy m (obj_to_chs q)) \<Longrightarrow>
   vchain m' p qs = vchain m p qs"
  by (induction qs arbitrary: p) auto

text \<open>The walk terminates on a chain and returns the first live version the snapshot sees.\<close>

lemma deref_walk_chain:
  assumes "vchain m p qs" and "p \<noteq> NULL"
  shows "deref_walk m lclk qp2 act p =
    Some (case find (\<lambda>q. lte_clock (copy_clk m q) lclk) (live_versions m qp2 qs) of
            Some q \<Rightarrow> q | None \<Rightarrow> act)"
  using assms
proof (induction qs arbitrary: p)
  case Nil
  then show ?case by simp
next
  case (Cons q qs)
  then have q: "p = q" "vchain m (cpy_p_copy m (obj_to_chs q)) qs" by auto
  show ?case
  proof (cases "cpy_p_copy m (obj_to_chs q) = NULL")
    case True
    with q have "qs = []" by (cases qs) auto
    with True q show ?thesis by (subst deref_walk.simps) (simp add: Let_def copy_clk_def)
  next
    case False
    from Cons.IH [OF q(2) False] show ?thesis
      using q False by (subst deref_walk.simps) (simp add: Let_def copy_clk_def)
  qed
qed

lemma mvrlu_deref_NULL: "mvrlu_deref la m self NULL = Some (NULL, self)"
  by (simp add: mvrlu_deref_def)

lemma mvrlu_deref_chain:
  assumes "obj \<noteq> NULL" and "vchain m (act_p_copy m (obj_to_ahs (get_act_obj la m obj))) qs"
  shows "\<exists>self'. mvrlu_deref la m self obj =
    Some (case find (\<lambda>q. lte_clock (copy_clk m q) (local_clk self))
                (live_versions m (qp_clk2 (thr_log self)) qs) of
            Some q \<Rightarrow> q | None \<Rightarrow> get_act_obj la m obj, self')"
proof (cases "act_p_copy m (obj_to_ahs (get_act_obj la m obj)) = NULL")
  case True
  with assms(2) have "qs = []" by (cases qs) auto
  with True assms(1) show ?thesis by (simp add: mvrlu_deref_def Let_def)
next
  case False
  from deref_walk_chain [OF assms(2) False] assms(1) False show ?thesis
    by (simp add: mvrlu_deref_def Let_def)
qed

lemma live_versions_prefix: "\<exists>rest. qs = live_versions m qp2 qs @ rest"
  by (induction qs) auto

lemma live_versions_subset: "set (live_versions m qp2 qs) \<subseteq> set qs"
  by (induction qs) auto

text \<open>
  What linking a copy leaves in the chain: every copy has recorded the write clock of its successor,
  and the last one \<open>MIN_VERSION\<close>.
\<close>

fun next_clks :: "mem \<Rightarrow> addr list \<Rightarrow> bool" where
  "next_clks m [] \<longleftrightarrow> True"
| "next_clks m (q # qs) \<longleftrightarrow>
     wrt_clk_next (chs_heap m (obj_to_chs q)) = (case qs of [] \<Rightarrow> MIN_VERSION | r # _ \<Rightarrow> copy_clk m r) \<and> next_clks m qs"

lemma next_clks_cong:
  assumes "\<And>q. q \<in> set qs \<Longrightarrow> wrt_clk_next (chs_heap m' (obj_to_chs q)) = wrt_clk_next (chs_heap m (obj_to_chs q))"
    and "\<And>q. q \<in> set qs \<Longrightarrow> copy_clk m' q = copy_clk m q"
  shows "next_clks m' qs = next_clks m qs"
  using assms by (induction qs) (auto split: list.splits)

text \<open>
  Stopping early loses a visible version only if it is older than \<open>qp_clk2\<close> and not at the head.
\<close>

lemma find_live_versions:
  assumes "sorted_wrt (\<lambda>a b. b \<le> a) (map (copy_clk m) qs)" and "\<forall>q \<in> set qs. clock_ok (copy_clk m q)" and "next_clks m qs"
  shows "find (\<lambda>q. lte_clock (copy_clk m q) lclk) (live_versions m qp2 qs) =
    (case find (\<lambda>q. lte_clock (copy_clk m q) lclk) qs of None \<Rightarrow> None
     | Some q \<Rightarrow> if q = hd qs \<or> \<not> lte_clock (copy_clk m q) qp2 then Some q else None)"
  using assms
proof (induction qs)
  case (Cons q qs)
  let ?P = "\<lambda>q. lte_clock (copy_clk m q) lclk"
  show ?case
  proof (cases "?P q \<or> qs = []")
    case False
    then obtain r qs' where r: "qs = r # qs'" "\<not> ?P q" by (cases qs) auto
    then have n: "wrt_clk_next (chs_heap m (obj_to_chs q)) = copy_clk m r" using Cons.prems(3) by simp
    have old: "lte_clock (copy_clk m p) qp2" if "p \<in> set qs" "lte_clock (copy_clk m r) qp2" for p
      using that Cons.prems(1,2) r by (auto intro: ordo.sees_older)
    have first: "p \<in> set qs \<and> p \<noteq> q" if "find ?P qs = Some p" for p
      using that r(2) by (auto simp: find_Some_iff)
    have IH: "find ?P (live_versions m qp2 qs) = (case find ?P qs of None \<Rightarrow> None
        | Some p \<Rightarrow> if p = hd qs \<or> \<not> lte_clock (copy_clk m p) qp2 then Some p else None)"
      using Cons by simp
    show ?thesis
    proof (cases "lte_clock (copy_clk m r) qp2")
      case True
      then show ?thesis using r(2) n old first by (auto split: option.splits)
    next
      case False
      then have "find ?P (live_versions m qp2 (q # qs)) = find ?P (live_versions m qp2 qs)" using n r(2) by simp
      also have "\<dots> = (case find ?P qs of None \<Rightarrow> None | Some p \<Rightarrow> if \<not> lte_clock (copy_clk m p) qp2 then Some p else None)"
        unfolding IH using False r(1) by (auto split: option.splits)
      finally show ?thesis using first r(2) by (auto split: option.splits)
    qed
  qed auto
qed simp

text \<open>
  The version returned is the newest one visible to the snapshot: every live version that is
  visible has a write clock no larger.
\<close>

lemma deref_newest_visible:
  assumes "sorted_wrt (\<lambda>a b. b \<le> a) (map (copy_clk m) qs)" and "\<forall>q \<in> set qs. clock_ok (copy_clk m q)"
    and "find (\<lambda>q. lte_clock (copy_clk m q) lclk) qs = Some q"
    and "v \<in> set qs" and "lte_clock (copy_clk m v) lclk"
  shows "copy_clk m v \<le> copy_clk m q"
proof -
  have "find (\<lambda>w. lte_clock w lclk) (map (copy_clk m) qs) = Some (copy_clk m q)"
    using assms(3) by (induction qs) (auto split: if_splits)
  then show ?thesis
    using ordo.first_seen_is_newest [of "map (copy_clk m) qs" lclk "copy_clk m q" "copy_clk m v"] assms
    by auto
qed

end
