(* ===== verification/Mvrlu_Reclaim.thy ===== *)
theory Mvrlu_Reclaim
  imports Write_Set Mvrlu_Deref
begin

text \<open>
  Log reclamation (\<open>log_reclaim\<close> of \<open>kernel/mvrlu/mvrlu.c\<close>).  A log is a sequence of
  committed write sets; \<open>env c\<close> is what other threads do just before the compare-and-swap
  that detaches the copy with header \<open>c\<close>.
\<close>

section \<open>Operations\<close>

definition try_lock :: "bool \<Rightarrow> bool \<times> bool" where
  "try_lock lock = (if \<not> lock then (True, True) else (False, lock))"

definition unlock :: "bool \<Rightarrow> bool" where
  "unlock lock = False"

definition reclaim_obj :: "(addr \<Rightarrow> mem \<Rightarrow> mem) \<Rightarrow> bool \<Rightarrow> bool \<Rightarrow> addr \<Rightarrow> mem \<Rightarrow> mem" where
  "reclaim_obj env reclaim try_writeback c m =
     (case cpy_type m c of
        TYPE_COPY \<Rightarrow>
          (if try_writeback then
             let (written, m1) = try_writeback_obj c m
             in if written then try_detach_obj (env c) c m1 else m1
           else m)
      | TYPE_FREE \<Rightarrow> (if reclaim then free_obj c m else m)
      | _ \<Rightarrow> m)"

partial_function (option) reclaim_loop :: "(addr \<Rightarrow> mem \<Rightarrow> mem) \<Rightarrow> u64 \<Rightarrow> u64 \<Rightarrow> u64 \<Rightarrow> u64 \<Rightarrow>
    mvrlu_log \<Rightarrow> mem \<Rightarrow> (mvrlu_log \<times> mem) option" where
  "reclaim_loop env qp1 qp2 end_cnt start_cnt l m =
     (if \<not> start_cnt < end_cnt then Some (l, m)
      else
        let ws = chs_to_obj (log_at l (ucast (log_index start_cnt)));
            clk = wrt_clk (ws_heap m ws)
        in if gte_clock clk qp1 \<and> clk \<noteq> qp1 then Some (l, m)
           else
             let reclaim = lte_clock clk qp2;
                 try_writeback = (\<not> reclaim \<and> lte_clock clk qp1)
             in case ws_for_each l (plain_body (reclaim_obj env reclaim try_writeback))
                      (unat (num_objs (ws_heap m ws))) (ws_iter_begin m ws) ((), m) of
                  None \<Rightarrow> None
                | Some (cnt, u, m1) \<Rightarrow>
                    reclaim_loop env qp1 qp2 end_cnt cnt
                      (if reclaim then l\<lparr>head_cnt := cnt\<rparr> else l) m1)"

definition log_reclaim :: "(addr \<Rightarrow> mem \<Rightarrow> mem) \<Rightarrow> mvrlu_log \<Rightarrow> mem \<Rightarrow> (mvrlu_log \<times> mem) option" where
  "log_reclaim env l m =
     (if \<not> need_reclaim l then Some (l, m)
      else
        let (got, lock) = try_lock (reclaim_lock l); l1 = l\<lparr>reclaim_lock := lock\<rparr>
        in if \<not> got then Some (l1, m)
           else map_option (\<lambda>(l2, m2).
                  (l2\<lparr>need_reclaim := False, reclaim_lock := unlock (reclaim_lock l2)\<rparr>, m2))
                (reclaim_loop env (qp_clk1 l1) (qp_clk2 l1) (tail_cnt l1) (head_cnt l1) l1 m))"

section \<open>The committed write sets of a log\<close>

type_synonym wset = "nat \<times> nat list \<times> nat" \<comment> \<open>header, entries, end\<close>

fun log_chain :: "mvrlu_log \<Rightarrow> mem \<Rightarrow> nat \<Rightarrow> wset list \<Rightarrow> nat \<Rightarrow> bool" where
  "log_chain l m t [] t' \<longleftrightarrow> t = t'"
| "log_chain l m t ((s, es, u) # ws) t' \<longleftrightarrow>
     s = t \<and> t < u \<and> ws_shape l m t es u \<and> log_chain l m u ws t'"

definition ws_clk :: "mvrlu_log \<Rightarrow> mem \<Rightarrow> wset \<Rightarrow> u64" where
  "ws_clk l m w = wrt_clk (ws_heap m (chs_to_obj (entry l (fst w))))"

definition ws_entries :: "mvrlu_log \<Rightarrow> wset \<Rightarrow> addr list" where
  "ws_entries l w = map (entry l) (fst (snd w))"

definition ws_end :: "wset \<Rightarrow> nat" where
  "ws_end w = snd (snd w)"

text \<open>All header addresses in the chain, and what interference must leave alone.\<close>

definition chain_hdrs :: "mvrlu_log \<Rightarrow> wset list \<Rightarrow> addr set" where
  "chain_hdrs l ws = (\<Union>w \<in> set ws. insert (entry l (fst w)) (set (ws_entries l w)))"

definition same_log :: "addr set \<Rightarrow> mem \<Rightarrow> mem \<Rightarrow> bool" where
  "same_log H m m' \<longleftrightarrow> (\<forall>c \<in> H. chs_heap m' c = chs_heap m c \<and>
     ws_heap m' (chs_to_obj c) = ws_heap m (chs_to_obj c))"

lemma same_log_refl: "same_log H m m"
  by (simp add: same_log_def)

lemma same_log_trans: "same_log H m m' \<Longrightarrow> same_log H m' m'' \<Longrightarrow> same_log H m m''"
  by (simp add: same_log_def)

lemma same_log_mono: "same_log H m m' \<Longrightarrow> H' \<subseteq> H \<Longrightarrow> same_log H' m m'"
  by (auto simp: same_log_def)

lemma log_chain_le: "log_chain l m t ws t' \<Longrightarrow> t \<le> t'"
  by (induction l m t ws t' rule: log_chain.induct) auto

lemma log_chain_cong:
  assumes "log_chain l m t ws t'" and "same_log (chain_hdrs l ws) m m'"
  shows "log_chain l m' t ws t'"
  using assms
proof (induction l m t ws t' rule: log_chain.induct)
  case (2 l m t s es u ws t')
  then have "s = t" and sh: "ws_shape l m t es u" by auto
  with 2(3) have "chs_heap m' c = chs_heap m c" if "c \<in> insert (entry l t) (entry l ` set es)" for c
    using that by (auto simp: same_log_def chain_hdrs_def ws_entries_def)
  moreover have "ws_heap m' (chs_to_obj (entry l t)) = ws_heap m (chs_to_obj (entry l t))"
    using 2(3) \<open>s = t\<close> by (auto simp: same_log_def chain_hdrs_def)
  ultimately have "ws_shape l m' t es u"
    by (intro ws_shape_cong [OF sh]) (auto simp: entry_size_def)
  with 2 show ?case by (auto simp: chain_hdrs_def intro: same_log_mono)
qed simp

lemma reclaim_obj_same_log:
  assumes "\<And>c m. same_log H m (env c m)"
  shows "same_log H m (reclaim_obj env r w c m)"
proof -
  have "same_log H m (try_detach_obj (env c) c m1)" if "same_log H m m1" for m1
    using that assms [of m1 c] same_log_trans [OF that assms [of m1 c]]
    by (auto simp: try_detach_obj_def Let_def cas_p_copy_def same_log_def)
  moreover have "same_log H m (snd (try_writeback_obj c m))"
    by (simp add: same_log_def)
  ultimately show ?thesis
    by (auto simp: reclaim_obj_def free_obj_def same_log_def case_prod_unfold Let_def
        split: obj_type.splits)
qed

lemma reclaim_walk:
  assumes "\<And>c m. same_log H m (env c m)"
  shows "log_walk (plain_body (reclaim_obj env r w)) H"
  using reclaim_obj_same_log [OF assms] by unfold_locales (auto simp: plain_body_def same_log_def)

lemma fold_reclaim_same_log:
  assumes "\<And>c m. same_log H m (env c m)"
  shows "same_log H m (fold (reclaim_obj env r w) cs m)"
proof (induction cs arbitrary: m)
  case (Cons c cs)
  then show ?case
    using same_log_trans [OF reclaim_obj_same_log [where env = env, OF assms]] by simp blast
qed (simp add: same_log_refl)

section \<open>The loop as a recursion over the write sets\<close>

text \<open>The result is the new head and the new memory.\<close>

fun reclaim_run :: "(addr \<Rightarrow> mem \<Rightarrow> mem) \<Rightarrow> mvrlu_log \<Rightarrow> u64 \<Rightarrow> u64 \<Rightarrow> wset list \<Rightarrow>
    u64 \<Rightarrow> mem \<Rightarrow> u64 \<times> mem" where
  "reclaim_run env l qp1 qp2 [] h m = (h, m)"
| "reclaim_run env l qp1 qp2 (w # ws) h m =
     (let clk = ws_clk l m w; reclaim = lte_clock clk qp2
      in if gte_clock clk qp1 then (h, m)
         else reclaim_run env l qp1 qp2 ws (if reclaim then of_nat (ws_end w) else h)
           (fold (reclaim_obj env reclaim (\<not> reclaim \<and> lte_clock clk qp1)) (ws_entries l w) m))"

lemma gte_clock_neq: "clock_ok b \<Longrightarrow> gte_clock a b \<Longrightarrow> a \<noteq> b"
  by (auto simp: gte_clock_unat)

text \<open>Only the buffer of a log matters for where its entries are.\<close>

lemma same_entry: "log_buffer l' = log_buffer l \<Longrightarrow> entry l' = entry l"
  by (simp add: entry_def log_at_def fun_eq_iff)

lemma same_buffer:
  assumes "log_buffer l' = log_buffer l"
  shows "ws_shape l' = ws_shape l" and "ws_clk l' = ws_clk l" and "ws_entries l' = ws_entries l"
    and "chain_hdrs l' = chain_hdrs l"
  by (simp_all add: same_entry [OF assms] ws_shape_def entry_size_def [abs_def] ws_clk_def
      ws_entries_def chain_hdrs_def fun_eq_iff)

lemma log_chain_same_buffer:
  assumes "log_buffer l' = log_buffer l"
  shows "log_chain l' m t ws t' = log_chain l m t ws t'"
  by (induction ws arbitrary: t) (auto simp: same_buffer [OF assms])

lemma reclaim_run_same_buffer:
  assumes "log_buffer l' = log_buffer l"
  shows "reclaim_run env l' qp1 qp2 ws h m = reclaim_run env l qp1 qp2 ws h m"
  by (induction ws arbitrary: h m) (auto simp: same_buffer [OF assms] Let_def)

lemma log_at_index: "log_at l (ucast (log_index cnt)) = log_at l cnt"
  by (simp add: log_at_eq_iff)

lemma reclaim_loop_run:
  assumes "log_chain l m t ws t'" and "t' < 2 ^ 64" and "clock_ok qp1"
    and env: "\<And>c m. same_log (chain_hdrs l ws) m (env c m)"
  shows "reclaim_loop env qp1 qp2 (of_nat t') (of_nat t) l m =
    Some (l\<lparr>head_cnt := fst (reclaim_run env l qp1 qp2 ws (head_cnt l) m)\<rparr>,
      snd (reclaim_run env l qp1 qp2 ws (head_cnt l) m))"
  using assms(1,2) env
proof (induction ws arbitrary: t l m)
  case Nil
  then show ?case by (subst reclaim_loop.simps) simp
next
  case (Cons w ws)
  obtain s es u where w: "w = (s, es, u)" by (cases w)
  let ?H = "chain_hdrs l (w # ws)"
  from Cons.prems(1) have c: "s = t" "t < u" "ws_shape l m t es u" "log_chain l m u ws t'"
    by (auto simp: w)
  have "u \<le> t'" using log_chain_le [OF c(4)] .
  with c(2) Cons.prems(2) have lt: "(of_nat t :: u64) < of_nat t'"
    by (simp add: word_less_unat unat_of_nat_u64)
  let ?ws = "chs_to_obj (entry l t)" and ?clk = "ws_clk l m w"
  let ?r = "lte_clock ?clk qp2"
  let ?wb = "\<not> ?r \<and> lte_clock ?clk qp1"
  have clk: "wrt_clk (ws_heap m ?ws) = ?clk" by (simp add: ws_clk_def w c)
  let ?m1 = "fold (reclaim_obj env ?r ?wb) (map (entry l) es) m"
  let ?l1 = "if ?r then l\<lparr>head_cnt := of_nat u\<rparr> else l"
  have H: "entry l ` set es \<subseteq> ?H" by (auto simp: chain_hdrs_def ws_entries_def w)
  have walk: "ws_for_each l (plain_body (reclaim_obj env ?r ?wb)) (unat (num_objs (ws_heap m ?ws)))
      (ws_iter_begin m ?ws) ((), m) = Some (of_nat u, (), ?m1)"
    using log_walk.ws_for_each_shape [OF reclaim_walk [where env = env, OF Cons.prems(3)] c(3) H]
    by (simp add: run_body_plain)
  have sub: "chain_hdrs l ws \<subseteq> ?H" by (auto simp: chain_hdrs_def)
  have b: "log_buffer ?l1 = log_buffer l" by simp
  have ch: "log_chain ?l1 ?m1 u ws t'"
    using log_chain_cong [OF c(4) same_log_mono [OF fold_reclaim_same_log [where env = env, OF Cons.prems(3)] sub]]
    by (simp add: log_chain_same_buffer [OF b])
  have env': "same_log (chain_hdrs ?l1 ws) m (env c m)" for c m
    using same_log_mono [OF Cons.prems(3) sub] by (simp add: same_buffer [OF b])
  have IH: "reclaim_loop env qp1 qp2 (of_nat t') (of_nat u) ?l1 ?m1 =
      Some (?l1\<lparr>head_cnt := fst (reclaim_run env l qp1 qp2 ws (head_cnt ?l1) ?m1)\<rparr>,
        snd (reclaim_run env l qp1 qp2 ws (head_cnt ?l1) ?m1))"
    using Cons.IH [OF ch Cons.prems(2) env'] by (simp add: reclaim_run_same_buffer [OF b])
  have "log_at l (ucast (log_index (of_nat t))) = entry l t"
    by (simp add: log_at_index entry_def)
  then show ?case
    using lt walk IH gte_clock_neq [OF assms(3), of ?clk]
    by (subst reclaim_loop.simps) (auto simp: Let_def clk w ws_end_def ws_entries_def)
qed


section \<open>How far the log is reclaimed\<close>

lemma ws_clk_same_log: "same_log (chain_hdrs l ws) m m' \<Longrightarrow> w \<in> set ws \<Longrightarrow> ws_clk l m' w = ws_clk l m w"
  by (auto simp: same_log_def chain_hdrs_def ws_clk_def)

definition clks_sorted :: "mvrlu_log \<Rightarrow> mem \<Rightarrow> wset list \<Rightarrow> bool" where
  "clks_sorted l m ws \<longleftrightarrow>
     sorted_wrt (\<lambda>v w. ws_clk l m v \<le> ws_clk l m w) ws \<and> (\<forall>w \<in> set ws. clock_ok (ws_clk l m w))"

lemma clks_sorted_cong:
  assumes "\<And>w. w \<in> set ws \<Longrightarrow> ws_clk l m' w = ws_clk l m w"
  shows "clks_sorted l m' ws = clks_sorted l m ws"
  using assms by (induction ws) (auto simp: clks_sorted_def)

text \<open>The write sets that are given back, and those whose copies are written back.\<close>

definition reclaimed :: "mvrlu_log \<Rightarrow> mem \<Rightarrow> u64 \<Rightarrow> wset list \<Rightarrow> wset list" where
  "reclaimed l m qp2 ws = takeWhile (\<lambda>w. lte_clock (ws_clk l m w) qp2) ws"

lemma reclaimed_cong:
  "(\<And>w. w \<in> set ws \<Longrightarrow> ws_clk l m' w = ws_clk l m w) \<Longrightarrow> reclaimed l m' qp2 ws = reclaimed l m qp2 ws"
  unfolding reclaimed_def by (auto intro: takeWhile_cong)

definition new_head :: "u64 \<Rightarrow> wset list \<Rightarrow> u64" where
  "new_head h R = (if R = [] then h else of_nat (ws_end (last R)))"

lemma lte_qp2_not_gte_qp1:
  "clock_ok clk \<Longrightarrow> clock_ok qp1 \<Longrightarrow> qp2 \<le> qp1 \<Longrightarrow> lte_clock clk qp2 \<Longrightarrow> \<not> gte_clock clk qp1"
  by (simp add: lte_clock_unat gte_clock_unat word_le_nat_alt)

lemma reclaim_run_no_head:
  assumes "\<forall>w \<in> set ws. \<not> lte_clock (ws_clk l m w) qp2"
    and env: "\<And>c m. same_log (chain_hdrs l ws) m (env c m)"
  shows "fst (reclaim_run env l qp1 qp2 ws h m) = h"
  using assms
proof (induction ws arbitrary: m)
  case (Cons w ws)
  let ?f = "reclaim_obj env False (lte_clock (ws_clk l m w) qp1)"
  have sub: "chain_hdrs l ws \<subseteq> chain_hdrs l (w # ws)" by (auto simp: chain_hdrs_def)
  have env': "same_log (chain_hdrs l ws) m (env c m)" for c m
    by (rule same_log_mono [OF Cons.prems(2) sub])
  have "same_log (chain_hdrs l ws) m (fold ?f (ws_entries l w) m)"
    by (rule fold_reclaim_same_log [where env = env, OF env'])
  then have "\<forall>v \<in> set ws. \<not> lte_clock (ws_clk l (fold ?f (ws_entries l w) m) v) qp2"
    using Cons.prems(1) by (simp add: ws_clk_same_log)
  from Cons.IH [OF this env'] Cons.prems(1) show ?case by (simp add: Let_def)
qed simp

lemma reclaim_run_head:
  assumes "clks_sorted l m ws" and "clock_ok qp1" and "qp2 \<le> qp1"
    and env: "\<And>c m. same_log (chain_hdrs l ws) m (env c m)"
  shows "fst (reclaim_run env l qp1 qp2 ws h m) = new_head h (reclaimed l m qp2 ws)"
  using assms(1,4)
proof (induction ws arbitrary: h m)
  case Nil
  then show ?case by (simp add: reclaimed_def new_head_def)
next
  case (Cons w ws)
  let ?clk = "ws_clk l m w"
  have sub: "chain_hdrs l ws \<subseteq> chain_hdrs l (w # ws)" by (auto simp: chain_hdrs_def)
  have env': "same_log (chain_hdrs l ws) m (env c m)" for c m
    by (rule same_log_mono [OF Cons.prems(2) sub])
  have srt: "clks_sorted l m ws" "\<forall>v \<in> set ws. ?clk \<le> ws_clk l m v" "clock_ok ?clk"
    "\<forall>v \<in> set ws. clock_ok (ws_clk l m v)"
    using Cons.prems(1) by (auto simp: clks_sorted_def)
  show ?case
  proof (cases "lte_clock ?clk qp2")
    case True
    let ?m1 = "fold (reclaim_obj env True False) (ws_entries l w) m"
    have same: "ws_clk l ?m1 v = ws_clk l m v" if "v \<in> set ws" for v
      using ws_clk_same_log [OF fold_reclaim_same_log [where env = env, OF env'] that] .
    have "clks_sorted l ?m1 ws" using srt(1) clks_sorted_cong [of ws l ?m1 m] same by blast
    from Cons.IH [OF this env', of "of_nat (ws_end w)"]
    have "fst (reclaim_run env l qp1 qp2 ws (of_nat (ws_end w)) ?m1) =
        new_head (of_nat (ws_end w)) (reclaimed l m qp2 ws)"
      using reclaimed_cong [of ws l ?m1 m, OF same] by simp
    with True lte_qp2_not_gte_qp1 [OF srt(3) assms(2,3) True] show ?thesis
      by (simp add: Let_def reclaimed_def new_head_def)
  next
    case False
    then have "\<forall>v \<in> set (w # ws). \<not> lte_clock (ws_clk l m v) qp2"
      using srt ordo.sees_older [OF srt(3)] by auto
    from reclaim_run_no_head [OF this, where env = env, OF Cons.prems(2)] False show ?thesis
      by (simp add: reclaimed_def new_head_def)
  qed
qed

text \<open>
  \<open>log_reclaim\<close> returns, releases its lock, and moves the head exactly behind the write sets
  that are older than \<open>qp_clk2\<close>.
\<close>

lemma log_reclaim_idle: "\<not> need_reclaim l \<or> reclaim_lock l \<Longrightarrow> log_reclaim env l m = Some (l, m)"
  by (auto simp: log_reclaim_def try_lock_def)

lemma log_reclaim_run:
  assumes chain: "log_chain l m (unat (head_cnt l)) ws (unat (tail_cnt l))"
    and "clks_sorted l m ws" and "clock_ok (qp_clk1 l)" and "qp_clk2 l \<le> qp_clk1 l"
    and flags: "need_reclaim l" "\<not> reclaim_lock l"
    and env: "\<And>c m. same_log (chain_hdrs l ws) m (env c m)"
  shows "log_reclaim env l m =
    Some (l\<lparr>head_cnt := new_head (head_cnt l) (reclaimed l m (qp_clk2 l) ws), need_reclaim := False\<rparr>,
      snd (reclaim_run env l (qp_clk1 l) (qp_clk2 l) ws (head_cnt l) m))"
proof -
  let ?l = "l\<lparr>reclaim_lock := True\<rparr>"
  have b: "log_buffer ?l = log_buffer l" by simp
  have c: "log_chain ?l m (unat (head_cnt l)) ws (unat (tail_cnt l))"
    using chain by (simp add: log_chain_same_buffer [OF b])
  have e: "same_log (chain_hdrs ?l ws) m (env c m)" for c m
    using env by (simp add: same_buffer [OF b])
  let ?run = "reclaim_run env l (qp_clk1 l) (qp_clk2 l) ws (head_cnt l) m"
  have "reclaim_loop env (qp_clk1 l) (qp_clk2 l) (tail_cnt l) (head_cnt l) ?l m =
      Some (?l\<lparr>head_cnt := fst ?run\<rparr>, snd ?run)"
    using reclaim_loop_run [where env = env and ?qp2.0 = "qp_clk2 l", OF c _ assms(3) e]
    by (simp add: reclaim_run_same_buffer [OF b] case_prod_unfold Let_def)
  moreover have "fst ?run = new_head (head_cnt l) (reclaimed l m (qp_clk2 l) ws)"
    by (rule reclaim_run_head [where env = env, OF assms(2-4) env])
  moreover have "?l\<lparr>head_cnt := h, need_reclaim := False, reclaim_lock := False\<rparr> =
      l\<lparr>head_cnt := h, need_reclaim := False\<rparr>" for h
    using flags(2) by (cases l) simp
  ultimately show ?thesis
    using flags unfolding log_reclaim_def try_lock_def unlock_def Let_def by simp
qed


section \<open>What readers see during reclamation\<close>

text \<open>No other thread runs in between.\<close>

definition quiet :: "addr \<Rightarrow> mem \<Rightarrow> mem" where
  "quiet c m = m"

lemma same_log_quiet: "same_log H m (quiet c m)"
  by (simp add: quiet_def same_log_refl)

text \<open>
  \<open>A\<close> are the actual objects of the log.  In \<open>m\<close> an object of \<open>A\<close> is as in \<open>m0\<close>, or its newest
  copy, which a snapshot at \<open>r\<close> sees, has been written back and detached.
\<close>

definition same_reads :: "addr set \<Rightarrow> u64 \<Rightarrow> mem \<Rightarrow> mem \<Rightarrow> bool" where
  "same_reads A r m0 m \<longleftrightarrow>
     chs_heap m = chs_heap m0 \<and> ws_heap m = ws_heap m0 \<and>
     (\<forall>x. x \<notin> A \<longrightarrow> obj_heap m x = obj_heap m0 x) \<and>
     (\<forall>x. act_p_copy m (obj_to_ahs x) = act_p_copy m0 (obj_to_ahs x) \<and> obj_heap m x = obj_heap m0 x \<or>
        x \<in> A \<and> act_p_copy m (obj_to_ahs x) = NULL \<and>
          (let q = act_p_copy m0 (obj_to_ahs x)
           in q \<noteq> NULL \<and> lte_clock (copy_clk m0 q) r \<and> obj_heap m x = obj_heap m0 q))"

lemma same_reads_refl: "same_reads A r m m"
  by (simp add: same_reads_def)

lemma live_versions_cong: "chs_heap m' = chs_heap m \<Longrightarrow> live_versions m' qp2 qs = live_versions m qp2 qs"
  by (induction qs) auto

lemma copy_clk_cong: "chs_heap m' = chs_heap m \<Longrightarrow> ws_heap m' = ws_heap m \<Longrightarrow> copy_clk m' = copy_clk m"
  by (rule ext) (simp add: copy_clk_def get_wrt_clk_def Let_def)

lemma same_reads_deref:
  assumes rel: "same_reads A (local_clk self) m m'" and obj: "obj \<noteq> NULL"
    and ch: "vchain m (act_p_copy m (obj_to_ahs (get_act_obj la m obj))) qs" and A: "set qs \<inter> A = {}"
  shows "\<exists>p s p' s'. mvrlu_deref la m self obj = Some (p, s) \<and>
    mvrlu_deref la m' self obj = Some (p', s') \<and> obj_heap m' p' = obj_heap m p"
proof -
  let ?x = "get_act_obj la m obj" and ?f = "\<lambda>m q. lte_clock (copy_clk m q) (local_clk self)"
  let ?p = "act_p_copy m (obj_to_ahs ?x)" and ?live = "live_versions m (qp_clk2 (thr_log self)) qs"
  have h: "chs_heap m' = chs_heap m" "ws_heap m' = ws_heap m" using rel by (auto simp: same_reads_def)
  have x: "get_act_obj la m' obj = ?x" by (simp add: get_act_obj_def h)
  note clk = copy_clk_cong [OF h]
  obtain s where d: "mvrlu_deref la m self obj =
      Some (case find (?f m) ?live of Some q \<Rightarrow> q | None \<Rightarrow> ?x, s)"
    using mvrlu_deref_chain [OF obj ch] by blast
  from rel consider (same) "act_p_copy m' (obj_to_ahs ?x) = ?p" "obj_heap m' ?x = obj_heap m ?x"
    | (written) "act_p_copy m' (obj_to_ahs ?x) = NULL" "?p \<noteq> NULL" "?f m ?p" "obj_heap m' ?x = obj_heap m ?p"
    unfolding same_reads_def Let_def by metis
  then show ?thesis
  proof cases
    case same
    have "vchain m' (act_p_copy m' (obj_to_ahs (get_act_obj la m' obj))) qs"
      using ch same(1) x vchain_cong [of qs m' m] by (simp add: cpy_p_copy_def h)
    then obtain s' where d': "mvrlu_deref la m' self obj =
        Some (case find (?f m) ?live of Some q \<Rightarrow> q | None \<Rightarrow> ?x, s')"
      using mvrlu_deref_chain [OF obj, of m' la qs self] unfolding x clk live_versions_cong [OF h(1)]
      by blast
    have "obj_heap m' (case find (?f m) ?live of Some q \<Rightarrow> q | None \<Rightarrow> ?x) =
        obj_heap m (case find (?f m) ?live of Some q \<Rightarrow> q | None \<Rightarrow> ?x)"
    proof (cases "find (?f m) ?live")
      case None
      then show ?thesis using same(2) by simp
    next
      case (Some q)
      then have "q \<in> set ?live" by (auto simp: find_Some_iff)
      then have "q \<notin> A" using live_versions_subset [of m "qp_clk2 (thr_log self)" qs] A by auto
      then show ?thesis using rel Some by (simp add: same_reads_def)
    qed
    with d d' show ?thesis by blast
  next
    case written
    obtain qs' where qs: "qs = ?p # qs'" using ch written(2) by (cases qs) auto
    then have "find (?f m) ?live = Some ?p" using written(3) by simp
    moreover have "mvrlu_deref la m' self obj = Some (?x, self\<lparr>num_act_obj := num_act_obj self + 1\<rparr>)"
      using obj written(1) x by (simp add: mvrlu_deref_def)
    ultimately show ?thesis using d written(4) by auto
  qed
qed

text \<open>What commit establishes for the entries of a write set.\<close>

definition copies_ok :: "mvrlu_log \<Rightarrow> mem \<Rightarrow> addr set \<Rightarrow> wset list \<Rightarrow> bool" where
  "copies_ok l m A ws \<longleftrightarrow>
     (\<forall>w \<in> set ws. \<forall>c \<in> set (ws_entries l w). cpy_type m c = TYPE_COPY \<longrightarrow>
        (let a = p_act (chs_heap m c); n = unat (cpy_obj_size m c)
         in get_wrt_clk m c = ws_clk l m w \<and> chs_to_obj c \<notin> insert NULL A \<and> a \<in> A \<and>
            (act_p_copy m (obj_to_ahs a) = chs_to_obj c \<longrightarrow>
               length (obj_heap m (chs_to_obj c)) = n \<and> length (obj_heap m a) = n)))"

lemma reclaim_obj_quiet:
  "reclaim_obj quiet r w c m =
     (if cpy_type m c = TYPE_COPY \<and> w \<and> act_p_copy m (obj_to_ahs (p_act (chs_heap m c))) = chs_to_obj c
      then set_act_p_copy (obj_to_ahs (p_act (chs_heap m c))) NULL
             (memcpy (p_act (chs_heap m c)) (chs_to_obj c) (unat (cpy_obj_size m c)) m)
      else if cpy_type m c = TYPE_FREE \<and> r then free_obj c m else m)"
  by (auto simp: reclaim_obj_def try_writeback_obj_def try_detach_obj_def cas_p_copy_def Let_def
      quiet_def split: obj_type.splits)

lemma reclaim_obj_same_reads:
  assumes rel: "same_reads A r m0 m" and ok: "copies_ok l m0 A ws" and w: "w \<in> set ws"
    and c: "c \<in> set (ws_entries l w)" and vis: "wb \<longrightarrow> lte_clock (ws_clk l m0 w) r"
  shows "same_reads A r m0 (reclaim_obj quiet rc wb c m)"
proof -
  let ?a = "p_act (chs_heap m0 c)" and ?n = "unat (cpy_obj_size m0 c)"
  have h: "chs_heap m = chs_heap m0" "ws_heap m = ws_heap m0" using rel by (auto simp: same_reads_def)
  have sz: "cpy_obj_size m c = cpy_obj_size m0 c" "cpy_type m c = cpy_type m0 c"
    by (simp_all add: cpy_obj_size_def cpy_type_def h)
  show ?thesis
  proof (cases "cpy_type m0 c = TYPE_COPY \<and> wb \<and> act_p_copy m (obj_to_ahs ?a) = chs_to_obj c")
    case True
    then have k: "get_wrt_clk m0 c = ws_clk l m0 w" "chs_to_obj c \<noteq> NULL" "chs_to_obj c \<notin> A" "?a \<in> A"
      using ok w c by (auto simp: copies_ok_def Let_def)
    have p: "act_p_copy m0 (obj_to_ahs ?a) = chs_to_obj c" "obj_heap m ?a = obj_heap m0 ?a"
      using rel True k(2) unfolding same_reads_def Let_def by metis+
    have len: "length (obj_heap m0 (chs_to_obj c)) = ?n" "length (obj_heap m0 ?a) = ?n"
      using ok w c True p(1) by (auto simp: copies_ok_def Let_def)
    have cp: "obj_heap m (chs_to_obj c) = obj_heap m0 (chs_to_obj c)"
      using rel k(3) by (simp add: same_reads_def)
    have "copy_clk m0 (chs_to_obj c) = ws_clk l m0 w" using k(1) by (simp add: copy_clk_def)
    with vis True have v: "lte_clock (copy_clk m0 (chs_to_obj c)) r" by simp
    let ?m = "set_act_p_copy (obj_to_ahs ?a) NULL (memcpy ?a (chs_to_obj c) ?n m)"
    have "reclaim_obj quiet rc wb c m = ?m" using True by (simp add: reclaim_obj_quiet h sz)
    moreover have "same_reads A r m0 ?m"
    proof -
      have bytes: "take ?n (obj_heap m (chs_to_obj c)) @ drop ?n (obj_heap m ?a) = obj_heap m0 (chs_to_obj c)"
        using len p(2) cp by simp
      show ?thesis
        using rel k p(1) v bytes unfolding same_reads_def Let_def by (auto simp: h)
    qed
    ultimately show ?thesis by simp
  next
    case False
    then have "reclaim_obj quiet rc wb c m =
        (if cpy_type m0 c = TYPE_FREE \<and> rc then free_obj c m else m)"
      by (auto simp: reclaim_obj_quiet h sz)
    then show ?thesis using rel by (auto simp: same_reads_def free_obj_def)
  qed
qed

lemma fold_reclaim_same_reads:
  assumes "same_reads A r m0 m" and ok: "copies_ok l m0 A ws" and w: "w \<in> set ws"
    and "set cs \<subseteq> set (ws_entries l w)" and vis: "wb \<longrightarrow> lte_clock (ws_clk l m0 w) r"
  shows "same_reads A r m0 (fold (reclaim_obj quiet rc wb) cs m)"
  using assms(1,4)
proof (induction cs arbitrary: m)
  case (Cons c cs)
  have "same_reads A r m0 (reclaim_obj quiet rc wb c m)"
    using Cons.prems by (intro reclaim_obj_same_reads [OF _ ok w _ vis]) auto
  with Cons show ?case by simp
qed simp

lemma reclaim_run_same_reads:
  assumes "same_reads A r m0 m" and ok: "copies_ok l m0 A ws0"
    and "\<forall>w \<in> set ws0. clock_ok (ws_clk l m0 w)" and "qp1 \<le> r" and "set ws \<subseteq> set ws0"
  shows "same_reads A r m0 (snd (reclaim_run quiet l qp1 qp2 ws h m))"
  using assms(1,5)
proof (induction ws arbitrary: h m)
  case (Cons w ws)
  have w: "w \<in> set ws0" using Cons.prems by simp
  have clk: "ws_clk l m w = ws_clk l m0 w"
    using Cons.prems(1) by (simp add: same_reads_def ws_clk_def)
  let ?rc = "lte_clock (ws_clk l m w) qp2"
  let ?wb = "\<not> ?rc \<and> lte_clock (ws_clk l m w) qp1"
  have vis: "?wb \<longrightarrow> lte_clock (ws_clk l m0 w) r"
    using clk assms(3,4) w ordo.sees_later by auto
  have "same_reads A r m0 (fold (reclaim_obj quiet ?rc ?wb) (ws_entries l w) m)"
    by (rule fold_reclaim_same_reads [OF Cons.prems(1) ok w subset_refl vis])
  with Cons show ?case by (simp add: Let_def)
qed simp

section \<open>What reclamation writes back\<close>

text \<open>Reclamation only ever detaches a copy; it detaches the newest copy of an object when it comes to it.\<close>

lemma fold_reclaim_heaps:
  "chs_heap (fold (reclaim_obj quiet rc wb) cs m) = chs_heap m \<and> ws_heap (fold (reclaim_obj quiet rc wb) cs m) = ws_heap m"
  by (induction cs arbitrary: m) (auto simp: reclaim_obj_quiet free_obj_def)

lemma fold_reclaim_p_copy:
  "act_p_copy (fold (reclaim_obj quiet rc wb) cs m) a = act_p_copy m a \<or> act_p_copy (fold (reclaim_obj quiet rc wb) cs m) a = NULL"
proof (induction cs arbitrary: m)
  case (Cons c cs)
  have "act_p_copy (reclaim_obj quiet rc wb c m) a = act_p_copy m a \<or> act_p_copy (reclaim_obj quiet rc wb c m) a = NULL"
    by (auto simp: reclaim_obj_quiet free_obj_def)
  with Cons [of "reclaim_obj quiet rc wb c m"] show ?case by auto
qed simp

lemma reclaim_run_p_copy:
  "act_p_copy (snd (reclaim_run quiet l qp1 qp2 ws h m)) a = act_p_copy m a \<or>
   act_p_copy (snd (reclaim_run quiet l qp1 qp2 ws h m)) a = NULL"
proof (induction ws arbitrary: h m)
  case (Cons w ws)
  let ?rc = "lte_clock (ws_clk l m w) qp2"
  let ?h = "if ?rc then of_nat (ws_end w) else h"
  define m1 where "m1 = fold (reclaim_obj quiet ?rc (\<not> ?rc \<and> lte_clock (ws_clk l m w) qp1)) (ws_entries l w) m"
  have run: "reclaim_run quiet l qp1 qp2 (w # ws) h m =
      (if gte_clock (ws_clk l m w) qp1 then (h, m) else reclaim_run quiet l qp1 qp2 ws ?h m1)"
    by (simp add: m1_def Let_def)
  have "act_p_copy m1 a = act_p_copy m a \<or> act_p_copy m1 a = NULL" unfolding m1_def by (rule fold_reclaim_p_copy)
  with Cons [of ?h m1] show ?case unfolding run by auto
qed simp

lemma fold_reclaim_detaches:
  assumes "c \<in> set cs" and "cpy_type m c = TYPE_COPY" and "chs_to_obj c \<noteq> NULL" and "a = obj_to_ahs (p_act (chs_heap m c))"
  shows "act_p_copy (fold (reclaim_obj quiet rc True) cs m) a \<noteq> chs_to_obj c"
  using assms
proof (induction cs arbitrary: m)
  case (Cons d cs)
  have h: "chs_heap (reclaim_obj quiet rc True d m) = chs_heap m" by (simp add: reclaim_obj_quiet free_obj_def)
  show ?case
  proof (cases "c \<in> set cs")
    case True
    from Cons.IH [OF this, of "reclaim_obj quiet rc True d m"] Cons.prems show ?thesis by (simp add: h cpy_type_def)
  next
    case False
    then have "d = c" using Cons.prems(1) by simp
    then have "act_p_copy (reclaim_obj quiet rc True d m) a \<noteq> chs_to_obj c"
      using Cons.prems by (auto simp: reclaim_obj_quiet)
    then show ?thesis using fold_reclaim_p_copy [of rc True cs "reclaim_obj quiet rc True d m" a] Cons.prems(3) by auto
  qed
qed simp

lemma reclaim_run_detaches:
  assumes "clks_sorted l m ws" and "clock_ok qp1" and w: "w \<in> set ws" and c: "c \<in> set (ws_entries l w)"
    and "cpy_type m c = TYPE_COPY" and "chs_to_obj c \<noteq> NULL" and "a = obj_to_ahs (p_act (chs_heap m c))"
    and "\<not> lte_clock (ws_clk l m w) qp2" and "lte_clock (ws_clk l m w) qp1"
  shows "act_p_copy (snd (reclaim_run quiet l qp1 qp2 ws h m)) a \<noteq> chs_to_obj c"
  using assms
proof (induction ws arbitrary: h m)
  case (Cons v ws)
  let ?rc = "lte_clock (ws_clk l m v) qp2"
  let ?wb = "\<not> ?rc \<and> lte_clock (ws_clk l m v) qp1"
  let ?m = "fold (reclaim_obj quiet ?rc ?wb) (ws_entries l v) m"
  have ok: "clock_ok (ws_clk l m v)" "clks_sorted l m ws" "\<forall>u \<in> set (v # ws). ws_clk l m v \<le> ws_clk l m u"
    using Cons.prems(1) by (auto simp: clks_sorted_def)
  have k: "clock_ok (ws_clk l m w)" using Cons.prems(1,3) by (auto simp: clks_sorted_def)
  have "lte_clock (ws_clk l m v) qp1" using ok Cons.prems(3,9) by (blast intro: ordo.sees_older [OF ok(1) k])
  then have go: "\<not> gte_clock (ws_clk l m v) qp1" using Cons.prems(2) ok(1) by (simp add: lte_clock_unat gte_clock_unat)
  have same: "ws_clk l ?m = ws_clk l m" "chs_heap ?m = chs_heap m" "cpy_type ?m c = cpy_type m c"
    using fold_reclaim_heaps [of ?rc ?wb "ws_entries l v" m] by (simp_all add: ws_clk_def fun_eq_iff cpy_type_def)
  show ?case
  proof (cases "w \<in> set ws")
    case True
    have "clks_sorted l ?m ws" using ok(2) by (simp add: clks_sorted_def same(1))
    from Cons.IH [OF this Cons.prems(2) True Cons.prems(4)] Cons.prems(5-9) go show ?thesis
      by (simp add: Let_def same)
  next
    case False
    then have v: "v = w" using Cons.prems(3) by simp
    then have "act_p_copy ?m a \<noteq> chs_to_obj c"
      using fold_reclaim_detaches [OF Cons.prems(4-7)] Cons.prems(8,9) by simp
    then show ?thesis
      using reclaim_run_p_copy [of l qp1 qp2 ws "if ?rc then of_nat (ws_end v) else h" ?m a] Cons.prems(6) go
      unfolding reclaim_run.simps Let_def by auto
  qed
qed simp

text \<open>
  The newest version of an object between the two quiescent-point clocks is written back and detached.
\<close>

lemma reclaim_run_writes_back:
  assumes srt: "clks_sorted l m ws" and qp: "clock_ok qp1" and ok: "copies_ok l m A ws" and w: "w \<in> set ws"
    and c: "c \<in> set (ws_entries l w)" and t: "cpy_type m c = TYPE_COPY"
    and clk: "\<not> lte_clock (ws_clk l m w) qp2" "lte_clock (ws_clk l m w) qp1"
    and new: "act_p_copy m (obj_to_ahs (p_act (chs_heap m c))) = chs_to_obj c"
  shows "act_p_copy (snd (reclaim_run quiet l qp1 qp2 ws h m)) (obj_to_ahs (p_act (chs_heap m c))) = NULL \<and>
    obj_heap (snd (reclaim_run quiet l qp1 qp2 ws h m)) (p_act (chs_heap m c)) = obj_heap m (chs_to_obj c)"
proof -
  let ?x = "p_act (chs_heap m c)" and ?m = "snd (reclaim_run quiet l qp1 qp2 ws h m)"
  have nn: "chs_to_obj c \<noteq> NULL" using ok w c t by (auto simp: copies_ok_def Let_def)
  have "same_reads A qp1 m ?m"
    using srt by (intro reclaim_run_same_reads [OF same_reads_refl ok]) (auto simp: clks_sorted_def)
  then have "act_p_copy ?m (obj_to_ahs ?x) = act_p_copy m (obj_to_ahs ?x) \<or>
      act_p_copy ?m (obj_to_ahs ?x) = NULL \<and> obj_heap ?m ?x = obj_heap m (act_p_copy m (obj_to_ahs ?x))"
    unfolding same_reads_def Let_def by blast
  with reclaim_run_detaches [OF srt qp w c t nn refl clk, of h] show ?thesis by (auto simp: new)
qed

text \<open>Which actual objects are freed.\<close>

definition frees :: "mem \<Rightarrow> addr list \<Rightarrow> addr set" where
  "frees m cs = {obj_to_ahs (p_act (chs_heap m c)) | c. c \<in> set cs \<and> cpy_type m c = TYPE_FREE}"

lemma fold_reclaim_live:
  "ahs_live (fold (reclaim_obj quiet rc wb) cs m) =
     (\<lambda>a. ahs_live m a \<and> \<not> (rc \<and> a \<in> frees m cs))"
proof (induction cs arbitrary: m)
  case Nil
  then show ?case by (simp add: frees_def)
next
  case (Cons c cs)
  have h: "chs_heap (reclaim_obj quiet rc wb c m) = chs_heap m"
    by (simp add: reclaim_obj_quiet free_obj_def)
  then have f: "frees (reclaim_obj quiet rc wb c m) cs = frees m cs"
    by (simp add: frees_def cpy_type_def)
  show ?case
    unfolding fold.simps o_def Cons.IH f
    by (auto simp: reclaim_obj_quiet free_obj_def frees_def fun_eq_iff)
qed

lemma reclaim_run_live:
  assumes "clks_sorted l m ws" and "clock_ok qp1" and "qp2 \<le> qp1"
  shows "ahs_live (snd (reclaim_run quiet l qp1 qp2 ws h m)) =
    (\<lambda>a. ahs_live m a \<and> (\<forall>w \<in> set (reclaimed l m qp2 ws). a \<notin> frees m (ws_entries l w)))"
  using assms(1)
proof (induction ws arbitrary: h m)
  case Nil
  then show ?case by (simp add: reclaimed_def)
next
  case (Cons w ws)
  let ?clk = "ws_clk l m w"
  let ?rc = "lte_clock ?clk qp2"
  let ?wb = "\<not> ?rc \<and> lte_clock ?clk qp1"
  define m1 where "m1 = fold (reclaim_obj quiet ?rc ?wb) (ws_entries l w) m"
  have clk: "ws_clk l m1 = ws_clk l m" and fr: "frees m1 = frees m"
    using fold_reclaim_heaps by (auto simp: ws_clk_def frees_def cpy_type_def fun_eq_iff m1_def)
  have srt: "clks_sorted l m ws" "\<forall>v \<in> set ws. ?clk \<le> ws_clk l m v" "clock_ok ?clk"
    "\<forall>v \<in> set ws. clock_ok (ws_clk l m v)"
    using Cons.prems by (auto simp: clks_sorted_def)
  have "clks_sorted l m1 ws" using srt(1) by (simp add: clks_sorted_def clk)
  note IH = Cons.IH [OF this]
  have rec: "reclaimed l m1 qp2 ws = reclaimed l m qp2 ws" by (simp add: reclaimed_def clk)
  have live: "ahs_live m1 = (\<lambda>a. ahs_live m a \<and> \<not> (?rc \<and> a \<in> frees m (ws_entries l w)))"
    unfolding m1_def by (rule fold_reclaim_live)
  have run: "reclaim_run quiet l qp1 qp2 (w # ws) h m =
      (if gte_clock ?clk qp1 then (h, m)
       else reclaim_run quiet l qp1 qp2 ws (if ?rc then of_nat (ws_end w) else h) m1)"
    unfolding m1_def reclaim_run.simps Let_def ..
  show ?case
  proof (cases ?rc)
    case True
    then have "reclaimed l m qp2 (w # ws) = w # reclaimed l m qp2 ws" by (simp add: reclaimed_def)
    then show ?thesis
      unfolding run using True lte_qp2_not_gte_qp1 [OF srt(3) assms(2,3) True]
      by (auto simp: IH rec fr live)
  next
    case False
    then have "\<forall>v \<in> set (w # ws). \<not> lte_clock (ws_clk l m v) qp2"
      using srt ordo.sees_older [OF srt(3)] by auto
    then have "reclaimed l m qp2 (w # ws) = []" "reclaimed l m qp2 ws = []"
      by (cases ws; simp add: reclaimed_def)+
    then show ?thesis unfolding run using False by (auto simp: IH rec live)
  qed
qed

end
