(* ===== verification/Thread_List.thy ===== *)
theory Thread_List
  imports Mvrlu_Types
begin

text \<open>
  The circular doubly linked lists of \<open>kernel/mvrlu/mvrlu.c\<close> and the lists of live and zombie
  threads built on them.  The list operations work on a heap of \<open>next\<close> and \<open>prev\<close>
  pointers; \<open>dlist\<close> relates such a heap to the Isabelle list of the nodes behind a head node.
  The locale \<open>circular_list\<close> is the contract the thread lists rely on.
\<close>

section \<open>Circular doubly linked lists\<close>

record list_heap =
  l_next :: "addr \<Rightarrow> addr"
  l_prev :: "addr \<Rightarrow> addr"

definition set_next :: "addr \<Rightarrow> addr \<Rightarrow> list_heap \<Rightarrow> list_heap" where
  "set_next p v h = h\<lparr>l_next := (l_next h)(p := v)\<rparr>"

definition set_prev :: "addr \<Rightarrow> addr \<Rightarrow> list_heap \<Rightarrow> list_heap" where
  "set_prev p v h = h\<lparr>l_prev := (l_prev h)(p := v)\<rparr>"

definition init_mvrlu_list :: "addr \<Rightarrow> list_heap \<Rightarrow> list_heap" where
  "init_mvrlu_list list h =
     (let h1 = set_next list list h
      in set_prev list list h1)"

definition mvrlu_list_add :: "addr \<Rightarrow> addr \<Rightarrow> list_heap \<Rightarrow> list_heap" where
  "mvrlu_list_add new head h =
     (let h1 = set_prev (l_next h head) new h;
          h2 = set_next new (l_next h1 head) h1;
          h3 = set_prev new head h2
      in set_next head new h3)"

definition mvrlu_list_del :: "addr \<Rightarrow> list_heap \<Rightarrow> list_heap" where
  "mvrlu_list_del entry h =
     (let h1 = set_prev (l_next h entry) (l_prev h entry) h
      in set_next (l_prev h1 entry) (l_next h1 entry) h1)"

definition mvrlu_list_empty :: "addr \<Rightarrow> list_heap \<Rightarrow> bool" where
  "mvrlu_list_empty head h \<longleftrightarrow> l_next h head = head \<and> l_prev h head = head"

definition mvrlu_list_rotate_left :: "addr \<Rightarrow> list_heap \<Rightarrow> list_heap" where
  "mvrlu_list_rotate_left head h =
     (if \<not> mvrlu_list_empty head h then
        let first = l_next h head;
            h1 = mvrlu_list_del first h
        in mvrlu_list_add first (l_prev h1 head) h1
      else h)"

text \<open>
  The nodes visited by \<open>for (pos = head->next; pos != head; pos = pos->next)\<close>.  On a heap
  that is not a list the walk need not return to the head.
\<close>

partial_function (option) list_walk :: "list_heap \<Rightarrow> addr \<Rightarrow> addr \<Rightarrow> addr list option" where
  "list_walk h head pos =
     (if pos = head then Some []
      else Option.bind (list_walk h head (l_next h pos)) (\<lambda>ps. Some (pos # ps)))"

definition list_for_each :: "list_heap \<Rightarrow> addr \<Rightarrow> addr list option" where
  "list_for_each h head = list_walk h head (l_next h head)"

section \<open>Heaps that hold a list\<close>

fun linked :: "list_heap \<Rightarrow> addr \<Rightarrow> addr list \<Rightarrow> addr \<Rightarrow> bool" where
  "linked h a [] b \<longleftrightarrow> l_next h a = b \<and> l_prev h b = a"
| "linked h a (x # xs) b \<longleftrightarrow> l_next h a = x \<and> l_prev h x = a \<and> linked h x xs b"

definition dlist :: "list_heap \<Rightarrow> addr \<Rightarrow> addr list \<Rightarrow> bool" where
  "dlist h head xs \<longleftrightarrow> distinct (head # xs) \<and> linked h head xs head"

lemma set_next_sel [simp]:
  "l_next (set_next p v h) = (l_next h)(p := v)" "l_prev (set_next p v h) = l_prev h"
  by (simp_all add: set_next_def)

lemma set_prev_sel [simp]:
  "l_next (set_prev p v h) = l_next h" "l_prev (set_prev p v h) = (l_prev h)(p := v)"
  by (simp_all add: set_prev_def)

lemma linked_append:
  "linked h a (xs @ y # ys) b \<longleftrightarrow> linked h a xs y \<and> linked h y ys b"
  by (induction xs arbitrary: a) auto

lemma linked_set_next: "u \<notin> set (a # xs) \<Longrightarrow> linked (set_next u v h) a xs b = linked h a xs b"
  by (induction xs arbitrary: a) auto

lemma linked_set_prev: "u \<notin> set (xs @ [b]) \<Longrightarrow> linked (set_prev u v h) a xs b = linked h a xs b"
  by (induction xs arbitrary: a) auto

lemma linked_last_next:
  "linked h a xs b \<Longrightarrow> l_next h (last (a # xs)) = b \<and> l_prev h b = last (a # xs)"
  by (induction xs arbitrary: a) auto

lemma linked_first: "linked h a xs b \<Longrightarrow> l_next h a = hd (xs @ [b]) \<and> l_prev h (hd (xs @ [b])) = a"
  by (cases xs) auto

text \<open>Redirecting the last \<open>next\<close> and the final \<open>prev\<close> of a segment.\<close>

lemma linked_retarget_snoc:
  "\<lbrakk>linked h a xs b; distinct (a # xs); c \<notin> set xs; b \<notin> set xs\<rbrakk> \<Longrightarrow>
   linked (set_next (last (a # xs)) c (set_prev c (last (a # xs)) h)) a xs c"
  by (induction xs arbitrary: a) (auto simp: linked_set_next linked_set_prev)

section \<open>The list operations on represented lists\<close>

lemma init_mvrlu_list_dlist: "dlist (init_mvrlu_list list h) list []"
  by (simp add: dlist_def init_mvrlu_list_def Let_def)

lemma mvrlu_list_add_dlist:
  assumes "dlist h head xs" and "new \<notin> set (head # xs)"
  shows "dlist (mvrlu_list_add new head h) head (new # xs)"
proof (cases xs)
  case Nil
  with assms show ?thesis
    by (auto simp: dlist_def mvrlu_list_add_def Let_def)
next
  case (Cons y ys)
  with assms have d: "distinct (head # y # ys)" "new \<notin> {head, y} \<union> set ys"
      and n: "l_next h head = y" and l: "linked h y ys head"
    by (auto simp: dlist_def)
  let ?h = "mvrlu_list_add new head h"
  have eq: "?h = set_next head new (set_prev new head (set_next new y (set_prev y new h)))"
    using n by (simp add: mvrlu_list_add_def Let_def)
  have "linked ?h y ys head"
    unfolding eq using d l by (auto simp: linked_set_next linked_set_prev)
  with d show ?thesis unfolding Cons by (auto simp: dlist_def eq)
qed

lemma mvrlu_list_del_dlist:
  assumes "dlist h head (xs @ x # ys)"
  shows "dlist (mvrlu_list_del x h) head (xs @ ys)"
proof -
  from assms have d: "distinct (head # xs @ x # ys)"
      and l1: "linked h head xs x" and l2: "linked h x ys head"
    by (auto simp: dlist_def linked_append)
  let ?p = "last (head # xs)" and ?n = "hd (ys @ [head])"
  from l1 have p: "l_prev h x = ?p" by (rule linked_last_next [THEN conjunct2])
  from l2 have n: "l_next h x = ?n" by (rule linked_first [THEN conjunct1])
  have neq: "?n \<noteq> x" "?p \<noteq> x"
    using d by (cases ys; auto)(use d in \<open>auto split: if_splits\<close>)
  have eq: "mvrlu_list_del x h = set_next ?p ?n (set_prev ?n ?p h)"
    using p n neq by (simp add: mvrlu_list_del_def Let_def)
  have "linked (set_next ?p ?n (set_prev ?n ?p h)) head xs ?n"
  proof (rule linked_retarget_snoc [OF l1])
    show "distinct (head # xs)" "?n \<notin> set xs" "x \<notin> set xs"
      using d by (cases ys; auto)+
  qed
  moreover have "ys \<noteq> [] \<Longrightarrow> linked (set_next ?p ?n (set_prev ?n ?p h)) ?n (tl ys) head"
  proof -
    assume ne: "ys \<noteq> []"
    then obtain z zs where ys: "ys = z # zs" by (cases ys) auto
    have "?p \<notin> set (z # zs)" using d ys last_in_set [of xs] by (auto simp: disjoint_iff)
    moreover have "z \<notin> set (zs @ [head])" using d ys by auto
    ultimately show ?thesis using l2 ys by (simp add: linked_set_next linked_set_prev)
  qed
  ultimately have "linked (mvrlu_list_del x h) head (xs @ ys) head"
    unfolding eq by (cases ys) (auto simp: linked_append)
  with d show ?thesis by (auto simp: dlist_def)
qed

lemma mvrlu_list_empty_dlist:
  assumes "dlist h head xs"
  shows "mvrlu_list_empty head h \<longleftrightarrow> xs = []"
  using assms by (cases xs) (auto simp: dlist_def mvrlu_list_empty_def)

lemma dlist_shift_head:
  assumes "dlist h head (xs @ [y])"
  shows "linked h y (head # xs) y"
  using assms by (auto simp: dlist_def linked_append)

text \<open>Inserting behind the last node puts the new node in front of the head: at the end.\<close>

lemma mvrlu_list_add_at_end:
  assumes "dlist h head xs" and "new \<notin> set (head # xs)"
  shows "dlist (mvrlu_list_add new (l_prev h head) h) head (xs @ [new])"
proof -
  from assms have d: "distinct (head # xs)" and l: "linked h head xs head"
    by (auto simp: dlist_def)
  let ?p = "last (head # xs)"
  from l have p: "l_prev h head = ?p" "l_next h ?p = head"
    by (auto dest: linked_last_next)
  have pn: "?p \<noteq> new" using assms(2) by (auto split: if_splits)
  have eq: "mvrlu_list_add new (l_prev h head) h =
      set_next ?p new (set_prev new ?p (set_next new head (set_prev head new h)))"
    unfolding p(1) using p(2) by (simp add: mvrlu_list_add_def Let_def)
  let ?h1 = "set_next new head (set_prev head new h)"
  show ?thesis
  proof (cases xs)
    case Nil
    with assms show ?thesis by (auto simp: dlist_def mvrlu_list_add_def Let_def)
  next
    case (Cons y ys)
    have l1: "linked h head xs head" by (rule l)
    have "linked (set_next ?p new (set_prev new ?p h)) head xs new"
      by (rule linked_retarget_snoc [OF l1]) (use d assms(2) in auto)
    then have "linked (set_next ?p new (set_prev new ?p (set_next new head (set_prev head new h))))
        head xs new"
    proof -
      assume a: "linked (set_next ?p new (set_prev new ?p h)) head xs new"
      have "set_next ?p new (set_prev new ?p (set_next new head (set_prev head new h))) =
          set_next new head (set_prev head new (set_next ?p new (set_prev new ?p h)))"
        using pn assms(2) by (auto simp: set_next_def set_prev_def fun_upd_twist)
      moreover have "new \<notin> set (head # xs)" "head \<notin> set (xs @ [new])"
        using d assms(2) by auto
      ultimately show ?thesis using a by (simp add: linked_set_next linked_set_prev)
    qed
    moreover have "linked (mvrlu_list_add new (l_prev h head) h) new [] head"
      unfolding eq using pn assms(2) by auto
    ultimately have "linked (mvrlu_list_add new (l_prev h head) h) head (xs @ [new]) head"
      unfolding eq by (simp only: linked_append)
    with d assms(2) show ?thesis by (auto simp: dlist_def)
  qed
qed

lemma mvrlu_list_rotate_left_dlist:
  assumes "dlist h head xs"
  shows "dlist (mvrlu_list_rotate_left head h) head (rotate1 xs)"
proof (cases xs)
  case Nil
  with assms show ?thesis
    by (simp add: mvrlu_list_rotate_left_def mvrlu_list_empty_dlist [OF assms])
next
  case (Cons y ys)
  with assms have first: "l_next h head = y" and del: "dlist (mvrlu_list_del y h) head ys"
      and new: "y \<notin> set (head # ys)"
    using mvrlu_list_del_dlist [of h head "[]" y ys] by (auto simp: dlist_def)
  from mvrlu_list_add_at_end [OF del new] show ?thesis
    using Cons first by (simp add: mvrlu_list_rotate_left_def mvrlu_list_empty_dlist [OF assms] Let_def)
qed

lemma list_walk_linked:
  assumes "linked h a xs head" and "head \<notin> set xs"
  shows "list_walk h head (l_next h a) = Some xs"
  using assms
proof (induction xs arbitrary: a)
  case Nil
  then show ?case by (subst list_walk.simps) simp
next
  case (Cons x xs)
  then have "list_walk h head (l_next h x) = Some xs" by simp
  with Cons.prems show ?case by (subst list_walk.simps) auto
qed

lemma list_for_each_dlist: "dlist h head xs \<Longrightarrow> list_for_each h head = Some xs"
  by (simp add: list_for_each_def list_walk_linked dlist_def)

lemma dlist_distinct: "dlist h head xs \<Longrightarrow> distinct xs"
  by (simp add: dlist_def)

lemma dlist_unique: "dlist h head xs \<Longrightarrow> dlist h head ys \<Longrightarrow> xs = ys"
  by (metis list_for_each_dlist option.inject)

section \<open>The contract of a circular list\<close>

locale circular_list =
  fixes repr :: "'h \<Rightarrow> addr list \<Rightarrow> bool"
    and init :: "'h \<Rightarrow> 'h"
    and insert_front :: "addr \<Rightarrow> 'h \<Rightarrow> 'h"
    and delete :: "addr \<Rightarrow> 'h \<Rightarrow> 'h"
    and rotate_left :: "'h \<Rightarrow> 'h"
    and is_empty :: "'h \<Rightarrow> bool"
    and fresh :: "addr \<Rightarrow> bool"
  assumes repr_init: "repr (init h) []"
    and repr_insert: "\<lbrakk>repr h xs; fresh x; x \<notin> set xs\<rbrakk> \<Longrightarrow> repr (insert_front x h) (x # xs)"
    and repr_delete: "repr h (xs @ x # ys) \<Longrightarrow> repr (delete x h) (xs @ ys)"
    and repr_rotate: "repr h xs \<Longrightarrow> repr (rotate_left h) (rotate1 xs)"
    and repr_is_empty: "repr h xs \<Longrightarrow> is_empty h \<longleftrightarrow> xs = []"
    and repr_distinct: "repr h xs \<Longrightarrow> distinct xs"
begin

lemma repr_delete_member: "repr h xs \<Longrightarrow> x \<in> set xs \<Longrightarrow> repr (delete x h) (remove1 x xs)"
  by (auto dest!: split_list_first simp: remove1_append repr_delete)

lemma repr_insert_delete:
  "\<lbrakk>repr h xs; fresh x; x \<notin> set xs\<rbrakk> \<Longrightarrow> repr (delete x (insert_front x h)) xs"
  using repr_delete [of "insert_front x h" "[]" x xs] by (simp add: repr_insert)

lemma repr_rotate_iter: "repr h xs \<Longrightarrow> repr ((rotate_left ^^ n) h) (rotate n xs)"
  by (induction n) (auto simp: repr_rotate rotate_def)

text \<open>Rotating once per round brings every member to the front within one cycle.\<close>

lemma rotate_reaches_front:
  assumes "repr h xs" and "x \<in> set xs"
  shows "\<exists>n < length xs. \<exists>ys. repr ((rotate_left ^^ n) h) (x # ys)"
proof -
  from assms(2) obtain n where n: "n < length xs" "xs ! n = x"
    by (auto simp: in_set_conv_nth)
  then have "rotate n xs = x # (drop (Suc n) xs @ take n xs)"
    by (simp add: rotate_drop_take Cons_nth_drop_Suc [symmetric])
  with repr_rotate_iter [OF assms(1), of n] n(1) show ?thesis by metis
qed

end

interpretation mvl: circular_list
  "\<lambda>h xs. dlist h head xs" "init_mvrlu_list head" "\<lambda>x. mvrlu_list_add x head" mvrlu_list_del
  "mvrlu_list_rotate_left head" "mvrlu_list_empty head" "\<lambda>x. x \<noteq> head"
  for head
  by unfold_locales
    (auto simp: init_mvrlu_list_dlist mvrlu_list_add_dlist mvrlu_list_del_dlist
      mvrlu_list_rotate_left_dlist mvrlu_list_empty_dlist dest: dlist_distinct)

section \<open>Operations leave other lists alone\<close>

lemma linked_cong:
  "\<lbrakk>\<forall>x \<in> set (a # xs). l_next h' x = l_next h x; \<forall>x \<in> set (xs @ [b]). l_prev h' x = l_prev h x\<rbrakk>
   \<Longrightarrow> linked h' a xs b = linked h a xs b"
  by (induction xs arbitrary: a) auto

lemma dlist_cong:
  "\<forall>x \<in> set (head # xs). l_next h' x = l_next h x \<and> l_prev h' x = l_prev h x \<Longrightarrow>
   dlist h' head xs = dlist h head xs"
  using linked_cong [of head xs h' h head] by (auto simp: dlist_def)

lemma dlist_next_prev_mem:
  assumes "dlist h head xs" and "x \<in> set (head # xs)"
  shows "l_next h x \<in> set (head # xs) \<and> l_prev h x \<in> set (head # xs)"
proof (cases "x = head")
  case True
  from assms(1) have l: "linked h head xs head" by (simp add: dlist_def)
  have "hd (xs @ [head]) \<in> set (head # xs)" by (cases xs) auto
  moreover have "last (head # xs) \<in> set (head # xs)" by (rule last_in_set) simp
  ultimately show ?thesis
    unfolding True linked_first [OF l, THEN conjunct1] linked_last_next [OF l, THEN conjunct2] ..
next
  case False
  with assms(2) obtain ys zs where xs: "xs = ys @ x # zs"
    by (auto dest: split_list)
  with assms(1) have l: "linked h head ys x" "linked h x zs head"
    by (auto simp: dlist_def linked_append)
  have "hd (zs @ [head]) \<in> set (head # xs)" using xs by (cases zs) auto
  moreover have "last (head # ys) \<in> set (head # xs)"
    using last_in_set [of "head # ys"] xs by auto
  ultimately show ?thesis
    unfolding linked_first [OF l(2), THEN conjunct1] linked_last_next [OF l(1), THEN conjunct2] ..
qed

lemma dlist_next_neq:
  assumes "dlist h head xs" and "x \<in> set xs"
  shows "l_next h x \<noteq> x"
proof -
  from assms(2) obtain ys zs where xs: "xs = ys @ x # zs"
    by (auto dest: split_list)
  with assms(1) have "l_next h x = hd (zs @ [head])"
    by (auto simp: dlist_def linked_append dest: linked_first)
  with assms(1) xs show ?thesis by (cases zs) (auto simp: dlist_def)
qed

lemma mvrlu_list_add_other:
  assumes "dlist h head xs" and "dlist h other ys"
    and "set (other # ys) \<inter> set (new # head # xs) = {}"
  shows "dlist (mvrlu_list_add new head h) other ys"
proof -
  have "l_next h head \<in> set (head # xs)"
    using dlist_next_prev_mem [OF assms(1)] by simp
  then have "dlist (mvrlu_list_add new head h) other ys = dlist h other ys"
    using assms(3) by (intro dlist_cong) (auto simp: mvrlu_list_add_def Let_def)
  with assms(2) show ?thesis by simp
qed

lemma mvrlu_list_del_other:
  assumes "dlist h head xs" and "x \<in> set xs" and "dlist h other ys"
    and "set (other # ys) \<inter> set (head # xs) = {}"
  shows "dlist (mvrlu_list_del x h) other ys"
proof -
  have "l_next h x \<in> set (head # xs)" "l_prev h x \<in> set (head # xs)"
    using dlist_next_prev_mem [OF assms(1)] assms(2) by auto
  moreover have "l_next h x \<noteq> x" using assms(1,2) by (rule dlist_next_neq)
  ultimately have "dlist (mvrlu_list_del x h) other ys = dlist h other ys"
    using assms(4) by (intro dlist_cong) (auto simp: mvrlu_list_del_def Let_def)
  with assms(3) show ?thesis by simp
qed

section \<open>Lists of threads\<close>

record thread_list =
  tl_lock :: bool
  thread_wait :: bool
  cur_tid :: u32
  tl_num :: u32
  tl_list :: addr \<comment> \<open>the address of the head node\<close>

text \<open>
  A spinlock that is free is taken; one that is held makes the caller spin, and the state in
  which it spins is the one others see.
\<close>

datatype 'a lock_result = Acquired 'a | Spinning 'a

text \<open>The list node sits at a fixed offset in the thread structure.\<close>

definition offset_list :: addr where
  "offset_list = 4976"

definition list_to_thread :: "addr \<Rightarrow> addr" where
  "list_to_thread l = l - offset_list"

definition thread_to_list :: "addr \<Rightarrow> addr" where
  "thread_to_list t = t + offset_list"

definition thread_list_for_each :: "list_heap \<Rightarrow> thread_list \<Rightarrow> addr list option" where
  "thread_list_for_each h tlist = map_option (map list_to_thread) (list_for_each h (tl_list tlist))"

definition thread_list_has_waiter :: "thread_list \<Rightarrow> bool" where
  "thread_list_has_waiter tlist = thread_wait tlist"

definition init_thread_list :: "thread_list \<Rightarrow> list_heap \<Rightarrow> thread_list \<times> list_heap" where
  "init_thread_list tlist h =
     (tlist\<lparr>tl_lock := False, cur_tid := 0, tl_num := 0\<rparr>, init_mvrlu_list (tl_list tlist) h)"

definition thread_list_lock :: "thread_list \<Rightarrow> thread_list lock_result" where
  "thread_list_lock tlist = (if tl_lock tlist then Spinning tlist else Acquired (tlist\<lparr>tl_lock := True\<rparr>))"

definition thread_list_lock_force :: "thread_list \<Rightarrow> thread_list lock_result" where
  "thread_list_lock_force tlist =
     (if tl_lock tlist
      then thread_list_lock (if thread_wait tlist then tlist else tlist\<lparr>thread_wait := True\<rparr>)
      else Acquired (tlist\<lparr>tl_lock := True\<rparr>))"

definition thread_list_unlock :: "thread_list \<Rightarrow> thread_list" where
  "thread_list_unlock tlist =
     (let tl1 = (if thread_wait tlist then tlist\<lparr>thread_wait := False\<rparr> else tlist)
      in tl1\<lparr>tl_lock := False\<rparr>)"

definition thread_list_add ::
    "thread_list \<Rightarrow> addr \<Rightarrow> mvrlu_thread_struct \<Rightarrow> list_heap \<Rightarrow>
     (thread_list \<times> mvrlu_thread_struct \<times> list_heap) lock_result" where
  "thread_list_add tlist self thr h =
     (case thread_list_lock_force tlist of
        Spinning tl1 \<Rightarrow> Spinning (tl1, thr, h)
      | Acquired tl1 \<Rightarrow>
          let thr1 = thr\<lparr>tid := cur_tid tl1\<rparr>;
              tl2 = tl1\<lparr>cur_tid := cur_tid tl1 + 1\<rparr>;
              tl3 = tl2\<lparr>tl_num := tl_num tl2 + 1\<rparr>;
              h1 = mvrlu_list_add (thread_to_list self) (tl_list tl3) h
          in Acquired (thread_list_unlock tl3, thr1, h1))"

definition thread_list_del_unsafe ::
    "thread_list \<Rightarrow> addr \<Rightarrow> list_heap \<Rightarrow> thread_list \<times> list_heap" where
  "thread_list_del_unsafe tlist self h =
     (let tl1 = tlist\<lparr>tl_num := tl_num tlist - 1\<rparr>;
          h1 = mvrlu_list_del (thread_to_list self) h;
          h2 = set_next (thread_to_list self) NULL h1
      in (tl1, set_prev (thread_to_list self) NULL h2))"

definition thread_list_del ::
    "thread_list \<Rightarrow> addr \<Rightarrow> list_heap \<Rightarrow> (thread_list \<times> list_heap) lock_result" where
  "thread_list_del tlist self h =
     (case thread_list_lock_force tlist of
        Spinning tl1 \<Rightarrow> Spinning (tl1, h)
      | Acquired tl1 \<Rightarrow>
          let (tl2, h1) = thread_list_del_unsafe tl1 self h
          in Acquired (thread_list_unlock tl2, h1))"

definition thread_list_rotate_left_unsafe :: "thread_list \<Rightarrow> list_heap \<Rightarrow> list_heap" where
  "thread_list_rotate_left_unsafe tlist h = mvrlu_list_rotate_left (tl_list tlist) h"

text \<open>The invariant of a thread list: its nodes are those of the threads, and it counts them.\<close>

definition tl_inv :: "thread_list \<Rightarrow> list_heap \<Rightarrow> addr list \<Rightarrow> bool" where
  "tl_inv tlist h ts \<longleftrightarrow>
     dlist h (tl_list tlist) (map thread_to_list ts) \<and> tl_num tlist = of_nat (length ts)"

lemma list_to_thread_to_list [simp]: "list_to_thread (thread_to_list t) = t"
  by (simp add: list_to_thread_def thread_to_list_def)

lemma thread_to_list_inj [simp]: "thread_to_list t = thread_to_list u \<longleftrightarrow> t = u"
  by (simp add: thread_to_list_def)

lemma thread_to_list_image [simp]: "thread_to_list t \<in> thread_to_list ` A \<longleftrightarrow> t \<in> A"
  by auto

lemma thread_list_for_each_inv: "tl_inv tlist h ts \<Longrightarrow> thread_list_for_each h tlist = Some ts"
  by (auto simp: thread_list_for_each_def tl_inv_def comp_def dest: list_for_each_dlist)

lemma init_thread_list_inv: "init_thread_list tlist h = (tl', h') \<Longrightarrow> tl_inv tl' h' []"
  by (auto simp: init_thread_list_def tl_inv_def init_mvrlu_list_dlist)

lemma thread_list_unlock_sel [simp]:
  "tl_lock (thread_list_unlock tlist) = False" "thread_wait (thread_list_unlock tlist) = False"
  "cur_tid (thread_list_unlock tlist) = cur_tid tlist" "tl_num (thread_list_unlock tlist) = tl_num tlist"
  "tl_list (thread_list_unlock tlist) = tl_list tlist"
  by (simp_all add: thread_list_unlock_def Let_def)

lemma thread_list_lock_force_free:
  "\<not> tl_lock tlist \<Longrightarrow> thread_list_lock_force tlist = Acquired (tlist\<lparr>tl_lock := True\<rparr>)"
  by (simp add: thread_list_lock_force_def)

lemma thread_list_lock_force_held:
  "tl_lock tlist \<Longrightarrow> thread_list_lock_force tlist = Spinning (tlist\<lparr>thread_wait := True\<rparr>)"
  by (cases tlist) (simp add: thread_list_lock_force_def thread_list_lock_def)

lemma thread_list_add_inv:
  assumes "tl_inv tlist h ts" and "\<not> tl_lock tlist"
    and "self \<notin> set ts" and "thread_to_list self \<noteq> tl_list tlist"
  shows "\<exists>tl' thr' h'. thread_list_add tlist self thr h = Acquired (tl', thr', h') \<and>
     tl_inv tl' h' (self # ts) \<and> tid thr' = cur_tid tlist \<and> cur_tid tl' = cur_tid tlist + 1 \<and>
     \<not> tl_lock tl' \<and> tl_list tl' = tl_list tlist \<and>
     h' = mvrlu_list_add (thread_to_list self) (tl_list tlist) h \<and> thr' = thr\<lparr>tid := cur_tid tlist\<rparr>"
  using assms
  by (auto simp: thread_list_add_def thread_list_lock_force_free Let_def tl_inv_def
      intro!: mvrlu_list_add_dlist)

lemma thread_list_del_unsafe_inv:
  assumes "tl_inv tlist h (ts @ self # us)" and "thread_list_del_unsafe tlist self h = (tl', h')"
  shows "tl_inv tl' h' (ts @ us)"
proof -
  let ?n = "thread_to_list self"
  from assms(1) have d: "dlist h (tl_list tlist) (map thread_to_list ts @ ?n # map thread_to_list us)"
    by (simp add: tl_inv_def)
  from mvrlu_list_del_dlist [OF d]
  have del: "dlist (mvrlu_list_del ?n h) (tl_list tlist) (map thread_to_list (ts @ us))" by simp
  have "dlist (set_prev ?n NULL (set_next ?n NULL (mvrlu_list_del ?n h))) (tl_list tlist)
      (map thread_to_list (ts @ us))"
    using d by (subst dlist_cong [of _ _ _ "mvrlu_list_del ?n h"]) (use del in \<open>auto simp: dlist_def\<close>)
  with assms show ?thesis
    by (auto simp: thread_list_del_unsafe_def Let_def tl_inv_def)
qed

lemma thread_list_del_inv:
  assumes "tl_inv tlist h ts" and "self \<in> set ts" and "\<not> tl_lock tlist"
  shows "\<exists>tl' h'. thread_list_del tlist self h = Acquired (tl', h') \<and>
     tl_inv tl' h' (remove1 self ts) \<and> \<not> tl_lock tl' \<and> tl_list tl' = tl_list tlist"
proof -
  from assms(2) obtain us vs where ts: "ts = us @ self # vs" "self \<notin> set us"
    by (meson split_list_first)
  let ?tlist = "tlist\<lparr>tl_lock := True\<rparr>"
  obtain tl' h' where del: "thread_list_del_unsafe ?tlist self h = (tl', h')"
    by (cases "thread_list_del_unsafe ?tlist self h")
  have "tl_inv ?tlist h (us @ self # vs)" using assms(1) ts by (simp add: tl_inv_def)
  from thread_list_del_unsafe_inv [OF this del] have "tl_inv tl' h' (us @ vs)" .
  moreover have "tl_list tl' = tl_list tlist"
    using del by (auto simp: thread_list_del_unsafe_def Let_def)
  ultimately show ?thesis
    using assms(3) ts del
    by (simp add: thread_list_del_def thread_list_lock_force_free tl_inv_def remove1_append)
qed

lemma thread_list_rotate_inv:
  "tl_inv tlist h ts \<Longrightarrow> tl_inv tlist (thread_list_rotate_left_unsafe tlist h) (rotate1 ts)"
  using mvl.repr_rotate [of h "tl_list tlist" "map thread_to_list ts"]
  by (simp add: tl_inv_def thread_list_rotate_left_unsafe_def rotate1_map)

end
