(* ===== verification/Mvrlu_System.thy ===== *)
theory Mvrlu_System
  imports Mvrlu_Commit Mvrlu_Reclaim Thread_List
begin

text \<open>
  The global state of MV-RLU (the static variables of \<open>kernel/mvrlu/mvrlu.c\<close>, the log pool of
  the port layer, memory, and all thread structures) and the operations that work on it on behalf
  of the quiescence thread: forcing reclamation, the \<open>qp_*\<close> functions and the main loop of the
  quiescence thread.

  Operations that wait for other threads are partial functions.  What the other threads do is the
  record \<open>interference\<close>: \<open>e_wait\<close> while an operation waits, the others around a
  compare-and-swap.  Waiting is counted in \<open>n_waits\<close>, so that \<open>e_wait\<close> can depend on how
  often it was called.
\<close>

section \<open>State\<close>

record mvrlu_sys =
  threads :: "addr \<Rightarrow> mvrlu_thread_struct"
  thr_alloc :: "addr \<Rightarrow> bool"
  lists :: list_heap
  g_live_threads :: thread_list
  g_zombie_threads :: thread_list
  g_qp_thread :: mvrlu_qp_thread
  until_counter :: u32
  init_flag :: bool
  memory :: mem
  port_logs :: log_allocator
  n_rdtsc :: nat
  n_waits :: nat

record interference =
  e_wait :: "mvrlu_sys \<Rightarrow> mvrlu_sys"
  e_lock1 :: "mem \<Rightarrow> mem"
  e_lock2 :: "mem \<Rightarrow> mem"
  e_link :: "addr \<Rightarrow> nat \<Rightarrow> mem \<Rightarrow> mem"
  e_detach :: "addr \<Rightarrow> mem \<Rightarrow> mem"

definition upd_thread :: "addr \<Rightarrow> (mvrlu_thread_struct \<Rightarrow> mvrlu_thread_struct) \<Rightarrow> mvrlu_sys \<Rightarrow> mvrlu_sys" where
  "upd_thread t f s = s\<lparr>threads := (threads s)(t := f (threads s t))\<rparr>"

definition set_log :: "addr \<Rightarrow> mvrlu_log \<Rightarrow> mvrlu_sys \<Rightarrow> mvrlu_sys" where
  "set_log t l = upd_thread t (\<lambda>thr. thr\<lparr>thr_log := l\<rparr>)"

definition log_of :: "mvrlu_sys \<Rightarrow> addr \<Rightarrow> mvrlu_log" where
  "log_of s t = thr_log (threads s t)"

text \<open>\<open>port_cpu_relax_and_yield(); smp_mb();\<close> while others run.\<close>

definition yield :: "interference \<Rightarrow> mvrlu_sys \<Rightarrow> mvrlu_sys" where
  "yield env s = e_wait env (s\<lparr>n_waits := Suc (n_waits s)\<rparr>)"

section \<open>Reclaiming the log of a thread\<close>

definition reclaim_thread :: "interference \<Rightarrow> addr \<Rightarrow> mvrlu_sys \<Rightarrow> mvrlu_sys option" where
  "reclaim_thread env t s =
     map_option (\<lambda>(l, m). set_log t l (s\<lparr>memory := m\<rparr>)) (log_reclaim (e_detach env) (log_of s t) (memory s))"

text \<open>The wake-up itself (a condition variable) has no other effect on the state.\<close>

definition wakeup_qp_thread_for_reclaim :: "mvrlu_sys \<Rightarrow> bool \<times> mvrlu_sys" where
  "wakeup_qp_thread_for_reclaim s =
     (if \<not> qp_need_reclaim (g_qp_thread s)
      then (True, s\<lparr>g_qp_thread := (g_qp_thread s)\<lparr>qp_need_reclaim := True\<rparr>\<rparr>)
      else (False, s))"

partial_function (option) await_need_reclaim ::
    "interference \<Rightarrow> addr \<Rightarrow> u32 \<Rightarrow> mvrlu_sys \<Rightarrow> mvrlu_sys option" where
  "await_need_reclaim env t cnt s =
     (let s1 = yield env s;
          cnt1 = cnt + 1;
          (s2, cnt2) = (if cnt1 > until_counter s1
                        then (snd (wakeup_qp_thread_for_reclaim s1), 0) else (s1, cnt1))
      in if \<not> need_reclaim (log_of s2 t) then await_need_reclaim env t cnt2 s2 else Some s2)"

definition log_reclaim_force :: "interference \<Rightarrow> addr \<Rightarrow> mvrlu_sys \<Rightarrow> mvrlu_sys option" where
  "log_reclaim_force env t s =
     (if need_reclaim (log_of s t) then reclaim_thread env t s
      else if head_cnt (log_of s t) \<noteq> tail_cnt (log_of s t) then
        Option.bind (await_need_reclaim env t 0 (snd (wakeup_qp_thread_for_reclaim s)))
          (reclaim_thread env t)
      else Some s)"

section \<open>Quiescence detection\<close>

text \<open>Spin until the list lock is free, then take it.\<close>

partial_function (option) lock_live :: "interference \<Rightarrow> mvrlu_sys \<Rightarrow> mvrlu_sys option" where
  "lock_live env s =
     (case thread_list_lock (g_live_threads s) of
        Acquired tl1 \<Rightarrow> Some (s\<lparr>g_live_threads := tl1\<rparr>)
      | Spinning tl1 \<Rightarrow> lock_live env (yield env (s\<lparr>g_live_threads := tl1\<rparr>)))"

partial_function (option) lock_zombie :: "interference \<Rightarrow> mvrlu_sys \<Rightarrow> mvrlu_sys option" where
  "lock_zombie env s =
     (case thread_list_lock (g_zombie_threads s) of
        Acquired tl1 \<Rightarrow> Some (s\<lparr>g_zombie_threads := tl1\<rparr>)
      | Spinning tl1 \<Rightarrow> lock_zombie env (yield env (s\<lparr>g_zombie_threads := tl1\<rparr>)))"

definition unlock_live :: "mvrlu_sys \<Rightarrow> mvrlu_sys" where
  "unlock_live s = s\<lparr>g_live_threads := thread_list_unlock (g_live_threads s)\<rparr>"

definition unlock_zombie :: "mvrlu_sys \<Rightarrow> mvrlu_sys" where
  "unlock_zombie s = s\<lparr>g_zombie_threads := thread_list_unlock (g_zombie_threads s)\<rparr>"

definition live_list :: "mvrlu_sys \<Rightarrow> addr list option" where
  "live_list s = thread_list_for_each (lists s) (g_live_threads s)"

definition zombie_list :: "mvrlu_sys \<Rightarrow> addr list option" where
  "zombie_list s = thread_list_for_each (lists s) (g_zombie_threads s)"

text \<open>The body of the loop of \<open>qp_init\<close>.\<close>

definition qp_init_thread :: "mvrlu_thread_struct \<Rightarrow> mvrlu_thread_struct" where
  "qp_init_thread thr = thr\<lparr>thr_qp_info := \<lparr>need_wait = odd (unat (run_cnt thr)), qp_run_cnt = run_cnt thr\<rparr>\<rparr>"

definition qp_init :: "interference \<Rightarrow> mvrlu_sys \<Rightarrow> mvrlu_sys option" where
  "qp_init env s =
     Option.bind (lock_live env s) (\<lambda>s1.
     Option.bind (live_list s1) (\<lambda>ts.
     Some (unlock_live (fold (\<lambda>t. upd_thread t qp_init_thread) ts s1))))"

text \<open>The test of \<open>qp_wait\<close>: has the thread passed its quiescent period?\<close>

definition qp_passed :: "u64 \<Rightarrow> mvrlu_thread_struct \<Rightarrow> bool" where
  "qp_passed clk thr \<longleftrightarrow>
     qp_run_cnt (thr_qp_info thr) \<noteq> run_cnt thr \<or> gte_clock (local_clk thr) clk"

definition clear_need_wait :: "mvrlu_thread_struct \<Rightarrow> mvrlu_thread_struct" where
  "clear_need_wait thr = thr\<lparr>thr_qp_info := (thr_qp_info thr)\<lparr>need_wait := False\<rparr>\<rparr>"

text \<open>The inner loop on one thread; the flag says whether the walk has to start again.\<close>

partial_function (option) qp_wait_thread ::
    "interference \<Rightarrow> u64 \<Rightarrow> addr \<Rightarrow> mvrlu_sys \<Rightarrow> (bool \<times> mvrlu_sys) option" where
  "qp_wait_thread env clk t s =
     (if qp_passed clk (threads s t) then Some (False, upd_thread t clear_need_wait s)
      else if thread_list_has_waiter (g_live_threads s) then Some (True, s)
      else qp_wait_thread env clk t (yield env s))"

fun qp_wait_threads :: "interference \<Rightarrow> u64 \<Rightarrow> addr list \<Rightarrow> mvrlu_sys \<Rightarrow> (bool \<times> mvrlu_sys) option" where
  "qp_wait_threads env clk [] s = Some (False, s)"
| "qp_wait_threads env clk (t # ts) s =
     (if \<not> need_wait (thr_qp_info (threads s t)) then qp_wait_threads env clk ts s
      else Option.bind (qp_wait_thread env clk t s) (\<lambda>(retry, s1).
             if retry then Some (True, s1) else qp_wait_threads env clk ts s1))"

partial_function (option) qp_wait :: "interference \<Rightarrow> u64 \<Rightarrow> mvrlu_sys \<Rightarrow> mvrlu_sys option" where
  "qp_wait env clk s =
     Option.bind (lock_live env s) (\<lambda>s1.
     Option.bind (live_list s1) (\<lambda>ts.
     Option.bind (qp_wait_threads env clk ts s1) (\<lambda>(retry, s2).
       if retry then qp_wait env clk (unlock_live s2) else Some (unlock_live s2))))"

text \<open>The nap: other threads run until the time is over or the thread is woken up.\<close>

definition qp_take_nap :: "interference \<Rightarrow> mvrlu_sys \<Rightarrow> mvrlu_sys" where
  "qp_take_nap env s = yield env s"

definition get_clock :: "(nat \<Rightarrow> u64) \<Rightarrow> mvrlu_sys \<Rightarrow> u64 \<times> mvrlu_sys" where
  "get_clock tsc s = (let (clk, n) = ordo_get_clock tsc (n_rdtsc s) in (clk, s\<lparr>n_rdtsc := n\<rparr>))"

definition qp_detect :: "(nat \<Rightarrow> u64) \<Rightarrow> interference \<Rightarrow> mvrlu_sys \<Rightarrow> mvrlu_sys option" where
  "qp_detect tsc env s =
     (let (clk, s1) = get_clock tsc s
      in Option.bind (qp_init env s1) (\<lambda>s2.
         let s3 = (if \<not> qp_need_reclaim (g_qp_thread s2) then qp_take_nap env s2 else s2)
         in Option.bind (qp_wait env clk s3) (\<lambda>s4.
            Some (s4\<lparr>g_qp_thread := (g_qp_thread s4)\<lparr>qp_clk := correct_qp_clk clk\<rparr>\<rparr>))))"

fun help_threads :: "interference \<Rightarrow> addr list \<Rightarrow> mvrlu_sys \<Rightarrow> (bool \<times> mvrlu_sys) option" where
  "help_threads env [] s = Some (False, s)"
| "help_threads env (t # ts) s =
     (if thread_list_has_waiter (g_live_threads s) then Some (True, s)
      else if need_reclaim (log_of s t)
      then Option.bind (reclaim_thread env t s) (help_threads env ts)
      else help_threads env ts s)"

partial_function (option) qp_help_reclaim_log :: "interference \<Rightarrow> mvrlu_sys \<Rightarrow> mvrlu_sys option" where
  "qp_help_reclaim_log env s =
     Option.bind (lock_live env s) (\<lambda>s1.
     Option.bind (live_list s1) (\<lambda>ts.
     Option.bind (help_threads env ts s1) (\<lambda>(retry, s2).
       if retry then qp_help_reclaim_log env (unlock_live s2)
       else Some (unlock_live
              (s2\<lparr>lists := thread_list_rotate_left_unsafe (g_live_threads s2) (lists s2)\<rparr>)))))"

definition qp_update_qp_clk_for_reclaim :: "u64 \<Rightarrow> mvrlu_thread_struct \<Rightarrow> mvrlu_thread_struct" where
  "qp_update_qp_clk_for_reclaim clk thr =
     thr\<lparr>thr_log := (thr_log thr)\<lparr>qp_clk2 := qp_clk1 (thr_log thr), qp_clk1 := clk, need_reclaim := True\<rparr>\<rparr>"

definition qp_trigger_reclaim :: "interference \<Rightarrow> mvrlu_sys \<Rightarrow> mvrlu_sys option" where
  "qp_trigger_reclaim env s =
     Option.bind (lock_live env s) (\<lambda>s1.
     Option.bind (live_list s1) (\<lambda>ts.
     Some (unlock_live
       (fold (\<lambda>t. upd_thread t (qp_update_qp_clk_for_reclaim (qp_clk (g_qp_thread s1)))) ts s1))))"

definition qp_check_reclaim_done :: "interference \<Rightarrow> mvrlu_sys \<Rightarrow> (bool \<times> mvrlu_sys) option" where
  "qp_check_reclaim_done env s =
     Option.bind (lock_live env s) (\<lambda>s1.
     Option.bind (live_list s1) (\<lambda>ts.
     Some (\<not> list_ex (\<lambda>t. need_reclaim (log_of s1 t)) ts, unlock_live s1)))"

section \<open>Zombie threads and the main loop\<close>

definition mvrlu_thread_free :: "addr \<Rightarrow> mvrlu_sys \<Rightarrow> mvrlu_sys" where
  "mvrlu_thread_free t s =
     (let s1 = upd_thread t (\<lambda>thr. thr\<lparr>live_status := THREAD_DEAD_ZOMBIE\<rparr>) s
      in if head_cnt (log_of s1 t) = tail_cnt (log_of s1 t)
         then s1\<lparr>thr_alloc := (thr_alloc s1)(t := False)\<rparr> else s1)"

text \<open>\<open>port_free_log_mem(log->buffer); log->buffer = NULL;\<close>\<close>

definition free_log_buffer :: "addr \<Rightarrow> mvrlu_sys \<Rightarrow> panic + mvrlu_sys" where
  "free_log_buffer t s =
     (case port_free_log_mem (port_logs s) (log_buffer (log_of s t)) of
        Inl e \<Rightarrow> Inl e
      | Inr la \<Rightarrow> Inr (set_log t ((log_of s t)\<lparr>log_buffer := NULL\<rparr>) (s\<lparr>port_logs := la\<rparr>)))"

definition reap_thread :: "interference \<Rightarrow> addr \<Rightarrow> mvrlu_sys \<Rightarrow> (panic + mvrlu_sys) option" where
  "reap_thread env t s =
     Option.bind
       (reclaim_thread env t (upd_thread t (qp_update_qp_clk_for_reclaim (qp_clk (g_qp_thread s))) s))
       (\<lambda>s1. if head_cnt (log_of s1 t) \<noteq> tail_cnt (log_of s1 t) then Some (Inr s1)
             else case (if log_buffer (log_of s1 t) \<noteq> NULL then free_log_buffer t s1 else Inr s1) of
                    Inl e \<Rightarrow> Some (Inl e)
                  | Inr s2 \<Rightarrow>
                      if live_status (threads s2 t) = THREAD_DEAD_ZOMBIE then
                        let (tl1, h1) = thread_list_del_unsafe (g_zombie_threads s2) t (lists s2)
                        in Some (Inr (mvrlu_thread_free t (s2\<lparr>g_zombie_threads := tl1, lists := h1\<rparr>)))
                      else Some (Inr s2))"

fun reap_threads :: "interference \<Rightarrow> addr list \<Rightarrow> mvrlu_sys \<Rightarrow> (panic + bool \<times> mvrlu_sys) option" where
  "reap_threads env [] s = Some (Inr (False, s))"
| "reap_threads env (t # ts) s =
     (if thread_list_has_waiter (g_zombie_threads s) then Some (Inr (True, s))
      else case reap_thread env t s of
             None \<Rightarrow> None
           | Some (Inl e) \<Rightarrow> Some (Inl e)
           | Some (Inr s1) \<Rightarrow> reap_threads env ts s1)"

partial_function (option) qp_reap_zombie_threads ::
    "interference \<Rightarrow> mvrlu_sys \<Rightarrow> (panic + mvrlu_sys) option" where
  "qp_reap_zombie_threads env s =
     Option.bind (lock_zombie env s) (\<lambda>s1.
     Option.bind (zombie_list s1) (\<lambda>ts.
     Option.bind (reap_threads env ts s1) (\<lambda>r.
       case r of
         Inl e \<Rightarrow> Some (Inl e)
       | Inr (retry, s2) \<Rightarrow>
           if retry then qp_reap_zombie_threads env (unlock_zombie s2)
           else Some (Inr (unlock_zombie s2)))))"

text \<open>The part of an iteration of the main loop that follows \<open>qp_detect\<close>.\<close>

definition qp_reclaim_step ::
    "interference \<Rightarrow> mvrlu_sys \<Rightarrow> (panic + bool \<times> mvrlu_sys) option" where
  "qp_reclaim_step env s =
     Option.bind (qp_reap_zombie_threads env s) (\<lambda>r.
       case r of
         Inl e \<Rightarrow> Some (Inl e)
       | Inr s1 \<Rightarrow>
           Option.bind (qp_help_reclaim_log env s1) (\<lambda>s2.
           Option.bind (qp_check_reclaim_done env s2) (\<lambda>(rdone, s3).
           Some (Inr (rdone,
             if rdone then s3\<lparr>g_qp_thread := (g_qp_thread s3)\<lparr>qp_need_reclaim := False\<rparr>\<rparr> else s3)))))"

definition qp_iteration :: "(nat \<Rightarrow> u64) \<Rightarrow> interference \<Rightarrow> bool \<Rightarrow> mvrlu_sys \<Rightarrow>
    (panic + bool \<times> mvrlu_sys) option" where
  "qp_iteration tsc env reclaim_done s =
     Option.bind (qp_detect tsc env s) (\<lambda>s1.
     Option.bind (if \<not> reclaim_done then qp_reclaim_step env s1 else Some (Inr (reclaim_done, s1))) (\<lambda>r.
       case r of
         Inl e \<Rightarrow> Some (Inl e)
       | Inr (rdone, s2) \<Rightarrow>
           if rdone \<and> qp_need_reclaim (g_qp_thread s2)
           then map_option (\<lambda>s3. Inr (False, s3)) (qp_trigger_reclaim env s2)
           else Some (Inr (rdone, s2))))"

definition qp_final_reclaim :: "(nat \<Rightarrow> u64) \<Rightarrow> interference \<Rightarrow> mvrlu_sys \<Rightarrow> (panic + mvrlu_sys) option" where
  "qp_final_reclaim tsc env s =
     (let (clk, s1) = get_clock tsc s
      in qp_reap_zombie_threads env (s1\<lparr>g_qp_thread := (g_qp_thread s1)\<lparr>qp_clk := clk\<rparr>\<rparr>))"

partial_function (option) qp_thread_loop :: "(nat \<Rightarrow> u64) \<Rightarrow> interference \<Rightarrow> bool \<Rightarrow> mvrlu_sys \<Rightarrow>
    (panic + mvrlu_sys) option" where
  "qp_thread_loop tsc env reclaim_done s =
     (if stop_requested (g_qp_thread s) then Some (Inr s)
      else Option.bind (qp_iteration tsc env reclaim_done s) (\<lambda>r.
        case r of
          Inl e \<Rightarrow> Some (Inl e)
        | Inr (rdone, s1) \<Rightarrow> qp_thread_loop tsc env rdone s1))"

definition qp_thread_main :: "(nat \<Rightarrow> u64) \<Rightarrow> interference \<Rightarrow> mvrlu_sys \<Rightarrow> (panic + mvrlu_sys) option" where
  "qp_thread_main tsc env s =
     Option.bind (qp_thread_loop tsc env True s) (\<lambda>r.
       case r of
         Inl e \<Rightarrow> Some (Inl e)
       | Inr s1 \<Rightarrow>
           Option.bind (qp_final_reclaim tsc env s1) (\<lambda>r.
             case r of
               Inl e \<Rightarrow> Some (Inl e)
             | Inr s2 \<Rightarrow> qp_final_reclaim tsc env s2))"

end
