(* ===== verification/Mvrlu_Api.thy ===== *)
theory Mvrlu_Api
  imports Mvrlu_System
begin

text \<open>
  The external interface of MV-RLU (\<open>kernel/mvrlu/mvrlu.c\<close>, from \<open>mvrlu_init\<close> on):
  start-up and shut-down, threads, allocation, critical sections, locking, and the low and high
  water marks of the log.  \<open>t\<close> is the calling thread, \<open>tsc\<close> the time stamp counter and
  \<open>env\<close> the interference by other threads.
\<close>

section \<open>Start-up and shut-down\<close>

definition EBUSY :: int where
  "EBUSY = 16"

definition zero_qp_thread :: mvrlu_qp_thread where
  "zero_qp_thread = \<lparr>qp_clk = 0, stop_requested = False, qp_need_reclaim = False\<rparr>"

text \<open>\<open>thread_rc\<close> is the result of \<open>port_create_thread\<close>.\<close>

definition init_qp_thread :: "int \<Rightarrow> mvrlu_sys \<Rightarrow> int \<times> mvrlu_sys" where
  "init_qp_thread thread_rc s =
     (let s1 = s\<lparr>g_qp_thread := zero_qp_thread\<rparr>
      in if thread_rc \<noteq> 0 then (thread_rc, s1) else (0, s1))"

definition mvrlu_init :: "int \<Rightarrow> mvrlu_sys \<Rightarrow> int \<times> mvrlu_sys" where
  "mvrlu_init thread_rc s =
     (if init_flag s then (- EBUSY, s)
      else
        let s1 = s\<lparr>init_flag := True\<rparr>;
            (tl1, h1) = init_thread_list (g_live_threads s1) (lists s1);
            (tl2, h2) = init_thread_list (g_zombie_threads s1) h1;
            s2 = s1\<lparr>g_live_threads := tl1, g_zombie_threads := tl2, lists := h2\<rparr>;
            rc = port_log_region_init MVRLU_LOG_SIZE MVRLU_MAX_THREAD_NUM
        in if rc \<noteq> 0 then (rc, s2) else init_qp_thread thread_rc s2)"

definition mvrlu_is_init :: "mvrlu_sys \<Rightarrow> bool" where
  "mvrlu_is_init s = init_flag s"

definition change_mvrlu_until :: "u32 \<Rightarrow> mvrlu_sys \<Rightarrow> mvrlu_sys" where
  "change_mvrlu_until new_until s = s\<lparr>until_counter := new_until\<rparr>"

text \<open>
  \<open>finish_qp_thread\<close> asks the quiescence thread to stop and waits for its main function to
  return.
\<close>

definition finish_qp_thread :: "(nat \<Rightarrow> u64) \<Rightarrow> interference \<Rightarrow> mvrlu_sys \<Rightarrow> (panic + mvrlu_sys) option" where
  "finish_qp_thread tsc env s =
     qp_thread_main tsc env (s\<lparr>g_qp_thread := (g_qp_thread s)\<lparr>stop_requested := True\<rparr>\<rparr>)"

text \<open>Destroying the spin locks of the lists and the log region leaves the modelled state alone.\<close>

definition mvrlu_finish :: "(nat \<Rightarrow> u64) \<Rightarrow> interference \<Rightarrow> mvrlu_sys \<Rightarrow> (panic + mvrlu_sys) option" where
  "mvrlu_finish tsc env s = finish_qp_thread tsc env s"

section \<open>Threads\<close>

text \<open>\<open>p\<close> is the address returned by the kernel allocator.\<close>

definition mvrlu_thread_alloc :: "addr \<Rightarrow> mvrlu_sys \<Rightarrow> addr \<times> mvrlu_sys" where
  "mvrlu_thread_alloc p s = (p, s\<lparr>thr_alloc := (thr_alloc s)(p := True)\<rparr>)"

partial_function (option) add_live :: "interference \<Rightarrow> addr \<Rightarrow> mvrlu_sys \<Rightarrow> mvrlu_sys option" where
  "add_live env t s =
     (case thread_list_add (g_live_threads s) t (threads s t) (lists s) of
        Acquired (tl1, thr, h) \<Rightarrow>
          Some (s\<lparr>g_live_threads := tl1, threads := (threads s)(t := thr), lists := h\<rparr>)
      | Spinning (tl1, thr, h) \<Rightarrow> add_live env t (yield env (s\<lparr>g_live_threads := tl1\<rparr>)))"

partial_function (option) add_zombie :: "interference \<Rightarrow> addr \<Rightarrow> mvrlu_sys \<Rightarrow> mvrlu_sys option" where
  "add_zombie env t s =
     (case thread_list_add (g_zombie_threads s) t (threads s t) (lists s) of
        Acquired (tl1, thr, h) \<Rightarrow>
          Some (s\<lparr>g_zombie_threads := tl1, threads := (threads s)(t := thr), lists := h\<rparr>)
      | Spinning (tl1, thr, h) \<Rightarrow> add_zombie env t (yield env (s\<lparr>g_zombie_threads := tl1\<rparr>)))"

partial_function (option) del_live :: "interference \<Rightarrow> addr \<Rightarrow> mvrlu_sys \<Rightarrow> mvrlu_sys option" where
  "del_live env t s =
     (case thread_list_del (g_live_threads s) t (lists s) of
        Acquired (tl1, h) \<Rightarrow> Some (s\<lparr>g_live_threads := tl1, lists := h\<rparr>)
      | Spinning (tl1, h) \<Rightarrow> del_live env t (yield env (s\<lparr>g_live_threads := tl1\<rparr>)))"

definition mvrlu_thread_init :: "interference \<Rightarrow> addr \<Rightarrow> mvrlu_sys \<Rightarrow> mvrlu_sys option" where
  "mvrlu_thread_init env t s =
     (let s1 = upd_thread t (\<lambda>_. zero_thread) s;
          (buf, la) = port_alloc_log_mem (port_logs s1);
          s2 = set_log t ((log_of s1 t)\<lparr>log_buffer := buf\<rparr>) (s1\<lparr>port_logs := la\<rparr>)
      in add_live env t s2)"

definition mvrlu_thread_finish :: "interference \<Rightarrow> addr \<Rightarrow> mvrlu_sys \<Rightarrow> (panic + mvrlu_sys) option" where
  "mvrlu_thread_finish env t s =
     Option.bind (if need_reclaim (log_of s t) then reclaim_thread env t s else Some s) (\<lambda>s1.
     Option.bind (del_live env t (upd_thread t clear_need_wait s1)) (\<lambda>s2.
       if head_cnt (log_of s2 t) = tail_cnt (log_of s2 t) then Some (free_log_buffer t s2)
       else map_option Inr
              (add_zombie env t (upd_thread t (\<lambda>thr. thr\<lparr>live_status := THREAD_LIVE_ZOMBIE\<rparr>) s2))))"

section \<open>Objects\<close>

text \<open>\<open>p\<close> is the address returned by the kernel allocator, \<open>NULL\<close> if there is no memory.\<close>

definition mvrlu_alloc_x :: "addr \<Rightarrow> u64 \<Rightarrow> mvrlu_sys \<Rightarrow> addr \<times> mvrlu_sys" where
  "mvrlu_alloc_x p sz s =
     (if p = NULL then (NULL, s)
      else let m1 = upd_ahs p (\<lambda>_. zero_ahs\<lparr>ahs_obj_hdr := zero_obj_hdr\<lparr>obj_type := TYPE_ACTUAL,
                      obj_size := ucast sz\<rparr>\<rparr>) (memory s)
           in (ahs_to_obj p, s\<lparr>memory := m1\<lparr>ahs_live := (ahs_live m1)(p := True)\<rparr>\<rparr>))"

definition mvrlu_alloc :: "addr \<Rightarrow> u64 \<Rightarrow> mvrlu_sys \<Rightarrow> addr \<times> mvrlu_sys" where
  "mvrlu_alloc p sz s = mvrlu_alloc_x p sz s"

text \<open>
  \<open>free_ptrs\<close> is an array of \<open>MVRLU_MAX_FREE_PTRS\<close> pointers; the check of its bound is an
  assertion that is compiled out, so the next pointer is written behind the array.
\<close>

datatype overrun = Free_ptrs_overrun

definition mvrlu_free :: "addr \<Rightarrow> addr \<Rightarrow> mvrlu_sys \<Rightarrow> overrun + mvrlu_sys" where
  "mvrlu_free t obj s =
     (if obj = NULL then Inr s
      else if t = NULL then Inr (s\<lparr>memory := port_free_ahs (obj_to_ahs obj) (memory s)\<rparr>)
      else
        let act = get_act_obj (port_logs s) (memory s) obj
        in if length (free_ptrs (threads s t)) < unat MVRLU_MAX_FREE_PTRS
           then Inr (upd_thread t (\<lambda>thr. thr\<lparr>free_ptrs := free_ptrs thr @ [act]\<rparr>) s)
           else Inl Free_ptrs_overrun)"

section \<open>Critical sections\<close>

partial_function (option) reclaim_to_high_mark :: "interference \<Rightarrow> addr \<Rightarrow> mvrlu_sys \<Rightarrow> mvrlu_sys option" where
  "reclaim_to_high_mark env t s =
     Option.bind (log_reclaim_force env t s) (\<lambda>s1.
       if log_used (log_of s1 t) \<ge> MVRLU_LOG_HIGH_MARK then reclaim_to_high_mark env t s1 else Some s1)"

definition reader_start :: "(nat \<Rightarrow> u64) \<Rightarrow> addr \<Rightarrow> mvrlu_sys \<Rightarrow> mvrlu_sys" where
  "reader_start tsc t s =
     (let s1 = upd_thread t (\<lambda>thr. thr\<lparr>run_cnt := run_cnt thr + 1, num_act_obj := 0, num_deref := 0\<rparr>) s;
          (clk, s2) = get_clock tsc s1
      in upd_thread t (\<lambda>thr. thr\<lparr>local_clk := clk\<rparr>) s2)"

definition mvrlu_reader_lock :: "(nat \<Rightarrow> u64) \<Rightarrow> interference \<Rightarrow> addr \<Rightarrow> mvrlu_sys \<Rightarrow> mvrlu_sys option" where
  "mvrlu_reader_lock tsc env t s =
     Option.bind (if need_reclaim (log_of s t) then reclaim_thread env t s else Some s) (\<lambda>s1.
     Option.bind (if log_used (log_of s1 t) \<ge> MVRLU_LOG_HIGH_MARK
                  then reclaim_to_high_mark env t s1 else Some s1) (\<lambda>s2.
     Some (reader_start tsc t s2)))"

definition deref_overhead :: "mvrlu_thread_struct \<Rightarrow> bool" where
  "deref_overhead thr \<longleftrightarrow> num_deref thr \<noteq> 0 \<and> num_act_obj thr > MVRLU_DEREF_MIN_ACT_OBJ \<and>
     num_act_obj thr < MVRLU_DEREF_MARK * num_deref thr"

definition commit_thread :: "(nat \<Rightarrow> u64) \<Rightarrow> interference \<Rightarrow> addr \<Rightarrow> mvrlu_sys \<Rightarrow> mvrlu_sys option" where
  "commit_thread tsc env t s =
     map_option (\<lambda>(l, fps, n, m).
         upd_thread t (\<lambda>thr. thr\<lparr>thr_log := l, free_ptrs := fps\<rparr>) (s\<lparr>n_rdtsc := n, memory := m\<rparr>))
       (log_commit tsc (e_link env) (log_of s t) (free_ptrs (threads s t)) (local_clk (threads s t))
          (n_rdtsc s) (memory s))"

definition mvrlu_reader_unlock :: "(nat \<Rightarrow> u64) \<Rightarrow> interference \<Rightarrow> addr \<Rightarrow> mvrlu_sys \<Rightarrow> mvrlu_sys option" where
  "mvrlu_reader_unlock tsc env t s =
     (let s1 = upd_thread t (\<lambda>thr. thr\<lparr>run_cnt := run_cnt thr + 1\<rparr>) s;
          s2 = (if deref_overhead (threads s1 t) then snd (wakeup_qp_thread_for_reclaim s1) else s1)
      in if is_write_detected (threads s2 t) \<or> need_reclaim (log_of s2 t) then
           Option.bind (if is_write_detected (threads s2 t)
                        then commit_thread tsc env t
                               (upd_thread t (\<lambda>thr. thr\<lparr>is_write_detected := False\<rparr>) s2)
                        else Some s2) (\<lambda>s3.
           Option.bind (if need_reclaim (log_of s3 t) then reclaim_thread env t s3 else Some s3) (\<lambda>s4.
           Some (if log_used (log_of s4 t) \<ge> MVRLU_LOG_LOW_MARK
                 then snd (wakeup_qp_thread_for_reclaim s4) else s4)))
         else Some s2)"

definition mvrlu_abort :: "interference \<Rightarrow> addr \<Rightarrow> mvrlu_sys \<Rightarrow> mvrlu_sys option" where
  "mvrlu_abort env t s =
     (let s1 = upd_thread t (\<lambda>thr. thr\<lparr>run_cnt := run_cnt thr + 1\<rparr>) s
      in Option.bind
           (if cur_wrt_set (log_of s1 t) \<noteq> NULL then
              map_option (\<lambda>(l, fps, m).
                  upd_thread t (\<lambda>thr. thr\<lparr>thr_log := l, free_ptrs := fps, is_write_detected := False\<rparr>)
                    (s1\<lparr>memory := m\<rparr>))
                (log_abort (log_of s1 t) (free_ptrs (threads s1 t)) (memory s1))
            else Some s1) (\<lambda>s2.
         if need_reclaim (log_of s2 t) then reclaim_thread env t s2 else Some s2))"

text \<open>
  \<open>_mvrlu_try_lock\<close>: the result is the return value, the new value of \<open>*pp_obj\<close> and the new
  state.
\<close>

definition mvrlu_try_lock :: "interference \<Rightarrow> addr \<Rightarrow> addr \<Rightarrow> u64 \<Rightarrow> mvrlu_sys \<Rightarrow>
    bool \<times> addr \<times> mvrlu_sys" where
  "mvrlu_try_lock env t obj sz s =
     (let m = memory s;
          act = get_act_obj (port_logs s) m obj;
          ahs = obj_to_ahs act;
          old = act_p_copy m ahs
      in if act_p_lock m ahs \<noteq> NULL then (False, obj, s)
         else if old \<noteq> NULL \<and> \<not> lte_clock (get_wrt_clk m (obj_to_chs old)) (local_clk (threads s t))
         then (False, obj, s)
         else
           let (c, bogus, l1, m1) = log_append_begin (log_of s t) m t act (ucast sz);
               new = chs_to_obj c;
               (locked, m2) = try_lock_obj (e_lock1 env) (e_lock2 env) ahs old new m1
           in if \<not> locked then (False, obj, set_log t (log_append_abort l1 c) (s\<lparr>memory := m2\<rparr>))
              else
                let m3 = memcpy new (if old = NULL then act else old) (unat sz) m2;
                    (l4, m4) = log_append_end l1 m3 c bogus
                in (True, new, upd_thread t (\<lambda>thr. thr\<lparr>thr_log := l4, is_write_detected := True\<rparr>)
                     (s\<lparr>memory := m4\<rparr>)))"

definition mvrlu_try_lock_const :: "interference \<Rightarrow> addr \<Rightarrow> addr \<Rightarrow> mvrlu_sys \<Rightarrow> bool \<times> mvrlu_sys" where
  "mvrlu_try_lock_const env t obj s =
     (let (ok, obj1, s1) = mvrlu_try_lock env t obj 0 s in (ok, s1))"

partial_function (option) mvrlu_flush_log :: "interference \<Rightarrow> addr \<Rightarrow> mvrlu_sys \<Rightarrow> mvrlu_sys option" where
  "mvrlu_flush_log env t s =
     (if head_cnt (log_of s t) \<noteq> tail_cnt (log_of s t)
      then Option.bind (log_reclaim_force env t s) (mvrlu_flush_log env t)
      else Some s)"

text \<open>
  The C++ handle of a thread (\<open>mvrlu_wrapper.cc\<close>): its constructor allocates and registers the
  thread structure if the library is initialised, its destructor deregisters and frees it.
\<close>

definition thread_handle_new :: "interference \<Rightarrow> addr \<Rightarrow> mvrlu_sys \<Rightarrow> (addr \<times> mvrlu_sys) option" where
  "thread_handle_new env p s =
     (if mvrlu_is_init s then
        let (self, s1) = mvrlu_thread_alloc p s
        in map_option (Pair self) (mvrlu_thread_init env self s1)
      else Some (NULL, s))"

definition thread_handle_delete :: "interference \<Rightarrow> addr \<Rightarrow> mvrlu_sys \<Rightarrow> (panic + mvrlu_sys) option" where
  "thread_handle_delete env self s =
     (if self \<noteq> NULL then
        (case mvrlu_thread_finish env self s of
           None \<Rightarrow> None
         | Some (Inl e) \<Rightarrow> Some (Inl e)
         | Some (Inr s1) \<Rightarrow> Some (Inr (mvrlu_thread_free self s1)))
      else Some (Inr s))"

end
