(* ===== verification/Mvrlu_Txn.thy ===== *)
theory Mvrlu_Txn
  imports Mvrlu_Api
begin

text \<open>
  A critical section that writes, from \<open>mvrlu_reader_lock\<close> over any number of
  \<open>_mvrlu_try_lock\<close> to commit or abort: the invariant of an open write set is kept by every
  successful lock and implies what commit needs.
\<close>

section \<open>The invariant of an open write set\<close>

definition txn_inv :: "mvrlu_log \<Rightarrow> mem \<Rightarrow> nat \<Rightarrow> nat list \<Rightarrow> bool" where
  "txn_inv l m s es \<longleftrightarrow>
     ws_inv l m s es \<and> buf_ok l \<and> log_room (unat (tail_cnt l)) \<and>
     owns (entry l ` set es) m \<and> (\<forall>a. act_p_copy m a \<notin> chs_to_obj ` entry l ` set es)"

lemma txn_inv_commit_ready:
  assumes "txn_inv l m s es" and "unat (tail_cnt l) \<le> s + log_sz" and "length fps < 2 ^ 32"
  shows "commit_ready l m s es fps"
  using assms by (simp add: txn_inv_def commit_ready_def)

text \<open>
  What other threads leave alone while a thread runs \<open>try_lock_obj\<close> for an entry with header
  \<open>c\<close>: its entries \<open>own\<close> (old) and \<open>new\<close> and its write set; they do not take a lock it holds and do
  not link its copies.
\<close>

definition lock_rely :: "addr set \<Rightarrow> addr set \<Rightarrow> addr \<Rightarrow> addr \<Rightarrow> mem \<Rightarrow> mem \<Rightarrow> bool" where
  "lock_rely own new ws c m m' \<longleftrightarrow>
     keeps own ws own m m' \<and> (\<forall>d \<in> new. chs_heap m' d = chs_heap m d) \<and>
     (\<forall>a. act_p_lock m a = chs_to_obj c \<longrightarrow> act_p_lock m' a = chs_to_obj c) \<and>
     (\<forall>a. act_p_copy m' a \<in> chs_to_obj ` (own \<union> new) \<longrightarrow> act_p_copy m' a = act_p_copy m a)"

definition unused :: "addr set \<Rightarrow> mem \<Rightarrow> bool" where
  "unused new m \<longleftrightarrow> (\<forall>a. act_p_copy m a \<notin> chs_to_obj ` new)"

lemma unused_Un: "unused (A \<union> B) m \<longleftrightarrow> unused A m \<and> unused B m"
  by (simp add: unused_def image_Un) blast

lemma unused_cong: "act_p_copy m' = act_p_copy m \<Longrightarrow> unused A m' = unused A m"
  by (simp add: unused_def)

lemma lock_rely_refl: "lock_rely own new ws c m m"
  by (simp add: lock_rely_def keeps_refl)

lemma lock_relyD:
  assumes "lock_rely own new ws c m m'"
  shows "keeps own ws own m m'" and "\<And>d. d \<in> own \<union> new \<Longrightarrow> chs_heap m' d = chs_heap m d"
    and "\<And>a. act_p_lock m a = chs_to_obj c \<Longrightarrow> act_p_lock m' a = chs_to_obj c"
    and "unused (own \<union> new) m \<Longrightarrow> unused (own \<union> new) m'"
proof -
  show "keeps own ws own m m'" "\<And>a. act_p_lock m a = chs_to_obj c \<Longrightarrow> act_p_lock m' a = chs_to_obj c"
    using assms by (simp_all add: lock_rely_def)
  show "\<And>d. d \<in> own \<union> new \<Longrightarrow> chs_heap m' d = chs_heap m d"
    using assms keeps_chs [of own ws own m m'] by (auto simp: lock_rely_def)
  show "unused (own \<union> new) m \<Longrightarrow> unused (own \<union> new) m'"
    using assms unfolding lock_rely_def unused_def by metis
qed

lemma owns_cong:
  "(\<And>c. c \<in> C \<Longrightarrow> chs_heap m' c = chs_heap m c) \<Longrightarrow> act_p_lock m' = act_p_lock m \<Longrightarrow> owns C m' = owns C m"
  by (auto simp: owns_def cpy_type_def ahs_of_def)

lemma owns_set_p_lock:
  assumes "owns C m" and "act_p_lock m a = NULL" and "NULL \<notin> chs_to_obj ` C"
  shows "owns C (set_p_lock a v m)"
  using assms by (auto simp: owns_def cpy_type_def ahs_of_def)

section \<open>A successful lock\<close>

text \<open>
  The part of \<open>_mvrlu_try_lock\<close> that follows its checks, on an open write set, when it succeeds.
\<close>

lemma try_lock_append:
  fixes l m sz
  defines "t \<equiv> unat (tail_cnt l)" and "n \<equiv> alloc_size (unat sz)"
  defines "new \<equiv> entry l ` set (append_entries t n)"
  assumes inv: "txn_inv l m s es" and sz: "unat sz \<le> 65424"
    and tb: "unat (tail_cnt l) + 2 * log_sz < 2 ^ 64" and win: "alloc_end t n \<le> s + log_sz"
    and len: "length es + 2 < 2 ^ 32" and un: "unused new m"
    and beg: "log_append_begin l m self act sz = (c, b, l1, m1)"
    and lock: "try_lock_obj env1 env2 (obj_to_ahs act) (act_p_copy m (obj_to_ahs act)) (chs_to_obj c) m1 = (True, m2)"
    and rely1: "lock_rely (entry l ` set es) new (cur_wrt_set l) c m1 (env1 m1)"
    and rely2: "\<And>m. lock_rely (entry l ` set es) new (cur_wrt_set l) c m (env2 m)"
    and app: "log_append_end l1 (memcpy (chs_to_obj c) src k m2) c b = (l3, m3)"
  shows "txn_inv l3 m3 s (es @ append_entries t n)" and "unat (tail_cnt l3) = alloc_end t n"
    and "c = entry l (alloc_start t n)" and "l3 = l\<lparr>tail_cnt := tail_cnt l3\<rparr>"
    and "act_p_lock m3 (obj_to_ahs act) = chs_to_obj c"
    and "act_p_copy m3 (obj_to_ahs act) = act_p_copy m (obj_to_ahs act)"
    and "obj_heap m3 (chs_to_obj c) = take k (obj_heap m2 src) @ drop k (obj_heap m2 (chs_to_obj c))"
proof -
  let ?own = "entry l ` set es" and ?a = "obj_to_ahs act" and ?ws = "cur_wrt_set l"
  let ?m2 = "memcpy (chs_to_obj c) src k m2"
  have ws: "ws_inv l m s es" and buf: "buf_ok l" and room: "log_room (unat (tail_cnt l))"
      and own: "owns ?own m" and unl: "unused ?own m"
    using inv by (auto simp: txn_inv_def unused_def)
  have null: "NULL \<notin> chs_to_obj ` C" if "C \<subseteq> range (entry l)" for C
    using entry_obj_not_NULL [OF buf] that by force
  have L: "c = entry l (alloc_start t n)"
      "m1 = upd_chs (entry l (alloc_start t n))
         (\<lambda>_. copy_hdr ?ws act sz (n + alloc_pad t n - unat sz))
         (if wraps t n then upd_chs (entry l t) (\<lambda>_. bogus_hdr (ring_rest t)) m else m)"
    using beg log_append_begin_eq [OF ws_invD(1) [OF ws] _ tb, of sz m self act] sz
    by (auto simp: t_def [symmetric] n_def [symmetric])
  have m1: "act_p_lock m1 = act_p_lock m" "act_p_copy m1 = act_p_copy m" "ws_heap m1 = ws_heap m"
    by (simp_all add: L)
  have c_new: "c \<in> new" by (simp add: new_def L append_entries_def)
  define m1a where "m1a = set_p_lock ?a (chs_to_obj c) (env1 m1)"
  have cas: "act_p_lock (env1 m1) ?a = NULL" "m2 = env2 m1a"
      and pc: "act_p_copy m2 ?a = act_p_copy m ?a"
    using lock by (auto simp: try_lock_obj_def cas_p_lock_def Let_def m1a_def split: if_splits)
  note r1 = lock_relyD [OF rely1] and r2 = lock_relyD [OF rely2 [of m1a], folded cas(2)]
  have lk: "act_p_lock m2 ?a = chs_to_obj c"
    by (rule r2(3)) (simp add: m1a_def)
  have chs: "chs_heap m2 d = chs_heap m1 d" if "d \<in> ?own \<union> new" for d
    using r1(2) [OF that] r2(2) [OF that] by (simp add: m1a_def)
  have hdr: "chs_heap m2 (entry l s) = chs_heap m1 (entry l s)" and wsh: "ws_heap m2 ?ws = ws_heap m1 ?ws"
    using keeps_ws [OF r1(1)] keeps_ws [OF r2(1)] ws_invD(3) [OF ws] by (simp_all add: m1a_def)
  have same: "chs_heap ?m2 (entry l e) = chs_heap m1 (entry l e)"
    if "e \<in> set (s # es @ append_entries t n)" for e
    using that chs hdr by (auto simp: new_def)
  have wsame: "ws_heap ?m2 ?ws = ws_heap m1 ?ws" using wsh by simp
  note A = log_append_inv [OF ws room sz tb win [unfolded t_def n_def] len beg
      same [unfolded t_def n_def] wsame app, folded t_def n_def]
  show "unat (tail_cnt l3) = alloc_end t n" "c = entry l (alloc_start t n)"
    "l3 = l\<lparr>tail_cnt := tail_cnt l3\<rparr>" using A by simp_all
  have b3: "log_buffer l3 = log_buffer l" using arg_cong [OF A(4), of log_buffer] by simp
  then have e3: "entry l3 = entry l" by (rule same_entry)
  have own1: "owns ?own m1" using own A(8) by (subst owns_cong) (auto simp: m1)
  have "owns ?own (env1 m1)" by (rule owns_keeps [OF own1 r1(1)])
  then have "owns ?own m1a"
    unfolding m1a_def using cas(1) null by (intro owns_set_p_lock) auto
  from owns_keeps [OF this r2(1)] have own2: "owns ?own m2" .
  have m3: "chs_heap m3 = chs_heap m2" "act_p_lock m3 = act_p_lock m2" "act_p_copy m3 = act_p_copy m2"
    "obj_heap m3 = obj_heap ?m2"
    using app A(9) by (auto simp: log_append_end_def Let_def)
  show "act_p_lock m3 ?a = chs_to_obj c" "act_p_copy m3 ?a = act_p_copy m ?a"
    by (simp_all add: m3 lk pc)
  show "obj_heap m3 (chs_to_obj c) = take k (obj_heap m2 src) @ drop k (obj_heap m2 (chs_to_obj c))"
    by (simp add: m3)
  have "owns (?own \<union> new) m3"
  proof -
    have "owns ?own m3" using own2 by (subst owns_cong) (auto simp: m3)
    moreover have "act_p_lock m3 (ahs_of m3 d) = chs_to_obj d"
      if d: "d \<in> new" "cpy_type m3 d \<noteq> TYPE_BOGUS" for d
    proof -
      have "d = c"
      proof (rule ccontr)
        assume "d \<noteq> c"
        with d(1) have "wraps t n" "d = entry l t" by (auto simp: new_def append_entries_def L split: if_splits)
        with d \<open>d \<noteq> c\<close> chs [of d] show False by (simp add: m3 cpy_type_def L)
      qed
      moreover have "ahs_of m3 c = ?a" using A(7) by (simp add: ahs_of_def)
      ultimately show ?thesis by (simp add: m3 lk)
    qed
    ultimately show ?thesis by (auto simp: owns_def)
  qed
  moreover have "unused (?own \<union> new) m3"
  proof -
    have "unused (?own \<union> new) m1" using un unl by (simp add: unused_Un unused_cong [OF m1(2)])
    from r1(4) [OF this] have "unused (?own \<union> new) m1a"
      by (rule iffD2 [OF unused_cong, rotated]) (simp add: m1a_def)
    from r2(4) [OF this] show ?thesis by (simp add: unused_cong [OF m3(3)])
  qed
  moreover have "entry l3 ` set (es @ append_entries t n) = ?own \<union> new"
    by (auto simp: e3 new_def)
  moreover have "buf_ok l3" using buf b3 by (simp add: buf_ok_def)
  ultimately show "txn_inv l3 m3 s (es @ append_entries t n)"
    using A(1,3) by (simp add: txn_inv_def unused_def)
qed

section \<open>Locking through the interface\<close>

text \<open>The log and memory after a write set has been opened where there was none.\<close>

definition open_txn :: "mvrlu_log \<Rightarrow> mem \<Rightarrow> addr \<Rightarrow> mvrlu_log \<times> mem" where
  "open_txn l m t = (if cur_wrt_set l = NULL then snd (log_open_wrt_set l m t) else (l, m))"

lemma open_txn_first:
  assumes "cur_wrt_set l = NULL" and "log_room (unat (tail_cnt l))" and "buf_ok l"
    and "unat (tail_cnt l) + 2 * log_sz < 2 ^ 64" and "open_txn l m t = (l0, m0)"
    and "unused {entry l (unat (tail_cnt l))} m"
  shows "txn_inv l0 m0 (unat (tail_cnt l)) []" and "unat (tail_cnt l0) = alloc_end (unat (tail_cnt l)) 128"
    and "log_buffer l0 = log_buffer l" and "act_p_copy m0 = act_p_copy m" "act_p_lock m0 = act_p_lock m"
    and "obj_heap m0 = obj_heap m"
proof -
  obtain b where o: "log_open_wrt_set l m t = (b, l0, m0)"
    using assms(1,5) by (cases "log_open_wrt_set l m t") (auto simp: open_txn_def)
  note O = log_open_wrt_set_inv [OF assms(2-4) o]
  have "log_buffer l0 = log_buffer l" using arg_cong [OF O(5), of log_buffer] by simp
  then show "log_buffer l0 = log_buffer l" "txn_inv l0 m0 (unat (tail_cnt l)) []"
    using O(2,4) assms(3) by (simp_all add: txn_inv_def buf_ok_def owns_def)
  show "unat (tail_cnt l0) = alloc_end (unat (tail_cnt l)) 128" by (rule O)
  show "act_p_copy m0 = act_p_copy m" "act_p_lock m0 = act_p_lock m" "obj_heap m0 = obj_heap m"
    using O(6,7) by (auto simp: act_p_copy_def act_p_lock_def fun_eq_iff)
qed

lemma log_append_begin_opened:
  assumes "cur_wrt_set l = NULL \<Longrightarrow> log_room (unat (tail_cnt l)) \<and> buf_ok l \<and>
      unat (tail_cnt l) + 2 * log_sz < 2 ^ 64" and "open_txn l m t = (l0, m0)"
  shows "log_append_begin l m t act sz = log_append_begin l0 m0 t act sz"
proof (cases "cur_wrt_set l = NULL")
  case True
  obtain b where o: "log_open_wrt_set l m t = (b, l0, m0)"
    using True assms(2) by (cases "log_open_wrt_set l m t") (auto simp: open_txn_def)
  with True assms(1) log_open_wrt_set_inv [OF _ _ _ o] have "b = False" "cur_wrt_set l0 \<noteq> NULL"
    using ws_invD(1) by blast+
  with True o show ?thesis by (simp add: log_append_begin_def)
qed (use assms(2) in \<open>simp add: open_txn_def\<close>)

lemma upd_thread_sel [simp]:
  "threads (upd_thread t f s) u = (if u = t then f (threads s t) else threads s u)"
  "memory (upd_thread t f s) = memory s" "port_logs (upd_thread t f s) = port_logs s"
  "n_rdtsc (upd_thread t f s) = n_rdtsc s" "lists (upd_thread t f s) = lists s"
  "g_live_threads (upd_thread t f s) = g_live_threads s"
  "g_zombie_threads (upd_thread t f s) = g_zombie_threads s"
  "g_qp_thread (upd_thread t f s) = g_qp_thread s" "thr_alloc (upd_thread t f s) = thr_alloc s"
  by (simp_all add: upd_thread_def)

text \<open>An object that is locked, or has a version newer than the snapshot, is refused.\<close>

lemma mvrlu_try_lock_refused:
  fixes s obj
  defines "ahs \<equiv> obj_to_ahs (get_act_obj (port_logs s) (memory s) obj)"
  assumes "act_p_lock (memory s) ahs \<noteq> NULL \<or>
    (act_p_copy (memory s) ahs \<noteq> NULL \<and>
     \<not> lte_clock (copy_clk (memory s) (act_p_copy (memory s) ahs)) (local_clk (threads s t)))"
  shows "mvrlu_try_lock env t obj sz s = (False, obj, s)"
  using assms by (auto simp: mvrlu_try_lock_def Let_def copy_clk_def)

lemma mvrlu_try_lock_success:
  fixes s obj sz l0 m0
  defines "act \<equiv> get_act_obj (port_logs s) (memory s) obj"
  defines "tt \<equiv> unat (tail_cnt l0)" and "n \<equiv> alloc_size (unat (ucast sz :: u32))"
  defines "new \<equiv> entry l0 ` set (append_entries tt n)" and "c \<equiv> entry l0 (alloc_start tt n)"
  assumes op: "open_txn (log_of s t) (memory s) t = (l0, m0)"
    and first: "cur_wrt_set (log_of s t) = NULL \<Longrightarrow> log_room (unat (tail_cnt (log_of s t))) \<and>
      buf_ok (log_of s t) \<and> unat (tail_cnt (log_of s t)) + 2 * log_sz < 2 ^ 64 \<and> act_p_copy m0 = act_p_copy (memory s)"
    and inv: "txn_inv l0 m0 st es" and sz: "unat (ucast sz :: u32) \<le> 65424"
    and tb: "unat (tail_cnt l0) + 2 * log_sz < 2 ^ 64" and win: "alloc_end tt n \<le> st + log_sz"
    and len: "length es + 2 < 2 ^ 32" and un: "unused new m0"
    and rely1: "\<And>m. lock_rely (entry l0 ` set es) new (cur_wrt_set l0) c m (e_lock1 env m)"
    and rely2: "\<And>m. lock_rely (entry l0 ` set es) new (cur_wrt_set l0) c m (e_lock2 env m)"
    and res: "mvrlu_try_lock env t obj sz s = (True, p, s')"
  shows "txn_inv (log_of s' t) (memory s') st (es @ append_entries tt n)"
    and "p = chs_to_obj c" and "act_p_lock (memory s') (obj_to_ahs act) = p"
    and "act_p_copy (memory s') (obj_to_ahs act) = act_p_copy (memory s) (obj_to_ahs act)"
    and "unat (tail_cnt (log_of s' t)) = alloc_end tt n"
    and "is_write_detected (threads s' t)"
proof -
  let ?a = "obj_to_ahs act" and ?old = "act_p_copy (memory s) (obj_to_ahs act)"
  obtain c' b l1 m1 where beg: "log_append_begin l0 m0 t act (ucast sz) = (c', b, l1, m1)"
    by (cases "log_append_begin l0 m0 t act (ucast sz)") auto
  have beg': "log_append_begin (log_of s t) (memory s) t act (ucast sz) = (c', b, l1, m1)"
    using log_append_begin_opened [OF _ op] first beg by auto
  have cc: "c' = c"
    using beg log_append_begin_eq [OF ws_invD(1) _ tb, of m0 st es "ucast sz" m0 t act] inv sz
    by (auto simp: txn_inv_def c_def tt_def n_def)
  have old: "act_p_copy m0 ?a = ?old"
    using first op by (cases "cur_wrt_set (log_of s t) = NULL") (auto simp: open_txn_def)
  obtain lk m2 where lock: "try_lock_obj (e_lock1 env) (e_lock2 env) ?a ?old (chs_to_obj c') m1 = (lk, m2)"
    by (cases "try_lock_obj (e_lock1 env) (e_lock2 env) ?a ?old (chs_to_obj c') m1") auto
  have lk: lk
    using res beg' lock by (auto simp: mvrlu_try_lock_def Let_def act_def [symmetric] split: if_splits)
  let ?src = "if ?old = NULL then act else ?old"
  obtain l3 m3 where app: "log_append_end l1 (memcpy (chs_to_obj c') ?src (unat sz) m2) c' b = (l3, m3)"
    by (cases "log_append_end l1 (memcpy (chs_to_obj c') ?src (unat sz) m2) c' b") auto
  have p: "p = chs_to_obj c'" "memory s' = m3" "log_of s' t = l3" "is_write_detected (threads s' t)"
    using res beg' lock lk app
    by (auto simp: mvrlu_try_lock_def Let_def act_def [symmetric] log_of_def split: if_splits)
  note T = try_lock_append [OF inv sz tb win [unfolded tt_def n_def] len un [unfolded new_def tt_def n_def]
      beg lock [unfolded old [symmetric], simplified lk]
      rely1 [unfolded new_def tt_def n_def, folded cc [unfolded tt_def n_def]]
      rely2 [unfolded new_def tt_def n_def, folded cc [unfolded tt_def n_def]] app, folded tt_def n_def]
  from T p cc old show "txn_inv (log_of s' t) (memory s') st (es @ append_entries tt n)"
    "p = chs_to_obj c" "act_p_lock (memory s') ?a = p" "act_p_copy (memory s') ?a = ?old"
    "unat (tail_cnt (log_of s' t)) = alloc_end tt n" "is_write_detected (threads s' t)"
    by simp_all
qed

end
