(* ===== verification/Mvrlu_Snapshot.thy ===== *)
theory Mvrlu_Snapshot
  imports Mvrlu_Txn
begin

text \<open>
  What a commit means for readers: a critical section that starts late enough sees every object of
  the write set in its new version, one that started before keeps reading what it read before.
  Here the commit runs without interference.
\<close>

section \<open>A commit without interference\<close>

definition quiet_link :: "addr \<Rightarrow> nat \<Rightarrow> mem \<Rightarrow> mem" where
  "quiet_link c k m = m"

lemma keeps_quiet_link: "keeps own ws C m (quiet_link c k m)"
  by (simp add: quiet_link_def keeps_refl)

lemma init_link_obj [simp]: "obj_heap (init_link c q m) = obj_heap m" "ahs_live (init_link c q m) = ahs_live m"
  by (simp_all add: init_link_def)

lemma link_copy_quiet:
  "link_copy (quiet_link c) k c a (act_p_copy m a) m =
     Some (set_act_p_copy a (chs_to_obj c) (init_link c (act_p_copy m a) m))"
  by (subst link_copy.simps) (simp add: quiet_link_def cas_p_copy_def)

text \<open>What moving the entries \<open>cs\<close> does not touch.\<close>

definition copies :: "mem \<Rightarrow> addr set \<Rightarrow> addr set" where
  "copies m C = {c \<in> C. cpy_type m c \<noteq> TYPE_BOGUS}"

definition outside :: "addr list \<Rightarrow> mem \<Rightarrow> mem \<Rightarrow> bool" where
  "outside cs m m' \<longleftrightarrow>
     (\<forall>d. d \<notin> set cs \<longrightarrow> chs_heap m' d = chs_heap m d) \<and>
     (\<forall>a. a \<notin> ahs_of m ` copies m (set cs) \<longrightarrow> act_p_copy m' a = act_p_copy m a) \<and>
     (\<forall>d. p_act (chs_heap m' d) = p_act (chs_heap m d)) \<and>
     (\<forall>d. cpy_type m' d = TYPE_BOGUS \<longleftrightarrow> cpy_type m d = TYPE_BOGUS) \<and>
     (\<forall>d. get_wrt_clk m' d = get_wrt_clk m d) \<and> act_p_lock m' = act_p_lock m \<and>
     ws_heap m' = ws_heap m \<and> obj_heap m' = obj_heap m \<and> ahs_live m' = ahs_live m"

text \<open>The chain of an object is as before, or the entry \<open>c\<close> has been put in front of it.\<close>

definition pushed :: "mem \<Rightarrow> mem \<Rightarrow> addr \<Rightarrow> bool" where
  "pushed m m' c \<longleftrightarrow>
     (let a = ahs_of m c; p = act_p_copy m a
      in act_p_copy m' a = p \<or>
         act_p_copy m' a = chs_to_obj c \<and> cpy_p_copy m' c = p \<and>
         wrt_clk_next (chs_heap m' c) = (if p = NULL then MIN_VERSION else copy_clk m p))"

lemma outside_refl: "outside cs m m"
  by (simp add: outside_def)

lemma outsideD:
  assumes "outside cs m m'"
  shows "ahs_of m' = ahs_of m" and "copies m' = copies m"
  using assms by (auto simp: outside_def ahs_of_def copies_def fun_eq_iff)

lemma ws_move_obj_outside:
  assumes "ws_move_obj quiet_link fps c (nf, m) = Some (nf', m')"
  shows "outside [c] m m'"
    and "pushed m m' c"
  using assms
  by (auto simp: ws_move_obj_def Let_def link_copy_quiet outside_def set_cpy_type_def ahs_of_def
      cpy_p_copy_def copies_def cpy_type_def pushed_def copy_clk_def linked_hdr_def get_wrt_clk_def
      split: if_splits)

lemma outside_Cons:
  assumes "outside [c] m m1" and "outside cs m1 m2"
  shows "outside (c # cs) m m2"
proof -
  have "copies m (set (c # cs)) = copies m {c} \<union> copies m (set cs)" by (auto simp: copies_def)
  with assms outsideD [OF assms(1)] show ?thesis by (auto simp: outside_def image_Un)
qed

lemma run_move_outside:
  "run_body (ws_move_obj quiet_link fps) cs (nf, m) = Some (nf', m') \<Longrightarrow> outside cs m m'"
proof (induction cs arbitrary: nf m)
  case Nil
  then show ?case by (simp add: outside_refl)
next
  case (Cons c cs)
  then obtain nf1 m1 where 1: "ws_move_obj quiet_link fps c (nf, m) = Some (nf1, m1)"
      "run_body (ws_move_obj quiet_link fps) cs (nf1, m1) = Some (nf', m')"
    by (auto split: option.splits)
  from outside_Cons [OF ws_move_obj_outside(1) [OF 1(1)] Cons.IH [OF 1(2)]] show ?case .
qed

lemma run_move_next:
  assumes "run_body (ws_move_obj quiet_link fps) cs (nf, m) = Some (nf', m')"
    and "distinct cs" and "owns (set cs) m" and "c \<in> copies m (set cs)"
  shows "pushed m m' c"
  using assms
proof (induction cs arbitrary: nf m)
  case Nil
  then show ?case by (simp add: copies_def)
next
  case (Cons d cs)
  then obtain nf1 m1 where 1: "ws_move_obj quiet_link fps d (nf, m) = Some (nf1, m1)"
      "run_body (ws_move_obj quiet_link fps) cs (nf1, m1) = Some (nf', m')"
    by (auto split: option.splits)
  note o1 = ws_move_obj_outside [OF 1(1)] and o2 = run_move_outside [OF 1(2)]
  note D = outsideD [OF o1(1)]
  have other: "ahs_of m x \<noteq> ahs_of m y" if "x \<in> copies m (set (d # cs))" "y \<in> copies m (set (d # cs))" "x \<noteq> y" for x y
    using owns_inj [OF Cons.prems(3)] that by (auto simp: copies_def)
  show ?case
  proof (cases "c = d")
    case True
    then have "c \<notin> set cs" using Cons.prems(2) by simp
    moreover have "ahs_of m c \<notin> ahs_of m ` copies m (set cs)"
      using other Cons.prems(4) \<open>c \<notin> set cs\<close> by (fastforce simp: copies_def)
    ultimately have "chs_heap m' c = chs_heap m1 c" "act_p_copy m' (ahs_of m c) = act_p_copy m1 (ahs_of m c)"
      using o2 D by (auto simp: outside_def)
    with o1(2) True show ?thesis by (simp add: pushed_def Let_def cpy_p_copy_def)
  next
    case False
    then have c: "c \<in> copies m1 (set cs)" using Cons.prems(4) D by (auto simp: copies_def)
    have "owns (set cs) m1"
    proof -
      have "chs_heap m1 x = chs_heap m x" if "x \<in> set cs" for x
        using that o1(1) Cons.prems(2) by (auto simp: outside_def)
      then have "owns (set cs) m1 = owns (set cs) m"
        by (rule owns_cong) (use o1(1) in \<open>simp_all add: outside_def\<close>)
      with owns_mono [OF Cons.prems(3)] show ?thesis by auto
    qed
    from Cons.IH [OF 1(2) _ this c] Cons.prems(2)
    have "pushed m1 m' c" by simp
    moreover have "ahs_of m c \<notin> ahs_of m ` copies m {d}"
      using other [of c d] False Cons.prems(4) by (auto simp: copies_def)
    then have "act_p_copy m1 (ahs_of m c) = act_p_copy m (ahs_of m c)" "copy_clk m1 = copy_clk m"
      using o1(1) by (auto simp: outside_def copy_clk_def fun_eq_iff)
    ultimately show ?thesis unfolding pushed_def Let_def D by (auto split: if_splits)
  qed
qed

text \<open>The state after an undisturbed commit, in one place.\<close>

lemma log_commit_quiet:
  assumes r: "commit_ready l m s es fps" and clk: "new_clock tsc n lclk = Some (clk, n1)"
    and ok: "clk \<noteq> MAX_VERSION"
    and res: "log_commit tsc quiet_link l fps lclk n m = Some (l', fps', n', m')"
  shows "\<And>e. e \<in> set es \<Longrightarrow> cpy_type m (entry l e) = TYPE_COPY \<Longrightarrow> committed fps clk m m' (entry l e)"
    and "\<And>d. d \<notin> entry l ` set es \<Longrightarrow> chs_heap m' d = chs_heap m d"
    and "\<And>a. a \<notin> ahs_of m ` copies m (entry l ` set es) \<Longrightarrow> act_p_copy m' a = act_p_copy m a"
    and "ws_heap m' = (ws_heap m)(cur_wrt_set l := (ws_heap m (cur_wrt_set l))\<lparr>wrt_clk := clk\<rparr>)"
    and "obj_heap m' = obj_heap m" and "\<And>d. p_act (chs_heap m' d) = p_act (chs_heap m d)"
    and "\<And>c. c \<in> copies m (entry l ` set es) \<Longrightarrow> pushed m m' c"
proof -
  let ?cs = "map (entry l) es" and ?ws = "cur_wrt_set l"
  have inv: "ws_inv l m s es" and own: "owns (set ?cs) m" using r by (simp_all add: commit_ready_def)
  obtain m1 where 1: "ws_move_lock_to_copy quiet_link l fps m = Some m1"
      "\<forall>e \<in> set es. moved fps m m1 (entry l e)" "owns (entry l ` set es) m1"
      and m': "m' = fold (ws_unlock_obj clk) ?cs (upd_ws ?ws (\<lambda>w. w\<lparr>wrt_clk := clk\<rparr>) m1)"
    using log_commit_eq [where env = quiet_link, OF r keeps_quiet_link clk] res by auto
  show "\<And>e. e \<in> set es \<Longrightarrow> cpy_type m (entry l e) = TYPE_COPY \<Longrightarrow> committed fps clk m m' (entry l e)"
    unfolding m' by (rule moved_committed [OF 1(2,3) ok])
  have walk: "log_walk (ws_move_obj quiet_link fps) (set ?cs)"
    by (rule ws_move_obj_walk) (simp add: quiet_link_def)
  obtain nf where run: "run_body (ws_move_obj quiet_link fps) ?cs (of_nat (length fps), m) = Some (nf, m1)"
    using log_walk.ws_for_each_shape [OF walk ws_inv_shape [OF inv], of "of_nat (length fps)"] 1(1)
    by (auto simp: ws_move_lock_to_copy_def ws_invD(2) [OF inv])
  note out = run_move_outside [OF run]
  show "\<And>d. d \<notin> entry l ` set es \<Longrightarrow> chs_heap m' d = chs_heap m d"
    "\<And>a. a \<notin> ahs_of m ` copies m (entry l ` set es) \<Longrightarrow> act_p_copy m' a = act_p_copy m a"
    "ws_heap m' = (ws_heap m)(?ws := (ws_heap m ?ws)\<lparr>wrt_clk := clk\<rparr>)"
    "obj_heap m' = obj_heap m" "\<And>d. p_act (chs_heap m' d) = p_act (chs_heap m d)"
    using out by (auto simp: m' fold_unlock outside_def)
  show "pushed m m' c"
    if "c \<in> copies m (entry l ` set es)" for c
    using run_move_next [OF run commit_ready_distinct(1) [OF r] own, of c] that
    by (auto simp: m' fold_unlock pushed_def Let_def cpy_p_copy_def)
qed

section \<open>Readers after the commit and before it\<close>

text \<open>
  A critical section whose clock is certainly behind the commit reads the new copy of every object
  of the write set.  This holds under any interference that the commit tolerates.
\<close>

lemma committed_deref:
  assumes "committed fps clk m m' c" and "\<not> fp_is_free fps (ahs_of m c)" and "cpy_obj_size m c \<noteq> 0"
    and "get_act_obj la m' obj = p_act (chs_heap m c)" and "obj \<noteq> NULL" and "chs_to_obj c \<noteq> NULL"
    and "lte_clock clk (local_clk self)"
  shows "\<exists>self'. mvrlu_deref la m' self obj = Some (chs_to_obj c, self')"
proof -
  have "act_p_copy m' (obj_to_ahs (p_act (chs_heap m c))) = chs_to_obj c" "get_wrt_clk m' c = clk"
    using assms(1-3) by (simp_all add: committed_def Let_def ahs_of_def)
  with assms(4-7) show ?thesis
    by (simp add: mvrlu_deref_def Let_def deref_walk.simps)
qed

text \<open>
  The chain of any object after an undisturbed commit: as before, or with one copy of the write set, which
  carries the new clock, in front of it.  The recorded clocks of successors stay right.
\<close>

lemma commit_chain:
  assumes r: "commit_ready l m s es fps" and clk: "new_clock tsc n lclk = Some (clk, n1)"
    and ok: "clk \<noteq> MAX_VERSION"
    and res: "log_commit tsc quiet_link l fps lclk n m = Some (l', fps', n', m')"
    and ch: "vchain m (act_p_copy m (obj_to_ahs x)) qs"
    and sep: "\<And>q. q \<in> set qs \<Longrightarrow> obj_to_chs q \<notin> entry l ` set es \<and>
      own_wrt_clk (chs_heap m (obj_to_chs q)) \<noteq> MAX_VERSION"
  shows "\<And>q. q \<in> set qs \<Longrightarrow> chs_heap m' (obj_to_chs q) = chs_heap m (obj_to_chs q) \<and> copy_clk m' q = copy_clk m q"
    and "\<exists>qs'. vchain m' (act_p_copy m' (obj_to_ahs x)) qs' \<and> (next_clks m qs \<longrightarrow> next_clks m' qs') \<and>
      (qs' = qs \<or> (\<exists>c. qs' = c # qs \<and> copy_clk m' c = clk \<and>
         wrt_clk_next (chs_heap m' (obj_to_chs c)) = (case qs of [] \<Rightarrow> MIN_VERSION | q # _ \<Rightarrow> copy_clk m q)))"
proof -
  let ?a = "obj_to_ahs x"
  note C = log_commit_quiet [OF r clk ok res]
  show same: "chs_heap m' (obj_to_chs q) = chs_heap m (obj_to_chs q) \<and> copy_clk m' q = copy_clk m q"
    if "q \<in> set qs" for q
    using C(2) [of "obj_to_chs q"] sep [OF that] by (auto simp: copy_clk_def get_wrt_clk_def Let_def)
  have ch': "vchain m' p qs = vchain m p qs" for p
    using same by (intro vchain_cong) (simp add: cpy_p_copy_def)
  have nc: "next_clks m' qs = next_clks m qs" using same by (intro next_clks_cong) auto
  show "\<exists>qs'. vchain m' (act_p_copy m' ?a) qs' \<and> (next_clks m qs \<longrightarrow> next_clks m' qs') \<and>
      (qs' = qs \<or> (\<exists>c. qs' = c # qs \<and> copy_clk m' c = clk \<and>
         wrt_clk_next (chs_heap m' (obj_to_chs c)) = (case qs of [] \<Rightarrow> MIN_VERSION | q # _ \<Rightarrow> copy_clk m q)))"
  proof (cases "act_p_copy m' ?a = act_p_copy m ?a")
    case True
    then show ?thesis using ch ch' nc by auto
  next
    case False
    then obtain c where c: "c \<in> copies m (entry l ` set es)" "ahs_of m c = ?a" using C(3) [of ?a] by force
    have inv: "ws_inv l m s es" and buf: "buf_ok l" using r by (auto simp: commit_ready_def)
    obtain e where e: "e \<in> set es" "c = entry l e" "cpy_type m c = TYPE_COPY"
      using c(1) inv by (auto simp: copies_def ws_inv_def)
    let ?c = "chs_to_obj c" and ?p = "act_p_copy m ?a"
    have push: "act_p_copy m' ?a = ?c" "cpy_p_copy m' c = ?p"
      "wrt_clk_next (chs_heap m' c) = (if ?p = NULL then MIN_VERSION else copy_clk m ?p)"
      using C(7) [OF c(1)] False by (auto simp: pushed_def Let_def c(2))
    have new: "copy_clk m' ?c = clk"
      using C(1) [OF e(1)] e by (simp add: copy_clk_def committed_def Let_def)
    have nxt: "wrt_clk_next (chs_heap m' c) = (case qs of [] \<Rightarrow> MIN_VERSION | q # _ \<Rightarrow> copy_clk m q)"
      using ch push(3) by (cases qs) auto
    have "next_clks m' (?c # qs)" if "next_clks m qs"
      using that nxt nc same by (cases qs) auto
    moreover have "vchain m' (act_p_copy m' ?a) (?c # qs)"
      using ch push entry_obj_not_NULL [OF buf] e(2) by (simp add: ch')
    ultimately show ?thesis using new nxt by (intro exI [of _ "?c # qs"]) auto
  qed
qed

text \<open>
  A critical section that does not see the new clock gets the pointers it got before the commit.  The only
  exception is an object whose newest version was older than \<open>qp_clk2\<close> of the reader: behind the new copy it
  is not looked at any more, and the reader gets the object itself.
\<close>

lemma commit_snapshot_stable:
  assumes r: "commit_ready l m s es fps" and clk: "new_clock tsc n lclk = Some (clk, n1)"
    and ok: "clk \<noteq> MAX_VERSION"
    and res: "log_commit tsc quiet_link l fps lclk n m = Some (l', fps', n', m')"
    and old: "\<not> lte_clock clk (local_clk self)" and obj: "obj \<noteq> NULL"
    and ch: "vchain m (act_p_copy m (obj_to_ahs (get_act_obj la m obj))) qs"
    and sep: "\<And>q. q \<in> set qs \<Longrightarrow> obj_to_chs q \<notin> entry l ` set es \<and>
      own_wrt_clk (chs_heap m (obj_to_chs q)) \<noteq> MAX_VERSION"
  shows "\<exists>p s1 p' s2. mvrlu_deref la m self obj = Some (p, s1) \<and> mvrlu_deref la m' self obj = Some (p', s2) \<and>
    (p' = p \<or> qs \<noteq> [] \<and> lte_clock (copy_clk m (hd qs)) (qp_clk2 (thr_log self)) \<and> p' = get_act_obj la m obj)"
proof -
  let ?x = "get_act_obj la m obj" and ?q2 = "qp_clk2 (thr_log self)" and ?l = "local_clk self"
  note C = log_commit_quiet [OF r clk ok res] and K = commit_chain [OF r clk ok res ch sep]
  have x: "get_act_obj la m' obj = ?x" by (simp add: get_act_obj_def C(6))
  have live: "live_versions m' ?q2 qs = live_versions m ?q2 qs"
    using K(1) by (induction qs) auto
  have find: "find (\<lambda>q. lte_clock (copy_clk m' q) ?l) (live_versions m ?q2 qs) =
      find (\<lambda>q. lte_clock (copy_clk m q) ?l) (live_versions m ?q2 qs)"
    using K(1) live_versions_subset [of m ?q2 qs] by (intro find_cong) auto
  obtain qs' where qs': "vchain m' (act_p_copy m' (obj_to_ahs ?x)) qs'"
    "qs' = qs \<or> (\<exists>c. qs' = c # qs \<and> copy_clk m' c = clk \<and>
       wrt_clk_next (chs_heap m' (obj_to_chs c)) = (case qs of [] \<Rightarrow> MIN_VERSION | q # _ \<Rightarrow> copy_clk m q))"
    using K(2) by blast
  obtain s2 where d': "mvrlu_deref la m' self obj =
      Some (case find (\<lambda>q. lte_clock (copy_clk m' q) ?l) (live_versions m' ?q2 qs') of Some q \<Rightarrow> q | None \<Rightarrow> ?x, s2)"
    using mvrlu_deref_chain [OF obj, of m' la qs' self, unfolded x] qs'(1) by blast
  obtain s1 where d: "mvrlu_deref la m self obj =
      Some (case find (\<lambda>q. lte_clock (copy_clk m q) ?l) (live_versions m ?q2 qs) of Some q \<Rightarrow> q | None \<Rightarrow> ?x, s1)"
    using mvrlu_deref_chain [OF obj ch, of self] by blast
  from qs'(2) show ?thesis
  proof
    assume "qs' = qs"
    with d d' show ?thesis by (simp add: live find)
  next
    assume "\<exists>c. qs' = c # qs \<and> copy_clk m' c = clk \<and>
      wrt_clk_next (chs_heap m' (obj_to_chs c)) = (case qs of [] \<Rightarrow> MIN_VERSION | q # _ \<Rightarrow> copy_clk m q)"
    then obtain c where c: "qs' = c # qs" "copy_clk m' c = clk"
      "wrt_clk_next (chs_heap m' (obj_to_chs c)) = (case qs of [] \<Rightarrow> MIN_VERSION | q # _ \<Rightarrow> copy_clk m q)" by blast
    show ?thesis
    proof (cases "qs = [] \<or> \<not> lte_clock (copy_clk m (hd qs)) ?q2")
      case True
      then have "find (\<lambda>q. lte_clock (copy_clk m' q) ?l) (live_versions m' ?q2 qs') =
          find (\<lambda>q. lte_clock (copy_clk m q) ?l) (live_versions m ?q2 qs)"
        using c old live find by (cases qs) auto
      with d d' show ?thesis by simp
    next
      case False
      then have "find (\<lambda>q. lte_clock (copy_clk m' q) ?l) (live_versions m' ?q2 qs') = None"
        using c old by (cases qs) auto
      with d d' False show ?thesis by auto
    qed
  qed
qed

text \<open>
  The bytes that such a reader gets do not change in that case either, if the newest version had been written
  back to its object, which reclamation does before a clock becomes \<open>qp_clk2\<close> of a reader.
\<close>

definition holds_newest :: "mem \<Rightarrow> u64 \<Rightarrow> addr \<Rightarrow> addr list \<Rightarrow> bool" where
  "holds_newest m qp2 x qs \<longleftrightarrow>
     (case qs of [] \<Rightarrow> True | q # _ \<Rightarrow> lte_clock (copy_clk m q) qp2 \<longrightarrow> obj_heap m x = obj_heap m q)"

lemma lte_clock_mono: "lte_clock a b \<Longrightarrow> b \<le> c \<Longrightarrow> lte_clock a c"
  by (simp add: lte_clock_def ordo_lt_clock_def)

lemma commit_bytes_stable:
  assumes r: "commit_ready l m s es fps" and clk: "new_clock tsc n lclk = Some (clk, n1)"
    and ok: "clk \<noteq> MAX_VERSION"
    and res: "log_commit tsc quiet_link l fps lclk n m = Some (l', fps', n', m')"
    and old: "\<not> lte_clock clk (local_clk self)" and obj: "obj \<noteq> NULL"
    and ch: "vchain m (act_p_copy m (obj_to_ahs (get_act_obj la m obj))) qs"
    and sep: "\<And>q. q \<in> set qs \<Longrightarrow> obj_to_chs q \<notin> entry l ` set es \<and>
      own_wrt_clk (chs_heap m (obj_to_chs q)) \<noteq> MAX_VERSION"
    and qp: "qp_clk2 (thr_log self) \<le> local_clk self" "holds_newest m (qp_clk2 (thr_log self)) (get_act_obj la m obj) qs"
    and d: "mvrlu_deref la m self obj = Some (p, s1)" "mvrlu_deref la m' self obj = Some (p', s2)"
  shows "obj_heap m' p' = obj_heap m p"
proof -
  have heap: "obj_heap m' = obj_heap m" using log_commit_quiet [OF r clk ok res] by simp
  from commit_snapshot_stable [OF r clk ok res old obj ch sep] d
  consider "p' = p" | q qs' where "qs = q # qs'" "lte_clock (copy_clk m q) (qp_clk2 (thr_log self))" "p' = get_act_obj la m obj"
    by (cases qs) auto
  then show ?thesis
  proof cases
    case 2
    have "lte_clock (copy_clk m q) (local_clk self)" by (rule lte_clock_mono [OF 2(2) qp(1)])
    then have "find (\<lambda>q. lte_clock (copy_clk m q) (local_clk self)) (live_versions m (qp_clk2 (thr_log self)) qs) = Some q"
      using 2(1) by simp
    then have "p = q" using mvrlu_deref_chain [OF obj ch, of self] d(1) by simp
    then show ?thesis using qp(2) 2 heap by (simp add: holds_newest_def)
  qed (simp add: heap)
qed

end
