(* ===== verification/Mvrlu_Quiescence.thy ===== *)
theory Mvrlu_Quiescence
  imports Mvrlu_System
begin

text \<open>
  Why a grace period protects readers: the interleaving of \<open>qp_detect\<close> with threads that enter
  and leave critical sections, as a step relation.  A reader takes three steps: it increments
  \<open>run_cnt\<close>, then reads its clock (both in \<open>mvrlu_reader_lock\<close>), and increments \<open>run_cnt\<close> again
  when it leaves.  The quiescence thread, having read its clock, scans the live threads in any
  order (\<open>qp_init\<close>) and then clears \<open>need_wait\<close> of threads that pass the test of \<open>qp_wait\<close>.
\<close>

section \<open>Steps\<close>

datatype phase = Outside | Entering | Inside

datatype qp_phase = Scanning | Waiting | Passed

record gp_state =
  gp_threads :: "addr \<Rightarrow> mvrlu_thread_struct"
  gp_phase :: "addr \<Rightarrow> phase"
  gp_qp :: qp_phase
  gp_clk :: u64
  gp_scanned :: "addr set"
  gp_n :: nat

definition gp_upd :: "addr \<Rightarrow> (mvrlu_thread_struct \<Rightarrow> mvrlu_thread_struct) \<Rightarrow> gp_state \<Rightarrow> gp_state" where
  "gp_upd t f s = s\<lparr>gp_threads := (gp_threads s)(t := f (gp_threads s t))\<rparr>"

definition gp_set_phase :: "addr \<Rightarrow> phase \<Rightarrow> gp_state \<Rightarrow> gp_state" where
  "gp_set_phase t p s = s\<lparr>gp_phase := (gp_phase s)(t := p)\<rparr>"

definition bump_run_cnt :: "mvrlu_thread_struct \<Rightarrow> mvrlu_thread_struct" where
  "bump_run_cnt thr = thr\<lparr>run_cnt := run_cnt thr + 1\<rparr>"

inductive gp_step :: "(nat \<Rightarrow> u64) \<Rightarrow> addr set \<Rightarrow> gp_state \<Rightarrow> gp_state \<Rightarrow> bool"
  for tsc live where
  enter: "gp_phase s t = Outside \<Longrightarrow>
    gp_step tsc live s (gp_set_phase t Entering (gp_upd t bump_run_cnt s))"
| clock: "gp_phase s t = Entering \<Longrightarrow>
    gp_step tsc live s (gp_set_phase t Inside
      (gp_upd t (\<lambda>thr. thr\<lparr>local_clk := tsc (gp_n s)\<rparr>) s)\<lparr>gp_n := Suc (gp_n s)\<rparr>)"
| leave: "gp_phase s t = Inside \<Longrightarrow>
    gp_step tsc live s (gp_set_phase t Outside (gp_upd t bump_run_cnt s))"
| scan: "\<lbrakk>gp_qp s = Scanning; t \<in> live; t \<notin> gp_scanned s\<rbrakk> \<Longrightarrow>
    gp_step tsc live s ((gp_upd t qp_init_thread s)\<lparr>gp_scanned := insert t (gp_scanned s)\<rparr>)"
| scanned: "\<lbrakk>gp_qp s = Scanning; live \<subseteq> gp_scanned s\<rbrakk> \<Longrightarrow>
    gp_step tsc live s (s\<lparr>gp_qp := Waiting\<rparr>)"
| check: "\<lbrakk>gp_qp s = Waiting; t \<in> live; need_wait (thr_qp_info (gp_threads s t));
     qp_passed (gp_clk s) (gp_threads s t)\<rbrakk> \<Longrightarrow>
    gp_step tsc live s (gp_upd t clear_need_wait s)"
| pass: "\<lbrakk>gp_qp s = Waiting; \<forall>t \<in> live. \<not> need_wait (thr_qp_info (gp_threads s t))\<rbrakk> \<Longrightarrow>
    gp_step tsc live s (s\<lparr>gp_qp := Passed\<rparr>)"

inductive_cases gp_stepE: "gp_step tsc live s s'"

text \<open>
  The start of \<open>qp_detect\<close>: the clock has just been read, and the parity of \<open>run_cnt\<close> says which
  threads are in a critical section.
\<close>

definition gp_start :: "(nat \<Rightarrow> u64) \<Rightarrow> gp_state \<Rightarrow> bool" where
  "gp_start tsc s \<longleftrightarrow>
     gp_qp s = Scanning \<and> gp_scanned s = {} \<and> (\<exists>k < gp_n s. gp_clk s = tsc k) \<and>
     (\<forall>t. odd (unat (run_cnt (gp_threads s t))) \<longleftrightarrow> gp_phase s t \<noteq> Outside)"

section \<open>The invariant\<close>

definition gp_ok :: "gp_state \<Rightarrow> addr \<Rightarrow> bool" where
  "gp_ok s t \<longleftrightarrow> gp_phase s t = Inside \<longrightarrow> unat (gp_clk s) \<le> unat (local_clk (gp_threads s t)) + 267"

definition gp_inv :: "(nat \<Rightarrow> u64) \<Rightarrow> addr set \<Rightarrow> gp_state \<Rightarrow> bool" where
  "gp_inv tsc live s \<longleftrightarrow>
     (\<exists>k < gp_n s. gp_clk s = tsc k) \<and>
     (\<forall>t. odd (unat (run_cnt (gp_threads s t))) \<longleftrightarrow> gp_phase s t \<noteq> Outside) \<and>
     (\<forall>t \<in> gp_scanned s.
        need_wait (thr_qp_info (gp_threads s t)) \<and>
          qp_run_cnt (thr_qp_info (gp_threads s t)) = run_cnt (gp_threads s t) \<or> gp_ok s t) \<and>
     (gp_qp s \<noteq> Scanning \<longrightarrow> live \<subseteq> gp_scanned s) \<and>
     (gp_qp s = Passed \<longrightarrow> (\<forall>t \<in> live. gp_ok s t))"

lemma even_succ_u32: "even (unat (x + 1 :: u32)) \<longleftrightarrow> odd (unat x)"
  by (simp add: unat_word_ariths dvd_mod_iff)

lemma gp_upd_sel [simp]:
  "gp_threads (gp_upd t f s) u = (if u = t then f (gp_threads s t) else gp_threads s u)"
  "gp_phase (gp_upd t f s) = gp_phase s" "gp_qp (gp_upd t f s) = gp_qp s"
  "gp_clk (gp_upd t f s) = gp_clk s" "gp_scanned (gp_upd t f s) = gp_scanned s"
  "gp_n (gp_upd t f s) = gp_n s"
  by (simp_all add: gp_upd_def)

lemma gp_set_phase_sel [simp]:
  "gp_phase (gp_set_phase t p s) u = (if u = t then p else gp_phase s u)"
  "gp_threads (gp_set_phase t p s) = gp_threads s" "gp_qp (gp_set_phase t p s) = gp_qp s"
  "gp_clk (gp_set_phase t p s) = gp_clk s" "gp_scanned (gp_set_phase t p s) = gp_scanned s"
  "gp_n (gp_set_phase t p s) = gp_n s"
  by (simp_all add: gp_set_phase_def)

lemma gp_start_inv: "gp_start tsc s \<Longrightarrow> gp_inv tsc live s"
  by (auto simp: gp_start_def gp_inv_def)

lemma gp_step_inv:
  assumes "gp_step tsc live s s'" and inv: "gp_inv tsc live s" and sync: "ordo_synced tsc"
    and ok: "\<And>k. clock_ok (tsc k)"
  shows "gp_inv tsc live s'"
  using assms(1)
proof cases
  case (enter t)
  with inv show ?thesis
    by (auto simp: gp_inv_def gp_ok_def bump_run_cnt_def even_succ_u32)
next
  case (clock t)
  obtain k where "k < gp_n s" "gp_clk s = tsc k" using inv by (auto simp: gp_inv_def)
  with sync have "unat (gp_clk s) \<le> unat (tsc (gp_n s)) + 267" by (simp add: ordo_synced_def)
  with clock inv show ?thesis
    by (auto simp: gp_inv_def gp_ok_def less_Suc_eq)
next
  case (leave t)
  with inv show ?thesis
    by (auto simp: gp_inv_def gp_ok_def bump_run_cnt_def even_succ_u32)
next
  case (scan t)
  with inv show ?thesis
    by (auto simp: gp_inv_def gp_ok_def qp_init_thread_def)
next
  case scanned
  with inv show ?thesis by (auto simp: gp_inv_def gp_ok_def)
next
  case (check t)
  have "gp_ok s t"
    using inv check by (auto simp: gp_inv_def gp_ok_def qp_passed_def gte_clock_unat [OF ok])
  with check inv show ?thesis
    by (auto simp: gp_inv_def gp_ok_def clear_need_wait_def)
next
  case pass
  with inv show ?thesis by (auto simp: gp_inv_def gp_ok_def)
qed

lemma gp_reachable_inv:
  assumes "(gp_step tsc live)\<^sup>*\<^sup>* s s'" and "gp_start tsc s" and "ordo_synced tsc"
    and "\<And>k. clock_ok (tsc k)"
  shows "gp_inv tsc live s'"
  using assms(1)
proof induction
  case base
  show ?case by (rule gp_start_inv [OF assms(2)])
next
  case (step u v)
  from step.hyps(2) step.IH assms(3,4) show ?case by (rule gp_step_inv)
qed

text \<open>
  Once the quiescence thread has passed, every reader that is still in a critical section sees
  every version older than the corrected clock.
\<close>

lemma grace_period:
  assumes "(gp_step tsc live)\<^sup>*\<^sup>* s s'" and "gp_start tsc s" and "ordo_synced tsc"
    and ok: "\<And>k. clock_ok (tsc k)" and "gp_qp s' = Passed" and t: "t \<in> live" "gp_phase s' t = Inside"
    and "267 \<le> unat (gp_clk s')" and w: "clock_ok w" "lte_clock w (correct_qp_clk (gp_clk s'))"
  shows "lte_clock w (local_clk (gp_threads s' t))"
proof -
  have "gp_inv tsc live s'" using assms(1-4) by (rule gp_reachable_inv)
  with assms(5) t have "unat (gp_clk s') \<le> unat (local_clk (gp_threads s' t)) + 267"
    by (auto simp: gp_inv_def gp_ok_def)
  moreover have "unat (correct_qp_clk (gp_clk s')) = unat (gp_clk s') - 267"
    using assms(8) by (simp add: correct_qp_clk_def ordo_boundary_def unat_sub word_le_nat_alt)
  ultimately show ?thesis using w by (simp add: lte_clock_unat)
qed

text \<open>A thread in front of its clock read will see them as well.\<close>

lemma grace_period_entering:
  assumes "(gp_step tsc live)\<^sup>*\<^sup>* s s'" and "gp_start tsc s" and "ordo_synced tsc"
    and "\<And>k. clock_ok (tsc k)"
  shows "unat (gp_clk s') \<le> unat (tsc (gp_n s')) + 267"
proof -
  have "gp_inv tsc live s'" using assms by (rule gp_reachable_inv)
  then obtain k where "k < gp_n s'" "gp_clk s' = tsc k" by (auto simp: gp_inv_def)
  with assms(3) show ?thesis by (simp add: ordo_synced_def)
qed

end
