(* ===== verification/Mvrlu_Lifecycle.thy ===== *)
theory Mvrlu_Lifecycle
  imports Mvrlu_Txn
begin

text \<open>
  The life of a thread structure: initialisation puts it on the live list with a log buffer,
  \<open>mvrlu_thread_finish\<close> takes it off and, while its log is not empty, puts it on the zombie list,
  where the quiescence thread reclaims it.  Also the global start-up, the bookkeeping of the
  quiescence thread over the live list, and the water marks of critical sections.
\<close>

section \<open>The two thread lists\<close>

definition lists_inv :: "mvrlu_sys \<Rightarrow> addr list \<Rightarrow> addr list \<Rightarrow> bool" where
  "lists_inv s ls zs \<longleftrightarrow>
     tl_inv (g_live_threads s) (lists s) ls \<and> tl_inv (g_zombie_threads s) (lists s) zs \<and>
     \<not> tl_lock (g_live_threads s) \<and> \<not> tl_lock (g_zombie_threads s) \<and>
     set (tl_list (g_live_threads s) # map thread_to_list ls) \<inter>
       set (tl_list (g_zombie_threads s) # map thread_to_list zs) = {}"

definition fresh_node :: "mvrlu_sys \<Rightarrow> addr list \<Rightarrow> addr list \<Rightarrow> addr \<Rightarrow> bool" where
  "fresh_node s ls zs t \<longleftrightarrow>
     t \<notin> set ls \<union> set zs \<and> thread_to_list t \<noteq> tl_list (g_live_threads s) \<and>
     thread_to_list t \<noteq> tl_list (g_zombie_threads s)"

lemma tl_inv_locked [simp]: "tl_inv (tlist\<lparr>tl_lock := b\<rparr>) h ts = tl_inv tlist h ts"
  by (simp add: tl_inv_def)

lemma tl_inv_unlock [simp]: "tl_inv (thread_list_unlock tlist) h ts = tl_inv tlist h ts"
  by (simp add: tl_inv_def)

lemma tl_inv_dlist_eq: "tl_inv tlist h ts \<Longrightarrow> dlist h' (tl_list tlist) (map thread_to_list ts) \<Longrightarrow> tl_inv tlist h' ts"
  by (simp add: tl_inv_def)

lemma thread_list_del_other:
  assumes "tl_inv tlist h ts" and "self \<in> set ts" and "tl_inv other h us"
    and "set (tl_list tlist # map thread_to_list ts) \<inter> set (tl_list other # map thread_to_list us) = {}"
    and "thread_list_del tlist self h = Acquired (tl', h')"
  shows "tl_inv other h' us"
proof -
  let ?n = "thread_to_list self"
  have h': "h' = set_prev ?n NULL (set_next ?n NULL (mvrlu_list_del ?n h))"
    using assms(5) by (auto simp: thread_list_del_def thread_list_del_unsafe_def Let_def
        thread_list_lock_force_def thread_list_lock_def split: if_splits)
  have "dlist (mvrlu_list_del ?n h) (tl_list other) (map thread_to_list us)"
    using assms(1-4) by (intro mvrlu_list_del_other [where xs = "map thread_to_list ts" and head = "tl_list tlist"])
      (auto simp: tl_inv_def)
  moreover have "?n \<in> set (map thread_to_list ts)" using assms(2) by simp
  then have "?n \<notin> set (tl_list other # map thread_to_list us)" using assms(4) by (meson disjoint_iff list.set_intros(2))
  ultimately have "dlist h' (tl_list other) (map thread_to_list us)"
    unfolding h' by (subst dlist_cong [of _ _ _ "mvrlu_list_del ?n h"]) auto
  with assms(3) show ?thesis by (rule tl_inv_dlist_eq)
qed

lemma log_of_simps [simp]:
  "log_of (upd_thread t f s) u = (if u = t then thr_log (f (threads s t)) else log_of s u)"
  "log_of (set_log t l s) u = (if u = t then l else log_of s u)"
  by (simp_all add: log_of_def set_log_def)

lemma set_log_sel [simp]:
  "lists (set_log t l s) = lists s" "g_live_threads (set_log t l s) = g_live_threads s"
  "g_zombie_threads (set_log t l s) = g_zombie_threads s" "port_logs (set_log t l s) = port_logs s"
  "memory (set_log t l s) = memory s" "thr_alloc (set_log t l s) = thr_alloc s"
  "threads (set_log t l s) u = (if u = t then (threads s t)\<lparr>thr_log := l\<rparr> else threads s u)"
  by (simp_all add: set_log_def)

section \<open>Initialisation and deregistration\<close>

lemma mvrlu_thread_init_registers:
  assumes inv: "lists_inv s ls zs" and fr: "fresh_node s ls zs t"
    and la: "port_alloc_log_mem (port_logs s) = (buf, la)"
  shows "\<exists>s'. mvrlu_thread_init env t s = Some s' \<and> lists_inv s' (t # ls) zs \<and>
    threads s' t = zero_thread\<lparr>tid := cur_tid (g_live_threads s), thr_log := zero_log\<lparr>log_buffer := buf\<rparr>\<rparr> \<and>
    port_logs s' = la \<and> (\<forall>u. u \<noteq> t \<longrightarrow> threads s' u = threads s u)"
proof -
  define s2 where "s2 = set_log t (zero_log\<lparr>log_buffer := buf\<rparr>) ((upd_thread t (\<lambda>_. zero_thread) s)\<lparr>port_logs := la\<rparr>)"
  have s2: "lists s2 = lists s" "g_live_threads s2 = g_live_threads s" "g_zombie_threads s2 = g_zombie_threads s"
    "port_logs s2 = la" "threads s2 t = zero_thread\<lparr>thr_log := zero_log\<lparr>log_buffer := buf\<rparr>\<rparr>"
    "\<And>u. u \<noteq> t \<Longrightarrow> threads s2 u = threads s u"
    by (simp_all add: s2_def)
  have init: "mvrlu_thread_init env t s = add_live env t s2"
    using la by (simp add: mvrlu_thread_init_def s2_def zero_thread_def)
  have live: "tl_inv (g_live_threads s2) (lists s2) ls" "\<not> tl_lock (g_live_threads s2)" "t \<notin> set ls"
    "thread_to_list t \<noteq> tl_list (g_live_threads s2)"
    using inv fr by (auto simp: lists_inv_def fresh_node_def s2)
  obtain tl1 thr1 h1 where add: "thread_list_add (g_live_threads s2) t (threads s2 t) (lists s2) = Acquired (tl1, thr1, h1)"
      "tl_inv tl1 h1 (t # ls)" "\<not> tl_lock tl1" "tl_list tl1 = tl_list (g_live_threads s)"
      "h1 = mvrlu_list_add (thread_to_list t) (tl_list (g_live_threads s)) (lists s)"
      "thr1 = (threads s2 t)\<lparr>tid := cur_tid (g_live_threads s)\<rparr>"
    using thread_list_add_inv [OF live, of "threads s2 t"] by (auto simp: s2)
  let ?s' = "s2\<lparr>g_live_threads := tl1, threads := (threads s2)(t := thr1), lists := h1\<rparr>"
  have "mvrlu_thread_init env t s = Some ?s'"
    unfolding init by (subst add_live.simps) (simp add: add(1))
  moreover have "tl_inv (g_zombie_threads s) h1 zs"
  proof -
    have "dlist h1 (tl_list (g_zombie_threads s)) (map thread_to_list zs)"
      unfolding add(5) using inv fr
      by (intro mvrlu_list_add_other [where xs = "map thread_to_list ls"])
        (auto simp: lists_inv_def tl_inv_def fresh_node_def)
    then show ?thesis using inv by (auto simp: lists_inv_def intro: tl_inv_dlist_eq)
  qed
  then have "lists_inv ?s' (t # ls) zs"
    using add inv fr by (auto simp: lists_inv_def fresh_node_def s2)
  moreover have "threads ?s' t = zero_thread\<lparr>tid := cur_tid (g_live_threads s), thr_log := zero_log\<lparr>log_buffer := buf\<rparr>\<rparr>"
    by (simp add: add(6) s2)
  ultimately show ?thesis using s2 by auto
qed

lemma del_live_removes:
  assumes inv: "lists_inv s ls zs" and t: "t \<in> set ls"
  shows "\<exists>s'. del_live env t s = Some s' \<and> lists_inv s' (remove1 t ls) zs \<and> fresh_node s' (remove1 t ls) zs t \<and>
    threads s' = threads s \<and> memory s' = memory s \<and> port_logs s' = port_logs s \<and> thr_alloc s' = thr_alloc s"
proof -
  have live: "tl_inv (g_live_threads s) (lists s) ls" "\<not> tl_lock (g_live_threads s)"
    and zom: "tl_inv (g_zombie_threads s) (lists s) zs"
    and disj: "set (tl_list (g_live_threads s) # map thread_to_list ls) \<inter>
       set (tl_list (g_zombie_threads s) # map thread_to_list zs) = {}"
    using inv by (auto simp: lists_inv_def)
  obtain tl1 h1 where del: "thread_list_del (g_live_threads s) t (lists s) = Acquired (tl1, h1)"
      "tl_inv tl1 h1 (remove1 t ls)" "\<not> tl_lock tl1" "tl_list tl1 = tl_list (g_live_threads s)"
    using thread_list_del_inv [OF live(1) t live(2)] by auto
  have zom1: "tl_inv (g_zombie_threads s) h1 zs"
    by (rule thread_list_del_other [OF live(1) t zom disj del(1)])
  have node: "thread_to_list t \<in> set (map thread_to_list ls)" using t by simp
  have dist: "distinct ls" "thread_to_list t \<noteq> tl_list (g_live_threads s)"
    using live(1) node by (auto simp: tl_inv_def dlist_def distinct_map simp del: set_map)
  have "thread_to_list t \<notin> set (tl_list (g_zombie_threads s) # map thread_to_list zs)"
    using disj node by (meson disjoint_iff list.set_intros(2))
  have sub: "set (remove1 t ls) \<subseteq> set ls" by (rule set_remove1_subset)
  let ?s' = "s\<lparr>g_live_threads := tl1, lists := h1\<rparr>"
  have "del_live env t s = Some ?s'" by (subst del_live.simps) (simp add: del(1))
  moreover have "lists_inv ?s' (remove1 t ls) zs"
  proof -
    have "set (map thread_to_list (remove1 t ls)) \<subseteq> set (map thread_to_list ls)" using sub by auto
    with disj have "set (tl_list tl1 # map thread_to_list (remove1 t ls)) \<inter>
        set (tl_list (g_zombie_threads s) # map thread_to_list zs) = {}"
      unfolding del(4) set_simps by blast
    with del zom1 inv show ?thesis by (simp add: lists_inv_def)
  qed
  moreover have "fresh_node ?s' (remove1 t ls) zs t"
    using dist \<open>thread_to_list t \<notin> _\<close> del(4) by (auto simp: fresh_node_def)
  ultimately show ?thesis by auto
qed

text \<open>
  Deregistration: with an empty log the buffer goes back to the pool, otherwise the thread becomes
  a zombie.
\<close>

lemma mvrlu_thread_finish_empty:
  assumes inv: "lists_inv s ls zs" and t: "t \<in> set ls" and "\<not> need_reclaim (log_of s t)"
    and "head_cnt (log_of s t) = tail_cnt (log_of s t)"
    and "port_free_log_mem (port_logs s) (log_buffer (log_of s t)) = Inr la"
  shows "\<exists>s'. mvrlu_thread_finish env t s = Some (Inr s') \<and> lists_inv s' (remove1 t ls) zs \<and>
    port_logs s' = la \<and> log_of s' t = (log_of s t)\<lparr>log_buffer := NULL\<rparr> \<and> thr_alloc s' = thr_alloc s"
proof -
  let ?s1 = "upd_thread t clear_need_wait s"
  have "lists_inv ?s1 ls zs" using inv by (simp add: lists_inv_def)
  then obtain s2 where s2: "del_live env t ?s1 = Some s2" "lists_inv s2 (remove1 t ls) zs"
      "threads s2 = threads ?s1" "port_logs s2 = port_logs ?s1" "thr_alloc s2 = thr_alloc ?s1"
    using del_live_removes [of ?s1 ls zs t env] t by blast
  have l2: "log_of s2 t = log_of s t" by (simp add: log_of_def s2 clear_need_wait_def)
  let ?s3 = "set_log t ((log_of s2 t)\<lparr>log_buffer := NULL\<rparr>) (s2\<lparr>port_logs := la\<rparr>)"
  have "mvrlu_thread_finish env t s = Some (Inr ?s3)"
    using assms(3-5) s2 l2 by (simp add: mvrlu_thread_finish_def free_log_buffer_def)
  moreover have "lists_inv ?s3 (remove1 t ls) zs" using s2(2) by (simp add: lists_inv_def)
  ultimately show ?thesis using s2(5) l2 by auto
qed

lemma add_zombie_adds:
  assumes inv: "lists_inv s ls zs" and fr: "fresh_node s ls zs t"
  shows "\<exists>s'. add_zombie env t s = Some s' \<and> lists_inv s' ls (t # zs) \<and>
    threads s' t = (threads s t)\<lparr>tid := cur_tid (g_zombie_threads s)\<rparr>"
proof -
  have z: "tl_inv (g_zombie_threads s) (lists s) zs" "\<not> tl_lock (g_zombie_threads s)" "t \<notin> set zs"
    "thread_to_list t \<noteq> tl_list (g_zombie_threads s)"
    using inv fr by (auto simp: lists_inv_def fresh_node_def)
  obtain tl1 h1 where add: "thread_list_add (g_zombie_threads s) t (threads s t) (lists s) =
        Acquired (tl1, (threads s t)\<lparr>tid := cur_tid (g_zombie_threads s)\<rparr>, h1)"
      "tl_inv tl1 h1 (t # zs)" "\<not> tl_lock tl1" "tl_list tl1 = tl_list (g_zombie_threads s)"
      "h1 = mvrlu_list_add (thread_to_list t) (tl_list (g_zombie_threads s)) (lists s)"
    using thread_list_add_inv [OF z, of "threads s t"] by auto
  have "dlist h1 (tl_list (g_live_threads s)) (map thread_to_list ls)"
    unfolding add(5) using inv fr
    by (intro mvrlu_list_add_other [where xs = "map thread_to_list zs"])
      (auto simp: lists_inv_def tl_inv_def fresh_node_def)
  then have "tl_inv (g_live_threads s) h1 ls" using inv by (auto simp: lists_inv_def intro: tl_inv_dlist_eq)
  then have "lists_inv (s\<lparr>g_zombie_threads := tl1, threads := (threads s)(t := (threads s t)
      \<lparr>tid := cur_tid (g_zombie_threads s)\<rparr>), lists := h1\<rparr>) ls (t # zs)"
    using add inv fr by (auto simp: lists_inv_def fresh_node_def)
  moreover have "add_zombie env t s = Some (s\<lparr>g_zombie_threads := tl1, threads := (threads s)(t := (threads s t)
      \<lparr>tid := cur_tid (g_zombie_threads s)\<rparr>), lists := h1\<rparr>)"
    by (subst add_zombie.simps) (simp add: add(1))
  ultimately show ?thesis by auto
qed

lemma mvrlu_thread_finish_zombie:
  assumes inv: "lists_inv s ls zs" and t: "t \<in> set ls" and "\<not> need_reclaim (log_of s t)"
    and "head_cnt (log_of s t) \<noteq> tail_cnt (log_of s t)"
  shows "\<exists>s'. mvrlu_thread_finish env t s = Some (Inr s') \<and> lists_inv s' (remove1 t ls) (t # zs) \<and>
    live_status (threads s' t) = THREAD_LIVE_ZOMBIE \<and> log_of s' t = log_of s t"
proof -
  let ?s1 = "upd_thread t clear_need_wait s"
  have "lists_inv ?s1 ls zs" using inv by (simp add: lists_inv_def)
  then obtain s2 where s2: "del_live env t ?s1 = Some s2" "lists_inv s2 (remove1 t ls) zs"
      "fresh_node s2 (remove1 t ls) zs t" "threads s2 = threads ?s1"
    using del_live_removes [of ?s1 ls zs t env] t by blast
  have l2: "log_of s2 t = log_of s t" by (simp add: log_of_def s2 clear_need_wait_def)
  let ?s3 = "upd_thread t (\<lambda>thr. thr\<lparr>live_status := THREAD_LIVE_ZOMBIE\<rparr>) s2"
  have "lists_inv ?s3 (remove1 t ls) zs" "fresh_node ?s3 (remove1 t ls) zs t"
    using s2(2,3) by (simp_all add: lists_inv_def fresh_node_def)
  from add_zombie_adds [OF this, of env] obtain s4 where s4: "add_zombie env t ?s3 = Some s4"
      "lists_inv s4 (remove1 t ls) (t # zs)" "threads s4 t = (threads ?s3 t)\<lparr>tid := cur_tid (g_zombie_threads ?s3)\<rparr>"
    by blast
  have "mvrlu_thread_finish env t s = Some (Inr s4)"
    using assms(3,4) s2(1) l2 s4(1) by (simp add: mvrlu_thread_finish_def)
  moreover have "log_of s4 t = log_of s t" using s4(3) l2 by (simp add: log_of_def)
  ultimately show ?thesis using s4 by auto
qed

text \<open>
  A thread that is still on the zombie list is freed when its log has been reclaimed in the
  meantime: the list then contains a freed structure.
\<close>

lemma mvrlu_thread_free_zombie:
  assumes "lists_inv s ls zs" and "t \<in> set zs" and "head_cnt (log_of s t) = tail_cnt (log_of s t)"
  shows "\<not> thr_alloc (mvrlu_thread_free t s) t \<and> lists_inv (mvrlu_thread_free t s) ls zs"
  using assms by (simp add: mvrlu_thread_free_def Let_def lists_inv_def log_of_def)

text \<open>A handle that is created and destroyed without a write leaves no trace.\<close>

lemma thread_handle_round_trip:
  assumes inv: "lists_inv s ls zs" and fr: "fresh_node s ls zs p" and "mvrlu_is_init s" and p: "p \<noteq> NULL"
    and pool: "pool_inv base (port_logs s)" "log_pool (port_logs s) = b # bs"
  shows "\<exists>s1 s2. thread_handle_new env p s = Some (p, s1) \<and> lists_inv s1 (p # ls) zs \<and>
    log_buffer (log_of s1 p) = log_part b \<and> port_logs s1 = (port_logs s)\<lparr>log_pool := bs\<rparr> \<and>
    thread_handle_delete env p s1 = Some (Inr s2) \<and> lists_inv s2 ls zs \<and> port_logs s2 = port_logs s \<and> \<not> thr_alloc s2 p"
proof -
  let ?s = "s\<lparr>thr_alloc := (thr_alloc s)(p := True)\<rparr>" and ?buf = "log_part b" and ?la = "(port_logs s)\<lparr>log_pool := bs\<rparr>"
  have al: "port_alloc_log_mem (port_logs s) = (?buf, ?la)" and fre: "port_free_log_mem ?la ?buf = Inr (port_logs s)"
    using log_mem_round_trip [OF pool] by (simp_all add: port_alloc_log_mem_def port_free_log_mem_def)
  have "lists_inv ?s ls zs" "fresh_node ?s ls zs p" "port_alloc_log_mem (port_logs ?s) = (?buf, ?la)"
    using inv fr al by (simp_all add: lists_inv_def fresh_node_def)
  from mvrlu_thread_init_registers [OF this, of env] obtain s1 where
    s1: "mvrlu_thread_init env p ?s = Some s1" "lists_inv s1 (p # ls) zs" "port_logs s1 = ?la"
    "threads s1 p = zero_thread\<lparr>tid := cur_tid (g_live_threads ?s), thr_log := zero_log\<lparr>log_buffer := ?buf\<rparr>\<rparr>" by blast
  have l: "log_of s1 p = zero_log\<lparr>log_buffer := ?buf\<rparr>" by (simp add: log_of_def s1(4))
  have "\<not> need_reclaim (log_of s1 p)" "head_cnt (log_of s1 p) = tail_cnt (log_of s1 p)"
    "port_free_log_mem (port_logs s1) (log_buffer (log_of s1 p)) = Inr (port_logs s)"
    by (simp_all add: l s1(3) fre zero_log_def)
  from mvrlu_thread_finish_empty [OF s1(2) _ this, of env] obtain s2 where
    s2: "mvrlu_thread_finish env p s1 = Some (Inr s2)" "lists_inv s2 ls zs" "port_logs s2 = port_logs s"
    "log_of s2 p = (log_of s1 p)\<lparr>log_buffer := NULL\<rparr>" by auto
  have "lists_inv (mvrlu_thread_free p s2) ls zs" "port_logs (mvrlu_thread_free p s2) = port_logs s"
    "\<not> thr_alloc (mvrlu_thread_free p s2) p"
    using s2(2-4) l by (simp_all add: mvrlu_thread_free_def Let_def lists_inv_def zero_log_def log_of_def)
  then show ?thesis
    using s1(1-3) s2(1) assms(3) p l by (simp add: thread_handle_new_def thread_handle_delete_def mvrlu_thread_alloc_def)
qed

section \<open>Start-up\<close>

lemma mvrlu_init_twice: "mvrlu_init rc s = (r, s') \<Longrightarrow> mvrlu_init rc' s' = (- EBUSY, s')"
  by (auto simp: mvrlu_init_def init_qp_thread_def port_log_region_init_def case_prod_unfold Let_def
      split: if_splits)

lemma mvrlu_init_lists:
  assumes "\<not> init_flag s" and "tl_list (g_live_threads s) \<noteq> tl_list (g_zombie_threads s)"
  shows "fst (mvrlu_init 0 s) = 0" and "lists_inv (snd (mvrlu_init 0 s)) [] []"
proof -
  obtain tl1 h1 where 1: "init_thread_list (g_live_threads s) (lists s) = (tl1, h1)" by force
  obtain tl2 h2 where 2: "init_thread_list (g_zombie_threads s) h1 = (tl2, h2)" by force
  have l: "tl_list tl1 = tl_list (g_live_threads s)" "tl_list tl2 = tl_list (g_zombie_threads s)"
    "\<not> tl_lock tl1" "\<not> tl_lock tl2"
    using 1 2 by (auto simp: init_thread_list_def)
  have "tl_inv tl1 h2 []"
  proof -
    have "dlist h2 (tl_list tl1) [] = dlist h1 (tl_list tl1) []"
      using 2 assms(2) l(1) by (intro dlist_cong) (auto simp: init_thread_list_def init_mvrlu_list_def)
    then show ?thesis using init_thread_list_inv [OF 1] by (simp add: tl_inv_def)
  qed
  with init_thread_list_inv [OF 2] l assms 1 2
  show "fst (mvrlu_init 0 s) = 0" "lists_inv (snd (mvrlu_init 0 s)) [] []"
    by (simp_all add: mvrlu_init_def init_qp_thread_def port_log_region_init_def Let_def lists_inv_def)
qed

section \<open>The quiescence thread and the live list\<close>

lemma lock_live_free:
  "\<not> tl_lock (g_live_threads s) \<Longrightarrow>
   lock_live env s = Some (s\<lparr>g_live_threads := (g_live_threads s)\<lparr>tl_lock := True\<rparr>\<rparr>)"
  by (subst lock_live.simps) (simp add: thread_list_lock_def)

lemma fold_upd_thread:
  "distinct ts \<Longrightarrow> threads (fold (\<lambda>t. upd_thread t f) ts s) u =
     (if u \<in> set ts then f (threads s u) else threads s u)"
  by (induction ts arbitrary: s) auto

lemma fold_upd_thread_lists:
  "lists (fold (\<lambda>t. upd_thread t f) ts s) = lists s"
  "g_live_threads (fold (\<lambda>t. upd_thread t f) ts s) = g_live_threads s"
  "g_zombie_threads (fold (\<lambda>t. upd_thread t f) ts s) = g_zombie_threads s"
  by (induction ts arbitrary: s) simp_all

lemma live_list_inv: "lists_inv s ls zs \<Longrightarrow> live_list s = Some ls"
  by (simp add: lists_inv_def live_list_def thread_list_for_each_inv)

lemma lists_inv_distinct: "lists_inv s ls zs \<Longrightarrow> distinct ls"
  by (auto simp: lists_inv_def tl_inv_def dest!: dlist_distinct simp: distinct_map)

text \<open>A pass over the live list under its lock applies the operation to each live thread once.\<close>

lemma live_pass:
  fixes s f ls
  assumes inv: "lists_inv s ls zs"
  defines "s1 \<equiv> s\<lparr>g_live_threads := (g_live_threads s)\<lparr>tl_lock := True\<rparr>\<rparr>"
  defines "s2 \<equiv> unlock_live (fold (\<lambda>t. upd_thread t f) ls s1)"
  shows "lock_live env s = Some s1" and "live_list s1 = Some ls" and "lists_inv s2 ls zs"
    and "threads s2 u = (if u \<in> set ls then f (threads s u) else threads s u)"
proof -
  show "lock_live env s = Some s1" using inv by (simp add: lock_live_free lists_inv_def s1_def)
  show "live_list s1 = Some ls"
    using inv by (simp add: lists_inv_def live_list_def thread_list_for_each_inv s1_def)
  show "lists_inv s2 ls zs"
    using inv by (simp add: lists_inv_def s2_def s1_def unlock_live_def fold_upd_thread_lists)
  show "threads s2 u = (if u \<in> set ls then f (threads s u) else threads s u)"
    by (simp add: s2_def unlock_live_def fold_upd_thread [OF lists_inv_distinct [OF inv]] s1_def)
qed

lemma qp_init_scans:
  assumes "lists_inv s ls zs"
  shows "\<exists>s'. qp_init env s = Some s' \<and> lists_inv s' ls zs \<and>
    (\<forall>u. threads s' u = (if u \<in> set ls then qp_init_thread (threads s u) else threads s u))"
  using live_pass(1) [OF assms, of env] live_pass(2) [OF assms]
    live_pass(3,4) [OF assms, where f = qp_init_thread] by (auto simp: qp_init_def)

lemma qp_trigger_reclaim_all:
  assumes "lists_inv s ls zs"
  shows "\<exists>s'. qp_trigger_reclaim env s = Some s' \<and> lists_inv s' ls zs \<and>
    (\<forall>u. threads s' u = (if u \<in> set ls
       then qp_update_qp_clk_for_reclaim (qp_clk (g_qp_thread s)) (threads s u) else threads s u))"
  using live_pass(1) [OF assms, of env] live_pass(2) [OF assms]
    live_pass(3,4) [OF assms, where f = "qp_update_qp_clk_for_reclaim (qp_clk (g_qp_thread s))"]
  by (auto simp: qp_trigger_reclaim_def)

section \<open>Water marks\<close>

lemma reclaim_to_high_mark_bound:
  assumes ret: "reclaim_to_high_mark env t s = Some r"
  shows "log_used (log_of r t) < MVRLU_LOG_HIGH_MARK"
proof (rule reclaim_to_high_mark.raw_induct
    [where P = "\<lambda>env t s r. log_used (log_of r t) < MVRLU_LOG_HIGH_MARK", OF _ ret])
  fix f :: "interference \<Rightarrow> addr \<Rightarrow> mvrlu_sys \<Rightarrow> mvrlu_sys option" and env t s r
  assume IH: "\<And>env t s r. f env t s = Some r \<Longrightarrow> log_used (log_of r t) < MVRLU_LOG_HIGH_MARK"
    and r: "Option.bind (log_reclaim_force env t s) (\<lambda>s1.
       if log_used (log_of s1 t) \<ge> MVRLU_LOG_HIGH_MARK then f env t s1 else Some s1) = Some r"
  then show "log_used (log_of r t) < MVRLU_LOG_HIGH_MARK"
    by (auto simp: bind_eq_Some_conv not_le split: if_splits)
qed

text \<open>
  A critical section starts with at least a quarter of the log free, an odd \<open>run_cnt\<close> if it was
  even, and the clock just read.
\<close>

lemma mvrlu_reader_lock_starts:
  assumes "mvrlu_reader_lock tsc env t s = Some s'"
  shows "log_used (log_of s' t) < MVRLU_LOG_HIGH_MARK"
    and "\<exists>s1. run_cnt (threads s' t) = run_cnt (threads s1 t) + 1 \<and>
      local_clk (threads s' t) = tsc (n_rdtsc s1) \<and> n_rdtsc s' = Suc (n_rdtsc s1) \<and> s' = reader_start tsc t s1"
proof -
  obtain s1 where s1: "log_used (log_of s1 t) < MVRLU_LOG_HIGH_MARK" "s' = reader_start tsc t s1"
  proof -
    obtain s0 s1 where s0: "(if log_used (log_of s0 t) \<ge> MVRLU_LOG_HIGH_MARK
        then reclaim_to_high_mark env t s0 else Some s0) = Some s1" "s' = reader_start tsc t s1"
      using assms by (auto simp: mvrlu_reader_lock_def bind_eq_Some_conv)
    then have "log_used (log_of s1 t) < MVRLU_LOG_HIGH_MARK"
      by (auto simp: not_le intro: reclaim_to_high_mark_bound split: if_splits)
    with s0(2) show thesis by (intro that)
  qed
  show "log_used (log_of s' t) < MVRLU_LOG_HIGH_MARK"
    using s1 by (simp add: reader_start_def get_clock_def ordo_get_clock_def Let_def log_of_def)
  show "\<exists>s1. run_cnt (threads s' t) = run_cnt (threads s1 t) + 1 \<and>
      local_clk (threads s' t) = tsc (n_rdtsc s1) \<and> n_rdtsc s' = Suc (n_rdtsc s1) \<and> s' = reader_start tsc t s1"
    using s1(2) by (intro exI [of _ s1])
      (simp add: reader_start_def get_clock_def ordo_get_clock_def Let_def)
qed

end
