(* ===== verification/Mvrlu_Chainhash.thy ===== *)
theory Mvrlu_Chainhash
  imports Mvrlu_Types
begin

text \<open>
  The hash table of \<open>include/mvrlu/chainhash.hh\<close> and the linked lists of
  \<open>include/mvrlu/list.hh\<close> that its buckets use.  The state is what the calling thread sees in its
  critical section: the items by address, the thread's \<open>run_cnt\<close>, and the pointers handed to
  \<open>mvrlu_free\<close>.  What other threads do enters in two parameters.  \<open>lk n\<close> is the outcome of the
  \<open>n\<close>-th call of \<open>mvrlu_try_lock\<close>.  \<open>V n h\<close> is the snapshot a critical section sees that begins
  after \<open>n\<close> such calls, where \<open>h\<close> is what the thread saw before.
\<close>

section \<open>Items, sections and locks\<close>

record ('k, 'v) item =
  it_key :: 'k
  it_val :: 'v
  it_next :: addr

record ('k, 'v) ch_state =
  items :: "addr \<Rightarrow> ('k, 'v) item"
  ch_run_cnt :: u32
  ch_freed :: "addr list"
  n_locks :: nat

text \<open>The constructor and destructor of \<open>mvrlu_section\<close>, and \<open>mvrlu_abort\<close>, as far as the
  critical section counter goes.\<close>

type_synonym ('k, 'v) views = "nat \<Rightarrow> (addr \<Rightarrow> ('k, 'v) item) \<Rightarrow> addr \<Rightarrow> ('k, 'v) item"

definition section_begin :: "('k, 'v) views \<Rightarrow> ('k, 'v) ch_state \<Rightarrow> ('k, 'v) ch_state" where
  "section_begin V s = s\<lparr>ch_run_cnt := ch_run_cnt s + 1, items := V (n_locks s) (items s)\<rparr>"

definition section_end :: "('k, 'v) ch_state \<Rightarrow> ('k, 'v) ch_state" where
  "section_end s = s\<lparr>ch_run_cnt := ch_run_cnt s + 1\<rparr>"

definition section_abort :: "('k, 'v) ch_state \<Rightarrow> ('k, 'v) ch_state" where
  "section_abort s = s\<lparr>ch_run_cnt := ch_run_cnt s + 1\<rparr>"

text \<open>\<open>iter::try_lock\<close> and \<open>iter::try_lock_const\<close>: a null iterator needs no lock, a failure
  aborts the critical section.\<close>

definition iter_try_lock :: "(nat \<Rightarrow> bool) \<Rightarrow> addr \<Rightarrow> ('k, 'v) ch_state \<Rightarrow> bool \<times> ('k, 'v) ch_state" where
  "iter_try_lock lk p s =
     (if p = NULL then (True, s)
      else let ret = lk (n_locks s); s1 = s\<lparr>n_locks := Suc (n_locks s)\<rparr>
           in (ret, if \<not> ret then section_abort s1 else s1))"

definition set_item_next :: "addr \<Rightarrow> addr \<Rightarrow> ('k, 'v) ch_state \<Rightarrow> ('k, 'v) ch_state" where
  "set_item_next p q s = s\<lparr>items := (items s)(p := (items s p)\<lparr>it_next := q\<rparr>)\<rparr>"

definition insert_after :: "addr \<Rightarrow> addr \<Rightarrow> addr \<Rightarrow> ('k, 'v) ch_state \<Rightarrow> ('k, 'v) ch_state" where
  "insert_after pos next x s = set_item_next pos x (set_item_next x next s)"

definition erase_after :: "addr \<Rightarrow> addr \<Rightarrow> ('k, 'v) ch_state \<Rightarrow> ('k, 'v) ch_state" where
  "erase_after pos next s = set_item_next pos (it_next (items s next)) s"

text \<open>\<open>new item(k, v)\<close> at the address \<open>x\<close>; \<open>handle.mvrlu_free(p)\<close>.\<close>

definition new_item :: "addr \<Rightarrow> 'k \<Rightarrow> 'v \<Rightarrow> ('k, 'v) ch_state \<Rightarrow> ('k, 'v) ch_state" where
  "new_item x k v s = s\<lparr>items := (items s)(x := \<lparr>it_key = k, it_val = v, it_next = NULL\<rparr>)\<rparr>"

definition item_free :: "addr \<Rightarrow> ('k, 'v) ch_state \<Rightarrow> ('k, 'v) ch_state" where
  "item_free p s = s\<lparr>ch_freed := ch_freed s @ [p]\<rparr>"

section \<open>Operations on a bucket\<close>

text \<open>
  The walk of \<open>insert\<close>: it stops in front of the first item that is not smaller than the key.
\<close>

partial_function (option) insert_pos ::
    "(addr \<Rightarrow> ('k :: linorder, 'v) item) \<Rightarrow> 'k \<Rightarrow> addr \<Rightarrow> addr \<Rightarrow> (addr \<times> addr) option" where
  "insert_pos h k prev cur =
     (if cur = NULL \<or> it_key (h cur) > k then Some (prev, cur)
      else if it_key (h cur) = k then Some (prev, cur)
      else insert_pos h k cur (it_next (h cur)))"

partial_function (option) bucket_insert :: "('k, 'v) views \<Rightarrow> (nat \<Rightarrow> bool) \<Rightarrow> addr \<Rightarrow> addr \<Rightarrow> 'k :: linorder \<Rightarrow> 'v \<Rightarrow>
    ('k, 'v) ch_state \<Rightarrow> (bool \<times> ('k, 'v) ch_state) option" where
  "bucket_insert V lk x b k v s0 =
     (let s = section_begin V s0
      in case insert_pos (items s) k b (it_next (items s b)) of
           None \<Rightarrow> None
         | Some (prev, cur) \<Rightarrow>
             if cur = NULL \<or> it_key (items s cur) > k then
               let (ok1, s1) = iter_try_lock lk prev s
               in if \<not> ok1 then bucket_insert V lk x b k v (section_end s1)
                  else let (ok2, s2) = iter_try_lock lk cur s1
                       in if \<not> ok2 then bucket_insert V lk x b k v (section_end s2)
                          else Some (True, section_end (insert_after prev cur x (new_item x k v s2)))
             else Some (False, section_end s))"

text \<open>The walk of both versions of \<open>remove\<close>; \<open>P\<close> is the test on an item.\<close>

partial_function (option) remove_pos ::
    "(addr \<Rightarrow> ('k, 'v) item) \<Rightarrow> (('k, 'v) item \<Rightarrow> bool) \<Rightarrow> addr \<Rightarrow> (addr \<times> addr) option" where
  "remove_pos h P prev =
     (let i = it_next (h prev)
      in if i = NULL \<or> P (h i) then Some (prev, i) else remove_pos h P i)"

partial_function (option) bucket_remove :: "('k, 'v) views \<Rightarrow> (nat \<Rightarrow> bool) \<Rightarrow> (('k, 'v) item \<Rightarrow> bool) \<Rightarrow> addr \<Rightarrow>
    ('k, 'v) ch_state \<Rightarrow> (bool \<times> ('k, 'v) ch_state) option" where
  "bucket_remove V lk P b s0 =
     (let s = section_begin V s0
      in case remove_pos (items s) P b of
           None \<Rightarrow> None
         | Some (prev, i) \<Rightarrow>
             if i = NULL then Some (False, section_end s)
             else let (ok1, s1) = iter_try_lock lk prev s
                  in if \<not> ok1 then bucket_remove V lk P b (section_end s1)
                     else let (ok2, s2) = iter_try_lock lk i s1
                          in if \<not> ok2 then bucket_remove V lk P b (section_end s2)
                             else Some (True, section_end (item_free i (erase_after prev i s2))))"

text \<open>The range-based \<open>for\<close> over a chain: the items behind the sentinel.\<close>

partial_function (option) chain_items :: "(addr \<Rightarrow> ('k, 'v) item) \<Rightarrow> addr \<Rightarrow> addr list option" where
  "chain_items h p =
     (if p = NULL then Some []
      else Option.bind (chain_items h (it_next (h p))) (\<lambda>ps. Some (p # ps)))"

text \<open>The loop of \<open>lookup\<close>: skip smaller keys, give up at a larger one.\<close>

partial_function (option) lookup_from ::
    "(addr \<Rightarrow> ('k :: linorder, 'v) item) \<Rightarrow> 'k \<Rightarrow> addr \<Rightarrow> 'v option option" where
  "lookup_from h k p =
     (if p = NULL then Some None
      else if it_key (h p) < k then lookup_from h k (it_next (h p))
      else if it_key (h p) > k then Some None
      else Some (Some (it_val (h p))))"

definition bucket_lookup :: "('k :: linorder, 'v) views \<Rightarrow> addr \<Rightarrow> 'k \<Rightarrow> ('k, 'v) ch_state \<Rightarrow> ('v option \<times> ('k, 'v) ch_state) option" where
  "bucket_lookup V b k s0 =
     (let s = section_begin V s0
      in map_option (\<lambda>r. (r, section_end s)) (lookup_from (items s) k (it_next (items s b))))"

text \<open>One bucket's share of \<open>enumerate(prev, out)\<close>: the smallest key above \<open>prev\<close>.\<close>

definition enum_step :: "'k :: linorder option \<Rightarrow> 'k option \<Rightarrow> 'k \<Rightarrow> 'k option" where
  "enum_step prev out k =
     (if (case prev of None \<Rightarrow> True | Some p \<Rightarrow> p < k) \<and> (case out of None \<Rightarrow> True | Some m \<Rightarrow> k < m)
      then Some k else out)"

definition enum_bucket :: "'k :: linorder option \<Rightarrow> 'k list \<Rightarrow> 'k option" where
  "enum_bucket prev ks = foldl (enum_step prev) None ks"

section \<open>Chains as lists\<close>

fun chain :: "(addr \<Rightarrow> ('k, 'v) item) \<Rightarrow> addr \<Rightarrow> addr list \<Rightarrow> bool" where
  "chain h p [] \<longleftrightarrow> p = NULL"
| "chain h p (x # xs) \<longleftrightarrow> p = x \<and> x \<noteq> NULL \<and> chain h (it_next (h x)) xs"

text \<open>A bucket: the sentinel \<open>b\<close> and behind it distinct items with increasing keys.\<close>

definition bucket_inv :: "(addr \<Rightarrow> ('k :: linorder, 'v) item) \<Rightarrow> addr \<Rightarrow> addr list \<Rightarrow> bool" where
  "bucket_inv h b xs \<longleftrightarrow>
     b \<noteq> NULL \<and> chain h (it_next (h b)) xs \<and> distinct (b # xs) \<and>
     sorted_wrt (\<lambda>x y. it_key (h x) < it_key (h y)) xs"

definition entries :: "(addr \<Rightarrow> ('k, 'v) item) \<Rightarrow> addr list \<Rightarrow> ('k \<times> 'v) list" where
  "entries h xs = map (\<lambda>x. (it_key (h x), it_val (h x))) xs"

lemma chain_cong:
  "(\<And>x. x \<in> set xs \<Longrightarrow> it_next (h' x) = it_next (h x)) \<Longrightarrow> chain h' p xs = chain h p xs"
  by (induction xs arbitrary: p) auto

lemma chain_items_chain: "chain h p xs \<Longrightarrow> chain_items h p = Some xs"
  by (induction xs arbitrary: p) (auto simp: chain_items.simps)

lemma chain_not_NULL: "chain h p xs \<Longrightarrow> NULL \<notin> set xs"
  by (induction xs arbitrary: p) auto

definition first_of :: "addr list \<Rightarrow> addr" where
  "first_of xs = (case xs of [] \<Rightarrow> NULL | x # _ \<Rightarrow> x)"

lemma chain_first: "chain h p xs \<Longrightarrow> p = first_of xs"
  by (cases xs) (auto simp: first_of_def)

text \<open>Redirecting the pointer of the item in front of \<open>bs\<close>.\<close>

lemma chain_redirect:
  assumes "chain h (it_next (h b)) (as @ bs)" and "distinct (b # as)"
    and "\<And>y. y \<in> set (b # as) \<Longrightarrow> it_next (h' y) = (if y = last (b # as) then q else it_next (h y))"
    and "chain h' q cs"
  shows "chain h' (it_next (h' b)) (as @ cs)"
  using assms
proof (induction as arbitrary: b)
  case Nil
  then show ?case by simp
next
  case (Cons a as)
  from Cons.prems have a: "it_next (h b) = a" "a \<noteq> NULL" "chain h (it_next (h a)) (as @ bs)" "distinct (a # as)"
    by auto
  have "b \<noteq> last (b # a # as)" using Cons.prems(2) by auto
  then have "it_next (h' b) = a" using Cons.prems(3) [of b] a(1) by simp
  moreover have "chain h' (it_next (h' a)) (as @ cs)"
    using Cons.IH [OF a(3,4) _ Cons.prems(4)] Cons.prems(3) by simp
  ultimately show ?case using a(2) by simp
qed

lemma sorted_keys_cong:
  "(\<And>x. x \<in> set xs \<Longrightarrow> it_key (h' x) = it_key (h x)) \<Longrightarrow>
   sorted_wrt (\<lambda>x y. it_key (h' x) < it_key (h' y)) xs = sorted_wrt (\<lambda>x y. it_key (h x) < it_key (h y)) xs"
  by (induction xs) auto

lemma sorted_keys_inj:
  "sorted_wrt (\<lambda>x y. it_key (h x) < (it_key (h y) :: 'k :: linorder)) xs \<Longrightarrow> inj_on (\<lambda>y. it_key (h y)) (set xs)"
  using strict_sorted_iff [of "map (\<lambda>y. it_key (h y)) xs"] by (simp add: sorted_wrt_map distinct_map)

section \<open>Look-up\<close>

lemma lookup_from_chain:
  assumes "chain h p xs" and "sorted_wrt (\<lambda>x y. it_key (h x) < it_key (h y)) xs"
  shows "lookup_from h k p = Some (map_of (entries h xs) k)"
  using assms
proof (induction xs arbitrary: p)
  case Nil
  then show ?case by (simp add: lookup_from.simps entries_def)
next
  case (Cons x xs)
  then have x: "p = x" "x \<noteq> NULL" "lookup_from h k (it_next (h x)) = Some (map_of (entries h xs) k)" by auto
  have none: "map_of (entries h xs) k = None" if "k < it_key (h x)"
    using that Cons.prems(2) by (fastforce simp: entries_def map_of_eq_None_iff)
  show ?case
    using x none by (subst lookup_from.simps) (auto simp: entries_def)
qed

section \<open>Insertion\<close>

lemma insert_pos_chain:
  assumes "chain h p xs"
  shows "insert_pos h k prev p =
    Some (last (prev # takeWhile (\<lambda>x. it_key (h x) < k) xs), first_of (dropWhile (\<lambda>x. it_key (h x) < k) xs))"
  using assms
proof (induction xs arbitrary: p prev)
  case Nil
  then show ?case by (simp add: insert_pos.simps first_of_def)
next
  case (Cons x xs)
  then have x: "p = x" "x \<noteq> NULL" "chain h (it_next (h x)) xs" by auto
  show ?case
  proof (cases "it_key (h x) < k")
    case True
    then show ?thesis using x Cons.IH [OF x(3), of x] by (subst insert_pos.simps) auto
  next
    case False
    then show ?thesis using x by (subst insert_pos.simps) (auto simp: first_of_def)
  qed
qed

lemma bucket_insert_link:
  fixes k :: "'k :: linorder" and v :: 'v and s
  assumes inv: "bucket_inv (items s) b (as @ bs)" and new: "x \<notin> set (NULL # b # as @ bs)"
    and lo: "\<And>y. y \<in> set as \<Longrightarrow> it_key (items s y) < k" and hi: "\<And>y. y \<in> set bs \<Longrightarrow> k < it_key (items s y)"
  defines "s' \<equiv> insert_after (last (b # as)) (first_of bs) x (new_item x k v s)"
  shows "bucket_inv (items s') b (as @ x # bs)"
    and "entries (items s') (as @ x # bs) = entries (items s) as @ (k, v) # entries (items s) bs"
proof -
  let ?h = "items s" and ?h' = "items s'" and ?p = "last (b # as)"
  have p: "?p \<in> set (b # as)" by (rule last_in_set) simp
  then have "x \<noteq> ?p" using new by auto
  then have h': "?h' = ?h(x := \<lparr>it_key = k, it_val = v, it_next = first_of bs\<rparr>, ?p := (?h ?p)\<lparr>it_next := x\<rparr>)"
    by (auto simp: s'_def insert_after_def set_item_next_def new_item_def fun_eq_iff)
  have ch: "chain ?h (it_next (?h b)) (as @ bs)" and d: "distinct (b # as @ bs)"
    and srt: "sorted_wrt (\<lambda>x y. it_key (?h x) < it_key (?h y)) (as @ bs)"
    using inv by (auto simp: bucket_inv_def)
  have pbs: "?p \<notin> set bs" using p d by auto
  have "\<exists>q. chain ?h q bs" using ch by (induction as arbitrary: b) auto
  then have bs: "chain ?h (first_of bs) bs" using chain_first by blast
  have "chain ?h' (first_of bs) bs"
    using bs new pbs by (subst chain_cong [where h = ?h]) (auto simp: h')
  then have x: "chain ?h' x (x # bs)" using new \<open>x \<noteq> ?p\<close> by (simp add: h')
  have ch': "chain ?h' (it_next (?h' b)) (as @ x # bs)"
    using new d by (intro chain_redirect [OF ch _ _ x]) (auto simp: h')
  have keys: "it_key (?h' y) = (if y = x then k else it_key (?h y))" "it_val (?h' y) = (if y = x then v else it_val (?h y))" for y
    using \<open>x \<noteq> ?p\<close> by (auto simp: h')
  have "sorted_wrt (\<lambda>x y. it_key (?h' x) < it_key (?h' y)) as" "sorted_wrt (\<lambda>x y. it_key (?h' x) < it_key (?h' y)) bs"
  proof -
    have "\<And>y. y \<in> set as \<Longrightarrow> it_key (?h' y) = it_key (?h y)" "\<And>y. y \<in> set bs \<Longrightarrow> it_key (?h' y) = it_key (?h y)"
      using new by (auto simp: keys)
    from sorted_keys_cong [of as ?h' ?h, OF this(1)] sorted_keys_cong [of bs ?h' ?h, OF this(2)] srt
    show "sorted_wrt (\<lambda>x y. it_key (?h' x) < it_key (?h' y)) as" "sorted_wrt (\<lambda>x y. it_key (?h' x) < it_key (?h' y)) bs"
      by (simp_all add: sorted_wrt_append)
  qed
  moreover have "\<forall>y \<in> set as. \<forall>z \<in> set (x # bs). it_key (?h' y) < it_key (?h' z)"
      "\<forall>z \<in> set bs. it_key (?h' x) < it_key (?h' z)"
    using srt lo hi new by (auto simp: keys sorted_wrt_append)
  ultimately have "sorted_wrt (\<lambda>x y. it_key (?h' x) < it_key (?h' y)) (as @ x # bs)"
    by (simp add: sorted_wrt_append)
  then show "bucket_inv ?h' b (as @ x # bs)"
    using ch' inv new d by (auto simp: bucket_inv_def)
  show "entries ?h' (as @ x # bs) = entries ?h as @ (k, v) # entries ?h bs"
    using new by (auto simp: entries_def keys)
qed

lemma section_sel [simp]:
  "items (section_begin V s) = V (n_locks s) (items s)" "items (section_end s) = items s" "items (section_abort s) = items s"
  "n_locks (section_begin V s) = n_locks s" "n_locks (section_end s) = n_locks s" "n_locks (section_abort s) = n_locks s"
  "ch_freed (section_begin V s) = ch_freed s" "ch_freed (section_end s) = ch_freed s" "ch_freed (section_abort s) = ch_freed s"
  by (simp_all add: section_begin_def section_end_def section_abort_def)

lemma iter_try_lock_cases:
  assumes "iter_try_lock lk p s = (ok, s1)"
  shows "items s1 = items s" and "ch_freed s1 = ch_freed s" and "n_locks s \<le> n_locks s1"
    and "\<not> ok \<Longrightarrow> \<not> lk (n_locks s) \<and> n_locks s1 = Suc (n_locks s)"
  using assms by (auto simp: iter_try_lock_def Let_def split: if_splits)

text \<open>The snapshots a thread can come to see from \<open>h\<close> on.\<close>

definition seen :: "('k, 'v) views \<Rightarrow> (addr \<Rightarrow> ('k, 'v) item) \<Rightarrow> (addr \<Rightarrow> ('k, 'v) item) \<Rightarrow> bool" where
  "seen V = (\<lambda>h h'. \<exists>n. h' = V n h)\<^sup>+\<^sup>+"

lemma seen_step [intro]: "seen V h (V n h)"
  by (auto simp: seen_def)

lemma seen_trans: "seen V (V n h) h' \<Longrightarrow> seen V h h'"
  unfolding seen_def by (rule tranclp_into_tranclp2) auto

lemma seen_id: "seen (\<lambda>n h. h) h h' \<longleftrightarrow> h' = h"
proof -
  have "(\<lambda>h h'. h' = h)\<^sup>+\<^sup>+ h h' \<Longrightarrow> h' = h" by (induction rule: tranclp_induct) auto
  then show ?thesis by (auto simp: seen_def)
qed

text \<open>
  If from some point on every lock is granted, \<open>insert\<close> returns; it adds the key if it was absent
  and otherwise leaves the bucket alone.  The result refers to the snapshot of the last attempt;
  \<open>I\<close> is an invariant that the other threads keep.
\<close>

definition inserted :: "addr \<Rightarrow> 'k :: linorder \<Rightarrow> 'v \<Rightarrow> addr \<Rightarrow> addr list \<Rightarrow>
    (addr \<Rightarrow> ('k, 'v) item) \<Rightarrow> (addr \<Rightarrow> ('k, 'v) item) \<Rightarrow> bool" where
  "inserted x k v b xs h h' \<longleftrightarrow>
     (\<exists>ys. bucket_inv h' b ys \<and> set ys = insert x (set xs) \<and>
        map_of (entries h' ys) = (map_of (entries h xs))(k \<mapsto> v)) \<and>
     it_key (h' x) = k \<and> (\<forall>y \<in> set xs. it_key (h' y) = it_key (h y)) \<and>
     (\<forall>a. a \<notin> set (x # b # xs) \<longrightarrow> h' a = h a)"

lemma map_of_insert:
  "k \<notin> fst ` set as \<Longrightarrow> map_of (as @ (k, v) # bs) = (map_of (as @ bs))(k \<mapsto> v)"
  by (induction as) (auto simp: fun_eq_iff)

lemma insert_pos_absent:
  fixes k :: "'k :: linorder"
  assumes inv: "bucket_inv h b xs" and pos: "insert_pos h k b (it_next (h b)) = Some (p, c)"
    and absent: "k \<notin> fst ` set (entries h xs)"
  obtains as bs where "xs = as @ bs" and "p = last (b # as)" and "c = first_of bs"
    and "\<And>y. y \<in> set as \<Longrightarrow> it_key (h y) < k" and "\<And>y. y \<in> set bs \<Longrightarrow> k < it_key (h y)"
proof -
  define as where "as = takeWhile (\<lambda>y. it_key (h y) < k) xs"
  define bs where "bs = dropWhile (\<lambda>y. it_key (h y) < k) xs"
  have xs: "xs = as @ bs" by (simp add: as_def bs_def)
  have ch: "chain h (it_next (h b)) xs" and srt: "sorted_wrt (\<lambda>x y. it_key (h x) < it_key (h y)) (as @ bs)"
    using inv xs by (auto simp: bucket_inv_def)
  have pc: "p = last (b # as)" "c = first_of bs"
    using insert_pos_chain [OF ch, of k b] pos by (simp_all add: as_def bs_def)
  have lo: "\<And>y. y \<in> set as \<Longrightarrow> it_key (h y) < k" by (auto simp: as_def dest: set_takeWhileD)
  have hi: "k < it_key (h y)" if y: "y \<in> set bs" for y
  proof -
    from y obtain z zs where bs: "bs = z # zs" by (cases bs) auto
    have "\<not> it_key (h z) < k" using hd_dropWhile [of "\<lambda>y. it_key (h y) < k" xs] bs by (simp add: bs_def [symmetric])
    moreover have "it_key (h z) \<noteq> k" using absent xs bs by (auto simp: entries_def)
    ultimately show "k < it_key (h y)" using y bs srt by (auto simp: sorted_wrt_append)
  qed
  show thesis by (rule that [OF xs pc lo hi])
qed

lemma insert_pos_larger:
  fixes k :: "'k :: linorder"
  assumes "bucket_inv h b xs" and "insert_pos h k b (it_next (h b)) = Some (p, c)" and "k \<notin> fst ` set (entries h xs)"
  shows "c = NULL \<or> it_key (h c) > k"
  using assms by (rule insert_pos_absent) (auto simp: first_of_def split: list.splits)

lemma bucket_insert_once:
  fixes k :: "'k :: linorder" and v :: 'v
  assumes inv: "bucket_inv (items s) b xs" and new: "x \<notin> set (NULL # b # xs)"
    and pos: "insert_pos (items s) k b (it_next (items s b)) = Some (p, c)"
    and absent: "k \<notin> fst ` set (entries (items s) xs)"
  shows "inserted x k v b xs (items s) (items (insert_after p c x (new_item x k v s)))"
proof -
  let ?h = "items s" and ?s' = "insert_after p c x (new_item x k v s)"
  from inv pos absent obtain as bs where xs: "xs = as @ bs" and pc: "p = last (b # as)" "c = first_of bs"
    and lo: "\<And>y. y \<in> set as \<Longrightarrow> it_key (?h y) < k" and hi: "\<And>y. y \<in> set bs \<Longrightarrow> k < it_key (?h y)"
    by (rule insert_pos_absent) blast
  have link: "bucket_inv (items ?s') b (as @ x # bs)"
    "entries (items ?s') (as @ x # bs) = entries ?h as @ (k, v) # entries ?h bs"
    using bucket_insert_link [of s b as bs x k v] inv new lo hi by (simp_all add: pc xs)
  have "k \<notin> fst ` set (entries ?h as)" using absent xs by (auto simp: entries_def)
  from map_of_insert [OF this, of v "entries ?h bs"]
  have "map_of (entries (items ?s') (as @ x # bs)) = (map_of (entries ?h xs))(k \<mapsto> v)"
    unfolding link(2) by (simp add: xs entries_def)
  moreover have "p \<in> set (b # xs)" using last_in_set [of "b # as"] by (auto simp: pc xs)
  ultimately show "inserted x k v b xs ?h (items ?s')"
    unfolding inserted_def using link(1) new xs
    by (auto simp: insert_after_def set_item_next_def new_item_def intro!: exI [of _ "as @ x # bs"])
qed

lemma insert_pos_present:
  fixes k :: "'k :: linorder"
  assumes inv: "bucket_inv h b xs" and pos: "insert_pos h k b (it_next (h b)) = Some (p, c)"
    and present: "k \<in> fst ` set (entries h xs)"
  shows "c \<noteq> NULL" and "it_key (h c) = k"
proof -
  define as where "as = takeWhile (\<lambda>y. it_key (h y) < k) xs"
  define bs where "bs = dropWhile (\<lambda>y. it_key (h y) < k) xs"
  have xs: "xs = as @ bs" by (simp add: as_def bs_def)
  have ch: "chain h (it_next (h b)) xs" and srt: "sorted_wrt (\<lambda>x y. it_key (h x) < it_key (h y)) (as @ bs)"
    using inv xs by (auto simp: bucket_inv_def)
  have c: "c = first_of bs"
    using insert_pos_chain [OF ch, of k b] pos by (simp add: bs_def)
  obtain y where y: "y \<in> set xs" "it_key (h y) = k" using present by (auto simp: entries_def)
  have "y \<notin> set as" using y(2) by (auto simp: as_def dest: set_takeWhileD)
  with y(1) have "y \<in> set bs" unfolding xs by simp
  then obtain z zs where bs: "bs = z # zs" by (cases bs) auto
  have "\<not> it_key (h z) < k" using hd_dropWhile [of "\<lambda>y. it_key (h y) < k" xs] bs by (simp add: bs_def [symmetric])
  moreover have "it_key (h z) \<le> k" using \<open>y \<in> set bs\<close> bs srt y(2) by (auto simp: sorted_wrt_append)
  ultimately show "it_key (h c) = k" by (simp add: c bs first_of_def)
  show "c \<noteq> NULL" using chain_not_NULL [OF ch] by (auto simp: c bs xs first_of_def)
qed

lemma bucket_insert_returns:
  fixes k :: "'k :: linorder" and s :: "('k, 'v) ch_state"
  assumes "I (items s)" and rely: "\<And>n h. I h \<Longrightarrow> I (V n h)"
    and bucket: "\<And>h. I h \<Longrightarrow> \<exists>xs. bucket_inv h b xs \<and> x \<notin> set (NULL # b # xs)"
    and granted: "\<And>n. N \<le> n \<Longrightarrow> lk n"
  shows "\<exists>h xs s'. seen V (items s) h \<and> I h \<and> bucket_inv h b xs \<and> x \<notin> set (NULL # b # xs) \<and>
    bucket_insert V lk x b k v s = Some (k \<notin> fst ` set (entries h xs), s') \<and> ch_freed s' = ch_freed s \<and>
    (if k \<in> fst ` set (entries h xs) then items s' = h else inserted x k v b xs h (items s'))"
  using assms(1)
proof (induction "N - n_locks s" arbitrary: s rule: less_induct)
  case less
  let ?s = "section_begin V s"
  let ?h = "items ?s"
  have I: "I ?h" using less.prems rely by simp
  then obtain xs where inv: "bucket_inv ?h b xs" and new: "x \<notin> set (NULL # b # xs)" using bucket by blast
  have sn: "seen V (items s) ?h" by auto
  obtain p c where pos: "insert_pos ?h k b (it_next (?h b)) = Some (p, c)"
    using insert_pos_chain inv unfolding bucket_inv_def by blast
  show ?case
  proof (cases "k \<in> fst ` set (entries ?h xs)")
    case True
    then have "bucket_insert V lk x b k v s = Some (False, section_end ?s)"
      using pos insert_pos_present [OF inv pos] by (subst bucket_insert.simps) (simp add: Let_def)
    then show ?thesis using True I inv new sn by (intro exI [of _ ?h] exI [of _ xs]) auto
  next
    case False
    note once = bucket_insert_once [OF inv new pos False] insert_pos_larger [OF inv pos False]
    obtain ok1 s1 where l1: "iter_try_lock lk p ?s = (ok1, s1)" by force
    obtain ok2 s2 where l2: "iter_try_lock lk c s1 = (ok2, s2)" by force
    note L1 = iter_try_lock_cases [OF l1] and L2 = iter_try_lock_cases [OF l2]
    have unf: "bucket_insert V lk x b k v s =
      (if \<not> ok1 then bucket_insert V lk x b k v (section_end s1)
       else if \<not> ok2 then bucket_insert V lk x b k v (section_end s2)
       else Some (True, section_end (insert_after p c x (new_item x k v s2))))"
      using once(2) by (subst bucket_insert.simps) (simp only: Let_def pos option.case prod.case l1 l2 if_True)
    have again: ?thesis if e: "bucket_insert V lk x b k v s = bucket_insert V lk x b k v (section_end s')"
      and s': "items s' = ?h" "n_locks s < n_locks s'" "\<not> N \<le> n_locks s" "ch_freed s' = ch_freed s" for s'
    proof -
      from s' have "N - n_locks (section_end s') < N - n_locks s" "I (items (section_end s'))" using I by auto
      from less.hyps [OF this] obtain h xs s'' where
        "seen V (items (section_end s')) h" and r: "I h" "bucket_inv h b xs" "x \<notin> set (NULL # b # xs)"
        "bucket_insert V lk x b k v s = Some (k \<notin> fst ` set (entries h xs), s'')"
        "ch_freed s'' = ch_freed (section_end s')"
        "if k \<in> fst ` set (entries h xs) then items s'' = h else inserted x k v b xs h (items s'')"
        unfolding e by blast
      then have "seen V (items s) h" using s'(1) seen_trans by simp
      with r s'(4) show ?thesis by (intro exI [of _ h] exI [of _ xs] exI [of _ s'']) simp
    qed
    consider (fail1) "\<not> ok1" | (fail2) "ok1" "\<not> ok2" | (ok) ok1 ok2 by blast
    then show ?thesis
    proof cases
      case fail1
      then have "\<not> N \<le> n_locks s" using L1(4) granted by auto
      then show ?thesis
        by (intro again [of s1]) (use fail1 L1 in \<open>simp_all add: unf\<close>)
    next
      case fail2
      then have "\<not> N \<le> n_locks s1" "n_locks s \<le> n_locks s1" using L1(3) L2(4) granted by auto
      then show ?thesis
        by (intro again [of s2]) (use fail2 L1 L2 in \<open>simp_all add: unf\<close>)
    next
      case ok
      have it: "items s2 = ?h" using L1(1) L2(1) by simp
      let ?s' = "insert_after p c x (new_item x k v s2)"
      have "items ?s' = items (insert_after p c x (new_item x k v ?s))"
        by (simp add: insert_after_def set_item_next_def new_item_def it)
      moreover have "bucket_insert V lk x b k v s = Some (True, section_end ?s')"
        using ok by (simp add: unf)
      moreover have "ch_freed ?s' = ch_freed s"
        using L1(2) L2(2) by (simp add: insert_after_def set_item_next_def new_item_def)
      ultimately show ?thesis using once(1) I inv new sn False by (intro exI [of _ ?h] exI [of _ xs]) auto
    qed
  qed
qed

section \<open>Removal\<close>

lemma remove_pos_chain:
  assumes "chain h (it_next (h b)) xs"
  shows "remove_pos h P b =
    Some (last (b # takeWhile (\<lambda>y. \<not> P (h y)) xs), first_of (dropWhile (\<lambda>y. \<not> P (h y)) xs))"
  using assms
proof (induction xs arbitrary: b)
  case Nil
  then show ?case by (simp add: remove_pos.simps first_of_def)
next
  case (Cons x xs)
  then have x: "it_next (h b) = x" "x \<noteq> NULL" "chain h (it_next (h x)) xs" by auto
  then show ?case using Cons.IH [OF x(3)] by (subst remove_pos.simps) (auto simp: Let_def first_of_def)
qed

definition removed :: "addr \<Rightarrow> addr \<Rightarrow> addr list \<Rightarrow>
    (addr \<Rightarrow> ('k :: linorder, 'v) item) \<Rightarrow> (addr \<Rightarrow> ('k, 'v) item) \<Rightarrow> bool" where
  "removed i b xs h h' \<longleftrightarrow>
     (\<exists>ys. bucket_inv h' b ys \<and> set ys = set xs - {i} \<and>
        map_of (entries h' ys) = (map_of (entries h xs))(it_key (h i) := None)) \<and>
     (\<forall>y. it_key (h' y) = it_key (h y)) \<and> (\<forall>a. a \<notin> set (b # xs) \<longrightarrow> h' a = h a)"

lemma bucket_remove_once:
  fixes s :: "('k :: linorder, 'v) ch_state"
  assumes inv: "bucket_inv (items s) b (as @ i # bs)"
  shows "removed i b (as @ i # bs) (items s) (items (erase_after (last (b # as)) i s))"
proof -
  define p where "p = last (b # as)"
  let ?h = "items s" and ?h' = "items (erase_after p i s)"
  have ch: "chain ?h (it_next (?h b)) (as @ i # bs)" and d: "distinct (b # as @ i # bs)"
    and srt: "sorted_wrt (\<lambda>x y. it_key (?h x) < it_key (?h y)) (as @ i # bs)"
    using inv by (auto simp: bucket_inv_def)
  have p: "p \<in> set (b # as)" unfolding p_def by (rule last_in_set) simp
  have h': "?h' = ?h(p := (?h p)\<lparr>it_next := it_next (?h i)\<rparr>)" by (simp add: erase_after_def set_item_next_def)
  have keys: "it_key (?h' y) = it_key (?h y)" "it_val (?h' y) = it_val (?h y)" for y
    by (auto simp: h')
  have "chain ?h (it_next (?h i)) bs" using ch by (induction as arbitrary: b) auto
  moreover have "p \<notin> set bs" using p d by auto
  ultimately have bs: "chain ?h' (it_next (?h i)) bs" by (subst chain_cong [where h = ?h]) (auto simp: h')
  have nx: "it_next (?h' y) = (if y = last (b # as) then it_next (?h i) else it_next (?h y))" for y
    unfolding p_def [symmetric] by (simp add: h')
  have "distinct (b # as)" using d by simp
  from chain_redirect [OF ch this nx bs] have "chain ?h' (it_next (?h' b)) (as @ bs)" .
  then have "bucket_inv ?h' b (as @ bs)"
    using inv d srt by (auto simp: bucket_inv_def keys sorted_wrt_append)
  moreover have "map_of (entries ?h' (as @ bs)) = (map_of (entries ?h (as @ i # bs)))(it_key (?h i) := None)"
  proof -
    have "it_key (?h i) \<notin> fst ` set (entries ?h as)" "it_key (?h i) \<notin> fst ` set (entries ?h bs)"
      using srt by (auto simp: sorted_wrt_append entries_def)
    then have none: "map_of (entries ?h as) (it_key (?h i)) = None" "map_of (entries ?h bs) (it_key (?h i)) = None"
      by (simp_all add: map_of_eq_None_iff)
    show ?thesis
      using none by (intro ext) (simp add: entries_def keys map_add_def split: option.splits)
  qed
  moreover have "set (as @ bs) = set (as @ i # bs) - {i}" using d by auto
  moreover have "\<forall>a. a \<notin> set (b # as @ i # bs) \<longrightarrow> ?h' a = ?h a" using p by (auto simp: h')
  ultimately show ?thesis unfolding removed_def p_def [symmetric] keys by blast
qed

text \<open>
  If from some point on every lock is granted, \<open>remove\<close> returns; it takes out the first item that
  passes the test and hands it to \<open>mvrlu_free\<close>, or leaves the bucket alone if there is none.
\<close>

lemma bucket_remove_returns:
  fixes s :: "('k :: linorder, 'v) ch_state"
  assumes "I (items s)" and rely: "\<And>n h. I h \<Longrightarrow> I (V n h)" and bucket: "\<And>h. I h \<Longrightarrow> \<exists>xs. bucket_inv h b xs"
    and granted: "\<And>n. N \<le> n \<Longrightarrow> lk n"
  shows "\<exists>h xs s'. seen V (items s) h \<and> I h \<and> bucket_inv h b xs \<and>
    bucket_remove V lk P b s = Some (\<exists>i \<in> set xs. P (h i), s') \<and>
    (case find (\<lambda>i. P (h i)) xs of None \<Rightarrow> items s' = h \<and> ch_freed s' = ch_freed s
     | Some i \<Rightarrow> removed i b xs h (items s') \<and> ch_freed s' = ch_freed s @ [i])"
  using assms(1)
proof (induction "N - n_locks s" arbitrary: s rule: less_induct)
  case less
  let ?s = "section_begin V s"
  let ?h = "items ?s"
  have I: "I ?h" using less.prems rely by simp
  then obtain xs where inv: "bucket_inv ?h b xs" using bucket by blast
  have ch: "chain ?h (it_next (?h b)) xs" using inv by (simp add: bucket_inv_def)
  have sn: "seen V (items s) ?h" by auto
  define as where "as = takeWhile (\<lambda>y. \<not> P (?h y)) xs"
  define cs where "cs = dropWhile (\<lambda>y. \<not> P (?h y)) xs"
  have xs: "xs = as @ cs" by (simp add: as_def cs_def)
  have pos: "remove_pos ?h P b = Some (last (b # as), first_of cs)"
    using remove_pos_chain [OF ch, of P] by (simp add: as_def cs_def)
  have as: "\<And>y. y \<in> set as \<Longrightarrow> \<not> P (?h y)" by (auto simp: as_def dest: set_takeWhileD)
  then have fd: "find (\<lambda>i. P (?h i)) xs = find (\<lambda>i. P (?h i)) cs" unfolding xs by (induction as) auto
  show ?case
  proof (cases cs)
    case Nil
    then have "bucket_remove V lk P b s = Some (False, section_end ?s)"
      using pos by (subst bucket_remove.simps) (simp add: Let_def first_of_def)
    then show ?thesis using Nil as I inv sn fd by (intro exI [of _ ?h] exI [of _ xs]) (auto simp: xs)
  next
    case (Cons i bs)
    have "cs \<noteq> []" by (simp add: Cons)
    from hd_dropWhile [of "\<lambda>y. \<not> P (?h y)" xs, folded cs_def, OF this]
    have i: "P (?h i)" by (simp add: Cons)
    have null: "i \<noteq> NULL" using chain_not_NULL [OF ch] by (auto simp: xs Cons)
    obtain ok1 s1 where l1: "iter_try_lock lk (last (b # as)) ?s = (ok1, s1)" by force
    obtain ok2 s2 where l2: "iter_try_lock lk i s1 = (ok2, s2)" by force
    note L1 = iter_try_lock_cases [OF l1] and L2 = iter_try_lock_cases [OF l2]
    have fc: "first_of cs = i" by (simp add: Cons first_of_def)
    have unf: "bucket_remove V lk P b s =
      (if \<not> ok1 then bucket_remove V lk P b (section_end s1)
       else if \<not> ok2 then bucket_remove V lk P b (section_end s2)
       else Some (True, section_end (item_free i (erase_after (last (b # as)) i s2))))"
      using null
      by (subst bucket_remove.simps) (simp only: Let_def pos fc option.case prod.case l1 l2 if_False)
    have again: ?thesis if e: "bucket_remove V lk P b s = bucket_remove V lk P b (section_end s')"
      and s': "items s' = ?h" "n_locks s < n_locks s'" "\<not> N \<le> n_locks s" "ch_freed s' = ch_freed s" for s'
    proof -
      from s' have "N - n_locks (section_end s') < N - n_locks s" "I (items (section_end s'))" using I by auto
      from less.hyps [OF this] obtain h xs s'' where
        "seen V (items (section_end s')) h" and r: "I h" "bucket_inv h b xs"
        "bucket_remove V lk P b s = Some (\<exists>i \<in> set xs. P (h i), s'')"
        "case find (\<lambda>i. P (h i)) xs of None \<Rightarrow> items s'' = h \<and> ch_freed s'' = ch_freed (section_end s')
         | Some i \<Rightarrow> removed i b xs h (items s'') \<and> ch_freed s'' = ch_freed (section_end s') @ [i]"
        unfolding e by blast
      then have "seen V (items s) h" using s'(1) seen_trans by simp
      with r s'(4) show ?thesis
        by (intro exI [of _ h] exI [of _ xs] exI [of _ s'']) (simp split: option.splits)
    qed
    consider (fail1) "\<not> ok1" | (fail2) "ok1" "\<not> ok2" | (ok) ok1 ok2 by blast
    then show ?thesis
    proof cases
      case fail1
      then have "\<not> N \<le> n_locks s" using L1(4) granted by auto
      then show ?thesis
        by (intro again [of s1]) (use fail1 L1 in \<open>simp_all add: unf\<close>)
    next
      case fail2
      then have "\<not> N \<le> n_locks s1" "n_locks s \<le> n_locks s1" using L1(3) L2(4) granted by auto
      then show ?thesis
        by (intro again [of s2]) (use fail2 L1 L2 in \<open>simp_all add: unf\<close>)
    next
      case ok
      have it: "items s2 = ?h" using L1(1) L2(1) by simp
      let ?s' = "item_free i (erase_after (last (b # as)) i s2)"
      have "removed i b xs ?h (items ?s')"
        using bucket_remove_once [of s2 b as i bs] inv by (simp add: it xs Cons item_free_def)
      moreover have "bucket_remove V lk P b s = Some (True, section_end ?s')" using ok by (simp add: unf)
      moreover have "ch_freed ?s' = ch_freed s @ [i]"
        using L1(2) L2(2) by (simp add: item_free_def erase_after_def set_item_next_def)
      moreover have "find (\<lambda>i. P (?h i)) xs = Some i" unfolding fd Cons using i by simp
      moreover have "\<exists>i \<in> set xs. P (?h i)" using i by (auto simp: Cons xs)
      ultimately show ?thesis using I inv sn by (intro exI [of _ ?h] exI [of _ xs]) auto
    qed
  qed
qed

section \<open>The table\<close>

text \<open>
  \<open>chainhash\<close>: the number of buckets and the addresses of their sentinels.  The hash function of
  the key type is the parameter \<open>hs\<close>.
\<close>

record chainhash =
  nbuckets :: u64
  buckets :: "addr list"

definition bucket_no :: "('k \<Rightarrow> u64) \<Rightarrow> chainhash \<Rightarrow> 'k \<Rightarrow> nat" where
  "bucket_no hs T k = unat (hs k mod nbuckets T)"

definition chainhash_insert :: "('k \<Rightarrow> u64) \<Rightarrow> chainhash \<Rightarrow> ('k, 'v) views \<Rightarrow> (nat \<Rightarrow> bool) \<Rightarrow> addr \<Rightarrow>
    'k :: linorder \<Rightarrow> 'v \<Rightarrow> ('k, 'v) ch_state \<Rightarrow> (bool \<times> ('k, 'v) ch_state) option" where
  "chainhash_insert hs T V lk x k v s = bucket_insert V lk x (buckets T ! bucket_no hs T k) k v s"

definition chainhash_remove_val :: "('k \<Rightarrow> u64) \<Rightarrow> chainhash \<Rightarrow> ('k, 'v) views \<Rightarrow> (nat \<Rightarrow> bool) \<Rightarrow>
    'k \<Rightarrow> 'v \<Rightarrow> ('k, 'v) ch_state \<Rightarrow> (bool \<times> ('k, 'v) ch_state) option" where
  "chainhash_remove_val hs T V lk k v s =
     bucket_remove V lk (\<lambda>i. it_key i = k \<and> it_val i = v) (buckets T ! bucket_no hs T k) s"

definition chainhash_remove :: "('k \<Rightarrow> u64) \<Rightarrow> chainhash \<Rightarrow> ('k, 'v) views \<Rightarrow> (nat \<Rightarrow> bool) \<Rightarrow>
    'k \<Rightarrow> ('k, 'v) ch_state \<Rightarrow> (bool \<times> ('k, 'v) ch_state) option" where
  "chainhash_remove hs T V lk k s =
     bucket_remove V lk (\<lambda>i. it_key i = k) (buckets T ! bucket_no hs T k) s"

definition chainhash_lookup :: "('k \<Rightarrow> u64) \<Rightarrow> chainhash \<Rightarrow> ('k :: linorder, 'v) views \<Rightarrow>
    'k \<Rightarrow> ('k, 'v) ch_state \<Rightarrow> ('v option \<times> ('k, 'v) ch_state) option" where
  "chainhash_lookup hs T V k s = bucket_lookup V (buckets T ! bucket_no hs T k) k s"

text \<open>\<open>enumerate(prev, out)\<close>; \<open>prev\<close> only counts in its own bucket, the first one searched.\<close>

fun enum_buckets :: "(addr \<Rightarrow> ('k :: linorder, 'v) item) \<Rightarrow> 'k option \<Rightarrow> addr list \<Rightarrow> 'k option option" where
  "enum_buckets h prev [] = Some None"
| "enum_buckets h prev (b # bs) =
     (case chain_items h (it_next (h b)) of
        None \<Rightarrow> None
      | Some xs \<Rightarrow> (case enum_bucket prev (map (\<lambda>x. it_key (h x)) xs) of
                     Some k \<Rightarrow> Some (Some k)
                   | None \<Rightarrow> enum_buckets h None bs))"

definition chainhash_enumerate :: "('k \<Rightarrow> u64) \<Rightarrow> chainhash \<Rightarrow> ('k :: linorder, 'v) views \<Rightarrow>
    'k option \<Rightarrow> ('k, 'v) ch_state \<Rightarrow> ('k option \<times> ('k, 'v) ch_state) option" where
  "chainhash_enumerate hs T V prev s0 =
     (let s = section_begin V s0;
          start = (case prev of None \<Rightarrow> 0 | Some p \<Rightarrow> bucket_no hs T p)
      in map_option (\<lambda>r. (r, section_end s))
           (enum_buckets (items s) prev (drop start (take (unat (nbuckets T)) (buckets T)))))"

text \<open>All chains one after the other, as \<open>enumerate(cb)\<close>, \<open>getSize\<close> and the destructor walk them.\<close>

fun all_items :: "(addr \<Rightarrow> ('k, 'v) item) \<Rightarrow> addr list \<Rightarrow> addr list option" where
  "all_items h [] = Some []"
| "all_items h (b # bs) =
     Option.bind (chain_items h (it_next (h b))) (\<lambda>xs. Option.bind (all_items h bs) (\<lambda>ys. Some (xs @ ys)))"

fun enum_cb :: "('k \<Rightarrow> 'v \<Rightarrow> 'c \<Rightarrow> bool \<times> 'c) \<Rightarrow> (addr \<Rightarrow> ('k, 'v) item) \<Rightarrow> addr list \<Rightarrow> 'c \<Rightarrow> 'c" where
  "enum_cb cb h [] c = c"
| "enum_cb cb h (x # xs) c =
     (case cb (it_key (h x)) (it_val (h x)) c of (stop, c') \<Rightarrow> if stop then c' else enum_cb cb h xs c')"

definition chainhash_enumerate_cb :: "chainhash \<Rightarrow> ('k, 'v) views \<Rightarrow> ('k \<Rightarrow> 'v \<Rightarrow> 'c \<Rightarrow> bool \<times> 'c) \<Rightarrow>
    'c \<Rightarrow> ('k, 'v) ch_state \<Rightarrow> ('c \<times> ('k, 'v) ch_state) option" where
  "chainhash_enumerate_cb T V cb c s0 =
     (let s = section_begin V s0
      in map_option (\<lambda>xs. (enum_cb cb (items s) xs c, section_end s))
           (all_items (items s) (take (unat (nbuckets T)) (buckets T))))"

text \<open>\<open>getSize\<close> does not count an item with key 0; its result is a 32-bit integer.\<close>

definition chainhash_getSize :: "chainhash \<Rightarrow> ('k :: zero, 'v) views \<Rightarrow> ('k, 'v) ch_state \<Rightarrow>
    (u32 \<times> ('k, 'v) ch_state) option" where
  "chainhash_getSize T V s0 =
     (let s = section_begin V s0
      in map_option (\<lambda>xs. (foldl (\<lambda>n x. if it_key (items s x) \<noteq> 0 then n + 1 else n) 0 xs, section_end s))
           (all_items (items s) (take (unat (nbuckets T)) (buckets T))))"

text \<open>The destructor of a bucket frees its items and then the sentinel.\<close>

definition bucket_destroy :: "('k, 'v) views \<Rightarrow> addr \<Rightarrow> ('k, 'v) ch_state \<Rightarrow> ('k, 'v) ch_state option" where
  "bucket_destroy V b s0 =
     (let s = section_begin V s0
      in map_option (\<lambda>xs. section_end (item_free b (foldl (\<lambda>s x. item_free x s) s xs)))
           (chain_items (items s) (it_next (items s b))))"

text \<open>
  The invariant of the table, \<open>X\<close> giving the items of each bucket, and the map it stands for.
\<close>

definition table_inv :: "('k :: linorder \<Rightarrow> u64) \<Rightarrow> chainhash \<Rightarrow> (addr \<Rightarrow> ('k, 'v) item) \<Rightarrow> addr list list \<Rightarrow> bool" where
  "table_inv hs T h X \<longleftrightarrow>
     0 < nbuckets T \<and> length (buckets T) = unat (nbuckets T) \<and> length X = length (buckets T) \<and>
     distinct (buckets T) \<and>
     (\<forall>i < length X. bucket_inv h (buckets T ! i) (X ! i) \<and>
        set (X ! i) \<inter> set (buckets T) = {} \<and>
        (\<forall>y \<in> set (X ! i). bucket_no hs T (it_key (h y)) = i))"

definition table_map :: "('k \<Rightarrow> u64) \<Rightarrow> chainhash \<Rightarrow> (addr \<Rightarrow> ('k, 'v) item) \<Rightarrow> 'k \<rightharpoonup> 'v" where
  "table_map hs T h k =
     (case chain_items h (it_next (h (buckets T ! bucket_no hs T k))) of
        None \<Rightarrow> None
      | Some xs \<Rightarrow> map_of (entries h xs) k)"

definition table_ok :: "('k :: linorder \<Rightarrow> u64) \<Rightarrow> chainhash \<Rightarrow> (addr \<Rightarrow> ('k, 'v) item) \<Rightarrow> bool" where
  "table_ok hs T h \<longleftrightarrow> (\<exists>X. table_inv hs T h X)"

text \<open>An address that is no item and no sentinel of the table.\<close>

definition unlinked :: "chainhash \<Rightarrow> (addr \<Rightarrow> ('k, 'v) item) \<Rightarrow> addr \<Rightarrow> bool" where
  "unlinked T h x \<longleftrightarrow> x \<noteq> NULL \<and> x \<notin> set (buckets T) \<and>
     (\<forall>xs. all_items h (buckets T) = Some xs \<longrightarrow> x \<notin> set xs)"

lemma bucket_no_less: "table_inv hs T h X \<Longrightarrow> bucket_no hs T k < length X"
  unfolding table_inv_def bucket_no_def by (auto simp: unat_mod word_less_nat_alt)

lemma table_invD:
  assumes "table_inv hs T h X" and "i < length X"
  shows "bucket_inv h (buckets T ! i) (X ! i)" and "set (X ! i) \<inter> set (buckets T) = {}"
    and "\<And>y. y \<in> set (X ! i) \<Longrightarrow> bucket_no hs T (it_key (h y)) = i"
  using assms by (simp_all add: table_inv_def)

lemma table_inv_bucket:
  assumes "table_inv hs T h X" and "i < length X"
  shows "bucket_inv h (buckets T ! i) (X ! i)" and "chain_items h (it_next (h (buckets T ! i))) = Some (X ! i)"
  using table_invD(1) [OF assms] by (simp_all add: bucket_inv_def chain_items_chain)

lemma table_map_eq:
  "table_inv hs T h X \<Longrightarrow> table_map hs T h k = map_of (entries h (X ! bucket_no hs T k)) k"
  by (simp add: table_map_def table_inv_bucket(2) bucket_no_less)

lemma all_items_concat:
  assumes "length X = length bs" and "\<And>i. i < length bs \<Longrightarrow> chain_items h (it_next (h (bs ! i))) = Some (X ! i)"
  shows "all_items h bs = Some (concat X)"
  using assms
proof (induction bs arbitrary: X)
  case Nil
  then show ?case by simp
next
  case (Cons b bs)
  then obtain x X' where X: "X = x # X'" by (cases X) auto
  have "all_items h bs = Some (concat X')"
    using Cons.IH [of X'] Cons.prems(1) Cons.prems(2) [of "Suc _"] by (simp add: X)
  moreover have "chain_items h (it_next (h b)) = Some x" using Cons.prems(2) [of 0] by (simp add: X)
  ultimately show ?case by (simp add: X)
qed

lemma table_items:
  assumes "table_inv hs T h X"
  shows "all_items h (buckets T) = Some (concat X)"
  using assms table_inv_bucket(2) [OF assms] by (intro all_items_concat) (auto simp: table_inv_def)

lemma unlinked_iff:
  assumes "table_inv hs T h X"
  shows "unlinked T h x \<longleftrightarrow> x \<noteq> NULL \<and> x \<notin> set (buckets T) \<and> (\<forall>i < length X. x \<notin> set (X ! i))"
  using all_set_conv_all_nth [of X "\<lambda>xs. x \<notin> set xs"] by (simp add: unlinked_def table_items [OF assms])

text \<open>The buckets have no item in common, since an item's key tells its bucket.\<close>

lemma table_inv_disjoint:
  assumes "table_inv hs T h X" and "i < length X" and "j < length X" and "y \<in> set (X ! i)" and "y \<in> set (X ! j)"
  shows "i = j"
  using table_invD(3) [OF assms(1,2,4)] table_invD(3) [OF assms(1,3,5)] by simp

lemma bucket_cong:
  assumes "\<And>a. a \<in> insert b (set xs) \<Longrightarrow> h' a = h a"
  shows "bucket_inv h' b xs = bucket_inv h b xs" and "entries h' xs = entries h xs"
  using assms chain_cong [of xs h' h "it_next (h b)"] sorted_keys_cong [of xs h' h]
  by (auto simp: bucket_inv_def entries_def)

text \<open>What a change of one bucket does to the table.\<close>

lemma table_update:
  assumes inv: "table_inv hs T h X" and j: "j < length X" and ys: "bucket_inv h' (buckets T ! j) ys"
    and ok: "set ys \<inter> set (buckets T) = {}" "\<forall>y \<in> set ys. bucket_no hs T (it_key (h' y)) = j"
    and frame: "\<forall>a. a \<notin> set (X ! j) \<and> a \<noteq> buckets T ! j \<and> \<not> unlinked T h a \<longrightarrow> h' a = h a"
  shows "table_inv hs T h' (X[j := ys])"
    and "table_map hs T h' k = (if bucket_no hs T k = j then map_of (entries h' ys) k else table_map hs T h k)"
proof -
  have same: "h' a = h a" if i: "i < length X" "i \<noteq> j" and a: "a \<in> insert (buckets T ! i) (set (X ! i))" for i a
  proof (rule frame [rule_format], intro conjI)
    have len: "length X = length (buckets T)" "distinct (buckets T)" using inv by (auto simp: table_inv_def)
    have b: "buckets T ! i \<in> set (buckets T)" "buckets T ! j \<in> set (buckets T)" using i(1) j len(1) by auto
    show "a \<notin> set (X ! j)"
      using a b(1) table_inv_disjoint [OF inv i(1) j, of a] i(2) table_invD(2) [OF inv j] by auto
    show "a \<noteq> buckets T ! j"
      using a b(2) i j len table_invD(2) [OF inv i(1)] by (auto simp: nth_eq_iff_index_eq)
    show "\<not> unlinked T h a" using a i(1) len(1) by (auto simp: unlinked_iff [OF inv])
  qed
  show inv': "table_inv hs T h' (X[j := ys])"
    unfolding table_inv_def
  proof (intro conjI allI impI)
    fix i assume i: "i < length (X[j := ys])"
    show "bucket_inv h' (buckets T ! i) (X[j := ys] ! i)"
      using i ys j bucket_cong(1) [of "buckets T ! i" "X ! i" h' h, OF same] table_inv_bucket(1) [OF inv, of i]
      by (cases "i = j") auto
    show "set (X[j := ys] ! i) \<inter> set (buckets T) = {}"
      using i inv ok(1) by (cases "i = j") (auto simp: table_inv_def)
    show "\<forall>y \<in> set (X[j := ys] ! i). bucket_no hs T (it_key (h' y)) = i"
      using i inv ok(2) same [of i] by (cases "i = j") (auto simp: table_inv_def)
  qed (use inv in \<open>auto simp: table_inv_def\<close>)
  show "table_map hs T h' k = (if bucket_no hs T k = j then map_of (entries h' ys) k else table_map hs T h k)"
    using bucket_no_less [OF inv, of k]
      bucket_cong(2) [of "buckets T ! bucket_no hs T k" "X ! bucket_no hs T k" h' h, OF same]
    by (auto simp: table_map_eq [OF inv'] table_map_eq [OF inv])
qed

lemma entries_dom: "k \<in> fst ` set (entries h xs) \<longleftrightarrow> map_of (entries h xs) k \<noteq> None"
  by (simp add: map_of_eq_None_iff)

lemma table_inv_unique:
  assumes "table_inv hs T h X" and "i < length X" and "bucket_inv h (buckets T ! i) ys"
  shows "ys = X ! i"
proof -
  have "chain_items h (it_next (h (buckets T ! i))) = Some ys"
    using assms(3) chain_items_chain by (auto simp: bucket_inv_def)
  with table_inv_bucket(2) [OF assms(1,2)] show ?thesis by simp
qed

lemma chainhash_insert_map:
  fixes s :: "('k :: linorder, 'v) ch_state"
  assumes "table_ok hs T (items s)" and "unlinked T (items s) x"
    and rely: "\<And>n h. table_ok hs T h \<Longrightarrow> unlinked T h x \<Longrightarrow> table_ok hs T (V n h) \<and> unlinked T (V n h) x"
    and granted: "\<And>n. N \<le> n \<Longrightarrow> lk n"
  shows "\<exists>h s'. seen V (items s) h \<and>
    chainhash_insert hs T V lk x k v s = Some (table_map hs T h k = None, s') \<and>
    table_ok hs T (items s') \<and>
    table_map hs T (items s') =
      (if table_map hs T h k = None then (table_map hs T h)(k \<mapsto> v) else table_map hs T h) \<and>
    ch_freed s' = ch_freed s"
proof -
  let ?I = "\<lambda>h. table_ok hs T h \<and> unlinked T h x" and ?j = "bucket_no hs T k"
  let ?b = "buckets T ! ?j"
  have "\<exists>xs. bucket_inv h ?b xs \<and> x \<notin> set (NULL # ?b # xs)" if "?I h" for h :: "addr \<Rightarrow> ('k, 'v) item"
  proof -
    from that obtain X where X: "table_inv hs T h X" by (auto simp: table_ok_def)
    from bucket_no_less [OF X, of k] have j: "?j < length X" .
    have "?b \<in> set (buckets T)" using j X by (auto simp: table_inv_def)
    with that j have "x \<notin> set (NULL # ?b # X ! ?j)" by (auto simp: unlinked_iff [OF X])
    with table_inv_bucket(1) [OF X j] show ?thesis by blast
  qed
  from bucket_insert_returns [where I = ?I and V = V and b = ?b and x = x and N = N and lk = lk and s = s,
      OF conjI [OF assms(1,2)] _ this granted] rely
  obtain h xs s' where r: "seen V (items s) h" "?I h" "bucket_inv h ?b xs" "x \<notin> set (NULL # ?b # xs)"
    "bucket_insert V lk x ?b k v s = Some (k \<notin> fst ` set (entries h xs), s')" "ch_freed s' = ch_freed s"
    "if k \<in> fst ` set (entries h xs) then items s' = h else inserted x k v ?b xs h (items s')" by metis
  from r(2) obtain X where X: "table_inv hs T h X" by (auto simp: table_ok_def)
  note j = bucket_no_less [OF X, of k]
  have xs: "xs = X ! ?j" by (rule table_inv_unique [OF X j r(3)])
  have res: "k \<in> fst ` set (entries h xs) \<longleftrightarrow> table_map hs T h k \<noteq> None"
    unfolding entries_dom table_map_eq [OF X] xs ..
  show ?thesis
  proof (cases "table_map hs T h k = None")
    case False
    then show ?thesis using r res by (intro exI [of _ h] exI [of _ s']) (auto simp: chainhash_insert_def)
  next
    case True
    then have ins: "inserted x k v ?b xs h (items s')" using r(7) res by simp
    then obtain ys where ys: "bucket_inv (items s') ?b ys" "set ys = insert x (set xs)"
      "map_of (entries (items s') ys) = (map_of (entries h xs))(k \<mapsto> v)" unfolding inserted_def by blast
    from ins have fr: "\<And>a. a \<notin> set (x # ?b # xs) \<Longrightarrow> items s' a = h a" "it_key (items s' x) = k"
      "\<And>y. y \<in> set xs \<Longrightarrow> it_key (items s' y) = it_key (h y)" unfolding inserted_def by blast+
    have frame: "\<forall>a. a \<notin> set (X ! ?j) \<and> a \<noteq> ?b \<and> \<not> unlinked T h a \<longrightarrow> items s' a = h a"
      using r(2) by (intro allI impI fr(1)) (auto simp: xs)
    have 1: "set ys \<inter> set (buckets T) = {}"
      using table_invD(2) [OF X j] r(2) by (auto simp: ys(2) xs unlinked_def)
    have 2: "\<forall>y \<in> set ys. bucket_no hs T (it_key (items s' y)) = ?j"
      using fr(2,3) table_invD(3) [OF X j] by (auto simp: ys(2) xs)
    note upd = table_update [OF X j ys(1) 1 2 frame]
    have "table_map hs T (items s') = (table_map hs T h)(k \<mapsto> v)"
    proof
      fix k' show "table_map hs T (items s') k' = ((table_map hs T h)(k \<mapsto> v)) k'"
        using upd(2) [of k'] ys(3) by (auto simp: table_map_eq [OF X] xs)
    qed
    then show ?thesis
      using r res True upd(1) by (intro exI [of _ h] exI [of _ s']) (auto simp: chainhash_insert_def table_ok_def)
  qed
qed

text \<open>
  What a removal frees: one item, which was in the table of the snapshot \<open>h\<close> with key \<open>k\<close> and is in the
  table no more.
\<close>

definition frees_item :: "chainhash \<Rightarrow> (addr \<Rightarrow> ('k, 'v) item) \<Rightarrow> 'k \<Rightarrow> ('k, 'v) ch_state \<Rightarrow> ('k, 'v) ch_state \<Rightarrow> bool" where
  "frees_item T h k s s' \<longleftrightarrow> (\<exists>i. ch_freed s' = ch_freed s @ [i] \<and> i \<noteq> NULL \<and> i \<notin> set (buckets T) \<and> \<not> unlinked T h i \<and>
     it_key (h i) = k \<and> unlinked T (items s') i)"

text \<open>Both versions of \<open>remove\<close>; \<open>P\<close> is a test that only an item with key \<open>k\<close> passes.\<close>

lemma bucket_remove_map:
  fixes s :: "('k :: linorder, 'v) ch_state"
  assumes "table_ok hs T (items s)" and rely: "\<And>n h. table_ok hs T h \<Longrightarrow> table_ok hs T (V n h)"
    and granted: "\<And>n. N \<le> n \<Longrightarrow> lk n" and P: "\<And>i. P i \<longleftrightarrow> it_key i = k \<and> Q (it_val i)"
  shows "\<exists>h s'. seen V (items s) h \<and> table_ok hs T h \<and>
    bucket_remove V lk P (buckets T ! bucket_no hs T k) s =
      Some (\<exists>v. table_map hs T h k = Some v \<and> Q v, s') \<and>
    table_ok hs T (items s') \<and>
    table_map hs T (items s') =
      (if \<exists>v. table_map hs T h k = Some v \<and> Q v then (table_map hs T h)(k := None) else table_map hs T h) \<and>
    (if \<exists>v. table_map hs T h k = Some v \<and> Q v then frees_item T h k s s' else ch_freed s' = ch_freed s)"
proof -
  let ?j = "bucket_no hs T k"
  let ?b = "buckets T ! ?j"
  have "\<exists>xs. bucket_inv h ?b xs" if "table_ok hs T h" for h :: "addr \<Rightarrow> ('k, 'v) item"
    using that bucket_no_less table_inv_bucket(1) by (metis table_ok_def)
  then have "\<exists>h xs s'. seen V (items s) h \<and> table_ok hs T h \<and> bucket_inv h ?b xs \<and>
    bucket_remove V lk P ?b s = Some (\<exists>i \<in> set xs. P (h i), s') \<and>
    (case find (\<lambda>i. P (h i)) xs of None \<Rightarrow> items s' = h \<and> ch_freed s' = ch_freed s
     | Some i \<Rightarrow> removed i ?b xs h (items s') \<and> ch_freed s' = ch_freed s @ [i])"
    by (intro bucket_remove_returns [where N = N] assms(1) rely granted)
  then obtain h xs s' where r: "seen V (items s) h" "table_ok hs T h" "bucket_inv h ?b xs"
    "bucket_remove V lk P ?b s = Some (\<exists>i \<in> set xs. P (h i), s')"
    "case find (\<lambda>i. P (h i)) xs of None \<Rightarrow> items s' = h \<and> ch_freed s' = ch_freed s
     | Some i \<Rightarrow> removed i ?b xs h (items s') \<and> ch_freed s' = ch_freed s @ [i]"
    by (elim exE conjE) (rule that)
  from r(2) obtain X where X: "table_inv hs T h X" by (auto simp: table_ok_def)
  note j = bucket_no_less [OF X, of k]
  have xs: "xs = X ! ?j" by (rule table_inv_unique [OF X j r(3)])
  have inj: "inj_on (\<lambda>y. it_key (h y)) (set xs)" using r(3) by (auto simp: bucket_inv_def intro: sorted_keys_inj)
  have hit: "map_of (entries h xs) k = Some v \<longleftrightarrow> (\<exists>i \<in> set xs. it_key (h i) = k \<and> it_val (h i) = v)" for v
    using inj r(3) by (subst map_of_eq_Some_iff) (auto simp: entries_def bucket_inv_def distinct_map comp_def)
  have res: "(\<exists>i \<in> set xs. P (h i)) \<longleftrightarrow> (\<exists>v. table_map hs T h k = Some v \<and> Q v)"
    unfolding table_map_eq [OF X] xs [symmetric] hit P by auto
  show ?thesis
  proof (cases "find (\<lambda>i. P (h i)) xs")
    case None
    then have no: "\<not> (\<exists>i \<in> set xs. P (h i))" by (auto simp: find_None_iff)
    show ?thesis
      using r None no no [unfolded res] by (intro exI [of _ h] exI [of _ s']) auto
  next
    case (Some i)
    then have i: "i \<in> set xs" "P (h i)" by (auto simp: find_Some_iff)
    then have yes: "\<exists>i \<in> set xs. P (h i)" by blast
    have rem: "removed i ?b xs h (items s')" "ch_freed s' = ch_freed s @ [i]" using r(5) Some by auto
    then obtain ys where ys: "bucket_inv (items s') ?b ys" "set ys = set xs - {i}"
      "map_of (entries (items s') ys) = (map_of (entries h xs))(k := None)"
      using i(2) [unfolded P] unfolding removed_def by auto
    from rem(1) have fr: "\<And>a. a \<notin> set (?b # xs) \<Longrightarrow> items s' a = h a" "\<And>y. it_key (items s' y) = it_key (h y)"
      unfolding removed_def by blast+
    have frame: "\<forall>a. a \<notin> set (X ! ?j) \<and> a \<noteq> ?b \<and> \<not> unlinked T h a \<longrightarrow> items s' a = h a"
      by (intro allI impI fr(1)) (auto simp: xs)
    have 1: "set ys \<inter> set (buckets T) = {}" using table_invD(2) [OF X j] by (auto simp: ys(2) xs)
    have 2: "\<forall>y \<in> set ys. bucket_no hs T (it_key (items s' y)) = ?j"
      using table_invD(3) [OF X j] by (auto simp: fr(2) ys(2) xs)
    note upd = table_update [OF X j ys(1) 1 2 frame]
    have "table_map hs T (items s') = (table_map hs T h)(k := None)"
    proof
      fix k' show "table_map hs T (items s') k' = ((table_map hs T h)(k := None)) k'"
        using upd(2) [of k'] ys(3) by (auto simp: table_map_eq [OF X] xs)
    qed
    moreover have "table_ok hs T (items s')" using upd(1) by (auto simp: table_ok_def)
    moreover have "frees_item T h k s s'"
    proof -
      have i': "i \<noteq> NULL" "i \<notin> set (buckets T)" "it_key (h i) = k"
        using i P table_invD(2) [OF X j] r(3) xs by (auto simp: bucket_inv_def dest: chain_not_NULL)
      have "i \<notin> set (X[?j := ys] ! n)" if "n < length X" for n
        using table_inv_disjoint [OF X that j, of i] i(1) ys(2) j by (cases "n = ?j") (auto simp: xs)
      then have "unlinked T (items s') i" using i'(1,2) by (simp add: unlinked_iff [OF upd(1)])
      moreover have "\<not> unlinked T h i" using i(1) j by (auto simp: unlinked_iff [OF X] xs)
      ultimately show ?thesis using rem(2) i' by (auto simp: frees_item_def)
    qed
    ultimately show ?thesis
      using r(1,2,4) yes [unfolded res] by (intro exI [of _ h] exI [of _ s'] conjI) (simp_all add: res)
  qed
qed

lemma chainhash_lookup_map:
  assumes "table_ok hs T (V (n_locks s) (items s))"
  shows "chainhash_lookup hs T V k s =
    Some (table_map hs T (V (n_locks s) (items s)) k, section_end (section_begin V s))"
proof -
  let ?h = "V (n_locks s) (items s)"
  from assms obtain X where X: "table_inv hs T ?h X" by (auto simp: table_ok_def)
  from table_inv_bucket(1) [OF X bucket_no_less [OF X, of k]]
  show ?thesis
    by (simp add: chainhash_lookup_def bucket_lookup_def Let_def table_map_eq [OF X] bucket_inv_def lookup_from_chain)
qed

section \<open>Enumeration\<close>

lemma enum_step_above:
  "\<forall>k \<in> set ks. m < k \<Longrightarrow> foldl (enum_step prev) (Some m) ks = Some m"
  by (induction ks) (auto simp: enum_step_def)

text \<open>In a bucket with increasing keys the loop picks the first key above \<open>prev\<close>.\<close>

lemma enum_bucket_sorted:
  "sorted_wrt (<) ks \<Longrightarrow>
   enum_bucket prev ks = find (\<lambda>k. case prev of None \<Rightarrow> True | Some p \<Rightarrow> p < k) ks"
  unfolding enum_bucket_def
  by (induction ks) (auto simp: enum_step_above enum_step_def split: option.splits)

lemma enum_bucket_next:
  assumes "sorted_wrt (<) (ks @ p # ls)"
  shows "enum_bucket (Some p) (ks @ p # ls) = (case ls of [] \<Rightarrow> None | k # _ \<Rightarrow> Some k)"
proof -
  have "find (\<lambda>k. p < k) (ks @ p # ls) = find (\<lambda>k. p < k) ls"
    using assms by (induction ks) auto
  moreover have "find (\<lambda>k. p < k) ls = (case ls of [] \<Rightarrow> None | k # _ \<Rightarrow> Some k)"
    using assms by (cases ls) (auto simp: sorted_wrt_append)
  ultimately show ?thesis using enum_bucket_sorted [OF assms, of "Some p"] by simp
qed

definition keys_of :: "(addr \<Rightarrow> ('k, 'v) item) \<Rightarrow> addr list \<Rightarrow> 'k list" where
  "keys_of h xs = map (\<lambda>x. it_key (h x)) xs"

lemma enum_buckets_first:
  assumes "length X = length bs"
    and "\<And>i. i < length bs \<Longrightarrow> chain_items h (it_next (h (bs ! i))) = Some (X ! i)"
    and "\<And>i. i < length bs \<Longrightarrow> sorted_wrt (<) (keys_of h (X ! i))"
  shows "enum_buckets h None bs = Some (case keys_of h (concat X) of [] \<Rightarrow> None | k # _ \<Rightarrow> Some k)"
  using assms
proof (induction bs arbitrary: X)
  case Nil
  then show ?case by (simp add: keys_of_def)
next
  case (Cons b bs)
  then obtain x X' where X: "X = x # X'" by (cases X) auto
  have IH: "enum_buckets h None bs = Some (case keys_of h (concat X') of [] \<Rightarrow> None | k # _ \<Rightarrow> Some k)"
    using Cons.IH [of X'] Cons.prems(1) Cons.prems(2,3) [of "Suc _"] by (simp add: X)
  have "chain_items h (it_next (h b)) = Some x" "sorted_wrt (<) (keys_of h x)"
    using Cons.prems(2,3) [of 0] by (auto simp: X)
  with IH show ?case
    using enum_bucket_sorted [of "keys_of h x" None] by (cases x) (auto simp: X keys_of_def)
qed

text \<open>
  Starting without a key and feeding each result back enumerates all keys of the table, bucket by
  bucket, each exactly once.
\<close>

lemma table_keys:
  assumes "table_inv hs T h X" and "i < length X"
  shows "sorted_wrt (<) (keys_of h (X ! i))"
  using table_invD(1) [OF assms] by (simp add: bucket_inv_def keys_of_def sorted_wrt_map)

lemma enumerate_first:
  assumes X: "table_inv hs T (V (n_locks s) (items s)) X"
  shows "map_option fst (chainhash_enumerate hs T V None s) =
    Some (case keys_of (V (n_locks s) (items s)) (concat X) of [] \<Rightarrow> None | k # _ \<Rightarrow> Some k)"
proof -
  have len: "length X = length (buckets T)" "length (buckets T) = unat (nbuckets T)"
    using X by (auto simp: table_inv_def)
  then show ?thesis
    using enum_buckets_first [of X "buckets T" "V (n_locks s) (items s)"] table_inv_bucket(2) [OF X] table_keys [OF X]
    by (simp add: chainhash_enumerate_def Let_def option.map_comp comp_def)
qed

lemma keys_of_append [simp]: "keys_of h (xs @ ys) = keys_of h xs @ keys_of h ys"
  by (simp add: keys_of_def)

lemma keys_of_concat: "p \<in> set (keys_of h (concat Y)) \<longleftrightarrow> (\<exists>i < length Y. p \<in> set (keys_of h (Y ! i)))"
proof -
  have "set (keys_of h (concat Y)) = (\<Union>y \<in> set Y. set (keys_of h y))" by (auto simp: keys_of_def)
  then show ?thesis by (auto simp: set_conv_nth [of Y])
qed

lemma enumerate_bucket:
  fixes V :: "('k :: linorder, 'v) views" and s :: "('k, 'v) ch_state"
  defines "h \<equiv> V (n_locks s) (items s)"
  assumes X: "table_inv hs T h X" and j: "j = bucket_no hs T p" and ks: "keys_of h (X ! j) = ks @ p # ls"
  shows "map_option fst (chainhash_enumerate hs T V (Some p) s) =
    Some (case ls @ keys_of h (concat (drop (Suc j) X)) of [] \<Rightarrow> None | k # _ \<Rightarrow> Some k)"
proof -
  have len: "length X = length (buckets T)" "length (buckets T) = unat (nbuckets T)"
    using X by (auto simp: table_inv_def)
  have jl: "j < length X" using bucket_no_less [OF X] j by simp
  then have d: "drop j (buckets T) = buckets T ! j # drop (Suc j) (buckets T)"
    using len by (simp add: Cons_nth_drop_Suc)
  have rest: "enum_buckets h None (drop (Suc j) (buckets T)) =
      Some (case keys_of h (concat (drop (Suc j) X)) of [] \<Rightarrow> None | k # _ \<Rightarrow> Some k)"
    using len table_inv_bucket(2) [OF X] table_keys [OF X] by (intro enum_buckets_first) auto
  have "enum_bucket (Some p) (keys_of h (X ! j)) = (case ls of [] \<Rightarrow> None | k # _ \<Rightarrow> Some k)"
    using enum_bucket_next table_keys [OF X jl] unfolding ks by blast
  then have "enum_buckets h (Some p) (drop j (buckets T)) =
      Some (case ls @ keys_of h (concat (drop (Suc j) X)) of [] \<Rightarrow> None | k # _ \<Rightarrow> Some k)"
    unfolding d using table_inv_bucket(2) [OF X jl] rest by (cases ls) (simp_all add: keys_of_def)
  then show ?thesis
    using len by (simp add: chainhash_enumerate_def Let_def option.map_comp comp_def j h_def)
qed

lemma enumerate_next:
  fixes V :: "('k :: linorder, 'v) views" and s :: "('k, 'v) ch_state"
  defines "h \<equiv> V (n_locks s) (items s)"
  assumes X: "table_inv hs T h X" and ks: "keys_of h (concat X) = ks @ p # ls"
  shows "map_option fst (chainhash_enumerate hs T V (Some p) s) = Some (case ls of [] \<Rightarrow> None | k # _ \<Rightarrow> Some k)"
proof -
  define j where "j = bucket_no hs T p"
  have jl: "j < length X" using bucket_no_less [OF X] j_def by simp
  have other: "i = j" if "i < length X" "p \<in> set (keys_of h (X ! i))" for i
    using table_invD(3) [OF X that(1)] that(2) by (auto simp: keys_of_def j_def)
  have "p \<in> set (keys_of h (concat X))" by (simp add: ks)
  then obtain i where "i < length X" "p \<in> set (keys_of h (X ! i))" unfolding keys_of_concat by blast
  then have "p \<in> set (keys_of h (X ! j))" using other by blast
  then obtain ks' ls' where j: "keys_of h (X ! j) = ks' @ p # ls'" by (auto simp: in_set_conv_decomp)
  have "concat X = concat (take j X) @ X ! j @ concat (drop (Suc j) X)"
    using id_take_nth_drop [OF jl] by (metis concat.simps(2) concat_append)
  then have all: "keys_of h (concat X) =
      (keys_of h (concat (take j X)) @ ks') @ p # (ls' @ keys_of h (concat (drop (Suc j) X)))"
    by (simp add: j)
  have "p \<notin> set (keys_of h (concat (take j X)))"
    unfolding keys_of_concat using jl by (auto dest: other [rotated])
  moreover have "p \<notin> set (keys_of h (concat (drop (Suc j) X)))"
    unfolding keys_of_concat using jl by (auto dest: other [rotated])
  moreover have "p \<notin> set ks'" "p \<notin> set ls'" using table_keys [OF X jl] by (auto simp: j sorted_wrt_append)
  ultimately have "ls = ls' @ keys_of h (concat (drop (Suc j) X))"
    using all ks append_Cons_eq_iff [of p "keys_of h (concat (take j X)) @ ks'" "ls' @ keys_of h (concat (drop (Suc j) X))" ks ls]
    by simp
  with enumerate_bucket [of hs T V s X j p ks' ls'] X j j_def show ?thesis by (simp add: h_def)
qed

section \<open>The section counter\<close>

text \<open>
  A failed \<open>try_lock\<close> aborts, which already ends the critical section; leaving the scope by
  \<open>goto restart\<close> then runs the destructor, which ends it again.  One failed attempt therefore adds
  three to the counter and the next attempt runs with an even one.
\<close>

lemma bucket_insert_failed_attempt:
  fixes k :: "'k :: linorder" and s :: "('k, 'v) ch_state"
  assumes inv: "bucket_inv (V (n_locks s) (items s)) b xs"
    and absent: "k \<notin> fst ` set (entries (V (n_locks s) (items s)) xs)" and fail: "\<not> lk (n_locks s)"
  shows "\<exists>s'. bucket_insert V lk x b k v s = bucket_insert V lk x b k v s' \<and>
    ch_run_cnt s' = ch_run_cnt s + 3 \<and> n_locks s' = Suc (n_locks s)"
proof -
  let ?s = "section_begin V s"
  let ?h = "items ?s"
  have inv': "bucket_inv ?h b xs" using inv by simp
  obtain p c where pos: "insert_pos ?h k b (it_next (?h b)) = Some (p, c)"
    using insert_pos_chain inv' unfolding bucket_inv_def by blast
  have chn: "chain ?h (it_next (?h b)) xs" and b: "b \<noteq> NULL" using inv' by (auto simp: bucket_inv_def)
  have "p = last (b # takeWhile (\<lambda>x. it_key (?h x) < k) xs)" using insert_pos_chain [OF chn, of k b] pos by simp
  then have "p \<in> set (b # takeWhile (\<lambda>x. it_key (?h x) < k) xs)" using last_in_set by blast
  then have p: "p \<noteq> NULL" using b chain_not_NULL [OF chn] by (auto dest: set_takeWhileD)
  have c: "c = NULL \<or> it_key (?h c) > k"
    using insert_pos_larger [OF inv' pos] absent by simp
  let ?s1 = "section_abort (?s\<lparr>n_locks := Suc (n_locks s)\<rparr>)"
  have l1: "iter_try_lock lk p ?s = (False, ?s1)"
    using p fail by (simp add: iter_try_lock_def Let_def)
  have "bucket_insert V lk x b k v s = bucket_insert V lk x b k v (section_end ?s1)"
    using c by (subst bucket_insert.simps) (simp only: Let_def pos option.case prod.case l1 if_True simp_thms)
  then show ?thesis
    by (intro exI [of _ "section_end ?s1"]) (simp add: section_end_def section_abort_def section_begin_def)
qed

text \<open>The destructor frees every item and the sentinel, once each.\<close>

lemma ch_freed_item_free: "ch_freed (item_free x s) = ch_freed s @ [x]"
  by (simp add: item_free_def)

lemma item_free_fold: "ch_freed (foldl (\<lambda>s x. item_free x s) s xs) = ch_freed s @ xs"
  by (induction xs arbitrary: s) (auto simp: item_free_def)

lemma bucket_destroy_frees:
  assumes "bucket_inv (V (n_locks s) (items s)) b xs"
  shows "\<exists>s'. bucket_destroy V b s = Some s' \<and> ch_freed s' = ch_freed s @ xs @ [b]"
  using assms chain_items_chain [of "V (n_locks s) (items s)" _ xs]
  by (auto simp: bucket_destroy_def Let_def bucket_inv_def item_free_fold ch_freed_item_free)

end
