(* ===== verification/Mvrlu_Scenario.thy ===== *)
theory Mvrlu_Scenario
  imports Mvrlu_Snapshot Mvrlu_Quiescence Mvrlu_Lifecycle Mvrlu_Chainhash
begin

text \<open>
  A small run of the model on concrete values: one thread with its log, one object that the thread
  locks, commits and reclaims, a grace period, and a hash table.  The facts about these states
  are obtained by evaluation and show that the hypotheses of the theorems can be met.
\<close>

section \<open>The run\<close>

definition ex_thr :: addr where "ex_thr = 0x50000"
definition ex_obj :: addr where "ex_obj = 0x2018"
definition ex_buf :: addr where "ex_buf = 0x100008"

text \<open>Other threads do nothing.\<close>

definition ex_env :: interference where
  "ex_env = \<lparr>e_wait = (\<lambda>s. s), e_lock1 = (\<lambda>m. m), e_lock2 = (\<lambda>m. m), e_link = quiet_link, e_detach = quiet\<rparr>"

text \<open>The log allocator after its pool has handed out the first buffer.\<close>

definition ex_la :: log_allocator where
  "ex_la = \<lparr>log_pool = [0x120008], start_addr = 0x100000, end_addr = 0x1100400\<rparr>"

lemma ex_pool_inv: "pool_inv 0x100000 ex_la"
proof -
  have "0x120008 = block_at 0x100000 1" by (simp add: block_at_def sizeof_log_block_def sizeof_islink_def size_simps)
  then show ?thesis
    by (auto simp: pool_inv_def ex_la_def sizeof_log_block_def sizeof_islink_def size_simps intro!: image_eqI [of _ _ 1])
qed

text \<open>An allocated object of eight bytes and an empty log.\<close>

definition ex_mem0 :: mem where
  "ex_mem0 = \<lparr>ahs_heap = (\<lambda>_. zero_ahs)(0x2000 := zero_ahs\<lparr>ahs_obj_hdr := zero_obj_hdr\<lparr>obj_size := 8\<rparr>\<rparr>),
     chs_heap = (\<lambda>_. zero_chs),
     ws_heap = (\<lambda>_. \<lparr>wrt_clk = 0, num_objs = 0, start_tail_cnt = 0, ws_thread = 0\<rparr>),
     obj_heap = (\<lambda>_. [])(ex_obj := [1, 2, 3, 4, 5, 6, 7, 8]),
     ahs_live = (\<lambda>_. False)(0x2000 := True)\<rparr>"

definition ex_log0 :: mvrlu_log where
  "ex_log0 = zero_log\<lparr>log_buffer := ex_buf\<rparr>"

definition ex_sys0 :: mvrlu_sys where
  "ex_sys0 = \<lparr>threads = (\<lambda>_. zero_thread)(ex_thr := zero_thread\<lparr>local_clk := 1000, run_cnt := 1, thr_log := ex_log0\<rparr>),
     thr_alloc = (\<lambda>_. False)(ex_thr := True), lists = \<lparr>l_next = (\<lambda>_. 0), l_prev = (\<lambda>_. 0)\<rparr>,
     g_live_threads = \<lparr>tl_lock = False, thread_wait = False, cur_tid = 0, tl_num = 0, tl_list = 0x40\<rparr>,
     g_zombie_threads = \<lparr>tl_lock = False, thread_wait = False, cur_tid = 0, tl_num = 0, tl_list = 0x80\<rparr>,
     g_qp_thread = zero_qp_thread, until_counter = 0, init_flag = False, memory = ex_mem0,
     port_logs = ex_la, n_rdtsc = 0, n_waits = 0\<rparr>"

text \<open>The thread locks the object.\<close>

definition ex_locked :: "bool \<times> addr \<times> mvrlu_sys" where
  "ex_locked = mvrlu_try_lock ex_env ex_thr ex_obj 8 ex_sys0"

lemmas ex_defs = ex_thr_def ex_obj_def ex_buf_def ex_env_def ex_la_def ex_mem0_def ex_log0_def ex_sys0_def

lemma ex_try_lock: "fst ex_locked \<and> fst (snd ex_locked) = 0x1000B8"
  by code_simp

text \<open>
  The state in which the thread has locked the object: the header of the write set at the start
  of the log and behind it the copy, which has been written to.
\<close>

definition ex_log1 :: mvrlu_log where
  "ex_log1 = zero_log\<lparr>log_buffer := ex_buf, tail_cnt := 192, cur_wrt_set := 0x100038\<rparr>"

definition ex_mem1 :: mem where
  "ex_mem1 = \<lparr>ahs_heap = (\<lambda>_. zero_ahs)(0x2000 := \<lparr>p_lock = 0x1000B8, ahs_obj_hdr = zero_obj_hdr\<lparr>obj_size := 8\<rparr>\<rparr>),
     chs_heap = (\<lambda>_. zero_chs)
       (0x100008 := \<lparr>p_wrt_clk = 0x100038, wrt_clk_next = 0, own_wrt_clk = MAX_VERSION, p_act = NULL,
          chs_obj_hdr = \<lparr>obj_size = 32, padding_size = 96, obj_type = TYPE_WRT_SET, p_copy = NULL\<rparr>\<rparr>,
        0x100088 := \<lparr>p_wrt_clk = 0x100038, wrt_clk_next = 0, own_wrt_clk = MAX_VERSION, p_act = ex_obj,
          chs_obj_hdr = \<lparr>obj_size = 8, padding_size = 56, obj_type = TYPE_COPY, p_copy = NULL\<rparr>\<rparr>),
     ws_heap = (\<lambda>_. \<lparr>wrt_clk = 0, num_objs = 0, start_tail_cnt = 0, ws_thread = 0\<rparr>)
       (0x100038 := \<lparr>wrt_clk = MAX_VERSION, num_objs = 1, start_tail_cnt = 0, ws_thread = ex_thr\<rparr>),
     obj_heap = (\<lambda>_. [])(ex_obj := [1, 2, 3, 4, 5, 6, 7, 8], 0x1000B8 := [9, 9, 9, 9, 9, 9, 9, 9]),
     ahs_live = (\<lambda>_. False)(0x2000 := True)\<rparr>"

lemma ex_log1_sel [simp]:
  "cur_wrt_set ex_log1 = 0x100038" "tail_cnt ex_log1 = 192" "log_buffer ex_log1 = 0x100008" "head_cnt ex_log1 = 0"
  by (simp_all add: ex_log1_def ex_buf_def zero_log_def)

lemma ex_entry [simp]: "entry ex_log1 0 = 0x100008" "entry ex_log1 128 = 0x100088"
  by (simp_all add: entry_def log_at_def log_index_def size_simps ex_log1_def ex_buf_def)

lemma ex_commit_ready: "commit_ready ex_log1 ex_mem1 0 [128] []"
  by (simp add: commit_ready_def ws_inv_def buf_ok_def owns_def ahs_of_def entry_size_def get_log_size_def
      ex_mem1_def ex_defs layout_simps size_simps cpy_type_def act_p_lock_def act_p_copy_def zero_obj_hdr_def)

text \<open>It commits at clock 2000.\<close>

definition ex_tsc :: "nat \<Rightarrow> u64" where "ex_tsc k = 2000"

lemma ex_new_clock: "new_clock ex_tsc 0 1000 = Some (2000, 1)"
  by (simp add: new_clock_def ordo_new_clock.simps ordo_get_clock_def ex_tsc_def clock_simps)

declare link_copy.simps [code] ordo_new_clock.simps [code]

definition ex_mem2 :: mem where
  "ex_mem2 = snd (snd (snd (the (log_commit ex_tsc quiet_link ex_log1 [] 1000 0 ex_mem1))))"

lemma ex_commit:
  "log_commit ex_tsc quiet_link ex_log1 [] 1000 0 ex_mem1 = Some (ex_log1\<lparr>cur_wrt_set := NULL\<rparr>, [], 1, ex_mem2)"
  using log_commit_commits [OF ex_commit_ready, where env = quiet_link, OF keeps_quiet_link ex_new_clock]
  by (auto simp: clock_simps ex_mem2_def)

text \<open>The log with the committed write set, when its reclamation has been asked for.\<close>

definition ex_log2 :: mvrlu_log where
  "ex_log2 = ex_log1\<lparr>cur_wrt_set := NULL, qp_clk1 := 3000, need_reclaim := True\<rparr>"

definition ex_self :: "u64 \<Rightarrow> mvrlu_thread_struct" where
  "ex_self clk = zero_thread\<lparr>local_clk := clk, run_cnt := 1\<rparr>"

lemma ex_log2_sel:
  "cur_wrt_set ex_log2 = NULL" "tail_cnt ex_log2 = 192" "log_buffer ex_log2 = 0x100008" "head_cnt ex_log2 = 0"
  "qp_clk1 ex_log2 = 3000" "qp_clk2 ex_log2 = 0" "need_reclaim ex_log2" "\<not> reclaim_lock ex_log2"
  by (simp_all add: ex_log2_def ex_log1_def ex_buf_def zero_log_def)

lemma ex_entry2: "entry ex_log2 = entry ex_log1"
  by (rule same_entry) (simp add: ex_log2_sel)

lemma ex_mem2_hdrs:
  "get_log_size (chs_heap ex_mem2 0x100008) = 128" "get_log_size (chs_heap ex_mem2 0x100088) = 64"
  "cpy_type ex_mem2 0x100088 = TYPE_COPY" "get_wrt_clk ex_mem2 0x100088 = 2000"
  "p_act (chs_heap ex_mem2 0x100088) = ex_obj" "cpy_obj_size ex_mem2 0x100088 = 8"
  "ws_heap ex_mem2 0x100038 = \<lparr>wrt_clk = 2000, num_objs = 1, start_tail_cnt = 0, ws_thread = ex_thr\<rparr>"
  "length (obj_heap ex_mem2 0x1000B8) = 8" "length (obj_heap ex_mem2 ex_obj) = 8"
  by code_simp+

lemma ex_obj_not_copy: "cpy_type ex_mem2 0x100088 \<noteq> TYPE_FREE"
  by (simp add: ex_mem2_hdrs)

lemma ex_vchain: "vchain ex_mem2 (act_p_copy ex_mem2 (obj_to_ahs (get_act_obj ex_la ex_mem2 ex_obj))) [0x1000B8]"
  by code_simp

lemma ex_log_chain: "log_chain ex_log2 ex_mem2 0 [(0, [128], 192)] 192"
  by (simp add: ws_shape_def ex_entry2 chs_to_obj_def size_simps ex_mem2_hdrs entry_size_def)

lemma ex_ws_clk: "ws_clk ex_log2 ex_mem2 (0, [128], 192) = 2000"
  by (simp add: ws_clk_def ex_entry2 chs_to_obj_def size_simps ex_mem2_hdrs)

lemma ex_clks_sorted: "clks_sorted ex_log2 ex_mem2 [(0, [128], 192)]"
  using ex_ws_clk by (simp add: clks_sorted_def clock_ok_def)

lemma ex_copies_ok: "copies_ok ex_log2 ex_mem2 {ex_obj} [(0, [128], 192)]"
  by (simp add: copies_ok_def ws_entries_def ex_entry2 ex_mem2_hdrs ex_ws_clk chs_to_obj_def size_simps Let_def)
    (simp add: ex_obj_def)

text \<open>
  A second thread has locked the object, whose version has been written back meanwhile, and commits at clock 4000.
  The reader \<open>ex_late\<close> has a second quiescent-point clock beyond the first version.
\<close>

definition ex_log3 :: mvrlu_log where
  "ex_log3 = zero_log\<lparr>log_buffer := 0x120010, tail_cnt := 192, cur_wrt_set := 0x120040\<rparr>"

definition ex_mem3 :: mem where
  "ex_mem3 = ex_mem2\<lparr>ahs_heap := (ahs_heap ex_mem2)(0x2000 := (ahs_heap ex_mem2 0x2000)\<lparr>p_lock := 0x1200C0\<rparr>),
     chs_heap := (chs_heap ex_mem2)
       (0x120010 := \<lparr>p_wrt_clk = 0x120040, wrt_clk_next = 0, own_wrt_clk = MAX_VERSION, p_act = NULL,
          chs_obj_hdr = \<lparr>obj_size = 32, padding_size = 96, obj_type = TYPE_WRT_SET, p_copy = NULL\<rparr>\<rparr>,
        0x120090 := \<lparr>p_wrt_clk = 0x120040, wrt_clk_next = 0, own_wrt_clk = MAX_VERSION, p_act = ex_obj,
          chs_obj_hdr = \<lparr>obj_size = 8, padding_size = 56, obj_type = TYPE_COPY, p_copy = NULL\<rparr>\<rparr>),
     ws_heap := (ws_heap ex_mem2)(0x120040 := \<lparr>wrt_clk = MAX_VERSION, num_objs = 1, start_tail_cnt = 0, ws_thread = 0x60000\<rparr>),
     obj_heap := (obj_heap ex_mem2)(ex_obj := [9, 9, 9, 9, 9, 9, 9, 9], 0x1200C0 := [7, 7, 7, 7, 7, 7, 7, 7])\<rparr>"

definition ex_late :: mvrlu_thread_struct where
  "ex_late = (ex_self 3500)\<lparr>thr_log := zero_log\<lparr>qp_clk2 := 3000\<rparr>\<rparr>"

lemma ex_mem2_obj: "ahs_heap ex_mem2 0x2000 = \<lparr>p_lock = NULL, ahs_obj_hdr = zero_obj_hdr\<lparr>obj_size := 8, p_copy := 0x1000B8\<rparr>\<rparr>"
  by code_simp

lemma ex_entry3 [simp]: "entry ex_log3 0 = 0x120010" "entry ex_log3 128 = 0x120090"
  by (simp_all add: entry_def log_at_def log_index_def size_simps ex_log3_def)

lemma ex_commit_ready3: "commit_ready ex_log3 ex_mem3 0 [128] []"
  by (simp add: commit_ready_def ws_inv_def buf_ok_def owns_def ahs_of_def entry_size_def get_log_size_def ex_log3_def [THEN arg_cong, of log_buffer]
      ex_log3_def [THEN arg_cong, of tail_cnt] ex_log3_def [THEN arg_cong, of cur_wrt_set] ex_mem3_def ex_mem2_obj ex_defs layout_simps
      size_simps cpy_type_def act_p_lock_def act_p_copy_def zero_obj_hdr_def)

definition ex_tsc2 :: "nat \<Rightarrow> u64" where "ex_tsc2 k = 4000"

lemma ex_new_clock2: "new_clock ex_tsc2 0 3000 = Some (4000, 1)"
  by (simp add: new_clock_def ordo_new_clock.simps ordo_get_clock_def ex_tsc2_def clock_simps)

definition ex_mem4 :: mem where
  "ex_mem4 = snd (snd (snd (the (log_commit ex_tsc2 quiet_link ex_log3 [] 3000 0 ex_mem3))))"

lemma ex_commit3:
  "log_commit ex_tsc2 quiet_link ex_log3 [] 3000 0 ex_mem3 = Some (ex_log3\<lparr>cur_wrt_set := NULL\<rparr>, [], 1, ex_mem4)"
  using log_commit_commits [OF ex_commit_ready3, where env = quiet_link, OF keeps_quiet_link ex_new_clock2]
  by (auto simp: clock_simps ex_mem4_def)

lemma ex_vchain3: "vchain ex_mem3 (act_p_copy ex_mem3 (obj_to_ahs (get_act_obj ex_la ex_mem3 ex_obj))) [0x1000B8]"
  by code_simp

lemma ex_vchain4: "vchain ex_mem4 (act_p_copy ex_mem4 (obj_to_ahs (get_act_obj ex_la ex_mem4 ex_obj))) [0x1200C0, 0x1000B8]"
  by code_simp

lemma ex_mem3_facts:
  "obj_to_chs 0x1000B8 = 0x100088" "own_wrt_clk (chs_heap ex_mem3 0x100088) = 2000" "copy_clk ex_mem3 0x1000B8 = 2000"
  "obj_heap ex_mem3 (get_act_obj ex_la ex_mem3 ex_obj) = obj_heap ex_mem3 0x1000B8"
  by code_simp+

text \<open>A grace period during which a thread starts a critical section.\<close>

definition ex_gp0 :: gp_state where
  "ex_gp0 = \<lparr>gp_threads = (\<lambda>_. zero_thread), gp_phase = (\<lambda>_. Outside), gp_qp = Scanning, gp_clk = 2000,
     gp_scanned = {}, gp_n = 1\<rparr>"

definition ex_gp1 :: gp_state where
  "ex_gp1 = (gp_upd ex_thr qp_init_thread ex_gp0)\<lparr>gp_scanned := {ex_thr}\<rparr>\<lparr>gp_qp := Waiting\<rparr>\<lparr>gp_qp := Passed\<rparr>"

definition ex_gp2 :: gp_state where
  "ex_gp2 = gp_set_phase ex_thr Entering (gp_upd ex_thr bump_run_cnt ex_gp1)"

definition ex_gp3 :: gp_state where
  "ex_gp3 = gp_set_phase ex_thr Inside (gp_upd ex_thr (\<lambda>thr. thr\<lparr>local_clk := ex_tsc (gp_n ex_gp2)\<rparr>) ex_gp2)\<lparr>gp_n := Suc (gp_n ex_gp2)\<rparr>"

lemma ex_gp_run: "(gp_step ex_tsc {ex_thr})\<^sup>*\<^sup>* ex_gp0 ex_gp3"
proof -
  let ?a = "(gp_upd ex_thr qp_init_thread ex_gp0)\<lparr>gp_scanned := {ex_thr}\<rparr>"
  have 1: "gp_step ex_tsc {ex_thr} ex_gp0 ?a" using gp_step.scan [of ex_gp0 ex_thr "{ex_thr}" ex_tsc] by (simp add: ex_gp0_def)
  have 2: "gp_step ex_tsc {ex_thr} ?a (?a\<lparr>gp_qp := Waiting\<rparr>)"
    by (rule gp_step.scanned) (simp_all add: ex_gp0_def)
  have 3: "gp_step ex_tsc {ex_thr} (?a\<lparr>gp_qp := Waiting\<rparr>) ex_gp1"
    unfolding ex_gp1_def by (rule gp_step.pass) (simp_all add: ex_gp0_def qp_init_thread_def zero_thread_def)
  have 4: "gp_step ex_tsc {ex_thr} ex_gp1 ex_gp2"
    unfolding ex_gp2_def by (rule gp_step.enter) (simp add: ex_gp1_def ex_gp0_def)
  have 5: "gp_step ex_tsc {ex_thr} ex_gp2 ex_gp3"
    unfolding ex_gp3_def by (rule gp_step.clock) (simp add: ex_gp2_def)
  note step = converse_rtranclp_into_rtranclp [where r = "gp_step ex_tsc {ex_thr}"]
  show ?thesis by (rule step [OF 1 step [OF 2 step [OF 3 step [OF 4 step [OF 5 rtranclp.rtrancl_refl]]]]])
qed

text \<open>A hash table with two buckets and one item in each.\<close>

definition ex_table :: chainhash where
  "ex_table = \<lparr>nbuckets = 2, buckets = [0x100, 0x200]\<rparr>"

definition ex_items :: "addr \<Rightarrow> (u64, u64) item" where
  "ex_items = (\<lambda>_. \<lparr>it_key = 0, it_val = 0, it_next = NULL\<rparr>)
     (0x100 := \<lparr>it_key = 0, it_val = 0, it_next = 0x300\<rparr>, 0x200 := \<lparr>it_key = 0, it_val = 0, it_next = 0x400\<rparr>,
      0x300 := \<lparr>it_key = 2, it_val = 20, it_next = NULL\<rparr>, 0x400 := \<lparr>it_key = 5, it_val = 50, it_next = NULL\<rparr>)"

definition ex_ch :: "(u64, u64) ch_state" where
  "ex_ch = \<lparr>items = ex_items, ch_run_cnt = 0, ch_freed = [], n_locks = 0\<rparr>"

definition ex_hash :: "u64 \<Rightarrow> u64" where
  "ex_hash k = k"

lemma ex_bucket_no [simp]: "bucket_no ex_hash ex_table k = unat (k mod 2)"
  by (simp add: bucket_no_def ex_hash_def ex_table_def)

lemma ex_table_inv: "table_inv ex_hash ex_table ex_items [[0x300], [0x400]]"
proof -
  have "bucket_inv ex_items 0x100 [0x300]" "bucket_inv ex_items 0x200 [0x400]"
    by (simp_all add: bucket_inv_def ex_items_def)
  then show ?thesis by (auto simp: table_inv_def less_Suc_eq ex_table_def [THEN arg_cong, of buckets]
      ex_table_def [THEN arg_cong, of nbuckets] ex_items_def)
qed

lemma ex_unlinked: "unlinked ex_table ex_items 0x500"
  by (subst unlinked_iff [OF ex_table_inv]) (simp add: ex_table_def less_Suc_eq)

lemma ex_table_map: "table_map ex_hash ex_table ex_items 2 = Some 20" "table_map ex_hash ex_table ex_items 4 = None"
  by (simp_all add: table_map_eq [OF ex_table_inv] entries_def) (simp_all add: ex_items_def)

text \<open>A circular list with one node.\<close>

definition ex_list :: list_heap where
  "ex_list = mvrlu_list_add 0x200 0x100 (init_mvrlu_list 0x100 \<lparr>l_next = (\<lambda>_. 0), l_prev = (\<lambda>_. 0)\<rparr>)"

lemma ex_dlist: "dlist ex_list 0x100 [0x200]"
  unfolding ex_list_def by (rule mvrlu_list_add_dlist [OF init_mvrlu_list_dlist]) simp

text \<open>The system after initialisation, with one registered thread.\<close>

definition ex_sys1 :: mvrlu_sys where
  "ex_sys1 = snd (mvrlu_init 0 ex_sys0)"

lemma ex_lists_inv: "lists_inv ex_sys1 [] []"
  unfolding ex_sys1_def by (rule mvrlu_init_lists) (simp_all add: ex_sys0_def)

lemma ex_fresh: "fresh_node ex_sys1 [] [] ex_thr"
  by (simp add: fresh_node_def ex_sys1_def mvrlu_init_def ex_sys0_def init_thread_list_def init_qp_thread_def
      port_log_region_init_def thread_to_list_def offset_list_def ex_thr_def)

end
