(* ===== verification/Rlu.thy ===== *)
theory Rlu
  imports Mvrlu_Prelude
begin

text \<open>
  Read-log-update (\<open>lib/rlu.c\<close>, \<open>include/rlu.h\<close>), the scheme MV-RLU is compared with, in the
  configuration of the kernel: global version numbers, fine-grained locking.

  As for MV-RLU, memory is one heap per structure type: the word in front of an object by the
  address of that header, the headers in a write-set buffer by their address, the bytes of an
  object by the address of the object.  A thread is named by its \<open>uniq_id\<close>, its index in
  \<open>g_rlu_threads\<close>.  Version numbers and write-set counters start at zero and only grow by one, so
  that they stay below the limits of \<open>long\<close>; they are integers and natural numbers here.  The
  run counter is kept at its width.  An operation has no result when it does not return or when it
  would read or write outside its arrays or in memory that was given back.  \<open>RLU_ASSERT\<close> only prints and has no effect on the state.
\<close>

section \<open>Configuration and data (rlu.h)\<close>

definition RLU_TYPE_FINE_GRAINED :: int where "RLU_TYPE_FINE_GRAINED = 1"
definition RLU_TYPE_COARSE_GRAINED :: int where "RLU_TYPE_COARSE_GRAINED = 2"
definition RLU_TYPE :: int where "RLU_TYPE = RLU_TYPE_FINE_GRAINED"
definition RLU_NUM_WS :: int where "RLU_NUM_WS = 1"
definition RLU_MAX_WRITE_SETS :: nat where "RLU_MAX_WRITE_SETS = 200"
definition RLU_MAX_FREE_NODES :: nat where "RLU_MAX_FREE_NODES = 100000"
definition RLU_MAX_THREADS :: nat where "RLU_MAX_THREADS = 450"
definition RLU_MAX_WRITE_SET_BUFFER_SIZE :: nat where "RLU_MAX_WRITE_SET_BUFFER_SIZE = 100000"
definition RLU_MAX_NESTED_WRITER_LOCKS :: nat where "RLU_MAX_NESTED_WRITER_LOCKS = 20"

record rlu_ws_obj_header =
  p_obj_actual :: addr
  ws_obj_size :: u64
  ws_run_counter :: u64
  ws_thread_id :: nat

record obj_list =
  writer_locks :: "nat list"
  num_of_objs :: nat
  p_cur :: addr
  ol_buffer :: addr \<comment> \<open>the address of \<open>buffer[0]\<close>\<close>

record wait_entry =
  is_wait :: bool
  q_run_counter :: u64

record rlu_thread_data =
  uniq_id :: nat
  is_check_locks :: bool
  rlu_write_detected :: bool
  is_steal :: bool
  rlu_thr_type :: int
  max_write_sets :: int
  run_counter :: u64
  local_version :: int
  local_commit_version :: int
  is_no_quiescence :: bool
  is_sync :: nat
  writer_version :: int
  q_threads :: "nat \<Rightarrow> wait_entry"
  ws_head_counter :: nat
  ws_wb_counter :: nat
  ws_tail_counter :: nat
  ws_cur_id :: nat
  obj_write_set :: "nat \<Rightarrow> obj_list"
  free_nodes :: "addr list"

record rlu_mem =
  hdr_copy :: "addr \<Rightarrow> addr" \<comment> \<open>\<open>p_obj_copy\<close> of a \<open>rlu_obj_header_t\<close>\<close>
  ws_hdr :: "addr \<Rightarrow> rlu_ws_obj_header"
  bytes :: "addr \<Rightarrow> u8 list"
  allocated :: "addr \<Rightarrow> bool"

record rlu_sys =
  g_rlu_type :: int
  g_rlu_max_write_sets :: int
  g_rlu_cur_threads :: nat
  g_rlu_threads :: "nat \<Rightarrow> rlu_thread_data option"
  thread_freed :: "nat \<Rightarrow> bool" \<comment> \<open>the data at \<open>g_rlu_threads[i]\<close> was given back\<close>
  g_rlu_writer_locks :: "nat \<Rightarrow> nat"
  g_rlu_writer_version :: int
  g_rlu_commit_version :: int
  rmem :: rlu_mem

definition RLU_MAX_VERSION :: int where
  "RLU_MAX_VERSION = 2 ^ 63 - 1 - 1"

definition LOCK_ID :: "nat \<Rightarrow> nat" where
  "LOCK_ID th_id = th_id + 1"

definition WS_INDEX :: "nat \<Rightarrow> nat" where
  "WS_INDEX ws_counter = ws_counter mod RLU_MAX_WRITE_SETS"

definition ALIGN_OBJ_SIZE :: "u64 \<Rightarrow> u64" where
  "ALIGN_OBJ_SIZE obj_size = (if obj_size AND 7 \<noteq> 0 then obj_size + (8 - (obj_size AND 7)) else obj_size)"

definition OBJ_HEADER_SIZE :: u64 where "OBJ_HEADER_SIZE = 8"
definition WS_OBJ_HEADER_SIZE :: u64 where "WS_OBJ_HEADER_SIZE = 32"

definition OBJ_TO_H :: "addr \<Rightarrow> addr" where
  "OBJ_TO_H p_obj = p_obj - OBJ_HEADER_SIZE"

definition H_TO_OBJ :: "addr \<Rightarrow> addr" where
  "H_TO_OBJ h = h + OBJ_HEADER_SIZE"

definition OBJ_COPY_TO_WS_H :: "addr \<Rightarrow> addr" where
  "OBJ_COPY_TO_WS_H p_obj_copy = p_obj_copy - (OBJ_HEADER_SIZE + WS_OBJ_HEADER_SIZE)"

definition PTR_ID_OBJ_COPY :: addr where
  "PTR_ID_OBJ_COPY = 0x12341234"

definition GET_COPY :: "rlu_mem \<Rightarrow> addr \<Rightarrow> addr" where
  "GET_COPY m p_obj = hdr_copy m (OBJ_TO_H p_obj)"

definition PTR_IS_LOCKED :: "addr \<Rightarrow> bool" where
  "PTR_IS_LOCKED p_obj_copy \<longleftrightarrow> p_obj_copy \<noteq> NULL"

definition PTR_IS_COPY :: "addr \<Rightarrow> bool" where
  "PTR_IS_COPY p_obj_copy \<longleftrightarrow> p_obj_copy = PTR_ID_OBJ_COPY"

definition GET_ACTUAL :: "rlu_mem \<Rightarrow> addr \<Rightarrow> addr" where
  "GET_ACTUAL m p_obj_copy = p_obj_actual (ws_hdr m (OBJ_COPY_TO_WS_H p_obj_copy))"

definition FORCE_ACTUAL :: "rlu_mem \<Rightarrow> addr \<Rightarrow> addr" where
  "FORCE_ACTUAL m p_obj = (if PTR_IS_COPY (GET_COPY m p_obj) then GET_ACTUAL m p_obj else p_obj)"

definition SET_COPY :: "addr \<Rightarrow> addr \<Rightarrow> rlu_mem \<Rightarrow> rlu_mem" where
  "SET_COPY p_obj v m = m\<lparr>hdr_copy := (hdr_copy m)(OBJ_TO_H p_obj := v)\<rparr>"

definition UNLOCK :: "addr \<Rightarrow> rlu_mem \<Rightarrow> rlu_mem" where
  "UNLOCK p_obj m = SET_COPY p_obj NULL m"

definition TRY_CAS_PTR_OBJ_COPY :: "addr \<Rightarrow> addr \<Rightarrow> rlu_mem \<Rightarrow> bool \<times> rlu_mem" where
  "TRY_CAS_PTR_OBJ_COPY p_obj new m =
     (if GET_COPY m p_obj = NULL then (True, SET_COPY p_obj new m) else (False, m))"

definition rlu_memcpy :: "addr \<Rightarrow> addr \<Rightarrow> u64 \<Rightarrow> rlu_mem \<Rightarrow> rlu_mem" where
  "rlu_memcpy dst src n m =
     m\<lparr>bytes := (bytes m)(dst := take (unat n) (bytes m src) @ drop (unat n) (bytes m dst))\<rparr>"

definition rlu_upd_ws :: "nat \<Rightarrow> (obj_list \<Rightarrow> obj_list) \<Rightarrow> rlu_thread_data \<Rightarrow> rlu_thread_data" where
  "rlu_upd_ws ws_id f self = self\<lparr>obj_write_set := (obj_write_set self)(ws_id := f (obj_write_set self ws_id))\<rparr>"

section \<open>Writer locks\<close>

definition rlu_reset_writer_locks :: "nat \<Rightarrow> rlu_thread_data \<Rightarrow> rlu_thread_data" where
  "rlu_reset_writer_locks ws_id self = rlu_upd_ws ws_id (\<lambda>w. w\<lparr>writer_locks := []\<rparr>) self"

text \<open>The identifiers are kept in an array of twenty; the one after that is written past its end.\<close>

definition rlu_add_writer_lock :: "nat \<Rightarrow> rlu_thread_data \<Rightarrow> rlu_thread_data option" where
  "rlu_add_writer_lock writer_lock_id self =
     (if length (writer_locks (obj_write_set self (ws_cur_id self))) < RLU_MAX_NESTED_WRITER_LOCKS
      then Some (rlu_upd_ws (ws_cur_id self) (\<lambda>w. w\<lparr>writer_locks := writer_locks w @ [writer_lock_id]\<rparr>) self)
      else None)"

definition rlu_try_acquire_writer_lock :: "nat \<Rightarrow> nat \<Rightarrow> rlu_sys \<Rightarrow> bool \<times> rlu_sys" where
  "rlu_try_acquire_writer_lock self_id writer_lock_id s =
     (if g_rlu_writer_locks s writer_lock_id = 0
      then (True, s\<lparr>g_rlu_writer_locks := (g_rlu_writer_locks s)(writer_lock_id := LOCK_ID self_id)\<rparr>)
      else (False, s))"

definition rlu_release_writer_lock :: "nat \<Rightarrow> rlu_sys \<Rightarrow> rlu_sys" where
  "rlu_release_writer_lock writer_lock_id s =
     s\<lparr>g_rlu_writer_locks := (g_rlu_writer_locks s)(writer_lock_id := 0)\<rparr>"

section \<open>Write sets\<close>

definition rlu_reset :: "rlu_thread_data \<Rightarrow> rlu_thread_data" where
  "rlu_reset self = self\<lparr>rlu_write_detected := False, is_steal := True, is_check_locks := True\<rparr>"

definition rlu_reset_write_set :: "nat \<Rightarrow> rlu_thread_data \<Rightarrow> rlu_thread_data" where
  "rlu_reset_write_set ws_counter self =
     (let ws_id = WS_INDEX ws_counter
      in rlu_reset_writer_locks ws_id (rlu_upd_ws ws_id (\<lambda>w. w\<lparr>num_of_objs := 0, p_cur := ol_buffer w\<rparr>) self))"

text \<open>Whether \<open>n\<close> bytes at an address are inside of the buffer of a write set.\<close>

definition in_ws_buffer :: "obj_list \<Rightarrow> addr \<Rightarrow> nat \<Rightarrow> bool" where
  "in_ws_buffer w a n \<longleftrightarrow> unat (a - ol_buffer w) + n \<le> RLU_MAX_WRITE_SET_BUFFER_SIZE"

definition rlu_add_ws_obj_header_to_write_set ::
    "addr \<Rightarrow> u64 \<Rightarrow> rlu_thread_data \<Rightarrow> rlu_mem \<Rightarrow> (addr \<times> rlu_thread_data \<times> rlu_mem) option" where
  "rlu_add_ws_obj_header_to_write_set p_obj obj_size self m =
     (let w = obj_write_set self (ws_cur_id self);
          cur = p_cur w;
          m1 = m\<lparr>ws_hdr := (ws_hdr m)(cur := \<lparr>p_obj_actual = p_obj, ws_obj_size = obj_size,
                   ws_run_counter = run_counter self, ws_thread_id = uniq_id self\<rparr>)\<rparr>;
          cur1 = cur + WS_OBJ_HEADER_SIZE;
          m2 = m1\<lparr>hdr_copy := (hdr_copy m1)(cur1 := PTR_ID_OBJ_COPY)\<rparr>;
          cur2 = cur1 + OBJ_HEADER_SIZE
      in if in_ws_buffer w cur (unat (WS_OBJ_HEADER_SIZE + OBJ_HEADER_SIZE))
         then Some (cur2, rlu_upd_ws (ws_cur_id self) (\<lambda>w. w\<lparr>p_cur := cur2\<rparr>) self, m2) else None)"

definition rlu_add_obj_copy_to_write_set ::
    "addr \<Rightarrow> u64 \<Rightarrow> rlu_thread_data \<Rightarrow> rlu_mem \<Rightarrow> (rlu_thread_data \<times> rlu_mem) option" where
  "rlu_add_obj_copy_to_write_set p_obj obj_size self m =
     (let w = obj_write_set self (ws_cur_id self); cur = p_cur w
      in if in_ws_buffer w cur (unat obj_size)
         then Some (rlu_upd_ws (ws_cur_id self)
                      (\<lambda>w. w\<lparr>p_cur := cur + ALIGN_OBJ_SIZE obj_size, num_of_objs := num_of_objs w + 1\<rparr>) self,
                    rlu_memcpy cur p_obj obj_size m)
         else None)"

text \<open>
  The loops over a write set: both start at the beginning of the buffer and find the next header
  behind the current copy.
\<close>

fun writeback_objs :: "nat \<Rightarrow> addr \<Rightarrow> rlu_mem \<Rightarrow> rlu_mem" where
  "writeback_objs 0 cur m = m"
| "writeback_objs (Suc n) cur m =
     (let h = ws_hdr m cur;
          copy = cur + WS_OBJ_HEADER_SIZE + OBJ_HEADER_SIZE;
          m1 = rlu_memcpy (p_obj_actual h) copy (ws_obj_size h) m
      in writeback_objs n (copy + ALIGN_OBJ_SIZE (ws_obj_size h)) (UNLOCK (p_obj_actual h) m1))"

definition rlu_writeback_write_set :: "nat \<Rightarrow> rlu_thread_data \<Rightarrow> rlu_mem \<Rightarrow> rlu_mem" where
  "rlu_writeback_write_set ws_counter self m =
     (let w = obj_write_set self (WS_INDEX ws_counter)
      in writeback_objs (num_of_objs w) (ol_buffer w) m)"

definition rlu_writeback_write_sets_and_unlock :: "rlu_thread_data \<Rightarrow> rlu_mem \<Rightarrow> nat \<times> rlu_thread_data \<times> rlu_mem" where
  "rlu_writeback_write_sets_and_unlock self m =
     (let self1 = fold rlu_reset_write_set [ws_head_counter self..<ws_wb_counter self] self;
          self2 = self1\<lparr>ws_head_counter := ws_wb_counter self1\<rparr>;
          ws = [ws_wb_counter self2..<ws_tail_counter self2];
          m1 = fold (\<lambda>c. rlu_writeback_write_set c self2) ws m
      in (length ws, self2\<lparr>ws_wb_counter := ws_tail_counter self2\<rparr>, m1))"

fun unlock_objs :: "nat \<Rightarrow> addr \<Rightarrow> rlu_mem \<Rightarrow> rlu_mem" where
  "unlock_objs 0 cur m = m"
| "unlock_objs (Suc n) cur m =
     (let h = ws_hdr m cur
      in unlock_objs n (cur + WS_OBJ_HEADER_SIZE + OBJ_HEADER_SIZE + ALIGN_OBJ_SIZE (ws_obj_size h))
           (UNLOCK (p_obj_actual h) m))"

text \<open>
  \<open>rlu_unlock_objs\<close> takes its counter as an \<open>int\<close>.  The remainder of a negative counter is not
  positive: it is an index only when it is zero.
\<close>

definition to_int :: "nat \<Rightarrow> int" where
  "to_int n = sint (word_of_nat n :: 32 word)"

definition WS_INDEX_int :: "int \<Rightarrow> nat option" where
  "WS_INDEX_int c =
     (if 0 \<le> c then Some (WS_INDEX (nat c))
      else if WS_INDEX (nat (- c)) = 0 then Some 0 else None)"

definition rlu_unlock_objs :: "int \<Rightarrow> rlu_thread_data \<Rightarrow> rlu_mem \<Rightarrow> rlu_mem option" where
  "rlu_unlock_objs ws_counter self m =
     map_option (\<lambda>ws_id. let w = obj_write_set self ws_id in unlock_objs (num_of_objs w) (ol_buffer w) m)
       (WS_INDEX_int ws_counter)"

section \<open>Threads\<close>

text \<open>The data of a registered thread.\<close>

definition thr :: "rlu_sys \<Rightarrow> nat \<Rightarrow> rlu_thread_data" where
  "thr s t = the (g_rlu_threads s t)"

definition upd_thr :: "nat \<Rightarrow> (rlu_thread_data \<Rightarrow> rlu_thread_data) \<Rightarrow> rlu_sys \<Rightarrow> rlu_sys" where
  "upd_thr t f s = s\<lparr>g_rlu_threads := (g_rlu_threads s)(t := map_option f (g_rlu_threads s t))\<rparr>"

definition rlu_release_writer_locks :: "nat \<Rightarrow> nat \<Rightarrow> rlu_sys \<Rightarrow> rlu_sys" where
  "rlu_release_writer_locks t ws_id s =
     fold rlu_release_writer_lock (writer_locks (obj_write_set (thr s t) ws_id)) s"

definition rlu_register_thread :: "nat \<Rightarrow> rlu_sys \<Rightarrow> rlu_sys" where
  "rlu_register_thread t s =
     upd_thr t (\<lambda>self. self\<lparr>run_counter := run_counter self + 1, local_version := g_rlu_writer_version s,
       local_commit_version := g_rlu_commit_version s\<rparr>) s"

definition rlu_unregister_thread :: "nat \<Rightarrow> rlu_sys \<Rightarrow> rlu_sys" where
  "rlu_unregister_thread t s = upd_thr t (\<lambda>self. self\<lparr>run_counter := run_counter self + 1\<rparr>) s"

definition rlu_process_free :: "nat \<Rightarrow> rlu_sys \<Rightarrow> rlu_sys" where
  "rlu_process_free t s =
     upd_thr t (\<lambda>self. self\<lparr>free_nodes := []\<rparr>)
       (s\<lparr>rmem := fold (\<lambda>p m. m\<lparr>allocated := (allocated m)(OBJ_TO_H p := False)\<rparr>) (free_nodes (thr s t)) (rmem s)\<rparr>)"

section \<open>Quiescence\<close>

definition init_wait :: "rlu_sys \<Rightarrow> nat \<Rightarrow> nat \<Rightarrow> rlu_thread_data \<Rightarrow> rlu_thread_data" where
  "init_wait s t th_id self =
     (let self1 = self\<lparr>q_threads := (q_threads self)(th_id := (q_threads self th_id)\<lparr>is_wait := False\<rparr>)\<rparr>
      in if th_id = t then self1
         else case g_rlu_threads s th_id of
                None \<Rightarrow> self1
              | Some other \<Rightarrow>
                  self1\<lparr>q_threads := (q_threads self1)(th_id :=
                    \<lparr>is_wait = odd (unat (run_counter other)), q_run_counter = run_counter other\<rparr>)\<rparr>)"

definition rlu_init_quiescence :: "nat \<Rightarrow> rlu_sys \<Rightarrow> rlu_sys option" where
  "rlu_init_quiescence t s =
     (if \<exists>th_id \<in> set [0..<g_rlu_cur_threads s]. th_id \<noteq> t \<and> g_rlu_threads s th_id \<noteq> None \<and> thread_freed s th_id
      then None
      else Some (upd_thr t (fold (init_wait s t) [0..<g_rlu_cur_threads s]) s))"

text \<open>
  The waiting loop.  \<open>env\<close> is what the other threads do before each turn; the iteration count is
  only used for a message.
\<close>

definition thread_passed :: "int \<Rightarrow> rlu_thread_data \<Rightarrow> nat \<Rightarrow> rlu_sys \<Rightarrow> bool" where
  "thread_passed version_limit self th_id s \<longleftrightarrow>
     q_run_counter (q_threads self th_id) \<noteq> run_counter (thr s th_id) \<or>
     (version_limit \<noteq> 0 \<and> local_version (thr s th_id) \<ge> version_limit)"

definition clear_wait :: "nat \<Rightarrow> rlu_thread_data \<Rightarrow> rlu_thread_data" where
  "clear_wait th_id self = self\<lparr>q_threads := (q_threads self)(th_id := (q_threads self th_id)\<lparr>is_wait := False\<rparr>)\<rparr>"

partial_function (option) wait_for_thread ::
    "(rlu_sys \<Rightarrow> rlu_sys) \<Rightarrow> nat \<Rightarrow> int \<Rightarrow> nat \<Rightarrow> rlu_sys \<Rightarrow> rlu_sys option" where
  "wait_for_thread env t version_limit th_id s =
     (if \<not> is_wait (q_threads (thr s t) th_id) then Some s
      else if thread_freed s th_id then None
      else if thread_passed version_limit (thr s t) th_id s then Some (upd_thr t (clear_wait th_id) s)
      else wait_for_thread env t version_limit th_id (env s))"

fun wait_for_threads :: "(rlu_sys \<Rightarrow> rlu_sys) \<Rightarrow> nat \<Rightarrow> int \<Rightarrow> nat list \<Rightarrow> rlu_sys \<Rightarrow> rlu_sys option" where
  "wait_for_threads env t version_limit [] s = Some s"
| "wait_for_threads env t version_limit (th_id # ths) s =
     Option.bind (wait_for_thread env t version_limit th_id s) (wait_for_threads env t version_limit ths)"

definition rlu_wait_for_quiescence :: "(rlu_sys \<Rightarrow> rlu_sys) \<Rightarrow> nat \<Rightarrow> int \<Rightarrow> rlu_sys \<Rightarrow> rlu_sys option" where
  "rlu_wait_for_quiescence env t version_limit s =
     wait_for_threads env t version_limit [0..<g_rlu_cur_threads s] s"

definition rlu_synchronize :: "(rlu_sys \<Rightarrow> rlu_sys) \<Rightarrow> nat \<Rightarrow> rlu_sys \<Rightarrow> rlu_sys option" where
  "rlu_synchronize env t s =
     (if is_no_quiescence (thr s t) then Some s
      else Option.bind (rlu_init_quiescence t s)
             (\<lambda>s1. rlu_wait_for_quiescence env t (writer_version (thr s1 t)) s1))"

definition rlu_writeback_sys :: "nat \<Rightarrow> rlu_sys \<Rightarrow> rlu_sys" where
  "rlu_writeback_sys t s =
     (let (ws_wb_num, self, m) = rlu_writeback_write_sets_and_unlock (thr s t) (rmem s)
      in upd_thr t (\<lambda>_. self) (s\<lparr>rmem := m\<rparr>))"

definition rlu_sync_and_writeback :: "(rlu_sys \<Rightarrow> rlu_sys) \<Rightarrow> nat \<Rightarrow> rlu_sys \<Rightarrow> rlu_sys option" where
  "rlu_sync_and_writeback env t s =
     (if ws_tail_counter (thr s t) = ws_head_counter (thr s t) then Some s
      else
        let s1 = upd_thr t (\<lambda>self. self\<lparr>writer_version := g_rlu_writer_version s + 1\<rparr>) s;
            s1' = env s1;
            s2 = s1'\<lparr>g_rlu_writer_version := g_rlu_writer_version s1' + 1\<rparr>
        in map_option (\<lambda>s3.
             let s4 = upd_thr t (\<lambda>self. self\<lparr>writer_version := RLU_MAX_VERSION\<rparr>) (rlu_writeback_sys t s3);
                 s5 = s4\<lparr>g_rlu_commit_version := g_rlu_commit_version s4 + 1\<rparr>;
                 s6 = upd_thr t (\<lambda>self. self\<lparr>is_sync := 0\<rparr>) s5
             in rlu_process_free t s6) (rlu_synchronize env t s2))"

definition rlu_send_sync_request :: "nat \<Rightarrow> rlu_sys \<Rightarrow> rlu_sys" where
  "rlu_send_sync_request other_th_id s = upd_thr other_th_id (\<lambda>o1. o1\<lparr>is_sync := is_sync o1 + 1\<rparr>) s"

definition rlu_commit_write_set :: "(rlu_sys \<Rightarrow> rlu_sys) \<Rightarrow> nat \<Rightarrow> rlu_sys \<Rightarrow> rlu_sys option" where
  "rlu_commit_write_set env t s =
     (let s1 = upd_thr t (\<lambda>self. self\<lparr>ws_tail_counter := ws_tail_counter self + 1,
                 ws_cur_id := WS_INDEX (ws_tail_counter self + 1)\<rparr>) s;
          self = thr s1 t
      in if WS_INDEX (ws_tail_counter self) = WS_INDEX (ws_head_counter self) \<or>
            int (ws_tail_counter self) - int (ws_wb_counter self) \<ge> max_write_sets self
         then rlu_sync_and_writeback env t s1 else Some s1)"

section \<open>The interface\<close>

text \<open>
  In all operations below \<open>env\<close> is what the other threads do at the points where their steps
  matter: before a turn of a waiting loop, between reading and advancing the global version, and
  before a CAS.  For a type it does not know \<open>rlu_init_args\<close> only prints.\<close>

definition rlu_init_args :: "int \<Rightarrow> int \<Rightarrow> rlu_sys \<Rightarrow> rlu_sys" where
  "rlu_init_args type ws s =
     (let s1 = s\<lparr>g_rlu_writer_version := 0, g_rlu_commit_version := 0\<rparr>
      in if type = RLU_TYPE_COARSE_GRAINED
         then s1\<lparr>g_rlu_type := RLU_TYPE_COARSE_GRAINED, g_rlu_max_write_sets := 1\<rparr>
         else if type = RLU_TYPE_FINE_GRAINED
         then s1\<lparr>g_rlu_type := RLU_TYPE_FINE_GRAINED, g_rlu_max_write_sets := ws\<rparr>
         else s1)"

definition rlu_init :: "rlu_sys \<Rightarrow> rlu_sys" where
  "rlu_init s =
     (let s1 = s\<lparr>g_rlu_writer_version := 0, g_rlu_commit_version := 0\<rparr>
      in if RLU_TYPE = RLU_TYPE_COARSE_GRAINED
         then s1\<lparr>g_rlu_type := RLU_TYPE_COARSE_GRAINED, g_rlu_max_write_sets := 1\<rparr>
         else if RLU_TYPE = RLU_TYPE_FINE_GRAINED
         then s1\<lparr>g_rlu_type := RLU_TYPE_FINE_GRAINED, g_rlu_max_write_sets := RLU_NUM_WS\<rparr>
         else s1)"

text \<open>
  \<open>memset\<close> of the thread data, whose write-set buffers are at the addresses \<open>buf\<close>; the result
  includes the new thread's number.  There is no entry of \<open>g_rlu_threads\<close> for the 451st thread.
\<close>

definition zero_rlu_thread :: "(nat \<Rightarrow> addr) \<Rightarrow> rlu_thread_data" where
  "zero_rlu_thread buf = \<lparr>uniq_id = 0, is_check_locks = False, rlu_write_detected = False, is_steal = False,
     rlu_thr_type = 0, max_write_sets = 0, run_counter = 0, local_version = 0, local_commit_version = 0,
     is_no_quiescence = False, is_sync = 0, writer_version = 0,
     q_threads = (\<lambda>_. \<lparr>is_wait = False, q_run_counter = 0\<rparr>),
     ws_head_counter = 0, ws_wb_counter = 0, ws_tail_counter = 0, ws_cur_id = 0,
     obj_write_set = (\<lambda>i. \<lparr>writer_locks = [], num_of_objs = 0, p_cur = NULL, ol_buffer = buf i\<rparr>),
     free_nodes = []\<rparr>"

definition rlu_thread_init :: "(nat \<Rightarrow> addr) \<Rightarrow> rlu_sys \<Rightarrow> (nat \<times> rlu_sys) option" where
  "rlu_thread_init buf s =
     (let t = g_rlu_cur_threads s;
          self = (zero_rlu_thread buf)\<lparr>rlu_thr_type := g_rlu_type s, max_write_sets := g_rlu_max_write_sets s,
                   uniq_id := t, local_version := 0, writer_version := RLU_MAX_VERSION\<rparr>;
          self1 = fold rlu_reset_write_set [0..<RLU_MAX_WRITE_SETS] self
      in if t < RLU_MAX_THREADS
         then Some (t, s\<lparr>g_rlu_cur_threads := t + 1, g_rlu_threads := (g_rlu_threads s)(t := Some self1)\<rparr>)
         else None)"

definition rlu_thread_finish :: "(rlu_sys \<Rightarrow> rlu_sys) \<Rightarrow> nat \<Rightarrow> rlu_sys \<Rightarrow> rlu_sys option" where
  "rlu_thread_finish env t s =
     Option.bind (rlu_sync_and_writeback env t s) (rlu_sync_and_writeback env t)"

text \<open>\<open>ptr\<close> is the result of \<open>malloc\<close>.\<close>

definition rlu_alloc :: "addr \<Rightarrow> rlu_sys \<Rightarrow> addr \<times> rlu_sys" where
  "rlu_alloc ptr s =
     (if ptr = NULL then (NULL, s)
      else (H_TO_OBJ ptr, s\<lparr>rmem := (rmem s)\<lparr>hdr_copy := (hdr_copy (rmem s))(ptr := NULL),
              allocated := (allocated (rmem s))(ptr := True)\<rparr>\<rparr>))"

text \<open>The array of pointers to free has room for 100000; writing past its end is no value.\<close>

definition rlu_free :: "nat option \<Rightarrow> addr \<Rightarrow> rlu_sys \<Rightarrow> rlu_sys option" where
  "rlu_free self p_obj s =
     (if p_obj = NULL then Some s
      else case self of
             None \<Rightarrow> Some (s\<lparr>rmem := (rmem s)\<lparr>allocated := (allocated (rmem s))(OBJ_TO_H p_obj := False)\<rparr>\<rparr>)
           | Some t \<Rightarrow>
               if length (free_nodes (thr s t)) < RLU_MAX_FREE_NODES
               then Some (upd_thr t (\<lambda>self. self\<lparr>free_nodes := free_nodes self @ [FORCE_ACTUAL (rmem s) p_obj]\<rparr>) s)
               else None)"

definition rlu_sync_checkpoint :: "(rlu_sys \<Rightarrow> rlu_sys) \<Rightarrow> nat \<Rightarrow> rlu_sys \<Rightarrow> rlu_sys option" where
  "rlu_sync_checkpoint env t s = (if is_sync (thr s t) = 0 then Some s else rlu_sync_and_writeback env t s)"

definition rlu_reader_lock :: "(rlu_sys \<Rightarrow> rlu_sys) \<Rightarrow> nat \<Rightarrow> rlu_sys \<Rightarrow> rlu_sys option" where
  "rlu_reader_lock env t s =
     map_option (\<lambda>s1.
       upd_thr t (\<lambda>self. self\<lparr>
           is_steal := local_version self - local_commit_version self \<noteq> 0,
           is_check_locks := \<not> (local_version self - local_commit_version self = 0 \<and>
             ws_tail_counter self - ws_wb_counter self = 0)\<rparr>)
         (rlu_register_thread t (upd_thr t rlu_reset s1)))
       (rlu_sync_checkpoint env t s)"

definition rlu_try_writer_lock :: "nat \<Rightarrow> nat \<Rightarrow> rlu_sys \<Rightarrow> (bool \<times> rlu_sys) option" where
  "rlu_try_writer_lock t writer_lock_id s =
     (let (ok, s1) = rlu_try_acquire_writer_lock (uniq_id (thr s t)) writer_lock_id s
      in if \<not> ok then Some (False, s1)
         else map_option (\<lambda>self. (True, upd_thr t (\<lambda>_. self) s1)) (rlu_add_writer_lock writer_lock_id (thr s1 t)))"

definition rlu_reader_unlock :: "(rlu_sys \<Rightarrow> rlu_sys) \<Rightarrow> nat \<Rightarrow> rlu_sys \<Rightarrow> rlu_sys option" where
  "rlu_reader_unlock env t s =
     (let s1 = rlu_unregister_thread t s
      in Option.bind
           (if rlu_write_detected (thr s1 t) then
              map_option (\<lambda>s2. rlu_release_writer_locks t (WS_INDEX (ws_tail_counter (thr s2 t) - 1)) s2)
                (rlu_commit_write_set env t (upd_thr t (\<lambda>self. self\<lparr>rlu_write_detected := False\<rparr>) s1))
            else
              let s2 = rlu_release_writer_locks t (ws_cur_id (thr s1 t)) s1
              in Some (upd_thr t (rlu_reset_writer_locks (ws_cur_id (thr s2 t))) s2))
           (rlu_sync_checkpoint env t))"

definition rlu_deref_slow_path :: "nat \<Rightarrow> addr \<Rightarrow> rlu_sys \<Rightarrow> addr" where
  "rlu_deref_slow_path t p_obj s =
     (if p_obj = NULL then p_obj
      else
        let m = rmem s; p_obj_copy = GET_COPY m p_obj
        in if \<not> PTR_IS_LOCKED p_obj_copy then p_obj
           else if PTR_IS_COPY p_obj_copy then p_obj
           else
             let th_id = ws_thread_id (ws_hdr m (OBJ_COPY_TO_WS_H p_obj_copy))
             in if th_id = uniq_id (thr s t) then p_obj_copy
                else if is_steal (thr s t) \<and> writer_version (thr s th_id) \<le> local_version (thr s t)
                then p_obj_copy else p_obj)"

definition RLU_DEREF :: "nat \<Rightarrow> addr \<Rightarrow> rlu_sys \<Rightarrow> addr" where
  "RLU_DEREF t p_obj s =
     (if \<not> is_check_locks (thr s t) then p_obj
      else if p_obj \<noteq> NULL \<and> \<not> PTR_IS_LOCKED (GET_COPY (rmem s) p_obj) then p_obj
      else rlu_deref_slow_path t p_obj s)"

text \<open>\<open>env\<close> is what other threads do between the first look at the object and the CAS.\<close>

definition rlu_try_lock :: "(rlu_sys \<Rightarrow> rlu_sys) \<Rightarrow> nat \<Rightarrow> addr \<Rightarrow> u64 \<Rightarrow> rlu_sys \<Rightarrow> (bool \<times> addr \<times> rlu_sys) option" where
  "rlu_try_lock env t obj obj_size s =
     (let m = rmem s;
          p_obj = (if PTR_IS_COPY (GET_COPY m obj) then GET_ACTUAL m obj else obj);
          p_obj_copy = GET_COPY m p_obj
      in if PTR_IS_LOCKED p_obj_copy then
           let h = ws_hdr m (OBJ_COPY_TO_WS_H p_obj_copy)
           in if ws_thread_id h = uniq_id (thr s t) then
                if run_counter (thr s t) = ws_run_counter h then Some (True, p_obj_copy, s)
                else Some (False, obj, upd_thr t (\<lambda>self. self\<lparr>is_sync := is_sync self + 1\<rparr>) s)
              else Some (False, obj, upd_thr t (\<lambda>self. self\<lparr>is_sync := is_sync self + 1\<rparr>)
                     (rlu_send_sync_request (ws_thread_id h) s))
         else
           let s0 = upd_thr t (\<lambda>self. if \<not> rlu_write_detected self
                      then self\<lparr>rlu_write_detected := True, is_check_locks := True\<rparr> else self) s
           in Option.bind (rlu_add_ws_obj_header_to_write_set p_obj obj_size (thr s0 t) (rmem s0)) (\<lambda>(copy, self1, m1).
                let s1 = env (upd_thr t (\<lambda>_. self1) (s0\<lparr>rmem := m1\<rparr>));
                    (ok, m2) = TRY_CAS_PTR_OBJ_COPY p_obj copy (rmem s1)
                in if \<not> ok then Some (False, obj, s1)
                   else map_option (\<lambda>(self3, m3). (True, copy, upd_thr t (\<lambda>_. self3) (s1\<lparr>rmem := m3\<rparr>)))
                          (rlu_add_obj_copy_to_write_set p_obj obj_size (thr s1 t) m2)))"

definition rlu_lock :: "(rlu_sys \<Rightarrow> rlu_sys) \<Rightarrow> nat \<Rightarrow> addr \<Rightarrow> u32 \<Rightarrow> rlu_sys \<Rightarrow> (addr \<times> rlu_sys) option" where
  "rlu_lock env t obj obj_size s = map_option snd (rlu_try_lock env t obj (ucast obj_size) s)"

definition rlu_abort :: "(rlu_sys \<Rightarrow> rlu_sys) \<Rightarrow> nat \<Rightarrow> rlu_sys \<Rightarrow> rlu_sys option" where
  "rlu_abort env t s =
     (let s1 = rlu_unregister_thread t s
      in Option.bind
           (if rlu_write_detected (thr s1 t) then
              let s2 = upd_thr t (\<lambda>self. self\<lparr>rlu_write_detected := False\<rparr>) s1
              in map_option (\<lambda>m.
                   let s3 = s2\<lparr>rmem := m\<rparr>
                   in upd_thr t (\<lambda>self. rlu_reset_write_set (ws_tail_counter self) self)
                        (rlu_release_writer_locks t (ws_cur_id (thr s3 t)) s3))
                 (rlu_unlock_objs (to_int (ws_tail_counter (thr s2 t))) (thr s2 t) (rmem s2))
            else
              let s2 = rlu_release_writer_locks t (ws_cur_id (thr s1 t)) s1
              in Some (upd_thr t (rlu_reset_writer_locks (ws_cur_id (thr s2 t))) s2))
           (rlu_sync_checkpoint env t))"

definition rlu_cmp_ptrs :: "rlu_mem \<Rightarrow> addr \<Rightarrow> addr \<Rightarrow> bool" where
  "rlu_cmp_ptrs m p_obj_1 p_obj_2 =
     (let p1 = (if p_obj_1 \<noteq> NULL then FORCE_ACTUAL m p_obj_1 else p_obj_1);
          p2 = (if p_obj_2 \<noteq> NULL then FORCE_ACTUAL m p_obj_2 else p_obj_2)
      in p1 = p2)"

definition rlu_assign_pointer :: "rlu_mem \<Rightarrow> addr \<Rightarrow> addr" where
  "rlu_assign_pointer m p_obj = (if p_obj \<noteq> NULL then FORCE_ACTUAL m p_obj else p_obj)"

section \<open>Handles (rlu.hh)\<close>

definition rlu_handle_new :: "(nat \<Rightarrow> addr) \<Rightarrow> rlu_sys \<Rightarrow> (nat \<times> rlu_sys) option" where
  "rlu_handle_new buf s = rlu_thread_init buf s"

definition rlu_handle_delete :: "(rlu_sys \<Rightarrow> rlu_sys) \<Rightarrow> nat \<Rightarrow> rlu_sys \<Rightarrow> rlu_sys option" where
  "rlu_handle_delete env t s =
     map_option (\<lambda>s1. s1\<lparr>thread_freed := (thread_freed s1)(t := True)\<rparr>) (rlu_thread_finish env t s)"

definition handle_try_lock :: "(rlu_sys \<Rightarrow> rlu_sys) \<Rightarrow> nat \<Rightarrow> addr \<Rightarrow> u64 \<Rightarrow> rlu_sys \<Rightarrow> (bool \<times> addr \<times> rlu_sys) option" where
  "handle_try_lock env t obj obj_size s =
     (if obj = NULL then Some (True, obj, s) else rlu_try_lock env t obj obj_size s)"

text \<open>\<open>try_lock_const\<close> works on its own copy of the pointer.\<close>

definition handle_try_lock_const :: "(rlu_sys \<Rightarrow> rlu_sys) \<Rightarrow> nat \<Rightarrow> addr \<Rightarrow> u64 \<Rightarrow> rlu_sys \<Rightarrow> (bool \<times> rlu_sys) option" where
  "handle_try_lock_const env t obj obj_size s =
     (if obj = NULL then Some (True, s)
      else map_option (\<lambda>(ok, copy, s1). (ok, s1)) (rlu_try_lock env t obj obj_size s))"

definition deref_ptr :: "nat \<Rightarrow> addr \<Rightarrow> rlu_sys \<Rightarrow> addr" where
  "deref_ptr t p_obj s =
     (if \<not> is_check_locks (thr s t) then p_obj
      else if p_obj \<noteq> NULL \<and> \<not> PTR_IS_LOCKED (GET_COPY (rmem s) p_obj) then p_obj
      else rlu_deref_slow_path t p_obj s)"

end
