(* ===== verification/Rlu_Quiescence.thy ===== *)
theory Rlu_Quiescence
  imports Rlu
begin

text \<open>
  Waiting in RLU: what other threads may do to a thread's data, the waiting loop as an iteration of
  their steps, and that a synchronising writer returns once every section that it has to wait for
  has ended or has started late enough to read the new versions.
\<close>

section \<open>Threads and interference\<close>

lemma upd_thr_same [simp]: "g_rlu_threads (upd_thr t f s) t = map_option f (g_rlu_threads s t)"
  by (simp add: upd_thr_def)

lemma upd_thr_other [simp]: "u \<noteq> t \<Longrightarrow> g_rlu_threads (upd_thr t f s) u = g_rlu_threads s u"
  by (simp add: upd_thr_def)

lemma upd_thr_frame [frame_simps, simp]:
  "rmem (upd_thr t f s) = rmem s" "g_rlu_cur_threads (upd_thr t f s) = g_rlu_cur_threads s"
  "thread_freed (upd_thr t f s) = thread_freed s"
  "g_rlu_writer_version (upd_thr t f s) = g_rlu_writer_version s"
  "g_rlu_commit_version (upd_thr t f s) = g_rlu_commit_version s"
  "g_rlu_writer_locks (upd_thr t f s) = g_rlu_writer_locks s"
  by (simp_all add: upd_thr_def)

lemma thr_Some [simp]: "g_rlu_threads s t = Some self \<Longrightarrow> thr s t = self"
  by (simp add: thr_def)

lemma rlu_release_writer_locks_frame [frame_simps, simp]:
  "g_rlu_threads (rlu_release_writer_locks t ws_id s) = g_rlu_threads s"
  "rmem (rlu_release_writer_locks t ws_id s) = rmem s"
proof -
  have "g_rlu_threads (fold rlu_release_writer_lock ids s) = g_rlu_threads s \<and>
        rmem (fold rlu_release_writer_lock ids s) = rmem s" for ids
    by (induction ids arbitrary: s) (simp_all add: rlu_release_writer_lock_def)
  then show "g_rlu_threads (rlu_release_writer_locks t ws_id s) = g_rlu_threads s"
    "rmem (rlu_release_writer_locks t ws_id s) = rmem s"
    by (simp_all add: rlu_release_writer_locks_def)
qed

text \<open>What the other threads may do to the data of thread \<open>t\<close>: send it sync requests.\<close>

definition keeps_thread :: "nat \<Rightarrow> (rlu_sys \<Rightarrow> rlu_sys) \<Rightarrow> bool" where
  "keeps_thread t env \<longleftrightarrow>
     (\<forall>s self. g_rlu_threads s t = Some self \<longrightarrow> (\<exists>k. g_rlu_threads (env s) t = Some (self\<lparr>is_sync := k\<rparr>)))"

section \<open>The waiting loop\<close>

definition waits :: "nat \<Rightarrow> int \<Rightarrow> nat \<Rightarrow> rlu_sys \<Rightarrow> bool" where
  "waits t v th s \<longleftrightarrow>
     is_wait (q_threads (thr s t) th) \<and> \<not> thread_freed s th \<and> \<not> thread_passed v (thr s t) th s"

definition wait_end :: "nat \<Rightarrow> nat \<Rightarrow> rlu_sys \<Rightarrow> rlu_sys option" where
  "wait_end t th s =
     (if \<not> is_wait (q_threads (thr s t) th) then Some s
      else if thread_freed s th then None else Some (upd_thr t (clear_wait th) s))"

lemma wait_for_thread_step:
  "wait_for_thread env t v th s =
     (if waits t v th s then wait_for_thread env t v th (env s) else wait_end t th s)"
  by (subst wait_for_thread.simps) (simp add: waits_def wait_end_def)

lemma wait_for_thread_iterate:
  assumes "\<And>j. j < k \<Longrightarrow> waits t v th ((env ^^ j) s)" and "\<not> waits t v th ((env ^^ k) s)"
  shows "wait_for_thread env t v th s = wait_end t th ((env ^^ k) s)"
  using assms
proof (induction k arbitrary: s)
  case (Suc k)
  have "waits t v th s" using Suc.prems(1) [of 0] by simp
  moreover have "wait_for_thread env t v th (env s) = wait_end t th ((env ^^ k) (env s))"
  proof (rule Suc.IH)
    show "waits t v th ((env ^^ j) (env s))" if "j < k" for j
      using Suc.prems(1) [of "Suc j"] that by (simp add: funpow_swap1)
    show "\<not> waits t v th ((env ^^ k) (env s))" using Suc.prems(2) by (simp add: funpow_swap1)
  qed
  ultimately show ?case by (simp add: wait_for_thread_step funpow_swap1)
qed (simp add: wait_for_thread_step)

text \<open>A loop that returns stopped after some number of turns.\<close>

lemma wait_for_thread_Some:
  assumes ret: "wait_for_thread env t v th s = Some s'"
  shows "\<exists>k. \<not> waits t v th ((env ^^ k) s) \<and> wait_end t th ((env ^^ k) s) = Some s'"
proof (rule wait_for_thread.raw_induct [where P = "\<lambda>env t v th s s'.
    \<exists>k. \<not> waits t v th ((env ^^ k) s) \<and> wait_end t th ((env ^^ k) s) = Some s'", OF _ ret])
  fix f :: "(rlu_sys \<Rightarrow> rlu_sys) \<Rightarrow> nat \<Rightarrow> int \<Rightarrow> nat \<Rightarrow> rlu_sys \<Rightarrow> rlu_sys option"
    and env t v th s s'
  assume IH: "\<And>env t v th s s'. f env t v th s = Some s' \<Longrightarrow>
      \<exists>k. \<not> waits t v th ((env ^^ k) s) \<and> wait_end t th ((env ^^ k) s) = Some s'"
    and eq: "(if \<not> is_wait (q_threads (thr s t) th) then Some s
      else if thread_freed s th then None
      else if thread_passed v (thr s t) th s then Some (upd_thr t (clear_wait th) s)
      else f env t v th (env s)) = Some s'"
  show "\<exists>k. \<not> waits t v th ((env ^^ k) s) \<and> wait_end t th ((env ^^ k) s) = Some s'"
  proof (cases "waits t v th s")
    case True
    with eq have "f env t v th (env s) = Some s'" by (auto simp: waits_def)
    from IH [OF this] obtain k where
      "\<not> waits t v th ((env ^^ k) (env s)) \<and> wait_end t th ((env ^^ k) (env s)) = Some s'" by blast
    then show ?thesis by (intro exI [of _ "Suc k"]) (simp add: funpow_swap1)
  next
    case False
    with eq show ?thesis
      by (intro exI [of _ 0]) (auto simp: waits_def wait_end_def split: if_splits)
  qed
qed

lemma iterate_keeps_thread:
  assumes "keeps_thread t env" and "g_rlu_threads s t = Some self"
  shows "\<exists>k. g_rlu_threads ((env ^^ n) s) t = Some (self\<lparr>is_sync := k\<rparr>)"
proof (induction n)
  case 0
  show ?case using assms(2) by (auto intro: exI [of _ "is_sync self"])
next
  case (Suc n)
  then obtain k where "g_rlu_threads ((env ^^ n) s) t = Some (self\<lparr>is_sync := k\<rparr>)" by blast
  with assms(1) show ?case by (fastforce simp: keeps_thread_def)
qed

lemma wait_for_threads_preserves:
  assumes env: "\<And>s. P s \<Longrightarrow> P (env s)" and clear: "\<And>s th. P s \<Longrightarrow> P (upd_thr t (clear_wait th) s)"
    and "P s" "wait_for_threads env t v ths s = Some s'"
  shows "P s'"
  using assms(3,4)
proof (induction ths arbitrary: s)
  case (Cons th ths)
  then obtain s1 where s1: "wait_for_thread env t v th s = Some s1" "wait_for_threads env t v ths s1 = Some s'"
    by (auto split: Option.bind_splits)
  obtain n where n: "wait_end t th ((env ^^ n) s) = Some s1" using wait_for_thread_Some [OF s1(1)] by blast
  have "P ((env ^^ n) s)" using Cons.prems(1) env by (induction n) auto
  with n clear have "P s1" by (auto simp: wait_end_def split: if_splits)
  with Cons.IH s1(2) show ?case by blast
qed simp

lemma keeps_thread_chain:
  assumes "keeps_thread t env" "\<exists>k q. g_rlu_threads s t = Some (self\<lparr>is_sync := k, q_threads := q\<rparr>)"
  shows "\<exists>k q. g_rlu_threads (env s) t = Some (self\<lparr>is_sync := k, q_threads := q\<rparr>)"
    and "\<exists>k q. g_rlu_threads (upd_thr t (clear_wait th) s) t = Some (self\<lparr>is_sync := k, q_threads := q\<rparr>)"
proof -
  obtain k q where kq: "g_rlu_threads s t = Some (self\<lparr>is_sync := k, q_threads := q\<rparr>)" using assms(2) by blast
  then obtain j where "g_rlu_threads (env s) t = Some (self\<lparr>is_sync := k, q_threads := q, is_sync := j\<rparr>)"
    using assms(1) unfolding keeps_thread_def by blast
  then have "g_rlu_threads (env s) t = Some (self\<lparr>is_sync := j, q_threads := q\<rparr>)" by simp
  then show "\<exists>k q. g_rlu_threads (env s) t = Some (self\<lparr>is_sync := k, q_threads := q\<rparr>)" by blast
  show "\<exists>k q. g_rlu_threads (upd_thr t (clear_wait th) s) t = Some (self\<lparr>is_sync := k, q_threads := q\<rparr>)"
    using kq by (auto simp: clear_wait_def)
qed

lemma wait_for_threads_keeps:
  assumes "keeps_thread t env" "g_rlu_threads s t = Some self" "wait_for_threads env t v ths s = Some s'"
  shows "\<exists>k q. g_rlu_threads s' t = Some (self\<lparr>is_sync := k, q_threads := q\<rparr>)"
proof (rule wait_for_threads_preserves [OF _ _ _ assms(3)])
  have "g_rlu_threads s t = Some (self\<lparr>is_sync := is_sync self, q_threads := q_threads self\<rparr>)" using assms(2) by simp
  then show "\<exists>k q. g_rlu_threads s t = Some (self\<lparr>is_sync := k, q_threads := q\<rparr>)" by blast
qed (use keeps_thread_chain [OF assms(1)] in blast)+

definition init_entry :: "rlu_sys \<Rightarrow> nat \<Rightarrow> nat \<Rightarrow> wait_entry \<Rightarrow> wait_entry" where
  "init_entry s t th e =
     (case g_rlu_threads s th of
        Some other \<Rightarrow> if th = t then e\<lparr>is_wait := False\<rparr>
          else \<lparr>is_wait = odd (unat (run_counter other)), q_run_counter = run_counter other\<rparr>
      | None \<Rightarrow> e\<lparr>is_wait := False\<rparr>)"

lemma init_wait_entry:
  "init_wait s t th self = self\<lparr>q_threads := (q_threads self)(th := init_entry s t th (q_threads self th))\<rparr>"
  by (simp add: init_wait_def init_entry_def Let_def split: option.splits)

lemma init_wait_fold:
  "fold (init_wait s t) ths self =
     self\<lparr>q_threads := fold (\<lambda>th q. q(th := init_entry s t th (q th))) ths (q_threads self)\<rparr>"
  by (induction ths arbitrary: self) (simp_all add: init_wait_entry)

lemma rlu_synchronize_keeps:
  assumes "keeps_thread t env" "g_rlu_threads s t = Some self" "rlu_synchronize env t s = Some s'"
  shows "\<exists>k q. g_rlu_threads s' t = Some (self\<lparr>is_sync := k, q_threads := q\<rparr>)"
proof (cases "is_no_quiescence self")
  case True
  with assms(2,3) show ?thesis
    by (auto simp: rlu_synchronize_def intro!: exI [of _ "is_sync self"] exI [of _ "q_threads self"])
next
  case False
  obtain q where q: "fold (init_wait s t) [0..<g_rlu_cur_threads s] self = self\<lparr>q_threads := q\<rparr>"
    by (simp add: init_wait_fold)
  let ?s1 = "upd_thr t (fold (init_wait s t) [0..<g_rlu_cur_threads s]) s"
  have s1: "g_rlu_threads ?s1 t = Some (self\<lparr>q_threads := q\<rparr>)" using assms(2) q by simp
  have "wait_for_threads env t (writer_version self) [0..<g_rlu_cur_threads s] ?s1 = Some s'"
    using assms(2,3) False s1
    by (auto simp: rlu_synchronize_def rlu_init_quiescence_def rlu_wait_for_quiescence_def split: if_splits)
  from wait_for_threads_keeps [OF assms(1) s1 this] show ?thesis by auto
qed

section \<open>Quiescence\<close>

text \<open>
  Thread \<open>th\<close> is out of the way of a writer with version \<open>v\<close>: it has left the section it was in
  at run counter \<open>rc\<close>, or it started after the writer published its version.
\<close>

definition passed :: "u64 \<Rightarrow> int \<Rightarrow> nat \<Rightarrow> rlu_sys \<Rightarrow> bool" where
  "passed rc v th s \<longleftrightarrow> rc \<noteq> run_counter (thr s th) \<or> (v \<noteq> 0 \<and> local_version (thr s th) \<ge> v)"

text \<open>
  What the waiting thread relies on: the others do not forget that they passed, do not unregister
  and are not freed, and each of them passes after some number of steps.
\<close>

definition quiesces :: "nat \<Rightarrow> int \<Rightarrow> (rlu_sys \<Rightarrow> rlu_sys) \<Rightarrow> bool" where
  "quiesces t v env \<longleftrightarrow> keeps_thread t env \<and>
     (\<forall>s. g_rlu_cur_threads s \<le> g_rlu_cur_threads (env s)) \<and>
     (\<forall>s th. g_rlu_threads s th \<noteq> None \<longrightarrow> g_rlu_threads (env s) th \<noteq> None) \<and>
     (\<forall>s th. \<not> thread_freed s th \<longrightarrow> \<not> thread_freed (env s) th) \<and>
     (\<forall>s th rc. odd (unat rc) \<longrightarrow> passed rc v th s \<longrightarrow> passed rc v th (env s)) \<and>
     (\<forall>s th rc. odd (unat rc) \<longrightarrow> th \<noteq> t \<longrightarrow> g_rlu_threads s th \<noteq> None \<longrightarrow>
        (\<exists>k. passed rc v th ((env ^^ k) s)))"

lemma iterate_rely:
  assumes "quiesces t v env"
  shows "g_rlu_threads s th \<noteq> None \<Longrightarrow> g_rlu_threads ((env ^^ n) s) th \<noteq> None"
    and "\<not> thread_freed s th \<Longrightarrow> \<not> thread_freed ((env ^^ n) s) th"
    and "odd (unat rc) \<Longrightarrow> passed rc v th s \<Longrightarrow> passed rc v th ((env ^^ n) s)"
  using assms by (induction n) (auto simp: quiesces_def)

lemma passed_upd_thr [simp]: "u \<noteq> th \<Longrightarrow> passed rc v th (upd_thr u f s) = passed rc v th s"
  by (simp add: passed_def thr_def)

lemma thread_passed_iff:
  "thread_passed v self th s \<longleftrightarrow> passed (q_run_counter (q_threads self th)) v th s"
  by (simp add: thread_passed_def passed_def)

text \<open>The bookkeeping of the waiting thread: what it waits for are sections, of threads that exist.\<close>

definition wait_ok :: "nat \<Rightarrow> rlu_sys \<Rightarrow> nat list \<Rightarrow> (nat \<Rightarrow> wait_entry) \<Rightarrow> bool" where
  "wait_ok t s ths q \<longleftrightarrow> (\<forall>th \<in> set ths. is_wait (q th) \<longrightarrow>
     th \<noteq> t \<and> g_rlu_threads s th \<noteq> None \<and> \<not> thread_freed s th \<and> odd (unat (q_run_counter (q th))))"

lemma wait_for_thread_returns:
  assumes env: "quiesces t v env" and self: "g_rlu_threads s t = Some self"
    and ok: "wait_ok t s [th] (q_threads self)"
  shows "\<exists>n s' k. wait_for_thread env t v th s = Some s' \<and>
    (is_wait (q_threads self th) \<longrightarrow> passed (q_run_counter (q_threads self th)) v th s') \<and>
    g_rlu_threads s' t = Some (self\<lparr>is_sync := k, q_threads := (q_threads self)(th := (q_threads self th)\<lparr>is_wait := False\<rparr>)\<rparr>) \<and>
    (s' = (env ^^ n) s \<or> s' = upd_thr t (clear_wait th) ((env ^^ n) s))"
proof (cases "is_wait (q_threads self th)")
  case False
  then have q: "(q_threads self)(th := (q_threads self th)\<lparr>is_wait := False\<rparr>) = q_threads self" by (auto simp: fun_eq_iff)
  have "wait_for_thread env t v th s = Some s"
    using self False by (simp add: wait_for_thread_step waits_def wait_end_def)
  moreover have "g_rlu_threads s t = Some (self\<lparr>is_sync := is_sync self, q_threads := q_threads self\<rparr>)" using self by simp
  ultimately show ?thesis using False unfolding q
    by (intro exI [of _ 0] exI [of _ s] exI [of _ "is_sync self"]) simp
next
  case True
  let ?rc = "q_run_counter (q_threads self th)"
  have ok': "th \<noteq> t" "g_rlu_threads s th \<noteq> None" "\<not> thread_freed s th" "odd (unat ?rc)"
    using ok True by (auto simp: wait_ok_def)
  have keeps: "keeps_thread t env" using env by (simp add: quiesces_def)
  have waits: "waits t v th ((env ^^ j) s) \<longleftrightarrow> \<not> passed ?rc v th ((env ^^ j) s)" for j
    using iterate_keeps_thread [OF keeps self, of j] True iterate_rely(2) [OF env ok'(3)]
    by (auto simp: waits_def thread_passed_iff)
  have "\<exists>k. passed ?rc v th ((env ^^ k) s)" using env ok' by (auto simp: quiesces_def)
  then obtain n where n: "passed ?rc v th ((env ^^ n) s)" "\<And>j. j < n \<Longrightarrow> \<not> passed ?rc v th ((env ^^ j) s)"
    using exists_least_iff [of "\<lambda>k. passed ?rc v th ((env ^^ k) s)"] by blast
  obtain k where k: "g_rlu_threads ((env ^^ n) s) t = Some (self\<lparr>is_sync := k\<rparr>)"
    using iterate_keeps_thread [OF keeps self] by blast
  have "wait_for_thread env t v th s = wait_end t th ((env ^^ n) s)"
    by (rule wait_for_thread_iterate) (use waits n in auto)
  also have "\<dots> = Some (upd_thr t (clear_wait th) ((env ^^ n) s))"
    using k True iterate_rely(2) [OF env ok'(3)] by (simp add: wait_end_def)
  finally show ?thesis using n(1) k ok'(1)
    by (intro exI [of _ n] exI [of _ "upd_thr t (clear_wait th) ((env ^^ n) s)"] exI [of _ k])
      (simp add: clear_wait_def)
qed

lemma wait_for_threads_returns:
  assumes env: "quiesces t v env" and "g_rlu_threads s t = Some self"
    and "wait_ok t s ths (q_threads self)" and "distinct ths"
  shows "\<exists>s'. wait_for_threads env t v ths s = Some s' \<and>
    (\<forall>th \<in> set ths. is_wait (q_threads self th) \<longrightarrow> passed (q_run_counter (q_threads self th)) v th s') \<and>
    (\<forall>th rc. th \<noteq> t \<longrightarrow> odd (unat rc) \<longrightarrow> passed rc v th s \<longrightarrow> passed rc v th s')"
  using assms(2-4)
proof (induction ths arbitrary: s self)
  case (Cons th ths)
  have "wait_ok t s [th] (q_threads self)" using Cons.prems(2) by (auto simp: wait_ok_def)
  from wait_for_thread_returns [OF env Cons.prems(1) this] obtain n s1 k where
    s1: "wait_for_thread env t v th s = Some s1"
      "is_wait (q_threads self th) \<longrightarrow> passed (q_run_counter (q_threads self th)) v th s1"
      "g_rlu_threads s1 t = Some (self\<lparr>is_sync := k, q_threads := (q_threads self)(th := (q_threads self th)\<lparr>is_wait := False\<rparr>)\<rparr>)"
      "s1 = (env ^^ n) s \<or> s1 = upd_thr t (clear_wait th) ((env ^^ n) s)" by blast
  have keep: "passed rc v u s \<Longrightarrow> passed rc v u s1" if "u \<noteq> t" "odd (unat rc)" for rc u
    using s1(4) iterate_rely(3) [OF env that(2), of u s n] that(1) by auto
  have alive: "g_rlu_threads s u \<noteq> None \<Longrightarrow> g_rlu_threads s1 u \<noteq> None"
    "\<not> thread_freed s u \<Longrightarrow> \<not> thread_freed s1 u" for u
    using s1(4) iterate_rely(1,2) [OF env, of s u n] by (cases "u = t"; auto)+
  have "wait_ok t s1 ths ((q_threads self)(th := (q_threads self th)\<lparr>is_wait := False\<rparr>))"
    using Cons.prems(2,3) alive unfolding wait_ok_def by auto
  with Cons.IH [OF s1(3)] Cons.prems(3) obtain s' where s':
    "wait_for_threads env t v ths s1 = Some s'"
    "\<forall>u \<in> set ths. u \<noteq> th \<longrightarrow> is_wait (q_threads self u) \<longrightarrow> passed (q_run_counter (q_threads self u)) v u s'"
    "\<forall>u rc. u \<noteq> t \<longrightarrow> odd (unat rc) \<longrightarrow> passed rc v u s1 \<longrightarrow> passed rc v u s'" by fastforce
  have "is_wait (q_threads self th) \<longrightarrow> passed (q_run_counter (q_threads self th)) v th s'"
    using s1(2) s'(3) Cons.prems(2) by (auto simp: wait_ok_def)
  then show ?case using s1(1) s' keep Cons.prems(3) by auto
qed simp

lemma fold_init_entry:
  "distinct ths \<Longrightarrow> fold (\<lambda>th q. q(th := init_entry s t th (q th))) ths q th =
     (if th \<in> set ths then init_entry s t th (q th) else q th)"
  by (induction ths arbitrary: q) auto

lemma rlu_synchronize_returns:
  assumes env: "quiesces t (writer_version self) env" and self: "g_rlu_threads s t = Some self"
    and nq: "\<not> is_no_quiescence self"
    and alive: "\<forall>th < g_rlu_cur_threads s. g_rlu_threads s th \<noteq> None \<longrightarrow> \<not> thread_freed s th"
  shows "\<exists>s'. rlu_synchronize env t s = Some s' \<and>
    (\<forall>th < g_rlu_cur_threads s. th \<noteq> t \<longrightarrow> g_rlu_threads s th \<noteq> None \<longrightarrow> odd (unat (run_counter (thr s th))) \<longrightarrow>
       passed (run_counter (thr s th)) (writer_version self) th s') \<and>
    (\<forall>th rc. th \<noteq> t \<longrightarrow> odd (unat rc) \<longrightarrow> passed rc (writer_version self) th s \<longrightarrow> passed rc (writer_version self) th s')"
proof -
  let ?ths = "[0..<g_rlu_cur_threads s]"
  let ?self = "fold (init_wait s t) ?ths self"
  let ?s1 = "upd_thr t (fold (init_wait s t) ?ths) s"
  have init: "rlu_init_quiescence t s = Some ?s1" using alive by (auto simp: rlu_init_quiescence_def)
  have s1: "g_rlu_threads ?s1 t = Some ?self" using self by simp
  have ver: "writer_version ?self = writer_version self" by (simp add: init_wait_fold)
  have q: "q_threads ?self th = init_entry s t th (q_threads self th)" if "th < g_rlu_cur_threads s" for th
    using that by (simp add: init_wait_fold fold_init_entry)
  have entry: "th \<noteq> t \<and> g_rlu_threads s th \<noteq> None \<and> odd (unat (q_run_counter (init_entry s t th e)))"
    if "is_wait (init_entry s t th e)" for th e
    using that by (auto simp: init_entry_def split: option.splits if_splits)
  have "wait_ok t ?s1 ?ths (q_threads ?self)"
    using alive entry by (auto simp: wait_ok_def q)
  from wait_for_threads_returns [OF env s1 this] obtain s' where
    s': "wait_for_threads env t (writer_version self) ?ths ?s1 = Some s'"
      "\<forall>th \<in> set ?ths. is_wait (q_threads ?self th) \<longrightarrow>
         passed (q_run_counter (q_threads ?self th)) (writer_version self) th s'"
      "\<forall>th rc. th \<noteq> t \<longrightarrow> odd (unat rc) \<longrightarrow> passed rc (writer_version self) th ?s1 \<longrightarrow>
         passed rc (writer_version self) th s'" by auto
  have "rlu_synchronize env t s = Some s'"
    using self nq init s1 s'(1) ver by (simp add: rlu_synchronize_def rlu_wait_for_quiescence_def)
  moreover have "passed (run_counter (thr s th)) (writer_version self) th s'"
    if th: "th < g_rlu_cur_threads s" "th \<noteq> t" "g_rlu_threads s th \<noteq> None" "odd (unat (run_counter (thr s th)))" for th
  proof -
    have "init_entry s t th (q_threads self th) = \<lparr>is_wait = True, q_run_counter = run_counter (thr s th)\<rparr>"
      using th by (auto simp: init_entry_def)
    with bspec [OF s'(2), of th] q [OF th(1)] th(1) show ?thesis by simp
  qed
  ultimately show ?thesis using s'(3) by auto
qed

end
