(* ===== verification/Rlu_Write_Set.thy ===== *)
theory Rlu_Write_Set
  imports Rlu_Quiescence
begin

text \<open>
  The ring of write sets of an RLU thread: its invariant through commits and write-backs, that a
  commit always moves on to an empty write set, and what writing back or rolling back a write set
  does to the objects in it.
\<close>

section \<open>The ring of write sets\<close>

text \<open>
  Write sets are named by counters, kept in slot \<open>counter mod 200\<close>.  Those from \<open>head\<close> to \<open>wb\<close>
  have been written back but may still be read; those from \<open>wb\<close> to \<open>tail\<close> are waiting to be
  written back; \<open>tail\<close> is the one being filled.
\<close>

definition ring_inv :: "rlu_thread_data \<Rightarrow> bool" where
  "ring_inv self \<longleftrightarrow>
     ws_head_counter self \<le> ws_wb_counter self \<and> ws_wb_counter self \<le> ws_tail_counter self \<and>
     ws_tail_counter self - ws_head_counter self < RLU_MAX_WRITE_SETS \<and>
     int (ws_tail_counter self) - int (ws_wb_counter self) < max_write_sets self \<and>
     1 \<le> max_write_sets self \<and> max_write_sets self * 2 \<le> int RLU_MAX_WRITE_SETS \<and>
     ws_cur_id self = WS_INDEX (ws_tail_counter self)"

text \<open>What holds also in the middle of a commit, when \<open>tail\<close> has just moved.\<close>

definition ring_weak :: "rlu_thread_data \<Rightarrow> bool" where
  "ring_weak self \<longleftrightarrow>
     ws_head_counter self \<le> ws_wb_counter self \<and> ws_wb_counter self \<le> ws_tail_counter self \<and>
     ws_tail_counter self - ws_head_counter self \<le> RLU_MAX_WRITE_SETS"

definition ws_empty :: "obj_list \<Rightarrow> bool" where
  "ws_empty w \<longleftrightarrow> num_of_objs w = 0 \<and> p_cur w = ol_buffer w \<and> writer_locks w = []"

definition emptied :: "obj_list \<Rightarrow> obj_list" where
  "emptied w = w\<lparr>num_of_objs := 0, p_cur := ol_buffer w, writer_locks := []\<rparr>"

text \<open>Every slot that holds no write set of the ring is empty.\<close>

definition slots_clean :: "rlu_thread_data \<Rightarrow> bool" where
  "slots_clean self \<longleftrightarrow> (\<forall>i < RLU_MAX_WRITE_SETS.
     i \<notin> WS_INDEX ` {ws_head_counter self..ws_tail_counter self} \<longrightarrow> ws_empty (obj_write_set self i))"

lemma emptied_empty [simp]: "ws_empty (emptied w)"
  by (simp add: emptied_def ws_empty_def)

lemma WS_INDEX_less [simp]: "WS_INDEX c < RLU_MAX_WRITE_SETS"
  by (simp add: WS_INDEX_def RLU_MAX_WRITE_SETS_def)

lemma WS_INDEX_eq_iff:
  assumes "a \<le> b" "b - a < RLU_MAX_WRITE_SETS"
  shows "WS_INDEX a = WS_INDEX b \<longleftrightarrow> a = b"
proof
  assume "WS_INDEX a = WS_INDEX b"
  then have "b mod RLU_MAX_WRITE_SETS = a mod RLU_MAX_WRITE_SETS" by (simp add: WS_INDEX_def)
  then have "RLU_MAX_WRITE_SETS dvd b - a" using assms(1) by (simp add: mod_eq_dvd_iff_nat)
  then show "a = b" using assms nat_dvd_not_less [of "b - a" RLU_MAX_WRITE_SETS] by linarith
qed simp

lemma rlu_reset_write_set_emptied:
  "rlu_reset_write_set c self =
     self\<lparr>obj_write_set := (obj_write_set self)(WS_INDEX c := emptied (obj_write_set self (WS_INDEX c)))\<rparr>"
  by (simp add: rlu_reset_write_set_def rlu_reset_writer_locks_def rlu_upd_ws_def emptied_def Let_def)

lemma emptied_idem [simp]: "emptied (emptied w) = emptied w"
  by (simp add: emptied_def)

lemma fold_reset_write_set:
  "fold rlu_reset_write_set cs self =
     self\<lparr>obj_write_set := (\<lambda>i. if i \<in> WS_INDEX ` set cs then emptied (obj_write_set self i) else obj_write_set self i)\<rparr>"
  by (induction cs arbitrary: self) (auto simp: rlu_reset_write_set_emptied fun_eq_iff)

text \<open>What writing back does to the ring.\<close>

definition ring_synced :: "rlu_thread_data \<Rightarrow> rlu_thread_data \<Rightarrow> bool" where
  "ring_synced self self' \<longleftrightarrow>
     ws_head_counter self' = ws_wb_counter self \<and> ws_wb_counter self' = ws_tail_counter self \<and>
     ws_tail_counter self' = ws_tail_counter self \<and> ws_cur_id self' = ws_cur_id self \<and>
     max_write_sets self' = max_write_sets self \<and> rlu_write_detected self' = rlu_write_detected self \<and>
     obj_write_set self' = (\<lambda>i. if i \<in> WS_INDEX ` {ws_head_counter self..<ws_wb_counter self}
       then emptied (obj_write_set self i) else obj_write_set self i)"

lemma rlu_sync_and_writeback_ring:
  assumes keeps: "keeps_thread t env" and self: "g_rlu_threads s t = Some self"
    and ret: "rlu_sync_and_writeback env t s = Some s'"
    and ne: "ws_tail_counter self \<noteq> ws_head_counter self"
  shows "\<exists>self'. g_rlu_threads s' t = Some self' \<and> ring_synced self self'"
proof -
  let ?self1 = "self\<lparr>writer_version := g_rlu_writer_version s + 1\<rparr>"
  let ?s1 = "upd_thr t (\<lambda>self. self\<lparr>writer_version := g_rlu_writer_version s + 1\<rparr>) s"
  have s1: "g_rlu_threads ?s1 t = Some ?self1" using self by simp
  obtain j where j: "g_rlu_threads (env ?s1) t = Some (?self1\<lparr>is_sync := j\<rparr>)"
    using keeps s1 unfolding keeps_thread_def by blast
  let ?s2 = "(env ?s1)\<lparr>g_rlu_writer_version := g_rlu_writer_version (env ?s1) + 1\<rparr>"
  have s2: "g_rlu_threads ?s2 t = Some (?self1\<lparr>is_sync := j\<rparr>)" using j by simp
  obtain s3 where s3: "rlu_synchronize env t ?s2 = Some s3"
    and s': "s' = rlu_process_free t (upd_thr t (\<lambda>self. self\<lparr>is_sync := 0\<rparr>)
      ((upd_thr t (\<lambda>self. self\<lparr>writer_version := RLU_MAX_VERSION\<rparr>) (rlu_writeback_sys t s3))
        \<lparr>g_rlu_commit_version := g_rlu_commit_version (upd_thr t (\<lambda>self. self\<lparr>writer_version := RLU_MAX_VERSION\<rparr>)
           (rlu_writeback_sys t s3)) + 1\<rparr>))"
    using ret self ne unfolding rlu_sync_and_writeback_def Let_def by (auto split: if_splits)
  obtain k q where s3t: "g_rlu_threads s3 t = Some (?self1\<lparr>is_sync := j, is_sync := k, q_threads := q\<rparr>)"
    using rlu_synchronize_keeps [OF keeps s2 s3] by blast
  show ?thesis
    by (simp add: s' rlu_process_free_def rlu_writeback_sys_def rlu_writeback_write_sets_and_unlock_def
        s3t fold_reset_write_set ring_synced_def Let_def cong: if_cong)
qed

lemma ring_synced_inv:
  assumes "ring_synced self self'" "ws_wb_counter self \<le> ws_tail_counter self"
    and "ws_head_counter self \<le> ws_wb_counter self"
    and "int (ws_tail_counter self) - int (ws_wb_counter self) \<le> max_write_sets self"
    and "1 \<le> max_write_sets self" "max_write_sets self * 2 \<le> int RLU_MAX_WRITE_SETS"
    and "ws_cur_id self = WS_INDEX (ws_tail_counter self)"
  shows "ring_inv self'"
  using assms by (auto simp: ring_synced_def ring_inv_def RLU_MAX_WRITE_SETS_def)

lemma ring_synced_clean:
  assumes sy: "ring_synced self self'" and clean: "slots_clean self"
    and le: "ws_head_counter self \<le> ws_wb_counter self" "ws_wb_counter self \<le> ws_tail_counter self"
  shows "slots_clean self'"
  unfolding slots_clean_def
proof (intro allI impI)
  fix i assume i: "i < RLU_MAX_WRITE_SETS" "i \<notin> WS_INDEX ` {ws_head_counter self'..ws_tail_counter self'}"
  show "ws_empty (obj_write_set self' i)"
  proof (cases "i \<in> WS_INDEX ` {ws_head_counter self..<ws_wb_counter self}")
    case True
    then show ?thesis using sy by (simp add: ring_synced_def)
  next
    case False
    have "{ws_head_counter self..ws_tail_counter self} =
        {ws_head_counter self..<ws_wb_counter self} \<union> {ws_wb_counter self..ws_tail_counter self}"
      using le by auto
    with False i sy have "i \<notin> WS_INDEX ` {ws_head_counter self..ws_tail_counter self}"
      by (auto simp: ring_synced_def image_Un)
    with clean i False sy show ?thesis by (auto simp: ring_synced_def slots_clean_def)
  qed
qed

lemma rlu_sync_and_writeback_inv:
  assumes "keeps_thread t env" "g_rlu_threads s t = Some self" "rlu_sync_and_writeback env t s = Some s'"
    and "ring_inv self" "slots_clean self" "ws_empty (obj_write_set self (ws_cur_id self))"
  shows "\<exists>self'. g_rlu_threads s' t = Some self' \<and> ring_inv self' \<and> slots_clean self' \<and>
    ws_empty (obj_write_set self' (ws_cur_id self')) \<and> ws_tail_counter self' = ws_tail_counter self"
proof (cases "ws_tail_counter self = ws_head_counter self")
  case True
  with assms show ?thesis by (simp add: rlu_sync_and_writeback_def)
next
  case False
  then obtain self' where self': "g_rlu_threads s' t = Some self'" "ring_synced self self'"
    using rlu_sync_and_writeback_ring [OF assms(1-3)] by blast
  have "ring_inv self'" by (rule ring_synced_inv [OF self'(2)]) (use assms(4) in \<open>auto simp: ring_inv_def\<close>)
  moreover have "slots_clean self'"
    by (rule ring_synced_clean [OF self'(2) assms(5)]) (use assms(4) in \<open>auto simp: ring_inv_def\<close>)
  ultimately show ?thesis using self' assms(6) by (auto simp: ring_synced_def)
qed

definition next_ws :: "rlu_thread_data \<Rightarrow> rlu_thread_data" where
  "next_ws self = self\<lparr>ws_tail_counter := ws_tail_counter self + 1,
     ws_cur_id := WS_INDEX (ws_tail_counter self + 1)\<rparr>"

definition must_sync :: "rlu_thread_data \<Rightarrow> bool" where
  "must_sync self \<longleftrightarrow> WS_INDEX (ws_tail_counter self) = WS_INDEX (ws_head_counter self) \<or>
     int (ws_tail_counter self) - int (ws_wb_counter self) \<ge> max_write_sets self"

lemma rlu_commit_write_set_next:
  "g_rlu_threads s t = Some self \<Longrightarrow> rlu_commit_write_set env t s =
     (if must_sync (next_ws self) then rlu_sync_and_writeback env t (upd_thr t next_ws s) else Some (upd_thr t next_ws s))"
  by (simp add: rlu_commit_write_set_def must_sync_def next_ws_def [abs_def] Let_def)

lemma ring_weakI:
  "ring_inv self \<Longrightarrow> ring_weak self" "ring_inv self \<Longrightarrow> ring_weak (next_ws self)"
  by (auto simp: ring_inv_def ring_weak_def next_ws_def)

lemma WS_INDEX_image:
  assumes "b - a < RLU_MAX_WRITE_SETS"
  shows "WS_INDEX b \<notin> WS_INDEX ` {a..<b}"
proof
  assume "WS_INDEX b \<in> WS_INDEX ` {a..<b}"
  then obtain c where "a \<le> c" "c < b" "WS_INDEX c = WS_INDEX b" by auto
  then show False using WS_INDEX_eq_iff [of c b] assms by simp
qed

lemma next_ws_clean: "slots_clean self \<Longrightarrow> slots_clean (next_ws self)"
  by (auto simp: slots_clean_def next_ws_def image_def)

lemma next_ws_fresh:
  assumes "ring_inv self"
  shows "WS_INDEX (Suc (ws_tail_counter self)) \<notin> WS_INDEX ` {Suc (ws_head_counter self)..<Suc (ws_tail_counter self)}"
  by (rule WS_INDEX_image) (use assms in \<open>auto simp: ring_inv_def RLU_MAX_WRITE_SETS_def\<close>)

lemma next_ws_nosync:
  assumes inv: "ring_inv self" and clean: "slots_clean self" and no: "\<not> must_sync (next_ws self)"
  shows "ring_inv (next_ws self)" "ws_empty (obj_write_set self (WS_INDEX (Suc (ws_tail_counter self))))"
proof -
  have ne: "WS_INDEX (Suc (ws_tail_counter self)) \<noteq> WS_INDEX (ws_head_counter self)"
    using no by (simp add: must_sync_def next_ws_def)
  have "ws_tail_counter self + 1 - ws_head_counter self \<noteq> RLU_MAX_WRITE_SETS"
  proof
    assume "ws_tail_counter self + 1 - ws_head_counter self = RLU_MAX_WRITE_SETS"
    then have "Suc (ws_tail_counter self) = ws_head_counter self + RLU_MAX_WRITE_SETS"
      using inv by (auto simp: ring_inv_def)
    with ne show False by (simp add: WS_INDEX_def)
  qed
  then show "ring_inv (next_ws self)"
    using inv no by (auto simp: ring_inv_def must_sync_def next_ws_def)
  have "{ws_head_counter self..ws_tail_counter self} =
      insert (ws_head_counter self) {Suc (ws_head_counter self)..<Suc (ws_tail_counter self)}"
    using inv by (auto simp: ring_inv_def)
  with next_ws_fresh [OF inv] ne
  have "WS_INDEX (Suc (ws_tail_counter self)) \<notin> WS_INDEX ` {ws_head_counter self..ws_tail_counter self}"
    by auto
  with clean show "ws_empty (obj_write_set self (WS_INDEX (Suc (ws_tail_counter self))))"
    by (simp add: slots_clean_def)
qed

lemma next_ws_synced:
  assumes inv: "ring_inv self" and clean: "slots_clean self" and sy: "ring_synced (next_ws self) self'"
  shows "ring_inv self'" "slots_clean self'" "ws_empty (obj_write_set self' (ws_cur_id self'))"
proof -
  show "ring_inv self'"
    by (rule ring_synced_inv [OF sy]) (use inv in \<open>auto simp: ring_inv_def next_ws_def\<close>)
  show "slots_clean self'"
    by (rule ring_synced_clean [OF sy next_ws_clean [OF clean]])
      (use inv in \<open>auto simp: ring_inv_def next_ws_def\<close>)
  let ?i = "WS_INDEX (Suc (ws_tail_counter self))"
  have i: "?i \<notin> WS_INDEX ` {ws_wb_counter self..<Suc (ws_tail_counter self)}"
    by (rule WS_INDEX_image) (use inv in \<open>auto simp: ring_inv_def RLU_MAX_WRITE_SETS_def\<close>)
  have "{ws_head_counter self..ws_tail_counter self} =
      {ws_head_counter self..<ws_wb_counter self} \<union> {ws_wb_counter self..<Suc (ws_tail_counter self)}"
    using inv by (auto simp: ring_inv_def)
  with i have "?i \<notin> WS_INDEX ` {ws_head_counter self..<ws_wb_counter self} \<Longrightarrow>
      ?i \<notin> WS_INDEX ` {ws_head_counter self..ws_tail_counter self}" by (simp add: image_Un)
  with clean sy show "ws_empty (obj_write_set self' (ws_cur_id self'))"
    by (auto simp: ring_synced_def next_ws_def slots_clean_def)
qed

lemma rlu_commit_write_set_inv:
  assumes keeps: "keeps_thread t env" and self: "g_rlu_threads s t = Some self"
    and inv: "ring_inv self" and clean: "slots_clean self"
    and ret: "rlu_commit_write_set env t s = Some s'"
  shows "\<exists>self'. g_rlu_threads s' t = Some self' \<and> ring_inv self' \<and> slots_clean self' \<and>
    ws_empty (obj_write_set self' (ws_cur_id self')) \<and> ws_tail_counter self' = Suc (ws_tail_counter self)"
proof (cases "must_sync (next_ws self)")
  case False
  note n = next_ws_nosync [OF inv clean False]
  have "g_rlu_threads s' t = Some (next_ws self)"
    using ret False self by (auto simp: rlu_commit_write_set_next)
  with n next_ws_clean [OF clean] show ?thesis by (auto simp: next_ws_def)
next
  case True
  have s1: "g_rlu_threads (upd_thr t next_ws s) t = Some (next_ws self)" using self by simp
  have ret1: "rlu_sync_and_writeback env t (upd_thr t next_ws s) = Some s'"
    using ret True self by (simp add: rlu_commit_write_set_next)
  have "ws_tail_counter (next_ws self) \<noteq> ws_head_counter (next_ws self)"
    using inv by (simp add: next_ws_def ring_inv_def)
  from rlu_sync_and_writeback_ring [OF keeps s1 ret1 this] obtain self' where
    self': "g_rlu_threads s' t = Some self'" "ring_synced (next_ws self) self'" by blast
  have "ws_tail_counter self' = Suc (ws_tail_counter self)"
    using self'(2) by (simp add: ring_synced_def next_ws_def)
  with self'(1) next_ws_synced [OF inv clean self'(2)] show ?thesis by blast
qed

lemma ring_inv_asserts:
  assumes "ring_inv self"
  shows "ws_head_counter self \<le> ws_tail_counter self"
    and "ws_head_counter self < ws_tail_counter self \<Longrightarrow> WS_INDEX (ws_tail_counter self) \<noteq> WS_INDEX (ws_head_counter self)"
  using assms WS_INDEX_eq_iff [of "ws_head_counter self" "ws_tail_counter self"] by (auto simp: ring_inv_def)

lemma rlu_sync_checkpoint_inv:
  assumes "keeps_thread t env" "g_rlu_threads s t = Some self" "rlu_sync_checkpoint env t s = Some s'"
    and "ring_inv self" "slots_clean self" "ws_empty (obj_write_set self (ws_cur_id self))"
  shows "\<exists>self'. g_rlu_threads s' t = Some self' \<and> ring_inv self' \<and> slots_clean self' \<and>
    ws_empty (obj_write_set self' (ws_cur_id self')) \<and> ws_tail_counter self' = ws_tail_counter self"
  using assms rlu_sync_and_writeback_inv [OF assms(1,2) _ assms(4-6)]
  by (auto simp: rlu_sync_checkpoint_def split: if_splits)

text \<open>What a section leaves behind: an empty write set, unless it has locked an object.\<close>

definition section_ok :: "rlu_thread_data \<Rightarrow> bool" where
  "section_ok self \<longleftrightarrow> ring_inv self \<and> slots_clean self \<and>
     (rlu_write_detected self \<or>
      num_of_objs (obj_write_set self (ws_cur_id self)) = 0 \<and>
      p_cur (obj_write_set self (ws_cur_id self)) = ol_buffer (obj_write_set self (ws_cur_id self)))"

lemma rlu_reader_unlock_inv:
  assumes keeps: "keeps_thread t env" and self: "g_rlu_threads s t = Some self"
    and ok: "section_ok self" and ret: "rlu_reader_unlock env t s = Some s'"
  shows "\<exists>self'. g_rlu_threads s' t = Some self' \<and> ring_inv self' \<and> slots_clean self' \<and>
    ws_empty (obj_write_set self' (ws_cur_id self')) \<and>
    ws_tail_counter self' = ws_tail_counter self + (if rlu_write_detected self then 1 else 0)"
proof -
  have fin: ?thesis
    if "g_rlu_threads s2 t = Some self2" "ring_inv self2" "slots_clean self2"
      "ws_empty (obj_write_set self2 (ws_cur_id self2))" "rlu_sync_checkpoint env t s2 = Some s'"
      "ws_tail_counter self2 = ws_tail_counter self + (if rlu_write_detected self then 1 else 0)" for s2 self2
    using rlu_sync_checkpoint_inv [OF keeps that(1,5,2,3,4)] that(6) by auto
  show ?thesis
  proof (cases "rlu_write_detected self")
    case True
    let ?self1 = "self\<lparr>run_counter := run_counter self + 1, rlu_write_detected := False\<rparr>"
    let ?s1 = "upd_thr t (\<lambda>self. self\<lparr>rlu_write_detected := False\<rparr>) (rlu_unregister_thread t s)"
    have s1: "g_rlu_threads ?s1 t = Some ?self1" using self by (simp add: rlu_unregister_thread_def)
    have inv1: "ring_inv ?self1" "slots_clean ?self1"
      using ok by (simp_all add: section_ok_def ring_inv_def slots_clean_def)
    obtain s2 where s2: "rlu_commit_write_set env t ?s1 = Some s2"
      "rlu_sync_checkpoint env t (rlu_release_writer_locks t (WS_INDEX (ws_tail_counter (thr s2 t) - 1)) s2) = Some s'"
      using ret True self
      by (auto simp: rlu_reader_unlock_def Let_def rlu_unregister_thread_def split: Option.bind_splits)
    from rlu_commit_write_set_inv [OF keeps s1 inv1 s2(1)] obtain self2 where
      "g_rlu_threads s2 t = Some self2" "ring_inv self2" "slots_clean self2"
      "ws_empty (obj_write_set self2 (ws_cur_id self2))" "ws_tail_counter self2 = Suc (ws_tail_counter self)"
      by auto
    with fin [OF _ _ _ _ s2(2)] True show ?thesis by simp
  next
    case False
    let ?self1 = "rlu_reset_writer_locks (ws_cur_id self) (self\<lparr>run_counter := run_counter self + 1\<rparr>)"
    let ?s2 = "upd_thr t (rlu_reset_writer_locks (ws_cur_id self))
      (rlu_release_writer_locks t (ws_cur_id self) (rlu_unregister_thread t s))"
    have s2: "g_rlu_threads ?s2 t = Some ?self1" "rlu_sync_checkpoint env t ?s2 = Some s'"
      using ret False self by (auto simp: rlu_reader_unlock_def Let_def rlu_unregister_thread_def)
    have "ring_inv ?self1"
      using ok by (simp add: section_ok_def ring_inv_def rlu_reset_writer_locks_def rlu_upd_ws_def)
    moreover have "slots_clean ?self1"
      using ok by (auto simp: section_ok_def slots_clean_def rlu_reset_writer_locks_def rlu_upd_ws_def ws_empty_def)
    moreover have "ws_empty (obj_write_set ?self1 (ws_cur_id ?self1))"
      using ok False by (simp add: section_ok_def rlu_reset_writer_locks_def rlu_upd_ws_def ws_empty_def)
    moreover have "ws_tail_counter ?self1 = ws_tail_counter self"
      by (simp add: rlu_reset_writer_locks_def rlu_upd_ws_def)
    ultimately show ?thesis using fin [OF s2(1) _ _ _ s2(2)] False by simp
  qed
qed

section \<open>The objects of a write set\<close>

text \<open>The objects of a buffer in the order of their headers: original, copy, size.\<close>

fun ws_objs :: "(addr \<Rightarrow> rlu_ws_obj_header) \<Rightarrow> nat \<Rightarrow> addr \<Rightarrow> (addr \<times> addr \<times> u64) list" where
  "ws_objs H 0 cur = []"
| "ws_objs H (Suc n) cur =
     (let h = H cur; copy = cur + WS_OBJ_HEADER_SIZE + OBJ_HEADER_SIZE
      in (p_obj_actual h, copy, ws_obj_size h) # ws_objs H n (copy + ALIGN_OBJ_SIZE (ws_obj_size h)))"

definition write_set_objs :: "rlu_mem \<Rightarrow> obj_list \<Rightarrow> (addr \<times> addr \<times> u64) list" where
  "write_set_objs m w = ws_objs (ws_hdr m) (num_of_objs w) (ol_buffer w)"

abbreviation originals :: "(addr \<times> addr \<times> u64) list \<Rightarrow> addr set" where
  "originals es \<equiv> fst ` set es"

abbreviation copy_addrs :: "(addr \<times> addr \<times> u64) list \<Rightarrow> addr set" where
  "copy_addrs es \<equiv> (fst \<circ> snd) ` set es"

text \<open>Different entries lock different objects, and no object is a copy.\<close>

definition objs_ok :: "(addr \<times> addr \<times> u64) list \<Rightarrow> bool" where
  "objs_ok es \<longleftrightarrow> distinct (map fst es) \<and> originals es \<inter> copy_addrs es = {}"

definition written_back :: "rlu_mem \<Rightarrow> addr \<Rightarrow> addr \<Rightarrow> u64 \<Rightarrow> u8 list" where
  "written_back m a c n = take (unat n) (bytes m c) @ drop (unat n) (bytes m a)"

lemma mem_frame [frame_simps, simp]:
  "ws_hdr (UNLOCK p m) = ws_hdr m" "bytes (UNLOCK p m) = bytes m" "allocated (UNLOCK p m) = allocated m"
  "ws_hdr (rlu_memcpy d a n m) = ws_hdr m" "hdr_copy (rlu_memcpy d a n m) = hdr_copy m"
  "allocated (rlu_memcpy d a n m) = allocated m"
  by (simp_all add: UNLOCK_def SET_COPY_def rlu_memcpy_def)

lemma OBJ_TO_H_inj [simp]: "OBJ_TO_H p = OBJ_TO_H q \<longleftrightarrow> p = q"
  by (simp add: OBJ_TO_H_def)

lemma GET_COPY_UNLOCK [simp]: "GET_COPY (UNLOCK p m) q = (if q = p then NULL else GET_COPY m q)"
  by (simp add: GET_COPY_def UNLOCK_def SET_COPY_def)

lemma GET_COPY_memcpy [simp]: "GET_COPY (rlu_memcpy d a n m) q = GET_COPY m q"
  by (simp add: GET_COPY_def)

lemma bytes_memcpy: "bytes (rlu_memcpy d a n m) p = (if p = d then written_back m d a n else bytes m p)"
  by (simp add: rlu_memcpy_def written_back_def)

text \<open>
  What writing back the entries \<open>es\<close> means: each original has the bytes of its copy and is
  unlocked, and no other object changes.
\<close>

definition wb_effect :: "(addr \<times> addr \<times> u64) list \<Rightarrow> rlu_mem \<Rightarrow> rlu_mem \<Rightarrow> bool" where
  "wb_effect es m m' \<longleftrightarrow> ws_hdr m' = ws_hdr m \<and>
     (\<forall>p. p \<notin> originals es \<longrightarrow> bytes m' p = bytes m p \<and> GET_COPY m' p = GET_COPY m p) \<and>
     (\<forall>(a, c, k) \<in> set es. bytes m' a = written_back m a c k \<and> GET_COPY m' a = NULL)"

lemma wb_effect_Nil [simp]: "wb_effect [] m m"
  by (simp add: wb_effect_def)

lemma wb_effect_one: "wb_effect [(a, c, k)] m (UNLOCK a (rlu_memcpy a c k m))"
  by (simp add: wb_effect_def bytes_memcpy)

lemma objs_ok_append:
  "objs_ok (es1 @ es2) \<longleftrightarrow> objs_ok es1 \<and> objs_ok es2 \<and> originals es1 \<inter> originals es2 = {} \<and>
     originals es1 \<inter> copy_addrs es2 = {} \<and> originals es2 \<inter> copy_addrs es1 = {}"
  by (auto simp: objs_ok_def image_Un)

lemma wb_effect_append:
  assumes e1: "wb_effect es1 m m1" and e2: "wb_effect es2 m1 m2" and ok: "objs_ok (es1 @ es2)"
  shows "wb_effect (es1 @ es2) m m2"
proof -
  have out: "bytes m2 p = bytes m p \<and> GET_COPY m2 p = GET_COPY m p" if "p \<notin> originals (es1 @ es2)" for p
  proof -
    have "p \<notin> originals es1" "p \<notin> originals es2" using that by auto
    then show ?thesis using e1 e2 by (simp add: wb_effect_def)
  qed
  have first: "bytes m2 a = written_back m a c k \<and> GET_COPY m2 a = NULL" if "(a, c, k) \<in> set es1" for a c k
  proof -
    have "a \<in> originals es1" using that by (rule image_eqI [rotated]) simp
    then have "a \<notin> originals es2" using ok unfolding objs_ok_append by blast
    then have "bytes m2 a = bytes m1 a" "GET_COPY m2 a = GET_COPY m1 a" using e2 by (simp_all add: wb_effect_def)
    moreover have "bytes m1 a = written_back m a c k" "GET_COPY m1 a = NULL" using e1 that by (auto simp: wb_effect_def)
    ultimately show ?thesis by simp
  qed
  have second: "bytes m2 a = written_back m a c k \<and> GET_COPY m2 a = NULL" if "(a, c, k) \<in> set es2" for a c k
  proof -
    have "a \<in> originals es2" "c \<in> copy_addrs es2" using that by (auto intro: image_eqI [rotated])
    then have "a \<notin> originals es1" "c \<notin> originals es1" using ok unfolding objs_ok_append by blast+
    then have "written_back m1 a c k = written_back m a c k" using e1 by (simp add: wb_effect_def written_back_def)
    moreover have "bytes m2 a = written_back m1 a c k" "GET_COPY m2 a = NULL" using e2 that by (auto simp: wb_effect_def)
    ultimately show ?thesis by simp
  qed
  have "ws_hdr m2 = ws_hdr m" using e1 e2 by (simp add: wb_effect_def)
  moreover have "\<forall>(a, c, k) \<in> set (es1 @ es2). bytes m2 a = written_back m a c k \<and> GET_COPY m2 a = NULL"
    using first second by auto
  ultimately show ?thesis using out unfolding wb_effect_def by blast
qed

lemma writeback_objs_effect:
  "objs_ok (ws_objs (ws_hdr m) n cur) \<Longrightarrow> wb_effect (ws_objs (ws_hdr m) n cur) m (writeback_objs n cur m)"
proof (induction n cur m rule: writeback_objs.induct)
  case (2 n cur m)
  let ?h = "ws_hdr m cur"
  let ?c = "cur + WS_OBJ_HEADER_SIZE + OBJ_HEADER_SIZE"
  let ?e = "(p_obj_actual ?h, ?c, ws_obj_size ?h)"
  let ?m1 = "UNLOCK (p_obj_actual ?h) (rlu_memcpy (p_obj_actual ?h) ?c (ws_obj_size ?h) m)"
  let ?es = "ws_objs (ws_hdr m) n (?c + ALIGN_OBJ_SIZE (ws_obj_size ?h))"
  have es: "ws_objs (ws_hdr m) (Suc n) cur = [?e] @ ?es" by (simp add: Let_def)
  have "objs_ok ?es" using "2.prems" unfolding es objs_ok_append by blast
  with "2.IH" [OF refl refl refl] have "wb_effect ?es ?m1 (writeback_objs (Suc n) cur m)" by (simp add: Let_def)
  with wb_effect_append [OF wb_effect_one] "2.prems" show ?case unfolding es by blast
qed simp

lemma fold_writeback_effect:
  assumes "objs_ok (concat (map (\<lambda>c. write_set_objs m (obj_write_set self (WS_INDEX c))) cs))"
  shows "wb_effect (concat (map (\<lambda>c. write_set_objs m (obj_write_set self (WS_INDEX c))) cs)) m
    (fold (\<lambda>c. rlu_writeback_write_set c self) cs m)"
  using assms
proof (induction cs arbitrary: m)
  case (Cons c cs)
  let ?f = "\<lambda>m c. write_set_objs m (obj_write_set self (WS_INDEX c))"
  let ?m1 = "rlu_writeback_write_set c self m"
  have ok: "objs_ok (?f m c)" "objs_ok (concat (map (?f m) cs))" using Cons.prems by (simp_all add: objs_ok_append)
  have e1: "wb_effect (?f m c) m ?m1"
    using writeback_objs_effect ok(1) by (simp add: rlu_writeback_write_set_def write_set_objs_def Let_def)
  then have same: "?f ?m1 = ?f m" by (simp add: wb_effect_def write_set_objs_def)
  have "wb_effect (concat (map (?f m) cs)) ?m1 (fold (\<lambda>c. rlu_writeback_write_set c self) cs ?m1)"
    using Cons.IH [of ?m1] ok(2) unfolding same by blast
  from wb_effect_append [OF e1 this] Cons.prems show ?case by simp
qed simp

text \<open>The objects whose new versions wait to be written back.\<close>

definition pending_objs :: "rlu_mem \<Rightarrow> rlu_thread_data \<Rightarrow> (addr \<times> addr \<times> u64) list" where
  "pending_objs m self = concat (map (\<lambda>c. write_set_objs m (obj_write_set self (WS_INDEX c)))
     [ws_wb_counter self..<ws_tail_counter self])"

lemma rlu_writeback_write_sets_effect:
  assumes inv: "ring_weak self" and ok: "objs_ok (pending_objs m self)"
    and wb: "rlu_writeback_write_sets_and_unlock self m = (n, self', m')"
  shows "wb_effect (pending_objs m self) m m'"
    and "n = ws_tail_counter self - ws_wb_counter self" and "pending_objs m' self' = []"
proof -
  let ?self2 = "(fold rlu_reset_write_set [ws_head_counter self..<ws_wb_counter self] self)
    \<lparr>ws_head_counter := ws_wb_counter self\<rparr>"
  have slot: "obj_write_set ?self2 (WS_INDEX c) = obj_write_set self (WS_INDEX c)"
    if "c \<in> set [ws_wb_counter self..<ws_tail_counter self]" for c
  proof -
    have "WS_INDEX c \<notin> WS_INDEX ` {ws_head_counter self..<ws_wb_counter self}"
    proof -
      have "c - ws_head_counter self < RLU_MAX_WRITE_SETS" "{ws_head_counter self..<ws_wb_counter self} \<subseteq> {ws_head_counter self..<c}"
        using that inv by (auto simp: ring_weak_def)
      with WS_INDEX_image show ?thesis by blast
    qed
    then show ?thesis by (simp add: fold_reset_write_set)
  qed
  have m': "m' = fold (\<lambda>c. rlu_writeback_write_set c ?self2) [ws_wb_counter self..<ws_tail_counter self] m"
    using wb by (simp add: rlu_writeback_write_sets_and_unlock_def fold_reset_write_set Let_def)
  have es: "concat (map (\<lambda>c. write_set_objs m (obj_write_set ?self2 (WS_INDEX c)))
      [ws_wb_counter self..<ws_tail_counter self]) = pending_objs m self"
    unfolding pending_objs_def by (rule arg_cong [where f = concat], rule map_cong [OF refl]) (simp only: slot)
  show "wb_effect (pending_objs m self) m m'"
    using fold_writeback_effect [of m ?self2 "[ws_wb_counter self..<ws_tail_counter self]"] ok
    unfolding es m' by blast
  show "n = ws_tail_counter self - ws_wb_counter self" "pending_objs m' self' = []"
    using wb by (auto simp: rlu_writeback_write_sets_and_unlock_def fold_reset_write_set pending_objs_def Let_def)
qed

section \<open>Rolling back\<close>

lemma unlock_objs_effect:
  "bytes (unlock_objs n cur m) = bytes m" "ws_hdr (unlock_objs n cur m) = ws_hdr m"
  "GET_COPY (unlock_objs n cur m) p = (if p \<in> originals (ws_objs (ws_hdr m) n cur) then NULL else GET_COPY m p)"
  by (induction n cur m rule: unlock_objs.induct) (auto simp: Let_def)

lemma to_int_small: "n < 2 ^ 31 \<Longrightarrow> to_int n = int n"
  unfolding to_int_def signed_of_nat of_int_eq_id id_apply
  by (rule signed_take_bit_int_eq_self) simp_all

lemma WS_INDEX_int_small: "n < 2 ^ 31 \<Longrightarrow> WS_INDEX_int (to_int n) = Some (WS_INDEX n)"
  by (simp add: WS_INDEX_int_def to_int_small)

end
