(* ===== verification/Rlu_Section.thy ===== *)
theory Rlu_Section
  imports Rlu_Write_Set
begin

text \<open>
  Sections of RLU: publishing a version, waiting and writing back as one operation;
  dereferencing, locking and aborting.
\<close>

section \<open>Synchronising and writing back\<close>

text \<open>The pending objects with the bytes of the original and of the copy.\<close>

definition pend_view :: "nat \<Rightarrow> rlu_sys \<Rightarrow> (addr \<times> addr \<times> u64 \<times> u8 list \<times> u8 list) list" where
  "pend_view t s = map (\<lambda>(a, c, k). (a, c, k, bytes (rmem s) a, bytes (rmem s) c)) (pending_objs (rmem s) (thr s t))"

text \<open>Other threads leave alone what thread \<open>t\<close> has locked, and its copies.\<close>

definition keeps_pending :: "nat \<Rightarrow> (rlu_sys \<Rightarrow> rlu_sys) \<Rightarrow> bool" where
  "keeps_pending t env \<longleftrightarrow> (\<forall>s. g_rlu_threads s t \<noteq> None \<longrightarrow> pend_view t (env s) = pend_view t s)"

lemma pend_view_cong:
  assumes "rmem s' = rmem s" "g_rlu_threads s t = Some self" "g_rlu_threads s' t = Some self'"
    and "obj_write_set self' = obj_write_set self" "ws_wb_counter self' = ws_wb_counter self"
    and "ws_tail_counter self' = ws_tail_counter self"
  shows "pend_view t s' = pend_view t s"
  using assms by (simp add: pend_view_def pending_objs_def)

lemma pend_view_objs:
  assumes "pend_view t s' = pend_view t s"
  shows "pending_objs (rmem s') (thr s' t) = pending_objs (rmem s) (thr s t)"
    and "(a, c, k) \<in> set (pending_objs (rmem s) (thr s t)) \<Longrightarrow>
      bytes (rmem s') a = bytes (rmem s) a \<and> bytes (rmem s') c = bytes (rmem s) c"
proof -
  have "map (\<lambda>(a, c, k, x, y). (a, c, k)) (pend_view t s') = map (\<lambda>(a, c, k, x, y). (a, c, k)) (pend_view t s)"
    using assms by simp
  then show eq: "pending_objs (rmem s') (thr s' t) = pending_objs (rmem s) (thr s t)"
    by (simp add: pend_view_def comp_def case_prod_unfold)
  assume "(a, c, k) \<in> set (pending_objs (rmem s) (thr s t))"
  then show "bytes (rmem s') a = bytes (rmem s) a \<and> bytes (rmem s') c = bytes (rmem s) c"
    using assms unfolding pend_view_def eq by auto
qed

lemma rlu_synchronize_keeps_pending:
  assumes keeps: "keeps_thread t env" "keeps_pending t env" and self: "g_rlu_threads s t = Some self"
    and nq: "\<not> is_no_quiescence self" and ret: "rlu_synchronize env t s = Some s'"
  shows "pend_view t s' = pend_view t s"
proof -
  let ?ths = "[0..<g_rlu_cur_threads s]"
  let ?s1 = "upd_thr t (fold (init_wait s t) ?ths) s"
  let ?P = "\<lambda>x. (\<exists>k q. g_rlu_threads x t = Some (self\<lparr>is_sync := k, q_threads := q\<rparr>)) \<and> pend_view t x = pend_view t s"
  have wait: "wait_for_threads env t (writer_version (thr ?s1 t)) ?ths ?s1 = Some s'"
    using ret self nq by (auto simp: rlu_synchronize_def rlu_init_quiescence_def rlu_wait_for_quiescence_def split: if_splits)
  have s1: "g_rlu_threads ?s1 t = Some (self\<lparr>is_sync := is_sync self,
      q_threads := fold (\<lambda>th q. q(th := init_entry s t th (q th))) ?ths (q_threads self)\<rparr>)"
    using self by (simp add: init_wait_fold)
  have "pend_view t ?s1 = pend_view t s" by (rule pend_view_cong [OF _ self s1]) simp_all
  with s1 have P1: "?P ?s1" by blast
  have "?P s'"
  proof (rule wait_for_threads_preserves [where P = ?P, OF _ _ P1 wait])
    show "?P (env x)" if "?P x" for x
      using that keeps_thread_chain(1) [OF keeps(1)] keeps(2) unfolding keeps_pending_def by force
    show "?P (upd_thr t (clear_wait th) x)" if P: "?P x" for x th
    proof -
      obtain k q where x: "g_rlu_threads x t = Some (self\<lparr>is_sync := k, q_threads := q\<rparr>)" using P by blast
      have "pend_view t (upd_thr t (clear_wait th) x) = pend_view t x"
        by (rule pend_view_cong [OF _ x, where self' = "clear_wait th (self\<lparr>is_sync := k, q_threads := q\<rparr>)"])
          (simp_all add: x clear_wait_def)
      with P keeps_thread_chain(2) [OF keeps(1) conjunct1 [OF P]] show ?thesis by simp
    qed
  qed
  then show ?thesis by blast
qed

text \<open>The two halves of \<open>rlu_sync_and_writeback\<close>, before and after it waits.\<close>

definition publish :: "(rlu_sys \<Rightarrow> rlu_sys) \<Rightarrow> nat \<Rightarrow> rlu_sys \<Rightarrow> rlu_sys" where
  "publish env t s =
     (let s1 = env (upd_thr t (\<lambda>self. self\<lparr>writer_version := g_rlu_writer_version s + 1\<rparr>) s)
      in s1\<lparr>g_rlu_writer_version := g_rlu_writer_version s1 + 1\<rparr>)"

definition finish_sync :: "nat \<Rightarrow> rlu_sys \<Rightarrow> rlu_sys" where
  "finish_sync t s =
     (let s4 = upd_thr t (\<lambda>self. self\<lparr>writer_version := RLU_MAX_VERSION\<rparr>) (rlu_writeback_sys t s)
      in rlu_process_free t (upd_thr t (\<lambda>self. self\<lparr>is_sync := 0\<rparr>)
           (s4\<lparr>g_rlu_commit_version := g_rlu_commit_version s4 + 1\<rparr>)))"

lemma rlu_sync_and_writeback_halves:
  "ws_tail_counter (thr s t) \<noteq> ws_head_counter (thr s t) \<Longrightarrow>
   rlu_sync_and_writeback env t s = map_option (finish_sync t) (rlu_synchronize env t (publish env t s))"
  by (simp add: rlu_sync_and_writeback_def publish_def finish_sync_def [abs_def] Let_def)

lemma publish_facts:
  assumes env: "quiesces t (g_rlu_writer_version s + 1) env" and kp: "keeps_pending t env"
    and self: "g_rlu_threads s t = Some self"
  shows "\<exists>j. g_rlu_threads (publish env t s) t = Some (self\<lparr>writer_version := g_rlu_writer_version s + 1, is_sync := j\<rparr>)"
    and "pend_view t (publish env t s) = pend_view t s"
    and "th \<noteq> t \<Longrightarrow> odd (unat rc) \<Longrightarrow> passed rc (g_rlu_writer_version s + 1) th s \<Longrightarrow>
      passed rc (g_rlu_writer_version s + 1) th (publish env t s)"
    and "\<not> thread_freed s th \<Longrightarrow> \<not> thread_freed (publish env t s) th"
    and "g_rlu_cur_threads s \<le> g_rlu_cur_threads (publish env t s)"
    and "g_rlu_threads s th \<noteq> None \<Longrightarrow> g_rlu_threads (publish env t s) th \<noteq> None"
proof -
  let ?s1 = "upd_thr t (\<lambda>self. self\<lparr>writer_version := g_rlu_writer_version s + 1\<rparr>) s"
  have p: "g_rlu_threads (publish env t s) = g_rlu_threads (env ?s1)" "rmem (publish env t s) = rmem (env ?s1)"
    "thread_freed (publish env t s) = thread_freed (env ?s1)"
    "g_rlu_cur_threads (publish env t s) = g_rlu_cur_threads (env ?s1)"
    by (simp_all add: publish_def Let_def)
  have s1: "g_rlu_threads ?s1 t = Some (self\<lparr>writer_version := g_rlu_writer_version s + 1\<rparr>)" using self by simp
  then show t: "\<exists>j. g_rlu_threads (publish env t s) t = Some (self\<lparr>writer_version := g_rlu_writer_version s + 1, is_sync := j\<rparr>)"
    using env unfolding p quiesces_def keeps_thread_def by blast
  have "pend_view t (publish env t s) = pend_view t (env ?s1)" using p by (simp add: pend_view_def thr_def)
  also have "\<dots> = pend_view t ?s1" using kp self unfolding keeps_pending_def by simp
  also have "\<dots> = pend_view t s" by (rule pend_view_cong [OF _ self s1]) simp_all
  finally show "pend_view t (publish env t s) = pend_view t s" .
  show "passed rc (g_rlu_writer_version s + 1) th (publish env t s)"
    if "th \<noteq> t" "odd (unat rc)" "passed rc (g_rlu_writer_version s + 1) th s"
  proof -
    have "passed rc (g_rlu_writer_version s + 1) th (env ?s1)" using env that by (simp add: quiesces_def)
    then show ?thesis by (simp add: passed_def thr_def p)
  qed
  show "\<not> thread_freed s th \<Longrightarrow> \<not> thread_freed (publish env t s) th"
    using env by (simp add: p quiesces_def)
  have "g_rlu_cur_threads ?s1 \<le> g_rlu_cur_threads (env ?s1)" using env unfolding quiesces_def by blast
  then show "g_rlu_cur_threads s \<le> g_rlu_cur_threads (publish env t s)" by (simp add: p)
  have "g_rlu_threads s th \<noteq> None \<Longrightarrow> g_rlu_threads ?s1 th \<noteq> None" by (cases "th = t") simp_all
  then show "g_rlu_threads s th \<noteq> None \<Longrightarrow> g_rlu_threads (publish env t s) th \<noteq> None"
    using env unfolding p quiesces_def by blast
qed

lemma process_free_mem:
  "bytes (rmem (rlu_process_free t s)) = bytes (rmem s)" "hdr_copy (rmem (rlu_process_free t s)) = hdr_copy (rmem s)"
proof -
  have "bytes (fold (\<lambda>p m. m\<lparr>allocated := (allocated m)(OBJ_TO_H p := False)\<rparr>) ps m) = bytes m \<and>
      hdr_copy (fold (\<lambda>p m. m\<lparr>allocated := (allocated m)(OBJ_TO_H p := False)\<rparr>) ps m) = hdr_copy m" for ps and m :: rlu_mem
    by (induction ps arbitrary: m) simp_all
  then show "bytes (rmem (rlu_process_free t s)) = bytes (rmem s)" "hdr_copy (rmem (rlu_process_free t s)) = hdr_copy (rmem s)"
    by (simp_all add: rlu_process_free_def)
qed

lemma finish_sync_facts:
  assumes self: "g_rlu_threads s t = Some self" and inv: "ring_weak self" and ok: "objs_ok (pending_objs (rmem s) self)"
  shows "(a, c, k) \<in> set (pending_objs (rmem s) self) \<Longrightarrow>
      bytes (rmem (finish_sync t s)) a = written_back (rmem s) a c k \<and> GET_COPY (rmem (finish_sync t s)) a = NULL"
    and "pending_objs m (thr (finish_sync t s) t) = []"
    and "th \<noteq> t \<Longrightarrow> passed rc v th (finish_sync t s) = passed rc v th s"
proof -
  obtain n self4 m4 where wb: "rlu_writeback_write_sets_and_unlock self (rmem s) = (n, self4, m4)"
    by (cases "rlu_writeback_write_sets_and_unlock self (rmem s)") auto
  have m: "bytes (rmem (finish_sync t s)) = bytes m4" "hdr_copy (rmem (finish_sync t s)) = hdr_copy m4"
    using wb self by (simp_all add: finish_sync_def process_free_mem rlu_writeback_sys_def Let_def)
  show "(a, c, k) \<in> set (pending_objs (rmem s) self) \<Longrightarrow>
      bytes (rmem (finish_sync t s)) a = written_back (rmem s) a c k \<and> GET_COPY (rmem (finish_sync t s)) a = NULL"
    using rlu_writeback_write_sets_effect(1) [OF inv ok wb] m unfolding wb_effect_def GET_COPY_def by auto
  show "pending_objs m (thr (finish_sync t s) t) = []"
    using self by (simp add: finish_sync_def rlu_process_free_def rlu_writeback_sys_def pending_objs_def
      rlu_writeback_write_sets_and_unlock_def Let_def fold_reset_write_set)
  show "passed rc v th (finish_sync t s) = passed rc v th s" if "th \<noteq> t"
    using that wb self
    by (simp add: finish_sync_def rlu_process_free_def rlu_writeback_sys_def Let_def passed_def thr_def)
qed

lemma rlu_sync_and_writeback_returns:
  assumes env: "quiesces t (g_rlu_writer_version s + 1) env" and kp: "keeps_pending t env"
    and self: "g_rlu_threads s t = Some self" and inv: "ring_weak self"
    and ne: "ws_tail_counter self \<noteq> ws_head_counter self"
    and nq: "\<not> is_no_quiescence self" and alive: "\<forall>th. \<not> thread_freed s th"
    and ok: "objs_ok (pending_objs (rmem s) self)"
  shows "\<exists>s'. rlu_sync_and_writeback env t s = Some s' \<and>
    (\<forall>(a, c, k) \<in> set (pending_objs (rmem s) self).
       bytes (rmem s') a = written_back (rmem s) a c k \<and> GET_COPY (rmem s') a = NULL) \<and>
    (\<forall>th < g_rlu_cur_threads s. th \<noteq> t \<longrightarrow> g_rlu_threads s th \<noteq> None \<longrightarrow> odd (unat (run_counter (thr s th))) \<longrightarrow>
       passed (run_counter (thr s th)) (g_rlu_writer_version s + 1) th s') \<and>
    pending_objs (rmem s') (thr s' t) = []"
proof -
  let ?v = "g_rlu_writer_version s + 1" and ?s2 = "publish env t s"
  note pf = publish_facts [OF env kp self]
  obtain j where s2: "g_rlu_threads ?s2 t = Some (self\<lparr>writer_version := ?v, is_sync := j\<rparr>)" using pf(1) by blast
  let ?self2 = "self\<lparr>writer_version := ?v, is_sync := j\<rparr>"
  have keeps: "keeps_thread t env" using env by (simp add: quiesces_def)
  have env2: "quiesces t (writer_version ?self2) env" "\<not> is_no_quiescence ?self2" using env nq by simp_all
  have "\<forall>th < g_rlu_cur_threads ?s2. g_rlu_threads ?s2 th \<noteq> None \<longrightarrow> \<not> thread_freed ?s2 th"
    using alive pf(4) by blast
  from rlu_synchronize_returns [OF env2(1) s2 env2(2) this] obtain s3 where s3: "rlu_synchronize env t ?s2 = Some s3"
    "\<And>th. th < g_rlu_cur_threads ?s2 \<Longrightarrow> th \<noteq> t \<Longrightarrow> g_rlu_threads ?s2 th \<noteq> None \<Longrightarrow>
       odd (unat (run_counter (thr ?s2 th))) \<Longrightarrow> passed (run_counter (thr ?s2 th)) ?v th s3"
    "\<And>th rc. th \<noteq> t \<Longrightarrow> odd (unat rc) \<Longrightarrow> passed rc ?v th ?s2 \<Longrightarrow> passed rc ?v th s3" by auto
  obtain k q where s3t: "g_rlu_threads s3 t = Some (?self2\<lparr>is_sync := k, q_threads := q\<rparr>)"
    using rlu_synchronize_keeps [OF keeps s2 s3(1)] by blast
  let ?self3 = "?self2\<lparr>is_sync := k, q_threads := q\<rparr>"
  have view3: "pend_view t s3 = pend_view t s"
    using rlu_synchronize_keeps_pending [OF keeps kp s2 env2(2) s3(1)] pf(2) by simp
  have pend3: "pending_objs (rmem s3) ?self3 = pending_objs (rmem s) self"
    using pend_view_objs(1) [OF view3] self s3t by simp
  have inv3: "ring_weak ?self3" using inv by (simp add: ring_weak_def)
  note fin = finish_sync_facts [OF s3t inv3, unfolded pend3, OF ok]
  have "written_back (rmem s3) a c k = written_back (rmem s) a c k"
    if "(a, c, k) \<in> set (pending_objs (rmem s) self)" for a c k
    using pend_view_objs(2) [OF view3] that self by (simp add: written_back_def)
  then have "\<forall>(a, c, k) \<in> set (pending_objs (rmem s) self).
      bytes (rmem (finish_sync t s3)) a = written_back (rmem s) a c k \<and> GET_COPY (rmem (finish_sync t s3)) a = NULL"
    using fin(1) by auto
  moreover have "passed (run_counter (thr s th)) ?v th (finish_sync t s3)"
    if th: "th < g_rlu_cur_threads s" "th \<noteq> t" "g_rlu_threads s th \<noteq> None" "odd (unat (run_counter (thr s th)))" for th
  proof (cases "run_counter (thr ?s2 th) = run_counter (thr s th)")
    case True
    then show ?thesis using s3(2) [of th] th pf(5) pf(6) fin(3) [OF th(2)] by simp
  next
    case False
    then have "passed (run_counter (thr s th)) ?v th ?s2" by (simp add: passed_def)
    then show ?thesis using s3(3) th(2,4) fin(3) [OF th(2)] by blast
  qed
  moreover have "rlu_sync_and_writeback env t s = Some (finish_sync t s3)"
    using rlu_sync_and_writeback_halves [of s t env] s3(1) self ne by simp
  ultimately show ?thesis using fin(2) by blast
qed

section \<open>Waiting for nobody\<close>

text \<open>When every other thread is outside a section or has passed already, only the thread's own notes change.\<close>

definition set_q :: "nat \<Rightarrow> (nat \<Rightarrow> wait_entry) \<Rightarrow> rlu_sys \<Rightarrow> rlu_sys" where
  "set_q t q s = upd_thr t (\<lambda>self. self\<lparr>q_threads := q\<rparr>) s"

lemma set_q_facts [simp]:
  "u \<noteq> t \<Longrightarrow> g_rlu_threads (set_q t q s) u = g_rlu_threads s u"
  "g_rlu_threads (set_q t q s) t = map_option (\<lambda>self. self\<lparr>q_threads := q\<rparr>) (g_rlu_threads s t)"
  "thread_freed (set_q t q s) = thread_freed s" "rmem (set_q t q s) = rmem s"
  "g_rlu_writer_version (set_q t q s) = g_rlu_writer_version s"
  "g_rlu_commit_version (set_q t q s) = g_rlu_commit_version s"
  "g_rlu_cur_threads (set_q t q s) = g_rlu_cur_threads s"
  by (simp_all add: set_q_def)

lemma clear_wait_set_q: "upd_thr t (clear_wait th) (set_q t q s) = set_q t (q(th := (q th)\<lparr>is_wait := False\<rparr>)) s"
  by (cases "g_rlu_threads s t") (simp_all add: set_q_def upd_thr_def clear_wait_def fun_upd_idem)

lemma wait_for_threads_passed:
  assumes "g_rlu_threads s t = Some self"
    and "\<forall>th \<in> set ths. is_wait (q th) \<longrightarrow> th \<noteq> t \<and> \<not> thread_freed s th \<and> passed (q_run_counter (q th)) v th s"
    and "distinct ths"
  shows "\<exists>q'. wait_for_threads env t v ths (set_q t q s) = Some (set_q t q' s)"
  using assms(2,3)
proof (induction ths arbitrary: q)
  case (Cons th ths)
  have "\<exists>q1. wait_for_thread env t v th (set_q t q s) = Some (set_q t q1 s) \<and> (\<forall>u. u \<noteq> th \<longrightarrow> q1 u = q u)"
  proof (cases "is_wait (q th)")
    case False
    then show ?thesis using assms(1)
      by (auto simp: wait_for_thread_step waits_def wait_end_def)
  next
    case True
    have th: "th \<noteq> t" "\<not> thread_freed s th" "passed (q_run_counter (q th)) v th s" using Cons.prems(1) True by auto
    have "wait_for_thread env t v th (set_q t q s) = Some (set_q t (q(th := (q th)\<lparr>is_wait := False\<rparr>)) s)"
      using th True assms(1)
      by (simp add: wait_for_thread_step waits_def wait_end_def thread_passed_iff passed_def thr_def clear_wait_set_q)
    then show ?thesis by auto
  qed
  then obtain q1 where q1: "wait_for_thread env t v th (set_q t q s) = Some (set_q t q1 s)" "\<forall>u. u \<noteq> th \<longrightarrow> q1 u = q u"
    by blast
  have "\<forall>u \<in> set ths. is_wait (q1 u) \<longrightarrow> u \<noteq> t \<and> \<not> thread_freed s u \<and> passed (q_run_counter (q1 u)) v u s"
    using Cons.prems q1(2) by (metis distinct.simps(2) list.set_intros(2))
  with Cons.IH [of q1] Cons.prems(2) q1(1) show ?case by simp
qed auto

lemma rlu_synchronize_passed:
  assumes self: "g_rlu_threads s t = Some self" and nq: "\<not> is_no_quiescence self"
    and alive: "\<forall>th. \<not> thread_freed s th"
    and others: "\<forall>th < g_rlu_cur_threads s. th \<noteq> t \<longrightarrow> g_rlu_threads s th \<noteq> None \<longrightarrow>
      even (unat (run_counter (thr s th))) \<or> passed (run_counter (thr s th)) (writer_version self) th s"
  shows "\<exists>q. rlu_synchronize env t s = Some (set_q t q s)"
proof -
  let ?ths = "[0..<g_rlu_cur_threads s]"
  let ?q = "fold (\<lambda>th q. q(th := init_entry s t th (q th))) ?ths (q_threads self)"
  have init: "rlu_init_quiescence t s = Some (set_q t ?q s)"
    using alive self by (simp add: rlu_init_quiescence_def set_q_def upd_thr_def init_wait_fold)
  have "\<forall>th \<in> set ?ths. is_wait (?q th) \<longrightarrow>
      th \<noteq> t \<and> \<not> thread_freed s th \<and> passed (q_run_counter (?q th)) (writer_version self) th s"
  proof
    fix th assume th: "th \<in> set ?ths"
    then have "?q th = init_entry s t th (q_threads self th)" by (simp add: fold_init_entry)
    then show "is_wait (?q th) \<longrightarrow>
        th \<noteq> t \<and> \<not> thread_freed s th \<and> passed (q_run_counter (?q th)) (writer_version self) th s"
      using others alive th by (auto simp: init_entry_def split: option.splits if_splits)
  qed
  from wait_for_threads_passed [OF self this] obtain q' where
    "wait_for_threads env t (writer_version self) ?ths (set_q t ?q s) = Some (set_q t q' s)" by auto
  then have "rlu_synchronize env t s = Some (set_q t q' s)"
    using self nq init by (simp add: rlu_synchronize_def rlu_wait_for_quiescence_def)
  then show ?thesis by blast
qed

lemma finish_sync_frame:
  assumes self: "g_rlu_threads s t = Some self"
  shows "u \<noteq> t \<Longrightarrow> g_rlu_threads (finish_sync t s) u = g_rlu_threads s u"
    and "g_rlu_writer_version (finish_sync t s) = g_rlu_writer_version s"
    and "g_rlu_commit_version (finish_sync t s) = g_rlu_commit_version s + 1"
    and "g_rlu_cur_threads (finish_sync t s) = g_rlu_cur_threads s" "thread_freed (finish_sync t s) = thread_freed s"
    and "ring_weak self \<Longrightarrow> objs_ok (pending_objs (rmem s) self) \<Longrightarrow>
      ws_hdr (rmem (finish_sync t s)) = ws_hdr (rmem s)"
    and "ring_weak self \<Longrightarrow> objs_ok (pending_objs (rmem s) self) \<Longrightarrow> p \<notin> originals (pending_objs (rmem s) self) \<Longrightarrow>
      bytes (rmem (finish_sync t s)) p = bytes (rmem s) p"
proof -
  obtain n self4 m4 where wb: "rlu_writeback_write_sets_and_unlock self (rmem s) = (n, self4, m4)"
    by (cases "rlu_writeback_write_sets_and_unlock self (rmem s)") auto
  have ws: "ws_hdr (fold (\<lambda>p m. m\<lparr>allocated := (allocated m)(OBJ_TO_H p := False)\<rparr>) ps m) = ws_hdr m" for ps and m :: rlu_mem
    by (induction ps arbitrary: m) simp_all
  note unf = finish_sync_def rlu_process_free_def rlu_writeback_sys_def Let_def
  show "g_rlu_threads (finish_sync t s) u = g_rlu_threads s u" if "u \<noteq> t" using that wb self by (simp add: unf)
  show "g_rlu_writer_version (finish_sync t s) = g_rlu_writer_version s"
    "g_rlu_commit_version (finish_sync t s) = g_rlu_commit_version s + 1"
    "g_rlu_cur_threads (finish_sync t s) = g_rlu_cur_threads s" "thread_freed (finish_sync t s) = thread_freed s"
    using wb self by (simp_all add: unf)
  assume ok: "ring_weak self" "objs_ok (pending_objs (rmem s) self)"
  have m: "bytes (rmem (finish_sync t s)) = bytes m4" "ws_hdr (rmem (finish_sync t s)) = ws_hdr m4"
    using wb self by (simp_all add: finish_sync_def process_free_mem rlu_writeback_sys_def Let_def)
      (simp add: rlu_process_free_def ws)
  note eff = rlu_writeback_write_sets_effect(1) [OF ok wb]
  show "ws_hdr (rmem (finish_sync t s)) = ws_hdr (rmem s)" using eff m by (simp add: wb_effect_def)
  show "bytes (rmem (finish_sync t s)) p = bytes (rmem s) p" if "p \<notin> originals (pending_objs (rmem s) self)"
    using eff m that by (simp add: wb_effect_def)
qed

section \<open>Dereferencing\<close>

text \<open>The thread that has locked an object.\<close>

definition lock_owner :: "rlu_mem \<Rightarrow> addr \<Rightarrow> nat option" where
  "lock_owner m p =
     (if GET_COPY m p = NULL \<or> PTR_IS_COPY (GET_COPY m p) then None
      else Some (ws_thread_id (ws_hdr m (OBJ_COPY_TO_WS_H (GET_COPY m p)))))"

lemma RLU_DEREF_cases:
  "RLU_DEREF t p s =
     (if \<not> is_check_locks (thr s t) \<or> p = NULL then p
      else case lock_owner (rmem s) p of
             None \<Rightarrow> p
           | Some th \<Rightarrow>
               if th = uniq_id (thr s t) \<or> (is_steal (thr s t) \<and> writer_version (thr s th) \<le> local_version (thr s t))
               then GET_COPY (rmem s) p else p)"
  by (auto simp: RLU_DEREF_def rlu_deref_slow_path_def lock_owner_def PTR_IS_LOCKED_def Let_def)

section \<open>Locking\<close>

lemma rlu_try_lock_refused:
  assumes "lock_owner (rmem s) p = Some th" "th \<noteq> uniq_id (thr s t)"
  shows "rlu_try_lock env t p n s =
    Some (False, p, upd_thr t (\<lambda>self. self\<lparr>is_sync := is_sync self + 1\<rparr>) (rlu_send_sync_request th s))"
  using assms by (simp add: rlu_try_lock_def lock_owner_def PTR_IS_LOCKED_def Let_def split: if_splits)

lemma ws_header_of_copy: "OBJ_COPY_TO_WS_H (cur + WS_OBJ_HEADER_SIZE + OBJ_HEADER_SIZE) = cur"
  by (simp add: OBJ_COPY_TO_WS_H_def WS_OBJ_HEADER_SIZE_def OBJ_HEADER_SIZE_def)

text \<open>Between a thread's first look and its CAS, others leave its next header alone.\<close>

definition keeps_header :: "addr \<Rightarrow> (rlu_sys \<Rightarrow> rlu_sys) \<Rightarrow> bool" where
  "keeps_header cur env \<longleftrightarrow> (\<forall>s. ws_hdr (rmem (env s)) cur = ws_hdr (rmem s) cur)"

text \<open>Room for the headers and a copy of \<open>n\<close> bytes in the current write set.\<close>

definition ws_room :: "rlu_thread_data \<Rightarrow> u64 \<Rightarrow> bool" where
  "ws_room self n \<longleftrightarrow>
     (let w = obj_write_set self (ws_cur_id self) in in_ws_buffer w (p_cur w) (unat (WS_OBJ_HEADER_SIZE + OBJ_HEADER_SIZE) + unat n))"

abbreviation next_copy :: "rlu_thread_data \<Rightarrow> addr" where
  "next_copy self \<equiv> p_cur (obj_write_set self (ws_cur_id self)) + WS_OBJ_HEADER_SIZE + OBJ_HEADER_SIZE"

lemma ws_room_parts:
  assumes "ws_room self n"
  shows "in_ws_buffer (obj_write_set self (ws_cur_id self)) (p_cur (obj_write_set self (ws_cur_id self)))
      (unat (WS_OBJ_HEADER_SIZE + OBJ_HEADER_SIZE))"
    and "in_ws_buffer (obj_write_set self (ws_cur_id self)) (next_copy self) (unat n)"
proof -
  let ?w = "obj_write_set self (ws_cur_id self)"
  have r: "unat (p_cur ?w - ol_buffer ?w) + 40 + unat n \<le> 100000"
    using assms by (simp add: ws_room_def Let_def in_ws_buffer_def RLU_MAX_WRITE_SET_BUFFER_SIZE_def WS_OBJ_HEADER_SIZE_def OBJ_HEADER_SIZE_def)
  then show "in_ws_buffer ?w (p_cur ?w) (unat (WS_OBJ_HEADER_SIZE + OBJ_HEADER_SIZE))"
    by (simp add: in_ws_buffer_def RLU_MAX_WRITE_SET_BUFFER_SIZE_def WS_OBJ_HEADER_SIZE_def OBJ_HEADER_SIZE_def)
  have "unat ((p_cur ?w - ol_buffer ?w) + 40) = unat (p_cur ?w - ol_buffer ?w) + 40"
    using r by (subst unat_add_no_wrap) auto
  moreover have "next_copy self - ol_buffer ?w = (p_cur ?w - ol_buffer ?w) + 40"
    by (simp add: WS_OBJ_HEADER_SIZE_def OBJ_HEADER_SIZE_def)
  ultimately have "unat (next_copy self - ol_buffer ?w) = unat (p_cur ?w - ol_buffer ?w) + 40" by metis
  then show "in_ws_buffer ?w (next_copy self) (unat n)"
    using r unfolding in_ws_buffer_def RLU_MAX_WRITE_SET_BUFFER_SIZE_def by linarith
qed

text \<open>The two halves of a lock on a free object, before and after the CAS.\<close>

definition lock_header :: "nat \<Rightarrow> addr \<Rightarrow> u64 \<Rightarrow> rlu_sys \<Rightarrow> rlu_sys" where
  "lock_header t p n s =
     (let s0 = upd_thr t (\<lambda>self. if \<not> rlu_write_detected self
                 then self\<lparr>rlu_write_detected := True, is_check_locks := True\<rparr> else self) s
      in case rlu_add_ws_obj_header_to_write_set p n (thr s0 t) (rmem s0) of
           None \<Rightarrow> s0 | Some (copy, self1, m1) \<Rightarrow> upd_thr t (\<lambda>_. self1) (s0\<lparr>rmem := m1\<rparr>))"

definition lock_copy :: "nat \<Rightarrow> addr \<Rightarrow> addr \<Rightarrow> u64 \<Rightarrow> rlu_sys \<Rightarrow> rlu_sys" where
  "lock_copy t p c n s =
     (case rlu_add_obj_copy_to_write_set p n (thr s t) (SET_COPY p c (rmem s)) of
        None \<Rightarrow> s | Some (self3, m3) \<Rightarrow> upd_thr t (\<lambda>_. self3) (s\<lparr>rmem := m3\<rparr>))"

lemma lock_header_facts:
  assumes "g_rlu_threads s t = Some self" and "ws_room self n"
  shows "ws_thread_id (ws_hdr (rmem (lock_header t p n s)) (p_cur (obj_write_set self (ws_cur_id self)))) = uniq_id self"
    and "\<exists>self1. g_rlu_threads (lock_header t p n s) t = Some self1 \<and> uniq_id self1 = uniq_id self \<and>
      rlu_write_detected self1 \<and> ws_cur_id self1 = ws_cur_id self \<and>
      is_check_locks self1 = (is_check_locks self \<or> \<not> rlu_write_detected self) \<and>
      obj_write_set self1 = (obj_write_set self)(ws_cur_id self := (obj_write_set self (ws_cur_id self))\<lparr>p_cur := next_copy self\<rparr>)"
    and "bytes (rmem (lock_header t p n s)) = bytes (rmem s)"
  using assms(1) ws_room_parts(1) [OF assms(2)]
  by (simp_all add: lock_header_def rlu_add_ws_obj_header_to_write_set_def rlu_upd_ws_def Let_def)

lemma lock_copy_facts:
  assumes "g_rlu_threads s t = Some self1" "p_cur (obj_write_set self1 (ws_cur_id self1)) = c"
    "in_ws_buffer (obj_write_set self1 (ws_cur_id self1)) c (unat n)"
  shows "GET_COPY (rmem (lock_copy t p c n s)) p = c"
    and "ws_hdr (rmem (lock_copy t p c n s)) = ws_hdr (rmem s)"
    and "bytes (rmem (lock_copy t p c n s)) = (bytes (rmem s))(c := written_back (rmem s) c p n)"
    and "g_rlu_threads (lock_copy t p c n s) t = Some (rlu_upd_ws (ws_cur_id self1)
      (\<lambda>w. w\<lparr>p_cur := c + ALIGN_OBJ_SIZE n, num_of_objs := num_of_objs w + 1\<rparr>) self1)"
  using assms
  by (simp_all add: lock_copy_def rlu_add_obj_copy_to_write_set_def SET_COPY_def rlu_memcpy_def GET_COPY_def
      written_back_def Let_def)

lemma lock_header_thread:
  assumes keeps: "keeps_thread t env" and self: "g_rlu_threads s t = Some self" and room: "ws_room self n"
  shows "\<exists>self2. g_rlu_threads (env (lock_header t p n s)) t = Some self2 \<and> uniq_id self2 = uniq_id self \<and>
      ws_cur_id self2 = ws_cur_id self \<and> is_check_locks self2 = (is_check_locks self \<or> \<not> rlu_write_detected self) \<and>
      obj_write_set self2 = (obj_write_set self)(ws_cur_id self := (obj_write_set self (ws_cur_id self))\<lparr>p_cur := next_copy self\<rparr>) \<and>
      in_ws_buffer (obj_write_set self2 (ws_cur_id self2)) (next_copy self) (unat n)"
proof -
  obtain self1 where h: "g_rlu_threads (lock_header t p n s) t = Some self1" "uniq_id self1 = uniq_id self"
      "ws_cur_id self1 = ws_cur_id self" "is_check_locks self1 = (is_check_locks self \<or> \<not> rlu_write_detected self)"
      "obj_write_set self1 = (obj_write_set self)(ws_cur_id self := (obj_write_set self (ws_cur_id self))\<lparr>p_cur := next_copy self\<rparr>)"
    using lock_header_facts(2) [OF self room] by blast
  moreover obtain k where "g_rlu_threads (env (lock_header t p n s)) t = Some (self1\<lparr>is_sync := k\<rparr>)"
    using keeps h(1) unfolding keeps_thread_def by blast
  ultimately show ?thesis using ws_room_parts(2) [OF room] by (simp add: in_ws_buffer_def)
qed

lemma rlu_try_lock_free:
  assumes keeps: "keeps_thread t env" and self: "g_rlu_threads s t = Some self" and free: "GET_COPY (rmem s) p = NULL"
    and room: "ws_room self n"
  shows "rlu_try_lock env t p n s =
    (let s1 = env (lock_header t p n s)
     in if GET_COPY (rmem s1) p = NULL then Some (True, next_copy self, lock_copy t p (next_copy self) n s1) else Some (False, p, s1))"
proof -
  obtain self2 where "g_rlu_threads (env (lock_header t p n s)) t = Some self2" "ws_cur_id self2 = ws_cur_id self"
      "obj_write_set self2 = (obj_write_set self)(ws_cur_id self := (obj_write_set self (ws_cur_id self))\<lparr>p_cur := next_copy self\<rparr>)"
      "in_ws_buffer (obj_write_set self2 (ws_cur_id self2)) (next_copy self) (unat n)"
    using lock_header_thread [OF keeps self room, of p] by blast
  then have c: "rlu_add_obj_copy_to_write_set p n (thr (env (lock_header t p n s)) t) m \<noteq> None" for m
    by (simp add: rlu_add_obj_copy_to_write_set_def thr_def Let_def)
  show ?thesis
    using self free ws_room_parts(1) [OF room] c [of "SET_COPY p (next_copy self) (rmem (env (lock_header t p n s)))"]
    by (auto simp: rlu_try_lock_def lock_header_def lock_copy_def rlu_add_ws_obj_header_to_write_set_def
        TRY_CAS_PTR_OBJ_COPY_def PTR_IS_LOCKED_def PTR_IS_COPY_def PTR_ID_OBJ_COPY_def Let_def)
qed

text \<open>A lock that is granted: the object is owned by the thread, which from now on reads and writes its copy.\<close>

lemma lock_copy_acquired:
  assumes keeps: "keeps_thread t env" "keeps_header (p_cur (obj_write_set self (ws_cur_id self))) env"
    and self: "g_rlu_threads s t = Some self" and room: "ws_room self n"
    and addr: "next_copy self \<notin> {NULL, PTR_ID_OBJ_COPY, p}"
    and s1: "s1 = env (lock_header t p n s)" and s': "s' = lock_copy t p (next_copy self) n s1"
  shows "lock_owner (rmem s') p = Some (uniq_id self)" and "GET_COPY (rmem s') p = next_copy self"
    and "p \<noteq> NULL \<Longrightarrow> RLU_DEREF t p s' = (if is_check_locks self \<or> \<not> rlu_write_detected self then next_copy self else p)"
    and "bytes (rmem s') = (bytes (rmem s1))(next_copy self := written_back (rmem s1) (next_copy self) p n)"
    and "num_of_objs (obj_write_set (thr s' t) (ws_cur_id self)) = num_of_objs (obj_write_set self (ws_cur_id self)) + 1"
    and "u \<noteq> t \<Longrightarrow> g_rlu_threads s' u = g_rlu_threads s1 u"
proof -
  obtain self2 where h: "g_rlu_threads s1 t = Some self2" "uniq_id self2 = uniq_id self"
      "ws_cur_id self2 = ws_cur_id self" "is_check_locks self2 = (is_check_locks self \<or> \<not> rlu_write_detected self)"
      "obj_write_set self2 = (obj_write_set self)(ws_cur_id self := (obj_write_set self (ws_cur_id self))\<lparr>p_cur := next_copy self\<rparr>)"
      "in_ws_buffer (obj_write_set self2 (ws_cur_id self2)) (next_copy self) (unat n)"
    using lock_header_thread [OF keeps(1) self room, of p] unfolding s1 by blast
  have "p_cur (obj_write_set self2 (ws_cur_id self2)) = next_copy self" using h by simp
  note lc = lock_copy_facts [OF h(1) this h(6), of p, folded s']
  show copy: "GET_COPY (rmem s') p = next_copy self" by (rule lc(1))
  have "ws_thread_id (ws_hdr (rmem s1) (p_cur (obj_write_set self (ws_cur_id self)))) = uniq_id self"
    using keeps(2) lock_header_facts(1) [OF self room] by (simp add: s1 keeps_header_def)
  then show owner: "lock_owner (rmem s') p = Some (uniq_id self)"
    using copy addr lc(2) by (simp add: lock_owner_def PTR_IS_COPY_def ws_header_of_copy)
  show "RLU_DEREF t p s' = (if is_check_locks self \<or> \<not> rlu_write_detected self then next_copy self else p)" if "p \<noteq> NULL"
    using that owner copy lc(4) h by (simp add: RLU_DEREF_cases rlu_upd_ws_def thr_def)
  show "bytes (rmem s') = (bytes (rmem s1))(next_copy self := written_back (rmem s1) (next_copy self) p n)" by (rule lc(3))
  show "num_of_objs (obj_write_set (thr s' t) (ws_cur_id self)) = num_of_objs (obj_write_set self (ws_cur_id self)) + 1"
    using lc(4) h by (simp add: rlu_upd_ws_def thr_def)
  show "g_rlu_threads s' u = g_rlu_threads s1 u" if "u \<noteq> t"
    using that h(1,6) by (simp add: s' lock_copy_def rlu_add_obj_copy_to_write_set_def Let_def split: option.split)
qed

section \<open>Aborting\<close>

lemma rlu_abort_effect:
  assumes self: "g_rlu_threads s t = Some self" and wr: "rlu_write_detected self" and nosync: "is_sync self = 0"
    and small: "ws_tail_counter self < 2 ^ 31" and inv: "ring_inv self"
  shows "\<exists>s'. rlu_abort env t s = Some s' \<and> bytes (rmem s') = bytes (rmem s) \<and>
    (\<forall>p. GET_COPY (rmem s') p =
      (if p \<in> originals (write_set_objs (rmem s) (obj_write_set self (ws_cur_id self))) then NULL else GET_COPY (rmem s) p)) \<and>
    ws_empty (obj_write_set (thr s' t) (ws_cur_id self)) \<and> run_counter (thr s' t) = run_counter self + 1"
proof -
  have i: "WS_INDEX_int (to_int (ws_tail_counter self)) = Some (ws_cur_id self)"
    "WS_INDEX (ws_tail_counter self) = ws_cur_id self"
    using WS_INDEX_int_small [OF small] inv by (simp_all add: ring_inv_def)
  show ?thesis
    using self wr nosync i
    by (simp add: rlu_abort_def rlu_unregister_thread_def rlu_unlock_objs_def rlu_sync_checkpoint_def
        rlu_reset_write_set_emptied write_set_objs_def unlock_objs_effect Let_def)
qed

end
