(* ===== verification/Rlu_Scenario.thy ===== *)
theory Rlu_Scenario
  imports Rlu_Section
begin

text \<open>
  Concrete RLU states: the data of the witnesses, and an execution in which a section reads an
  object before and after a writer that did not wait for it.
\<close>

section \<open>Concrete executions\<close>

text \<open>Three threads and two objects, one byte each.\<close>

definition rx_p :: addr where "rx_p = 0x1008"
definition rx_q :: addr where "rx_q = 0x2008"

definition rx_buf :: "nat \<Rightarrow> nat \<Rightarrow> addr" where
  "rx_buf t i = 0x10000000 + word_of_nat (t * 0x2000000 + i * 0x20000)"

text \<open>
  A thread at the end of a section that has filled one write set; thread 2 has not.
\<close>

definition rx_thread :: "nat \<Rightarrow> rlu_thread_data" where
  "rx_thread t = (zero_rlu_thread (rx_buf t))\<lparr>rlu_thr_type := RLU_TYPE_FINE_GRAINED, max_write_sets := RLU_NUM_WS,
     uniq_id := t, writer_version := RLU_MAX_VERSION, ws_tail_counter := (if t = 2 then 0 else 1),
     ws_cur_id := (if t = 2 then 0 else 1),
     obj_write_set := (\<lambda>i. \<lparr>writer_locks = [], num_of_objs = (if t = 2 \<or> i \<noteq> 0 then 0 else 1),
       p_cur = rx_buf t i + (if t = 2 \<or> i \<noteq> 0 then 0 else 48), ol_buffer = rx_buf t i\<rparr>)\<rparr>"

definition rx_mem :: rlu_mem where
  "rx_mem = \<lparr>hdr_copy = (\<lambda>a. if a = OBJ_TO_H rx_p then rx_buf 0 0 + 40 else if a = OBJ_TO_H rx_q then rx_buf 1 0 + 40
       else if a = rx_buf 0 0 + 32 \<or> a = rx_buf 1 0 + 32 then PTR_ID_OBJ_COPY else NULL),
     ws_hdr = (\<lambda>a. if a = rx_buf 0 0
       then \<lparr>p_obj_actual = rx_p, ws_obj_size = 1, ws_run_counter = 1, ws_thread_id = 0\<rparr>
       else \<lparr>p_obj_actual = rx_q, ws_obj_size = 1, ws_run_counter = 1, ws_thread_id = 1\<rparr>),
     bytes = (\<lambda>a. if a = rx_p then [1] else if a = rx_buf 0 0 + 40 then [2] else if a = rx_q then [5] else [6]),
     allocated = (\<lambda>_. True)\<rparr>"

definition rx_sys :: rlu_sys where
  "rx_sys = \<lparr>g_rlu_type = RLU_TYPE_FINE_GRAINED, g_rlu_max_write_sets = RLU_NUM_WS, g_rlu_cur_threads = 3,
     g_rlu_threads = (\<lambda>t. if t < 3 then Some (rx_thread t) else None), thread_freed = (\<lambda>_. False),
     g_rlu_writer_locks = (\<lambda>_. 0), g_rlu_writer_version = 0, g_rlu_commit_version = 0, rmem = rx_mem\<rparr>"

text \<open>Thread 1 writes back, then thread 2 starts a section.\<close>

definition rx_other :: "rlu_sys \<Rightarrow> rlu_sys" where
  "rx_other s =
     (if g_rlu_writer_version s = 0
      then the (Option.bind (rlu_sync_and_writeback id 1 s) (rlu_reader_lock id 2)) else s)"

lemma rx_index: "[WS_INDEX 0] = [0]" "WS_INDEX 0 = 0" "WS_INDEX 1 = 1" "WS_INDEX (Suc 0) = 1"
  by (simp_all add: WS_INDEX_def RLU_MAX_WRITE_SETS_def)

lemma rx_addr: "rx_buf 0 0 = 0x10000000" "rx_buf 1 0 = 0x12000000" "rx_buf (Suc 0) 0 = 0x12000000"
  by (simp_all add: rx_buf_def)

lemma rx_thread_fields:
  "ws_head_counter (rx_thread t) = 0" "ws_wb_counter (rx_thread t) = 0"
  "ws_tail_counter (rx_thread t) = (if t = 2 then 0 else 1)" "run_counter (rx_thread t) = 0"
  "is_no_quiescence (rx_thread t) = False" "is_sync (rx_thread t) = 0"
  "ws_cur_id (rx_thread t) = (if t = 2 then 0 else 1)" "max_write_sets (rx_thread t) = 1"
  "num_of_objs (obj_write_set (rx_thread t) i) = (if t = 2 \<or> i \<noteq> 0 then 0 else 1)"
  "ol_buffer (obj_write_set (rx_thread t) i) = rx_buf t i"
  by (simp_all add: rx_thread_def zero_rlu_thread_def RLU_NUM_WS_def)

lemma rx_ring: "ring_weak (rx_thread t)"
  by (simp add: ring_weak_def rx_thread_fields RLU_MAX_WRITE_SETS_def)

lemma rx_pending:
  "ws_hdr m = ws_hdr rx_mem \<Longrightarrow> pending_objs m (rx_thread 0) = [(rx_p, 0x10000028, 1)]"
  "ws_hdr m = ws_hdr rx_mem \<Longrightarrow> pending_objs m (rx_thread 1) = [(rx_q, 0x12000028, 1)]"
  by (simp_all add: pending_objs_def write_set_objs_def rx_thread_fields rx_index rx_addr rx_mem_def
      WS_OBJ_HEADER_SIZE_def OBJ_HEADER_SIZE_def Let_def)

lemma pending_objs_fields [simp]:
  "pending_objs m (self\<lparr>writer_version := v\<rparr>) = pending_objs m self"
  "pending_objs m (self\<lparr>q_threads := q\<rparr>) = pending_objs m self"
  "ring_weak (self\<lparr>writer_version := v\<rparr>) = ring_weak self" "ring_weak (self\<lparr>q_threads := q\<rparr>) = ring_weak self"
  by (simp_all add: pending_objs_def ring_weak_def)

lemma rx_objs_ok: "objs_ok [(rx_p, 0x10000028, 1)]" "objs_ok [(rx_q, 0x12000028, 1)]"
  by (simp_all add: objs_ok_def rx_p_def rx_q_def)

declare One_nat_def [simp del]

text \<open>The state in which thread 0 has chosen its version, 1, but not yet advanced the global one.\<close>

definition rx_chosen :: rlu_sys where
  "rx_chosen = upd_thr 0 (\<lambda>self. self\<lparr>writer_version := 1\<rparr>) rx_sys"

lemma rx_chosen_fields:
  "g_rlu_threads rx_chosen 0 = Some ((rx_thread 0)\<lparr>writer_version := 1\<rparr>)"
  "g_rlu_threads rx_chosen 1 = Some (rx_thread 1)" "g_rlu_threads rx_chosen 2 = Some (rx_thread 2)"
  "g_rlu_writer_version rx_chosen = 0" "g_rlu_commit_version rx_chosen = 0" "g_rlu_cur_threads rx_chosen = 3"
  "thread_freed rx_chosen = (\<lambda>_. False)" "rmem rx_chosen = rx_mem"
  by (simp_all add: rx_chosen_def rx_sys_def)

lemma less_3: "n < (3::nat) \<longleftrightarrow> n = 0 \<or> n = 1 \<or> n = 2"
  by auto

lemma rx_first_sync:
  "\<exists>s. rlu_sync_and_writeback id 1 rx_chosen = Some s \<and>
     g_rlu_threads s 0 = Some ((rx_thread 0)\<lparr>writer_version := 1\<rparr>) \<and> g_rlu_threads s 2 = Some (rx_thread 2) \<and>
     (\<exists>self. g_rlu_threads s 1 = Some self \<and> run_counter self = 0) \<and>
     g_rlu_writer_version s = 1 \<and> g_rlu_commit_version s = 1 \<and> g_rlu_cur_threads s = 3 \<and>
     thread_freed s = (\<lambda>_. False) \<and> ws_hdr (rmem s) = ws_hdr rx_mem \<and>
     (\<forall>a. a \<noteq> rx_q \<longrightarrow> bytes (rmem s) a = bytes rx_mem a)"
proof -
  let ?s = "publish id 1 rx_chosen"
  have p: "g_rlu_threads ?s 0 = Some ((rx_thread 0)\<lparr>writer_version := 1\<rparr>)"
    "g_rlu_threads ?s 1 = Some ((rx_thread 1)\<lparr>writer_version := 1\<rparr>)" "g_rlu_threads ?s 2 = Some (rx_thread 2)"
    "g_rlu_writer_version ?s = 1" "g_rlu_commit_version ?s = 0" "g_rlu_cur_threads ?s = 3"
    "thread_freed ?s = (\<lambda>_. False)" "rmem ?s = rx_mem"
    by (simp_all add: publish_def rx_chosen_fields Let_def)
  have "\<exists>q. rlu_synchronize id 1 ?s = Some (set_q 1 q ?s)"
    by (rule rlu_synchronize_passed [OF p(2)]) (auto simp: p less_3 rx_thread_fields thr_def)
  then obtain q where q: "rlu_synchronize id 1 ?s = Some (set_q 1 q ?s)" by blast
  let ?s3 = "set_q 1 q ?s"
  let ?self3 = "(rx_thread 1)\<lparr>writer_version := 1, q_threads := q\<rparr>"
  have s3: "g_rlu_threads ?s3 1 = Some ?self3" using p by simp
  have ok: "ring_weak ?self3" "objs_ok (pending_objs (rmem ?s3) ?self3)"
    using rx_ring rx_pending(2) [of rx_mem] rx_objs_ok p by simp_all
  note fr = finish_sync_frame [OF s3]
  have mem: "ws_hdr (rmem (finish_sync 1 ?s3)) = ws_hdr rx_mem"
    "a \<noteq> rx_q \<Longrightarrow> bytes (rmem (finish_sync 1 ?s3)) a = bytes rx_mem a" for a
    using fr(6,7) [OF ok] rx_pending(2) [of rx_mem] p by simp_all
  have run: "\<exists>self. g_rlu_threads (finish_sync 1 ?s3) 1 = Some self \<and> run_counter self = 0"
    by (simp add: finish_sync_def rlu_process_free_def rlu_writeback_sys_def Let_def s3 p
        rlu_writeback_write_sets_and_unlock_def fold_reset_write_set rx_thread_fields)
  have "rlu_sync_and_writeback id 1 rx_chosen = Some (finish_sync 1 ?s3)"
    using q rlu_sync_and_writeback_halves [of rx_chosen 1 id] by (simp add: rx_chosen_fields rx_thread_fields)
  then show ?thesis using mem run fr(1-5) p by simp
qed


lemma rx_other_facts:
  "\<exists>self1 self2. g_rlu_threads (rx_other rx_chosen) 0 = Some ((rx_thread 0)\<lparr>writer_version := 1\<rparr>) \<and>
     g_rlu_threads (rx_other rx_chosen) 1 = Some self1 \<and> run_counter self1 = 0 \<and>
     g_rlu_threads (rx_other rx_chosen) 2 = Some self2 \<and> run_counter self2 = 1 \<and> local_version self2 = 1 \<and>
     \<not> is_check_locks self2 \<and>
     g_rlu_writer_version (rx_other rx_chosen) = 1 \<and> g_rlu_commit_version (rx_other rx_chosen) = 1 \<and>
     g_rlu_cur_threads (rx_other rx_chosen) = 3 \<and> thread_freed (rx_other rx_chosen) = (\<lambda>_. False) \<and>
     ws_hdr (rmem (rx_other rx_chosen)) = ws_hdr rx_mem \<and>
     (\<forall>a. a \<noteq> rx_q \<longrightarrow> bytes (rmem (rx_other rx_chosen)) a = bytes rx_mem a)"
proof -
  obtain s self1 where s: "rlu_sync_and_writeback id 1 rx_chosen = Some s"
    "g_rlu_threads s 0 = Some ((rx_thread 0)\<lparr>writer_version := 1\<rparr>)" "g_rlu_threads s 2 = Some (rx_thread 2)"
    "g_rlu_threads s 1 = Some self1" "run_counter self1 = 0"
    "g_rlu_writer_version s = 1" "g_rlu_commit_version s = 1" "g_rlu_cur_threads s = 3"
    "thread_freed s = (\<lambda>_. False)" "ws_hdr (rmem s) = ws_hdr rx_mem"
    "\<forall>a. a \<noteq> rx_q \<longrightarrow> bytes (rmem s) a = bytes rx_mem a"
    using rx_first_sync by blast
  define s2 where "s2 = upd_thr 2 (\<lambda>self. self\<lparr>
      is_steal := local_version self - local_commit_version self \<noteq> 0,
      is_check_locks := \<not> (local_version self - local_commit_version self = 0 \<and>
        ws_tail_counter self - ws_wb_counter self = 0)\<rparr>) (rlu_register_thread 2 (upd_thr 2 rlu_reset s))"
  have "rx_other rx_chosen = s2"
    using s by (simp add: rx_other_def rx_chosen_fields rlu_reader_lock_def rlu_sync_checkpoint_def rx_thread_fields s2_def)
  moreover have "g_rlu_threads s2 0 = g_rlu_threads s 0" "g_rlu_threads s2 1 = g_rlu_threads s 1" "rmem s2 = rmem s"
    "g_rlu_writer_version s2 = 1" "g_rlu_commit_version s2 = 1" "g_rlu_cur_threads s2 = 3" "thread_freed s2 = (\<lambda>_. False)"
    using s by (simp_all add: s2_def rlu_register_thread_def)
  moreover have "\<exists>self2. g_rlu_threads s2 2 = Some self2 \<and> run_counter self2 = 1 \<and> local_version self2 = 1 \<and> \<not> is_check_locks self2"
    using s by (simp add: s2_def rlu_register_thread_def rlu_reset_def rx_thread_fields)
  ultimately show ?thesis using s by simp
qed

lemma rx_race:
  "\<exists>s1 s2. s1 = rx_other rx_chosen \<and> rlu_sync_and_writeback rx_other 0 rx_sys = Some s2 \<and>
     run_counter (thr s1 2) = 1 \<and> run_counter (thr s2 2) = 1 \<and>
     RLU_DEREF 2 rx_p s1 = rx_p \<and> RLU_DEREF 2 rx_p s2 = rx_p \<and>
     bytes (rmem s1) rx_p = [1] \<and> bytes (rmem s2) rx_p = [2]"
proof -
  obtain self1 self2 where o: "g_rlu_threads (rx_other rx_chosen) 0 = Some ((rx_thread 0)\<lparr>writer_version := 1\<rparr>)"
    "g_rlu_threads (rx_other rx_chosen) 1 = Some self1" "run_counter self1 = 0"
    "g_rlu_threads (rx_other rx_chosen) 2 = Some self2" "run_counter self2 = 1" "local_version self2 = 1"
    "\<not> is_check_locks self2" "g_rlu_cur_threads (rx_other rx_chosen) = 3" "thread_freed (rx_other rx_chosen) = (\<lambda>_. False)"
    "ws_hdr (rmem (rx_other rx_chosen)) = ws_hdr rx_mem"
    "\<forall>a. a \<noteq> rx_q \<longrightarrow> bytes (rmem (rx_other rx_chosen)) a = bytes rx_mem a"
    using rx_other_facts by blast
  let ?s = "publish rx_other 0 rx_sys"
  have chosen: "upd_thr 0 (\<lambda>self. self\<lparr>writer_version := g_rlu_writer_version rx_sys + 1\<rparr>) rx_sys = rx_chosen"
    by (simp add: rx_chosen_def rx_sys_def)
  have p: "g_rlu_threads ?s = g_rlu_threads (rx_other rx_chosen)" "rmem ?s = rmem (rx_other rx_chosen)"
    "g_rlu_cur_threads ?s = 3" "thread_freed ?s = (\<lambda>_. False)"
    using o by (simp_all add: publish_def chosen Let_def)
  have t0: "g_rlu_threads ?s 0 = Some ((rx_thread 0)\<lparr>writer_version := 1\<rparr>)" using p o by simp
  have "\<exists>q. rlu_synchronize rx_other 0 ?s = Some (set_q 0 q ?s)"
    by (rule rlu_synchronize_passed [OF t0]) (auto simp: p o less_3 rx_thread_fields thr_def passed_def)
  then obtain q where q: "rlu_synchronize rx_other 0 ?s = Some (set_q 0 q ?s)" by blast
  let ?s3 = "set_q 0 q ?s"
  let ?self3 = "(rx_thread 0)\<lparr>writer_version := 1, q_threads := q\<rparr>"
  have s3: "g_rlu_threads ?s3 0 = Some ?self3" using t0 by simp
  have pend: "pending_objs (rmem ?s3) ?self3 = [(rx_p, 0x10000028, 1)]" using rx_pending(1) p o by simp
  have ok: "ring_weak ?self3" "objs_ok (pending_objs (rmem ?s3) ?self3)" using rx_ring rx_objs_ok pend by simp_all
  have ret: "rlu_sync_and_writeback rx_other 0 rx_sys = Some (finish_sync 0 ?s3)"
    using q rlu_sync_and_writeback_halves [of rx_sys 0 rx_other] by (simp add: rx_sys_def thr_def rx_thread_fields)
  have "bytes (rmem (finish_sync 0 ?s3)) rx_p = written_back (rmem ?s3) rx_p 0x10000028 1"
    using finish_sync_facts(1) [OF s3 ok, of rx_p "0x10000028" 1] pend by simp
  also have "\<dots> = [2]" using p o by (simp add: written_back_def rx_mem_def rx_p_def rx_q_def rx_addr)
  finally have b2: "bytes (rmem (finish_sync 0 ?s3)) rx_p = [2]" .
  have b1: "bytes (rmem (rx_other rx_chosen)) rx_p = [1]" using o by (simp add: rx_mem_def rx_p_def rx_q_def)
  have "g_rlu_threads (finish_sync 0 ?s3) 2 = Some self2" using finish_sync_frame(1) [OF s3] p o by simp
  with ret b1 b2 o show ?thesis by (simp add: RLU_DEREF_cases)
qed

declare One_nat_def [simp]

section \<open>Threads that leave their sections\<close>

text \<open>All threads but \<open>t\<close> leave the section they are in.\<close>

definition rx_leave :: "nat \<Rightarrow> rlu_sys \<Rightarrow> rlu_sys" where
  "rx_leave t s = s\<lparr>g_rlu_threads := (\<lambda>u. if u = t then g_rlu_threads s u
     else map_option (\<lambda>self. if odd (unat (run_counter self)) then self\<lparr>run_counter := run_counter self + 1\<rparr> else self)
       (g_rlu_threads s u))\<rparr>"

lemma word_even_Suc: "odd (unat (x :: u64)) \<Longrightarrow> even (unat (x + 1))"
proof -
  assume o: "odd (unat x)"
  have "unat (x + 1) = (unat x + 1) mod 2 ^ 64" by (simp add: unat_word_ariths)
  then show ?thesis using o by (simp add: even_iff_mod_2_eq_zero mod_mod_cancel) presburger
qed

lemma rx_leave_even:
  "u \<noteq> t \<Longrightarrow> g_rlu_threads s u \<noteq> None \<Longrightarrow> even (unat (run_counter (thr (rx_leave t s) u)))"
  by (auto simp: rx_leave_def thr_def word_even_Suc)

lemma rx_leave_keeps: "keeps_thread t (rx_leave t)"
  unfolding keeps_thread_def
proof (intro allI impI)
  fix s :: rlu_sys and self assume "g_rlu_threads s t = Some self"
  then have "g_rlu_threads (rx_leave t s) t = Some (self\<lparr>is_sync := is_sync self\<rparr>)" by (simp add: rx_leave_def)
  then show "\<exists>k. g_rlu_threads (rx_leave t s) t = Some (self\<lparr>is_sync := k\<rparr>)" by blast
qed

lemma rx_leave_passed:
  assumes "odd (unat rc)" "u \<noteq> t" "g_rlu_threads s u \<noteq> None"
  shows "passed rc v u (rx_leave t s)"
  using rx_leave_even [OF assms(2,3)] assms(1) by (auto simp: passed_def)

lemma rx_leave_quiesces: "quiesces t v (rx_leave t)"
proof -
  have "passed rc v u (rx_leave t s)" if "odd (unat rc)" "passed rc v u s" for rc u s
  proof (cases "u \<noteq> t \<and> g_rlu_threads s u \<noteq> None")
    case True
    then show ?thesis using rx_leave_passed that(1) by blast
  next
    case False
    then have "thr (rx_leave t s) u = thr s u" by (auto simp: rx_leave_def thr_def)
    then show ?thesis using that(2) by (simp add: passed_def)
  qed
  moreover have "\<exists>k. passed rc v u ((rx_leave t ^^ k) s)"
    if "odd (unat rc)" "u \<noteq> t" "g_rlu_threads s u \<noteq> None" for rc u s
    using rx_leave_passed [OF that] by (intro exI [of _ 1]) simp
  ultimately show ?thesis
    using rx_leave_keeps by (simp add: quiesces_def) (simp add: rx_leave_def)
qed

lemma rx_leave_pending: "keeps_pending t (rx_leave t)"
  by (simp add: keeps_pending_def pend_view_def thr_def rx_leave_def)

section \<open>Sections\<close>

text \<open>A thread that has locked an object in its section and may collect two write sets.\<close>

definition rx_section :: rlu_sys where
  "rx_section = upd_thr 2 (\<lambda>self. self\<lparr>max_write_sets := 2, rlu_write_detected := True, run_counter := 1\<rparr>) rx_sys"

lemma rx_section_ok:
  "g_rlu_threads rx_section 2 = Some ((rx_thread 2)\<lparr>max_write_sets := 2, rlu_write_detected := True, run_counter := 1\<rparr>)"
  "section_ok ((rx_thread 2)\<lparr>max_write_sets := 2, rlu_write_detected := True, run_counter := 1\<rparr>)"
  by (auto simp: rx_section_def rx_sys_def section_ok_def ring_inv_def slots_clean_def ws_empty_def
      rx_thread_def zero_rlu_thread_def RLU_MAX_WRITE_SETS_def WS_INDEX_def)

lemma rx_section_unlock: "\<exists>s. rlu_reader_unlock id 2 rx_section = Some s"
  by (simp add: rlu_reader_unlock_def rlu_unregister_thread_def rx_section_ok rlu_commit_write_set_def
      rlu_sync_checkpoint_def rx_thread_fields WS_INDEX_def RLU_MAX_WRITE_SETS_def Let_def)

lemma keeps_thread_id: "keeps_thread t id"
  unfolding keeps_thread_def
proof (intro allI impI)
  fix s :: rlu_sys and self assume "g_rlu_threads s t = Some self"
  then have "g_rlu_threads (id s) t = Some (self\<lparr>is_sync := is_sync self\<rparr>)" by simp
  then show "\<exists>k. g_rlu_threads (id s) t = Some (self\<lparr>is_sync := k\<rparr>)" by blast
qed

text \<open>An object that nobody has locked, and thread 2 about to lock it.\<close>

definition rx_free :: rlu_sys where
  "rx_free = rx_sys\<lparr>rmem := rx_mem\<lparr>bytes := (bytes rx_mem)(0x3008 := [7])\<rparr>\<rparr>"

lemma rx_lock_copy: "next_copy (rx_thread 2) = 0x14000028"
  by (simp add: rx_thread_def rx_buf_def WS_OBJ_HEADER_SIZE_def OBJ_HEADER_SIZE_def)

lemma rx_lock_ready:
  "g_rlu_threads rx_free 2 = Some (rx_thread 2)" "ws_room (rx_thread 2) 1"
  "rlu_write_detected (rx_thread 2) \<longrightarrow> is_check_locks (rx_thread 2)"
  "next_copy (rx_thread 2) \<notin> {NULL, PTR_ID_OBJ_COPY, 0x3008}" "(0x3008 :: addr) \<noteq> NULL" "GET_COPY (rmem rx_free) 0x3008 = NULL"
  unfolding rx_lock_copy
  by (simp_all add: rx_free_def rx_sys_def rx_thread_def zero_rlu_thread_def ws_room_def in_ws_buffer_def rx_buf_def rx_mem_def
      RLU_MAX_WRITE_SET_BUFFER_SIZE_def WS_OBJ_HEADER_SIZE_def OBJ_HEADER_SIZE_def PTR_ID_OBJ_COPY_def GET_COPY_def
      OBJ_TO_H_def rx_p_def rx_q_def Let_def)

lemma rx_lock_before:
  "GET_COPY (rmem (lock_header 2 0x3008 1 rx_free)) 0x3008 = NULL"
  "written_back (rmem (lock_header 2 0x3008 1 rx_free)) 0x14000028 0x3008 1 = [7]"
  "g_rlu_threads (lock_header 2 0x3008 1 rx_free) 1 = Some (rx_thread 1)"
proof -
  show "written_back (rmem (lock_header 2 0x3008 1 rx_free)) 0x14000028 0x3008 1 = [7]"
    using lock_header_facts(3) [OF rx_lock_ready(1,2), where p = "0x3008"]
    by (simp add: written_back_def rx_free_def rx_mem_def rx_p_def rx_q_def rx_addr)
  show "GET_COPY (rmem (lock_header 2 0x3008 1 rx_free)) 0x3008 = NULL"
    using rx_lock_ready(1,6) ws_room_parts(1) [OF rx_lock_ready(2)] rx_lock_copy
    by (simp add: lock_header_def rlu_add_ws_obj_header_to_write_set_def GET_COPY_def OBJ_TO_H_def
        WS_OBJ_HEADER_SIZE_def OBJ_HEADER_SIZE_def Let_def)
  show "g_rlu_threads (lock_header 2 0x3008 1 rx_free) 1 = Some (rx_thread 1)"
    using rx_lock_ready(1) ws_room_parts(1) [OF rx_lock_ready(2)]
    by (simp add: lock_header_def rlu_add_ws_obj_header_to_write_set_def rx_free_def rx_sys_def Let_def)
qed

end
