(* ===== verification/Xv6_Bio.thy ===== *)
theory Xv6_Bio
  imports Mvrlu_Prelude "HOL-Library.Monad_Syntax"
begin

text \<open>
  The block layer of xv6 (\<open>bio.c\<close>, \<open>buf.h\<close>, \<open>sleeplock.c\<close>) over the in-memory disk of
  \<open>memide.c\<close>: a cache of thirty buffers in least-recently-used order, and what it promises to the
  layers above: reading a block gives its current contents, whether they are cached or on disk, and
  nothing that is read or released changes the contents of any block.

  One process runs in the file system at a time.  Its sleep locks are then either free or its own;
  to wait for a lock of its own is to wait forever, which has no result, like a panic.  The record
  of disk writes, oldest first, is not in the code; it serves to say what is on the disk when the
  machine stops between two of them.
\<close>

section \<open>Buffers\<close>

type_synonym block = "u8 list"

definition BSIZE :: nat where "BSIZE = 512"
definition MAXOPBLOCKS :: nat where "MAXOPBLOCKS = 10"
definition NBUF :: nat where "NBUF = MAXOPBLOCKS * 3"

text \<open>\<open>flags\<close> is the pair of \<open>B_VALID\<close> and \<open>B_DIRTY\<close>.\<close>

record buf =
  b_valid :: bool
  b_dirty :: bool
  b_dev :: u32
  b_blockno :: u32
  b_locked :: bool
  b_refcnt :: nat
  b_data :: block

record bio =
  disk :: "u32 \<Rightarrow> block"
  disksize :: u32
  bufs :: "nat \<Rightarrow> buf"
  lru :: "nat list" \<comment> \<open>indices from \<open>head.next\<close> to \<open>head.prev\<close>\<close>
  dtrace :: "(u32 \<times> block) list"

definition upd_buf :: "nat \<Rightarrow> (buf \<Rightarrow> buf) \<Rightarrow> 'a bio_scheme \<Rightarrow> 'a bio_scheme" where
  "upd_buf i f s = s\<lparr>bufs := (bufs s)(i := f (bufs s i))\<rparr>"

definition acquiresleep :: "nat \<Rightarrow> 'a bio_scheme \<Rightarrow> 'a bio_scheme option" where
  "acquiresleep i s = (if b_locked (bufs s i) then None else Some (upd_buf i (\<lambda>b. b\<lparr>b_locked := True\<rparr>) s))"

definition releasesleep :: "nat \<Rightarrow> 'a bio_scheme \<Rightarrow> 'a bio_scheme" where
  "releasesleep i s = upd_buf i (\<lambda>b. b\<lparr>b_locked := False\<rparr>) s"

definition holdingsleep :: "nat \<Rightarrow> 'a bio_scheme \<Rightarrow> bool" where
  "holdingsleep i s = b_locked (bufs s i)"

section \<open>The disk\<close>

definition disk_write :: "u32 \<Rightarrow> block \<Rightarrow> 'a bio_scheme \<Rightarrow> 'a bio_scheme" where
  "disk_write n d s = s\<lparr>disk := (disk s)(n := d), dtrace := dtrace s @ [(n, d)]\<rparr>"

definition iderw :: "nat \<Rightarrow> 'a bio_scheme \<Rightarrow> 'a bio_scheme option" where
  "iderw i s =
     (let b = bufs s i
      in if \<not> holdingsleep i s then None
         else if b_valid b \<and> \<not> b_dirty b then None
         else if b_dev b \<noteq> 1 then None
         else if b_blockno b \<ge> disksize s then None
         else if b_dirty b then
           Some (upd_buf i (\<lambda>b. b\<lparr>b_dirty := False, b_valid := True\<rparr>) (disk_write (b_blockno b) (b_data b) s))
         else Some (upd_buf i (\<lambda>b. b\<lparr>b_data := disk s (b_blockno b), b_valid := True\<rparr>) s))"

section \<open>The cache\<close>

definition binit :: "'a bio_scheme \<Rightarrow> 'a bio_scheme" where
  "binit s = s\<lparr>lru := rev [0..<NBUF], bufs := (\<lambda>i. (bufs s i)\<lparr>b_locked := False\<rparr>)\<rparr>"

definition bget :: "u32 \<Rightarrow> u32 \<Rightarrow> 'a bio_scheme \<Rightarrow> (nat \<times> 'a bio_scheme) option" where
  "bget dev blockno s =
     (case find (\<lambda>i. b_dev (bufs s i) = dev \<and> b_blockno (bufs s i) = blockno) (lru s) of
        Some i \<Rightarrow> do {
          s \<leftarrow> acquiresleep i (upd_buf i (\<lambda>b. b\<lparr>b_refcnt := b_refcnt b + 1\<rparr>) s);
          Some (i, s)
        }
      | None \<Rightarrow>
          (case find (\<lambda>i. b_refcnt (bufs s i) = 0 \<and> \<not> b_dirty (bufs s i)) (rev (lru s)) of
             Some i \<Rightarrow> do {
               s \<leftarrow> acquiresleep i (upd_buf i (\<lambda>b. b\<lparr>b_dev := dev, b_blockno := blockno, b_valid := False,
                      b_dirty := False, b_refcnt := 1\<rparr>) s);
               Some (i, s)
             }
           | None \<Rightarrow> None))"

definition bread :: "u32 \<Rightarrow> u32 \<Rightarrow> 'a bio_scheme \<Rightarrow> (nat \<times> 'a bio_scheme) option" where
  "bread dev blockno s = do {
     (i, s) \<leftarrow> bget dev blockno s;
     s \<leftarrow> (if \<not> b_valid (bufs s i) then iderw i s else Some s);
     Some (i, s)
   }"

definition bwrite :: "nat \<Rightarrow> 'a bio_scheme \<Rightarrow> 'a bio_scheme option" where
  "bwrite i s =
     (if \<not> holdingsleep i s then None else iderw i (upd_buf i (\<lambda>b. b\<lparr>b_dirty := True\<rparr>) s))"

definition brelse :: "nat \<Rightarrow> 'a bio_scheme \<Rightarrow> 'a bio_scheme option" where
  "brelse i s =
     (if \<not> holdingsleep i s then None
      else
        let s1 = upd_buf i (\<lambda>b. b\<lparr>b_refcnt := b_refcnt b - 1\<rparr>) (releasesleep i s)
        in Some (if b_refcnt (bufs s1 i) = 0 then s1\<lparr>lru := i # filter (\<lambda>j. j \<noteq> i) (lru s1)\<rparr> else s1))"

text \<open>An assignment to the data of a buffer.\<close>

definition set_data :: "nat \<Rightarrow> block \<Rightarrow> 'a bio_scheme \<Rightarrow> 'a bio_scheme" where
  "set_data i d s = upd_buf i (\<lambda>b. b\<lparr>b_data := d\<rparr>) s"

text \<open>\<open>b->flags |= B_DIRTY\<close>.\<close>

definition set_dirty :: "nat \<Rightarrow> 'a bio_scheme \<Rightarrow> 'a bio_scheme" where
  "set_dirty i s = upd_buf i (\<lambda>b. b\<lparr>b_dirty := True\<rparr>) s"

section \<open>Contents of a block\<close>

definition cached :: "'a bio_scheme \<Rightarrow> u32 \<Rightarrow> nat option" where
  "cached s n = find (\<lambda>i. b_dev (bufs s i) = 1 \<and> b_blockno (bufs s i) = n) (lru s)"

text \<open>What a reader of block \<open>n\<close> finds.\<close>

definition blk :: "'a bio_scheme \<Rightarrow> u32 \<Rightarrow> block" where
  "blk s n = (case cached s n of
     Some i \<Rightarrow> if b_valid (bufs s i) then b_data (bufs s i) else disk s n
   | None \<Rightarrow> disk s n)"

text \<open>Blocks that are held, and blocks with contents that are not yet on the disk.\<close>

definition held :: "'a bio_scheme \<Rightarrow> u32 \<Rightarrow> bool" where
  "held s n \<longleftrightarrow> (\<exists>i. cached s n = Some i \<and> b_locked (bufs s i))"

definition dirty :: "'a bio_scheme \<Rightarrow> u32 \<Rightarrow> bool" where
  "dirty s n \<longleftrightarrow> (\<exists>i. cached s n = Some i \<and> b_dirty (bufs s i))"

text \<open>
  The invariant: the list has every buffer once, no block is cached twice, a buffer is referenced
  exactly while it is locked, and a clean buffer that is not held agrees with the disk.
\<close>

definition bio_inv :: "'a bio_scheme \<Rightarrow> bool" where
  "bio_inv s \<longleftrightarrow> distinct (lru s) \<and> set (lru s) = {..<NBUF} \<and>
     (\<forall>i < NBUF. \<forall>j < NBUF. b_dev (bufs s i) = 1 \<longrightarrow> b_dev (bufs s j) = 1 \<longrightarrow>
        b_blockno (bufs s i) = b_blockno (bufs s j) \<longrightarrow> i = j) \<and>
     (\<forall>i < NBUF. b_refcnt (bufs s i) = (if b_locked (bufs s i) then 1 else 0)) \<and>
     (\<forall>i < NBUF. b_dirty (bufs s i) \<longrightarrow> b_valid (bufs s i) \<and> b_dev (bufs s i) = 1) \<and>
     (\<forall>i < NBUF. b_dev (bufs s i) = 1 \<longrightarrow> b_valid (bufs s i) \<longrightarrow> \<not> b_dirty (bufs s i) \<longrightarrow> \<not> b_locked (bufs s i) \<longrightarrow>
        b_data (bufs s i) = disk s (b_blockno (bufs s i))) \<and>
     (\<forall>i < NBUF. b_locked (bufs s i) \<longrightarrow> b_valid (bufs s i) \<and> b_dev (bufs s i) = 1)"

text \<open>The number of buffers that can be taken for another block.\<close>

definition free_bufs :: "'a bio_scheme \<Rightarrow> nat" where
  "free_bufs s = length (filter (\<lambda>i. b_refcnt (bufs s i) = 0 \<and> \<not> b_dirty (bufs s i)) (lru s))"

end
