(* ===== verification/Xv6_Cache.thy ===== *)
theory Xv6_Cache
  imports Xv6_Bio
begin

text \<open>
  The buffer cache keeps every block: reading finds the current contents, in the cache or on the
  disk, and neither reading nor releasing changes the contents of any block.  Reading succeeds
  while a buffer is clean and not held.
\<close>

lemma upd_buf_simps [simp]:
  "bufs (upd_buf i f s) j = (if j = i then f (bufs s i) else bufs s j)"
  "lru (upd_buf i f s) = lru s" "disk (upd_buf i f s) = disk s" "dtrace (upd_buf i f s) = dtrace s"
  "disksize (upd_buf i f s) = disksize s" "bio.more (upd_buf i f s) = bio.more s"
  by (simp_all add: upd_buf_def)

lemma disk_write_simps [simp]:
  "bufs (disk_write n d s) = bufs s" "lru (disk_write n d s) = lru s" "disk (disk_write n d s) = (disk s)(n := d)"
  "dtrace (disk_write n d s) = dtrace s @ [(n, d)]" "disksize (disk_write n d s) = disksize s"
  "bio.more (disk_write n d s) = bio.more s"
  by (simp_all add: disk_write_def)

lemma find_Some_mem: "find P xs = Some x \<Longrightarrow> x \<in> set xs \<and> P x"
  by (induction xs) (auto split: if_splits)

text \<open>The parts of the invariant, by name.\<close>

lemma bio_invD:
  assumes "bio_inv s"
  shows "distinct (lru s)" "set (lru s) = {..<NBUF}"
    and "i < NBUF \<Longrightarrow> j < NBUF \<Longrightarrow> b_dev (bufs s i) = 1 \<Longrightarrow> b_dev (bufs s j) = 1 \<Longrightarrow>
      b_blockno (bufs s i) = b_blockno (bufs s j) \<Longrightarrow> i = j"
    and "i < NBUF \<Longrightarrow> b_refcnt (bufs s i) = (if b_locked (bufs s i) then 1 else 0)"
    and "i < NBUF \<Longrightarrow> b_dirty (bufs s i) \<Longrightarrow> b_valid (bufs s i) \<and> b_dev (bufs s i) = 1"
    and "i < NBUF \<Longrightarrow> b_dev (bufs s i) = 1 \<Longrightarrow> b_valid (bufs s i) \<Longrightarrow> \<not> b_dirty (bufs s i) \<Longrightarrow> \<not> b_locked (bufs s i) \<Longrightarrow>
      b_data (bufs s i) = disk s (b_blockno (bufs s i))"
    and "i < NBUF \<Longrightarrow> b_locked (bufs s i) \<Longrightarrow> b_valid (bufs s i) \<and> b_dev (bufs s i) = 1"
proof -
  show "distinct (lru s)" "set (lru s) = {..<NBUF}" using assms by (simp_all add: bio_inv_def)
  show "i = j" if "i < NBUF" "j < NBUF" "b_dev (bufs s i) = 1" "b_dev (bufs s j) = 1"
    "b_blockno (bufs s i) = b_blockno (bufs s j)"
    using assms that unfolding bio_inv_def by blast
  show "b_refcnt (bufs s i) = (if b_locked (bufs s i) then 1 else 0)" if "i < NBUF"
    using assms that unfolding bio_inv_def by blast
  show "b_valid (bufs s i) \<and> b_dev (bufs s i) = 1" if "i < NBUF" "b_dirty (bufs s i)"
    using assms that unfolding bio_inv_def by simp
  show "b_data (bufs s i) = disk s (b_blockno (bufs s i))"
    if "i < NBUF" "b_dev (bufs s i) = 1" "b_valid (bufs s i)" "\<not> b_dirty (bufs s i)" "\<not> b_locked (bufs s i)"
    using assms that unfolding bio_inv_def by simp
  show "b_valid (bufs s i) \<and> b_dev (bufs s i) = 1" if "i < NBUF" "b_locked (bufs s i)"
    using assms that unfolding bio_inv_def by simp
qed

lemma cached_iff:
  assumes "bio_inv s"
  shows "cached s n = Some i \<longleftrightarrow> i < NBUF \<and> b_dev (bufs s i) = 1 \<and> b_blockno (bufs s i) = n"
proof
  assume "cached s n = Some i"
  then show "i < NBUF \<and> b_dev (bufs s i) = 1 \<and> b_blockno (bufs s i) = n"
    using find_Some_mem bio_invD(2) [OF assms] unfolding cached_def by fastforce
next
  assume i: "i < NBUF \<and> b_dev (bufs s i) = 1 \<and> b_blockno (bufs s i) = n"
  then have "cached s n \<noteq> None" using bio_invD(2) [OF assms] by (auto simp: cached_def find_None_iff)
  then obtain j where j: "cached s n = Some j" by blast
  then have "j < NBUF \<and> b_dev (bufs s j) = 1 \<and> b_blockno (bufs s j) = n"
    using find_Some_mem bio_invD(2) [OF assms] unfolding cached_def by fastforce
  with i j show "cached s n = Some i" using bio_invD(3) [OF assms] by blast
qed

lemma cached_None_iff:
  assumes "bio_inv s"
  shows "cached s n = None \<longleftrightarrow> (\<forall>i < NBUF. b_dev (bufs s i) = 1 \<longrightarrow> b_blockno (bufs s i) \<noteq> n)"
  using cached_iff [OF assms, of n] by (cases "cached s n") (auto simp: bio_invD(2) [OF assms] cached_def find_None_iff)

text \<open>
  Two states with the same keys have the same blocks in the cache; this is how the operations
  below are compared.
\<close>

lemma cached_cong:
  assumes "bio_inv s" "bio_inv s'"
    and "\<And>i. i < NBUF \<Longrightarrow> b_dev (bufs s' i) = b_dev (bufs s i) \<and> b_blockno (bufs s' i) = b_blockno (bufs s i)"
  shows "cached s' n = cached s n"
proof (cases "cached s n")
  case None
  then have "cached s' n = None"
    using assms(3) by (simp add: cached_None_iff [OF assms(1)] cached_None_iff [OF assms(2)])
  with None show ?thesis by simp
next
  case (Some i)
  then have "cached s' n = Some i" using assms(3) by (simp add: cached_iff [OF assms(1)] cached_iff [OF assms(2)])
  with Some show ?thesis by simp
qed

definition bio_same :: "'a bio_scheme \<Rightarrow> 'a bio_scheme \<Rightarrow> bool" where
  "bio_same s s' \<longleftrightarrow> (\<forall>m. blk s' m = blk s m) \<and> disk s' = disk s \<and> disksize s' = disksize s \<and>
     dtrace s' = dtrace s \<and> (\<forall>m. dirty s' m = dirty s m) \<and> bio.more s' = bio.more s"

lemma bread_hit:
  assumes inv: "bio_inv s" and c: "cached s n = Some i" and nl: "\<not> b_locked (bufs s i)"
  shows "bread 1 n s =
    (let s1 = upd_buf i (\<lambda>b. b\<lparr>b_refcnt := 1, b_locked := True\<rparr>) s
     in if b_valid (bufs s i) then Some (i, s1)
        else if n \<ge> disksize s then None
        else Some (i, upd_buf i (\<lambda>b. b\<lparr>b_data := disk s n, b_valid := True\<rparr>) s1))"
proof -
  have i: "i < NBUF" "b_dev (bufs s i) = 1" "b_blockno (bufs s i) = n" using c cached_iff [OF inv] by blast+
  have "b_refcnt (bufs s i) = 0" using bio_invD(4) [OF inv i(1)] nl by simp
  moreover have "\<not> b_valid (bufs s i) \<Longrightarrow> \<not> b_dirty (bufs s i)" using bio_invD(5) [OF inv i(1)] by blast
  ultimately show ?thesis
    using c nl i unfolding cached_def
    by (simp add: bread_def bget_def acquiresleep_def iderw_def holdingsleep_def Let_def upd_buf_def)
qed

lemma bread_miss:
  assumes inv: "bio_inv s" and c: "cached s n = None"
    and v: "find (\<lambda>i. b_refcnt (bufs s i) = 0 \<and> \<not> b_dirty (bufs s i)) (rev (lru s)) = Some i"
  shows "bread 1 n s =
    (if n \<ge> disksize s then None
     else Some (i, upd_buf i (\<lambda>b. b\<lparr>b_dev := 1, b_blockno := n, b_dirty := False, b_refcnt := 1,
            b_locked := True, b_data := disk s n, b_valid := True\<rparr>) s))"
proof -
  have i: "i < NBUF" "b_refcnt (bufs s i) = 0" using find_Some_mem [OF v] bio_invD(2) [OF inv] by auto
  then have "\<not> b_locked (bufs s i)" using bio_invD(4) [OF inv i(1)] by (auto split: if_splits)
  then show ?thesis
    using c v unfolding cached_def
    by (simp add: bread_def bget_def acquiresleep_def iderw_def holdingsleep_def Let_def upd_buf_def)
qed

text \<open>A block that is not held, of the disk, can be read when it is cached or a buffer is free.\<close>

lemma find_Some_ex: "\<exists>x \<in> set xs. P x \<Longrightarrow> \<exists>x. find P xs = Some x"
  by (induction xs) auto

lemma free_bufs_pos: "0 < free_bufs s \<longleftrightarrow> (\<exists>i \<in> set (lru s). b_refcnt (bufs s i) = 0 \<and> \<not> b_dirty (bufs s i))"
  unfolding free_bufs_def by (induction "lru s") (auto simp: filter_empty_conv)

lemma bread_total:
  assumes inv: "bio_inv s" and "\<not> held s n" "n < disksize s" "cached s n \<noteq> None \<or> 0 < free_bufs s"
  shows "\<exists>i s'. bread 1 n s = Some (i, s')"
proof (cases "cached s n")
  case (Some i)
  then have "\<not> b_locked (bufs s i)" using assms(2) by (auto simp: held_def)
  then show ?thesis using bread_hit [OF inv Some] assms(3) by (auto simp: Let_def)
next
  case None
  then have "\<exists>i \<in> set (rev (lru s)). b_refcnt (bufs s i) = 0 \<and> \<not> b_dirty (bufs s i)"
    using assms(4) by (auto simp: free_bufs_pos)
  from find_Some_ex [OF this] show ?thesis using bread_miss [OF inv None] assms(3) by auto
qed

text \<open>What \<open>bread\<close> changes: the buffer that it returns.\<close>

lemma bread_effect:
  assumes inv: "bio_inv s" and ret: "bread 1 n s = Some (i, s')"
  shows "i < NBUF" "\<not> b_locked (bufs s i)" "cached s n = Some i \<or> cached s n = None \<and> \<not> b_dirty (bufs s i)"
    and "\<And>j. j \<noteq> i \<Longrightarrow> bufs s' j = bufs s j"
    and "b_dev (bufs s' i) = 1" "b_blockno (bufs s' i) = n" "b_valid (bufs s' i)" "b_dirty (bufs s' i) = b_dirty (bufs s i)"
    and "b_refcnt (bufs s' i) = 1" "b_locked (bufs s' i)" "b_data (bufs s' i) = blk s n"
    and "lru s' = lru s" "disk s' = disk s" "disksize s' = disksize s" "dtrace s' = dtrace s" "bio.more s' = bio.more s"
proof -
  have "i < NBUF \<and> \<not> b_locked (bufs s i) \<and> (cached s n = Some i \<or> cached s n = None \<and> \<not> b_dirty (bufs s i)) \<and>
      (\<forall>j. j \<noteq> i \<longrightarrow> bufs s' j = bufs s j) \<and>
      b_dev (bufs s' i) = 1 \<and> b_blockno (bufs s' i) = n \<and> b_valid (bufs s' i) \<and> b_dirty (bufs s' i) = b_dirty (bufs s i) \<and>
      b_refcnt (bufs s' i) = 1 \<and> b_locked (bufs s' i) \<and> b_data (bufs s' i) = blk s n \<and>
      lru s' = lru s \<and> disk s' = disk s \<and> disksize s' = disksize s \<and> dtrace s' = dtrace s \<and> bio.more s' = bio.more s"
  proof (cases "cached s n")
    case (Some j)
    have j: "j < NBUF" "b_dev (bufs s j) = 1" "b_blockno (bufs s j) = n" using Some cached_iff [OF inv] by blast+
    have nl: "\<not> b_locked (bufs s j)"
      using ret Some unfolding cached_def by (auto simp: bread_def bget_def acquiresleep_def split: if_splits)
    show ?thesis using ret Some nl j unfolding bread_hit [OF inv Some nl]
      by (auto simp: Let_def blk_def split: if_splits)
  next
    case None
    then obtain j where v: "find (\<lambda>i. b_refcnt (bufs s i) = 0 \<and> \<not> b_dirty (bufs s i)) (rev (lru s)) = Some j"
      using ret unfolding cached_def by (cases "find (\<lambda>i. b_refcnt (bufs s i) = 0 \<and> \<not> b_dirty (bufs s i)) (rev (lru s))")
        (auto simp: bread_def bget_def)
    have j: "j < NBUF" "b_refcnt (bufs s j) = 0" "\<not> b_dirty (bufs s j)"
      using find_Some_mem [OF v] bio_invD(2) [OF inv] by auto
    have "\<not> b_locked (bufs s j)" using bio_invD(4) [OF inv j(1)] j(2) by (auto split: if_splits)
    then show ?thesis using ret j None unfolding bread_miss [OF inv None v]
      by (auto simp: blk_def split: if_splits)
  qed
  then show "i < NBUF" "\<not> b_locked (bufs s i)" "cached s n = Some i \<or> cached s n = None \<and> \<not> b_dirty (bufs s i)"
    "\<And>j. j \<noteq> i \<Longrightarrow> bufs s' j = bufs s j"
    "b_dev (bufs s' i) = 1" "b_blockno (bufs s' i) = n" "b_valid (bufs s' i)" "b_dirty (bufs s' i) = b_dirty (bufs s i)"
    "b_refcnt (bufs s' i) = 1" "b_locked (bufs s' i)" "b_data (bufs s' i) = blk s n"
    "lru s' = lru s" "disk s' = disk s" "disksize s' = disksize s" "dtrace s' = dtrace s" "bio.more s' = bio.more s"
    by blast+
qed

text \<open>Keys stay different when a buffer takes the key of a block that no other buffer has.\<close>

lemma bread_inv:
  assumes inv: "bio_inv s" and ret: "bread 1 n s = Some (i, s')"
  shows "bio_inv s'"
proof -
  note e = bread_effect [OF inv ret]
  have b: "bufs s' j = bufs s j \<or> j = i" for j using e(4) by blast
  have fresh: "b_blockno (bufs s j) \<noteq> n" if "j < NBUF" "j \<noteq> i" "b_dev (bufs s j) = 1" for j
  proof
    assume "b_blockno (bufs s j) = n"
    then have "cached s n = Some j" using that by (simp add: cached_iff [OF inv])
    with e(3) that(2) show False by simp
  qed
  have keys: "j = k" if "j < NBUF" "k < NBUF" "b_dev (bufs s' j) = 1" "b_dev (bufs s' k) = 1"
    "b_blockno (bufs s' j) = b_blockno (bufs s' k)" for j k
  proof (cases "j = i \<or> k = i")
    case True
    show ?thesis
    proof (rule ccontr)
      assume "j \<noteq> k"
      with True consider "j = i" "k \<noteq> i" | "k = i" "j \<noteq> i" by blast
      then show False
      proof cases
        case 1
        then show False using that(2,4,5) fresh [of k] e(4) [of k] e(6) by simp
      next
        case 2
        then show False using that(1,3,5) fresh [of j] e(4) [of j] e(6) by simp
      qed
    qed
  next
    case False
    then have "bufs s' j = bufs s j" "bufs s' k = bufs s k" using e(4) by blast+
    then show ?thesis using that bio_invD(3) [OF inv that(1,2)] by simp
  qed
  have pt: "b_refcnt (bufs s' j) = (if b_locked (bufs s' j) then 1 else 0) \<and> (b_dirty (bufs s' j) \<longrightarrow> b_valid (bufs s' j) \<and> b_dev (bufs s' j) = 1) \<and>
      (b_dev (bufs s' j) = 1 \<longrightarrow> b_valid (bufs s' j) \<longrightarrow> \<not> b_dirty (bufs s' j) \<longrightarrow> \<not> b_locked (bufs s' j) \<longrightarrow>
        b_data (bufs s' j) = disk s' (b_blockno (bufs s' j))) \<and>
      (b_locked (bufs s' j) \<longrightarrow> b_valid (bufs s' j) \<and> b_dev (bufs s' j) = 1)" if "j < NBUF" for j
  proof (cases "j = i")
    case True
    then show ?thesis using e(5-10) by simp
  next
    case False
    show ?thesis using bio_invD(4-7) [OF inv that] unfolding e(4) [OF False] e(13) by simp
  qed
  moreover have "distinct (lru s')" "set (lru s') = {..<NBUF}" using bio_invD(1,2) [OF inv] e(12) by simp_all
  ultimately show ?thesis unfolding bio_inv_def using keys pt by simp
qed

lemma bread_spec:
  assumes inv: "bio_inv s" and ret: "bread 1 n s = Some (i, s')"
  shows "cached s' n = Some i" "\<not> held s n" "held s' m \<longleftrightarrow> held s m \<or> m = n" "bio_same s s'"
proof -
  note e = bread_effect [OF inv ret] and inv' = bread_inv [OF inv ret]
  show c: "cached s' n = Some i" using e cached_iff [OF inv'] by blast
  show nh: "\<not> held s n" using e(2,3) by (auto simp: held_def)
  have other: "cached s' m = Some k \<longleftrightarrow> cached s m = Some k \<and> k \<noteq> i" if "m \<noteq> n" for m k
    using that e(4) [of k] e(6) by (cases "k = i") (auto simp: cached_iff [OF inv] cached_iff [OF inv'])
  have gone: "cached s' m = None \<longleftrightarrow> cached s m = None \<or> cached s m = Some i" if "m \<noteq> n" for m
    using other [OF that] by (metis not_None_eq option.inject)
  have clean: "\<not> b_dirty (bufs s i)" if "cached s m = Some i" "m \<noteq> n" for m
    using e(3) that cached_iff [OF inv, of m i] cached_iff [OF inv, of n i] by metis
  have blk_n: "blk s' n = blk s n" using c e(7,11) unfolding blk_def [of s'] by simp
  have blk: "blk s' m = blk s m" for m
  proof (cases "m = n")
    case False
    have "blk s m = disk s m" if i: "cached s m = Some i" "m \<noteq> n"
    proof -
      have "i < NBUF" "b_dev (bufs s i) = 1" "b_blockno (bufs s i) = m" using i(1) cached_iff [OF inv] by blast+
      with clean [OF i] e(2) i(1) show ?thesis using bio_invD(6) [OF inv] by (auto simp: blk_def)
    qed
    moreover have "blk s' m = blk s m" if "cached s m \<noteq> Some i"
    proof (cases "cached s m")
      case None
      then show ?thesis using gone [OF False] e(13) by (simp add: blk_def)
    next
      case (Some j)
      then have "cached s' m = Some j" "j \<noteq> i" using other [OF False] that by auto
      then show ?thesis using Some e(4,13) by (simp add: blk_def)
    qed
    ultimately show ?thesis using gone [OF False] False e(13) by (cases "cached s m = Some i") (auto simp: blk_def)
  qed (simp add: blk_n)
  have dirty: "dirty s' m = dirty s m" for m
  proof (cases "m = n")
    case True
    then show ?thesis using c e(3,8) by (auto simp: dirty_def)
  next
    case False
    show ?thesis using other [OF False] clean [OF _ False] e(4) unfolding dirty_def by metis
  qed
  show "bio_same s s'" using blk dirty e(13-16) by (simp add: bio_same_def)
  show "held s' m \<longleftrightarrow> held s m \<or> m = n"
  proof (cases "m = n")
    case True
    then show ?thesis using c e(10) by (auto simp: held_def)
  next
    case False
    show ?thesis using other [OF False] False e(2,4) unfolding held_def by metis
  qed
qed

section \<open>Buffers that are held\<close>

text \<open>
  A change of one held buffer that keeps its key, its lock and its being valid keeps the invariant
  and the cache.
\<close>

lemma upd_held:
  assumes inv: "bio_inv s" and i: "cached s n = Some i" "b_locked (bufs s i)"
    and f: "b_dev (f (bufs s i)) = 1" "b_blockno (f (bufs s i)) = n" "b_locked (f (bufs s i))"
      "b_valid (f (bufs s i))" "b_refcnt (f (bufs s i)) = b_refcnt (bufs s i)"
  shows "bio_inv (upd_buf i f s)" "cached (upd_buf i f s) m = cached s m"
    "held (upd_buf i f s) m = held s m" "blk (upd_buf i f s) m = (if m = n then b_data (f (bufs s i)) else blk s m)"
    "dirty (upd_buf i f s) m = (if m = n then b_dirty (f (bufs s i)) else dirty s m)"
proof -
  have c: "i < NBUF" "b_dev (bufs s i) = 1" "b_blockno (bufs s i) = n" using i(1) cached_iff [OF inv] by blast+
  have key: "b_dev (bufs (upd_buf i f s) j) = b_dev (bufs s j) \<and> b_blockno (bufs (upd_buf i f s) j) = b_blockno (bufs s j)" for j
    using f c by simp
  have "i < NBUF \<longrightarrow> b_refcnt (bufs s i) = 1" using bio_invD(4) [OF inv] i(2) by simp
  then show inv': "bio_inv (upd_buf i f s)" using inv f c i(2) unfolding bio_inv_def by auto
  show same: "cached (upd_buf i f s) m = cached s m" for m using cached_cong [OF inv inv' key] .
  show "held (upd_buf i f s) m = held s m" using f(3) i(2) same by (auto simp: held_def)
  have ne: "cached s m \<noteq> Some i" if "m \<noteq> n" using that c cached_iff [OF inv, of m i] by blast
  show "blk (upd_buf i f s) m = (if m = n then b_data (f (bufs s i)) else blk s m)"
  proof (cases "m = n")
    case False
    then show ?thesis using ne same by (cases "cached s m") (simp_all add: blk_def)
  qed (simp add: blk_def same i(1) f(4))
  show "dirty (upd_buf i f s) m = (if m = n then b_dirty (f (bufs s i)) else dirty s m)"
  proof (cases "m = n")
    case False
    then show ?thesis using ne same by (cases "cached s m") (simp_all add: dirty_def)
  qed (simp add: dirty_def same i(1))
qed

lemma set_data_spec:
  assumes inv: "bio_inv s" and i: "cached s n = Some i" "b_locked (bufs s i)"
  shows "bio_inv (set_data i d s)" "cached (set_data i d s) m = cached s m" "held (set_data i d s) m = held s m"
    "blk (set_data i d s) m = (if m = n then d else blk s m)" "dirty (set_data i d s) m = dirty s m"
    "disk (set_data i d s) = disk s" "dtrace (set_data i d s) = dtrace s" "disksize (set_data i d s) = disksize s"
    "bio.more (set_data i d s) = bio.more s" "b_locked (bufs (set_data i d s) j) = b_locked (bufs s j)"
proof -
  have c: "i < NBUF" "b_dev (bufs s i) = 1" "b_blockno (bufs s i) = n" using i(1) cached_iff [OF inv] by blast+
  have v: "b_valid (bufs s i)" using bio_invD(7) [OF inv c(1)] i(2) by blast
  have f: "b_dev ((bufs s i)\<lparr>b_data := d\<rparr>) = 1" "b_blockno ((bufs s i)\<lparr>b_data := d\<rparr>) = n"
    "b_locked ((bufs s i)\<lparr>b_data := d\<rparr>)" "b_valid ((bufs s i)\<lparr>b_data := d\<rparr>)"
    "b_refcnt ((bufs s i)\<lparr>b_data := d\<rparr>) = b_refcnt (bufs s i)" using c v i by simp_all
  note u = upd_held [OF inv i, where f = "\<lambda>b. b\<lparr>b_data := d\<rparr>", OF f]
  show "bio_inv (set_data i d s)" "cached (set_data i d s) m = cached s m" "held (set_data i d s) m = held s m"
    "blk (set_data i d s) m = (if m = n then d else blk s m)" using u by (simp_all add: set_data_def)
  show "dirty (set_data i d s) m = dirty s m" using u(5) [of m] i(1) by (simp add: set_data_def dirty_def)
qed (simp_all add: set_data_def)

lemma set_dirty_spec:
  assumes inv: "bio_inv s" and i: "cached s n = Some i" "b_locked (bufs s i)"
  shows "bio_inv (set_dirty i s)" "cached (set_dirty i s) m = cached s m" "held (set_dirty i s) m = held s m"
    "blk (set_dirty i s) m = blk s m" "dirty (set_dirty i s) m \<longleftrightarrow> m = n \<or> dirty s m"
    "disk (set_dirty i s) = disk s" "dtrace (set_dirty i s) = dtrace s" "disksize (set_dirty i s) = disksize s"
    "bio.more (set_dirty i s) = bio.more s" "b_locked (bufs (set_dirty i s) j) = b_locked (bufs s j)"
    "b_data (bufs (set_dirty i s) j) = b_data (bufs s j)"
proof -
  have c: "i < NBUF" "b_dev (bufs s i) = 1" "b_blockno (bufs s i) = n" using i(1) cached_iff [OF inv] by blast+
  have v: "b_valid (bufs s i)" using bio_invD(7) [OF inv c(1)] i(2) by blast
  have f: "b_dev ((bufs s i)\<lparr>b_dirty := True\<rparr>) = 1" "b_blockno ((bufs s i)\<lparr>b_dirty := True\<rparr>) = n"
    "b_locked ((bufs s i)\<lparr>b_dirty := True\<rparr>)" "b_valid ((bufs s i)\<lparr>b_dirty := True\<rparr>)"
    "b_refcnt ((bufs s i)\<lparr>b_dirty := True\<rparr>) = b_refcnt (bufs s i)" using c v i by simp_all
  note u = upd_held [OF inv i, where f = "\<lambda>b. b\<lparr>b_dirty := True\<rparr>", OF f]
  show "bio_inv (set_dirty i s)" "cached (set_dirty i s) m = cached s m" "held (set_dirty i s) m = held s m"
    "dirty (set_dirty i s) m \<longleftrightarrow> m = n \<or> dirty s m" using u by (simp_all add: set_dirty_def)
  show "blk (set_dirty i s) m = blk s m" using u(4) [of m] i(1) v by (simp add: set_dirty_def blk_def)
qed (simp_all add: set_dirty_def)

lemma bwrite_spec:
  assumes inv: "bio_inv s" and i: "cached s n = Some i" "b_locked (bufs s i)" and n: "n < disksize s"
  shows "\<exists>s'. bwrite i s = Some s' \<and> bio_inv s' \<and> (\<forall>m. cached s' m = cached s m) \<and> (\<forall>m. held s' m = held s m) \<and>
    (\<forall>m. blk s' m = blk s m) \<and> (\<forall>m. dirty s' m \<longleftrightarrow> m \<noteq> n \<and> dirty s m) \<and> disk s' = (disk s)(n := blk s n) \<and>
    dtrace s' = dtrace s @ [(n, blk s n)] \<and> disksize s' = disksize s \<and> bio.more s' = bio.more s \<and>
    (\<forall>j. b_locked (bufs s' j) = b_locked (bufs s j)) \<and> (\<forall>j. b_data (bufs s' j) = b_data (bufs s j))"
proof -
  have c: "i < NBUF" "b_dev (bufs s i) = 1" "b_blockno (bufs s i) = n" using i(1) cached_iff [OF inv] by blast+
  have v: "b_valid (bufs s i)" using bio_invD(7) [OF inv c(1)] i(2) by blast
  have data: "b_data (bufs s i) = blk s n" using i(1) v by (simp add: blk_def)
  let ?f = "\<lambda>b. b\<lparr>b_dirty := False, b_valid := True\<rparr>"
  define s1 where "s1 = upd_buf i ?f s"
  have f: "b_dev (?f (bufs s i)) = 1" "b_blockno (?f (bufs s i)) = n" "b_locked (?f (bufs s i))" "b_valid (?f (bufs s i))"
    "b_refcnt (?f (bufs s i)) = b_refcnt (bufs s i)" using c v i by simp_all
  note u = upd_held [OF inv i, where f = ?f, OF f, folded s1_def]
  define s' where "s' = s1\<lparr>disk := (disk s)(n := blk s n), dtrace := dtrace s @ [(n, blk s n)]\<rparr>"
  have ret: "bwrite i s = Some s'"
    using i(2) c n data v by (simp add: bwrite_def iderw_def holdingsleep_def Let_def s'_def s1_def upd_buf_def disk_write_def)
  have cs: "cached s' m = cached s1 m" for m by (simp add: cached_def s'_def)
  have other: "b_blockno (bufs s1 j) \<noteq> n" if "j < NBUF" "b_dev (bufs s1 j) = 1" "j \<noteq> i" for j
    using bio_invD(3) [OF u(1) that(1) c(1) that(2)] c that(3) by (auto simp: s1_def)
  have "bio_inv s'"
  proof -
    have "b_data (bufs s1 j) = ((disk s)(n := blk s n)) (b_blockno (bufs s1 j))"
      if "j < NBUF" "b_dev (bufs s1 j) = 1" "b_valid (bufs s1 j)" "\<not> b_dirty (bufs s1 j)" "\<not> b_locked (bufs s1 j)" for j
      using bio_invD(6) [OF u(1) that] other [OF that(1,2)] that(5) i(2) by (cases "j = i") (simp_all add: s1_def)
    then show ?thesis using u(1) unfolding bio_inv_def s'_def by simp
  qed
  moreover have "blk s' m = blk s m" for m
  proof -
    have "blk s' m = blk s1 m"
      using u(2) i(1) v c unfolding blk_def cs by (cases "m = n") (auto simp: s'_def s1_def split: option.splits)
    then show ?thesis using u(4) [of m] data by simp
  qed
  moreover have "held s' m = held s m" "dirty s' m \<longleftrightarrow> m \<noteq> n \<and> dirty s m" for m
  proof -
    have "held s' m = held s1 m" "dirty s' m = dirty s1 m" unfolding held_def dirty_def cs by (simp_all add: s'_def)
    then show "held s' m = held s m" "dirty s' m \<longleftrightarrow> m \<noteq> n \<and> dirty s m" using u(3,5) by auto
  qed
  moreover have "disk s' = (disk s)(n := blk s n)" "dtrace s' = dtrace s @ [(n, blk s n)]" "disksize s' = disksize s"
    "bio.more s' = bio.more s" "b_locked (bufs s' j) = b_locked (bufs s j)" "b_data (bufs s' j) = b_data (bufs s j)" for j
    by (simp_all add: s'_def s1_def)
  moreover have "cached s' m = cached s m" for m using cs u(2) by simp
  ultimately show ?thesis using ret by blast
qed

lemma brelse_spec:
  assumes inv: "bio_inv s" and i: "cached s n = Some i" "b_locked (bufs s i)"
    and ok: "dirty s n \<or> blk s n = disk s n"
  shows "\<exists>s'. brelse i s = Some s' \<and> bio_inv s' \<and> (\<forall>m. cached s' m = cached s m) \<and> (\<forall>m. held s' m \<longleftrightarrow> m \<noteq> n \<and> held s m) \<and>
    (\<forall>m. blk s' m = blk s m) \<and> (\<forall>m. dirty s' m = dirty s m) \<and> disk s' = disk s \<and> dtrace s' = dtrace s \<and>
    disksize s' = disksize s \<and> bio.more s' = bio.more s \<and> (\<forall>j. j \<noteq> i \<longrightarrow> bufs s' j = bufs s j)"
proof -
  have c: "i < NBUF" "b_dev (bufs s i) = 1" "b_blockno (bufs s i) = n" using i(1) cached_iff [OF inv] by blast+
  have v: "b_valid (bufs s i)" using bio_invD(7) [OF inv c(1)] i(2) by blast
  have r: "b_refcnt (bufs s i) = 1" using bio_invD(4) [OF inv c(1)] i(2) by simp
  define s' where "s' = (upd_buf i (\<lambda>b. b\<lparr>b_refcnt := b_refcnt b - 1\<rparr>) (releasesleep i s))\<lparr>lru := i # filter (\<lambda>j. j \<noteq> i) (lru s)\<rparr>"
  have ret: "brelse i s = Some s'" using i(2) r by (simp add: brelse_def holdingsleep_def Let_def s'_def releasesleep_def)
  have b: "bufs s' j = (if j = i then (bufs s i)\<lparr>b_locked := False, b_refcnt := 0\<rparr> else bufs s j)" for j
    using r by (simp add: s'_def releasesleep_def)
  have d: "disk s' = disk s" "dtrace s' = dtrace s" "disksize s' = disksize s" "bio.more s' = bio.more s"
    by (simp_all add: s'_def releasesleep_def)
  have data: "b_dirty (bufs s i) \<or> b_data (bufs s i) = disk s n" using ok i(1) v by (auto simp: dirty_def blk_def)
  have lru: "distinct (lru s')" "set (lru s') = {..<NBUF}"
    using bio_invD(1,2) [OF inv] c(1) by (auto simp: s'_def)
  have inv': "bio_inv s'"
    using lru inv data c unfolding bio_inv_def b d by auto
  have same: "cached s' m = cached s m" for m
    by (rule cached_cong [OF inv inv']) (simp add: b)
  have ne: "m \<noteq> n \<Longrightarrow> cached s m \<noteq> Some i" for m using c cached_iff [OF inv, of m i] by blast
  have "blk s' m = blk s m" "dirty s' m = dirty s m" for m
    unfolding blk_def dirty_def same by (cases "cached s m"; simp add: b d)+
  moreover have "held s' m \<longleftrightarrow> m \<noteq> n \<and> held s m" for m
    using ne [of m] i(1) unfolding held_def same by (cases "m = n") (auto simp: b)
  ultimately show ?thesis using ret inv' same d b by auto
qed

text \<open>Room in the cache, by blocks: a buffer is free unless its block is dirty or held.\<close>

definition pinned :: "'a bio_scheme \<Rightarrow> u32 set" where
  "pinned s = {m. dirty s m \<or> held s m}"

lemma free_bufs_pinned:
  assumes inv: "bio_inv s" and p: "card (pinned s) < NBUF"
  shows "0 < free_bufs s"
proof (rule ccontr)
  assume "\<not> 0 < free_bufs s"
  then have all: "b_refcnt (bufs s i) \<noteq> 0 \<or> b_dirty (bufs s i)" if "i < NBUF" for i
    using that bio_invD(2) [OF inv] by (auto simp: free_bufs_pos)
  have pin: "b_dev (bufs s i) = 1 \<and> b_blockno (bufs s i) \<in> pinned s" if i: "i < NBUF" for i
  proof -
    have use: "b_dirty (bufs s i) \<or> b_locked (bufs s i)" using all [OF i] bio_invD(4) [OF inv i] by (auto split: if_splits)
    then have dev: "b_dev (bufs s i) = 1" using bio_invD(5,7) [OF inv i] by blast
    then have "cached s (b_blockno (bufs s i)) = Some i" using i cached_iff [OF inv] by blast
    with use dev show ?thesis by (auto simp: pinned_def dirty_def held_def)
  qed
  have "inj_on (\<lambda>i. b_blockno (bufs s i)) {..<NBUF}" using pin bio_invD(3) [OF inv] by (auto simp: inj_on_def)
  then have "NBUF \<le> card (pinned s)"
    using card_inj_on_le [of "\<lambda>i. b_blockno (bufs s i)" "{..<NBUF}" "pinned s"] pin by auto
  with p show False by simp
qed

lemma bread_ok:
  assumes "bio_inv s" "\<not> held s n" "n < disksize s" "dirty s n \<or> card (pinned s) < NBUF"
  shows "\<exists>i s'. bread 1 n s = Some (i, s')"
proof (rule bread_total [OF assms(1-3)])
  show "cached s n \<noteq> None \<or> 0 < free_bufs s"
    using assms(4) free_bufs_pinned [OF assms(1)] by (auto simp: dirty_def)
qed

end
