(* ===== verification/Xv6_Log.thy ===== *)
theory Xv6_Log
  imports Xv6_Cache
begin

text \<open>
  The write-ahead log of xv6 (\<open>log.c\<close>).  Its in-memory part extends the state of the block layer;
  its header on disk is a block of little-endian words, the number of logged blocks and their
  numbers.
\<close>

section \<open>Words in a block\<close>

definition put32 :: "nat \<Rightarrow> u32 \<Rightarrow> block \<Rightarrow> block" where
  "put32 k v d = d[k := ucast v, k + 1 := ucast (drop_bit 8 v), k + 2 := ucast (drop_bit 16 v), k + 3 := ucast (drop_bit 24 v)]"

definition get32 :: "block \<Rightarrow> nat \<Rightarrow> u32" where
  "get32 d k = ucast (d ! k) OR push_bit 8 (ucast (d ! (k + 1))) OR push_bit 16 (ucast (d ! (k + 2))) OR push_bit 24 (ucast (d ! (k + 3)))"

section \<open>State\<close>

definition LOGSIZE :: nat where "LOGSIZE = MAXOPBLOCKS * 3"

record xlog = bio +
  lg_start :: u32
  lg_size :: u32
  lg_outstanding :: int
  lg_committing :: bool
  lg_dev :: u32
  lh_n :: int
  lh_block :: "nat \<Rightarrow> u32"

record superblock =
  sb_size :: u32
  sb_nblocks :: u32
  sb_ninodes :: u32
  sb_nlog :: u32
  sb_logstart :: u32
  sb_inodestart :: u32
  sb_bmapstart :: u32

definition sb_of :: "block \<Rightarrow> superblock" where
  "sb_of d = \<lparr>sb_size = get32 d 0, sb_nblocks = get32 d 4, sb_ninodes = get32 d 8, sb_nlog = get32 d 12,
     sb_logstart = get32 d 16, sb_inodestart = get32 d 20, sb_bmapstart = get32 d 24\<rparr>"

definition readsb :: "u32 \<Rightarrow> 'a xlog_scheme \<Rightarrow> (superblock \<times> 'a xlog_scheme) option" where
  "readsb dev s = do {
     (bp, s) \<leftarrow> bread dev 1 s;
     let sb = sb_of (b_data (bufs s bp));
     s \<leftarrow> brelse bp s;
     Some (sb, s)
   }"

section \<open>The header\<close>

definition log_slot :: "'a xlog_scheme \<Rightarrow> nat \<Rightarrow> u32" where
  "log_slot s tail = lg_start s + word_of_nat tail + 1"

text \<open>The offset of \<open>block[i]\<close>.\<close>

definition head_off :: "nat \<Rightarrow> nat" where
  "head_off i = 4 * (i + 1)"

fun copy_head :: "(nat \<Rightarrow> u32) \<Rightarrow> nat list \<Rightarrow> block \<Rightarrow> block" where
  "copy_head blks [] d = d"
| "copy_head blks (i # is) d = copy_head blks is (put32 (head_off i) (blks i) d)"

text \<open>A number of blocks for which the array has no room is an error that \<open>read_head\<close> does not look for.\<close>

definition read_head :: "'a xlog_scheme \<Rightarrow> 'a xlog_scheme option" where
  "read_head s = do {
     (b, s) \<leftarrow> bread (lg_dev s) (lg_start s) s;
     let d = b_data (bufs s b);
     let n = sint (get32 d 0);
     if n > int LOGSIZE then None else brelse b (s\<lparr>lh_n := n, lh_block := (\<lambda>i. if int i < n then get32 d (head_off i) else lh_block s i)\<rparr>)
   }"

definition write_head :: "'a xlog_scheme \<Rightarrow> 'a xlog_scheme option" where
  "write_head s = do {
     (b, s) \<leftarrow> bread (lg_dev s) (lg_start s) s;
     let d = put32 0 (word_of_int (lh_n s)) (b_data (bufs s b));
     s \<leftarrow> bwrite b (set_data b (copy_head (lh_block s) [0..<nat (lh_n s)] d) s);
     brelse b s
   }"

section \<open>Copying blocks\<close>

fun install_blocks :: "nat list \<Rightarrow> 'a xlog_scheme \<Rightarrow> 'a xlog_scheme option" where
  "install_blocks [] s = Some s"
| "install_blocks (tail # ts) s = do {
     (lbuf, s) \<leftarrow> bread (lg_dev s) (log_slot s tail) s;
     (dbuf, s) \<leftarrow> bread (lg_dev s) (lh_block s tail) s;
     s \<leftarrow> bwrite dbuf (set_data dbuf (b_data (bufs s lbuf)) s);
     s \<leftarrow> brelse lbuf s;
     s \<leftarrow> brelse dbuf s;
     install_blocks ts s
   }"

definition install_trans :: "'a xlog_scheme \<Rightarrow> 'a xlog_scheme option" where
  "install_trans s = install_blocks [0..<nat (lh_n s)] s"

fun log_blocks :: "nat list \<Rightarrow> 'a xlog_scheme \<Rightarrow> 'a xlog_scheme option" where
  "log_blocks [] s = Some s"
| "log_blocks (tail # ts) s = do {
     (to, s) \<leftarrow> bread (lg_dev s) (log_slot s tail) s;
     (from, s) \<leftarrow> bread (lg_dev s) (lh_block s tail) s;
     s \<leftarrow> bwrite to (set_data to (b_data (bufs s from)) s);
     s \<leftarrow> brelse from s;
     s \<leftarrow> brelse to s;
     log_blocks ts s
   }"

definition write_log :: "'a xlog_scheme \<Rightarrow> 'a xlog_scheme option" where
  "write_log s = log_blocks [0..<nat (lh_n s)] s"

section \<open>Transactions\<close>

definition recover_from_log :: "'a xlog_scheme \<Rightarrow> 'a xlog_scheme option" where
  "recover_from_log s = do {
     s \<leftarrow> read_head s;
     s \<leftarrow> install_trans s;
     write_head (s\<lparr>lh_n := 0\<rparr>)
   }"

text \<open>The size of \<open>struct logheader\<close>, 124 bytes, is below \<open>BSIZE\<close>.\<close>

definition initlog :: "u32 \<Rightarrow> 'a xlog_scheme \<Rightarrow> 'a xlog_scheme option" where
  "initlog dev s =
     (if 4 * (LOGSIZE + 1) \<ge> BSIZE then None
      else do {
        (sb, s) \<leftarrow> readsb dev s;
        recover_from_log (s\<lparr>lg_start := sb_logstart sb, lg_size := sb_nlog sb, lg_dev := dev\<rparr>)
      })"

definition commit :: "'a xlog_scheme \<Rightarrow> 'a xlog_scheme option" where
  "commit s =
     (if lh_n s > 0 then do {
        s \<leftarrow> write_log s;
        s \<leftarrow> write_head s;
        s \<leftarrow> install_trans s;
        write_head (s\<lparr>lh_n := 0\<rparr>)
      } else Some s)"

text \<open>A call that has to wait sleeps until the state has changed as \<open>env\<close> says.\<close>

definition must_wait :: "'a xlog_scheme \<Rightarrow> bool" where
  "must_wait s \<longleftrightarrow> lg_committing s \<or>
     lh_n s + (lg_outstanding s + 1) * int MAXOPBLOCKS > int LOGSIZE"

partial_function (option) begin_op :: "('a xlog_scheme \<Rightarrow> 'a xlog_scheme) \<Rightarrow> 'a xlog_scheme \<Rightarrow> 'a xlog_scheme option" where
  "begin_op env s =
     (if must_wait s then begin_op env (env s)
      else Some (s\<lparr>lg_outstanding := lg_outstanding s + 1\<rparr>))"

definition end_op :: "'a xlog_scheme \<Rightarrow> 'a xlog_scheme option" where
  "end_op s =
     (let s = s\<lparr>lg_outstanding := lg_outstanding s - 1\<rparr>
      in if lg_committing s then None
         else if lg_outstanding s = 0 then do {
           s \<leftarrow> commit (s\<lparr>lg_committing := True\<rparr>);
           Some (s\<lparr>lg_committing := False\<rparr>)
         } else Some s)"

text \<open>The first place of a block in the log, or the end.\<close>

fun log_find :: "u32 \<Rightarrow> (nat \<Rightarrow> u32) \<Rightarrow> nat \<Rightarrow> nat \<Rightarrow> nat" where
  "log_find blockno blks 0 i = i"
| "log_find blockno blks (Suc k) i = (if blks i = blockno then i else log_find blockno blks k (i + 1))"

definition log_write :: "nat \<Rightarrow> 'a xlog_scheme \<Rightarrow> 'a xlog_scheme option" where
  "log_write b s =
     (if lh_n s \<ge> int LOGSIZE \<or> lh_n s \<ge> sint (lg_size s) - 1 then None
      else if lg_outstanding s < 1 then None
      else
        let blockno = b_blockno (bufs s b);
            i = log_find blockno (lh_block s) (nat (lh_n s)) 0;
            s1 = s\<lparr>lh_block := (lh_block s)(i := blockno), lh_n := (if int i = lh_n s then lh_n s + 1 else lh_n s)\<rparr>
        in Some (set_dirty b s1))"

end
