(* ===== verification/Xv6_Log_Writes.thy ===== *)
theory Xv6_Log_Writes
  imports Xv6_Log
begin

text \<open>
  The loops of the log as sequences of disk writes: words and headers in blocks, copying one block
  to another through the cache, writing the logged blocks to their places in the log and installing
  them.
\<close>

section \<open>Words in a block\<close>

lemma put32_length [simp]: "length (put32 k v d) = length d"
  by (simp add: put32_def)

lemma get32_put32: "k + 3 < length d \<Longrightarrow> get32 (put32 k v d) k = v"
  using bytes_of_word [of v] by (simp add: get32_def put32_def)

lemma get32_put32_other: "j + 3 < k \<or> k + 3 < j \<Longrightarrow> get32 (put32 k v d) j = get32 d j"
  by (auto simp: get32_def put32_def)

lemma copy_head_length [simp]: "length (copy_head blks is d) = length d"
  by (induction "is" arbitrary: d) auto

lemma head_off_apart: "i \<noteq> j \<Longrightarrow> head_off i + 3 < head_off j \<or> head_off j + 3 < head_off i" "3 < head_off i"
  by (auto simp: head_off_def)

lemma copy_head_n: "get32 (copy_head blks is d) 0 = get32 d 0"
  by (induction "is" arbitrary: d) (auto simp: get32_put32_other head_off_apart)

lemma copy_head_notin: "j \<notin> set is \<Longrightarrow> get32 (copy_head blks is d) (head_off j) = get32 d (head_off j)"
  by (induction "is" arbitrary: d) (auto simp: get32_put32_other head_off_apart)

lemma copy_head_block:
  "j \<in> set is \<Longrightarrow> distinct is \<Longrightarrow> head_off j + 3 < length d \<Longrightarrow> get32 (copy_head blks is d) (head_off j) = blks j"
  by (induction "is" arbitrary: d) (auto simp: copy_head_notin get32_put32)

section \<open>Sequences of disk writes\<close>

definition upds :: "(u32 \<times> block) list \<Rightarrow> (u32 \<Rightarrow> block) \<Rightarrow> u32 \<Rightarrow> block" where
  "upds ws f = fold (\<lambda>(m, d) f. f(m := d)) ws f"

lemma upds_simps [simp]: "upds [] f = f" "upds ((m, d) # ws) f = upds ws (f(m := d))"
  "upds (ws @ vs) f = upds vs (upds ws f)"
  by (simp_all add: upds_def)

lemma upds_notin: "m \<notin> fst ` set ws \<Longrightarrow> upds ws f m = f m"
  by (induction ws arbitrary: f) auto

lemma upds_map:
  "distinct (map g is) \<Longrightarrow> i \<in> set is \<Longrightarrow> upds (map (\<lambda>i. (g i, h i)) is) f (g i) = h i"
proof (induction "is" arbitrary: f)
  case (Cons j js)
  show ?case
  proof (cases "i = j")
    case True
    then have "g i \<notin> fst ` set (map (\<lambda>i. (g i, h i)) js)" using Cons.prems(1) by auto
    then show ?thesis using True by (simp add: upds_notin)
  next
    case False
    then show ?thesis using Cons by simp
  qed
qed simp

text \<open>An operation whose effect on blocks is to write \<open>ws\<close> in this order, to the cache and to the disk.\<close>

definition wrote :: "(u32 \<times> block) list \<Rightarrow> 'a bio_scheme \<Rightarrow> 'a bio_scheme \<Rightarrow> bool" where
  "wrote ws s s' \<longleftrightarrow> bio_inv s' \<and> blk s' = upds ws (blk s) \<and> disk s' = upds ws (disk s) \<and> dtrace s' = dtrace s @ ws \<and>
     (\<forall>m. dirty s' m \<longleftrightarrow> dirty s m \<and> m \<notin> fst ` set ws) \<and> (\<forall>m. held s' m = held s m) \<and>
     disksize s' = disksize s \<and> bio.more s' = bio.more s"

lemma wrote_refl: "bio_inv s \<Longrightarrow> wrote [] s s"
  by (simp add: wrote_def)

lemma wrote_trans: "wrote ws s s1 \<Longrightarrow> wrote vs s1 s2 \<Longrightarrow> wrote (ws @ vs) s s2"
  by (auto simp: wrote_def)

section \<open>Copying one block over another\<close>

lemma clean_blk:
  assumes "bio_inv s" "\<not> held s m"
  shows "dirty s m \<or> blk s m = disk s m"
proof (cases "cached s m")
  case (Some i)
  then have i: "i < NBUF" "b_dev (bufs s i) = 1" "b_blockno (bufs s i) = m" using cached_iff [OF assms(1)] by blast+
  have "\<not> b_locked (bufs s i)" using assms(2) Some by (auto simp: held_def)
  then show ?thesis using Some bio_invD(6) [OF assms(1) i(1,2)] i(3) by (auto simp: dirty_def blk_def)
qed (simp add: blk_def)

lemma card_pinned_less: "x \<notin> pinned s \<Longrightarrow> card (pinned s \<union> {x, y}) \<le> NBUF \<Longrightarrow> card (pinned s) < NBUF"
proof -
  assume x: "x \<notin> pinned s" and c: "card (pinned s \<union> {x, y}) \<le> NBUF"
  have "card (pinned s) < card (pinned s \<union> {x, y})" using x by (intro psubset_card_mono) auto
  with c show ?thesis by simp
qed

text \<open>Reading two blocks.\<close>

lemma bread_two:
  assumes inv: "bio_inv s" and ne: "x \<noteq> y" and h: "\<not> held s x" "\<not> held s y" and le: "x < disksize s" "y < disksize s"
    and room: "card (pinned s \<union> {x, y}) \<le> NBUF"
  shows "\<exists>i s1 j s2. bread 1 x s = Some (i, s1) \<and> bread 1 y s1 = Some (j, s2) \<and> bio_inv s2 \<and> bio_same s s1 \<and> bio_same s s2 \<and>
    cached s2 x = Some i \<and> cached s2 y = Some j \<and> i \<noteq> j \<and> b_locked (bufs s2 i) \<and> b_locked (bufs s2 j) \<and>
    b_data (bufs s2 i) = blk s x \<and> b_data (bufs s2 j) = blk s y \<and> (\<forall>m. held s2 m \<longleftrightarrow> held s m \<or> m = x \<or> m = y)"
proof -
  have "dirty s x \<or> card (pinned s) < NBUF"
    using card_pinned_less [of x s y] room h(1) by (auto simp: pinned_def)
  then obtain i s1 where 1: "bread 1 x s = Some (i, s1)" using bread_ok [OF inv h(1) le(1)] by blast
  note inv1 = bread_inv [OF inv 1] and e1 = bread_effect [OF inv 1] and sp1 = bread_spec [OF inv 1]
  have p1: "pinned s1 = pinned s \<union> {x}" using sp1(3,4) by (auto simp: pinned_def bio_same_def)
  have "dirty s1 y \<or> card (pinned s1) < NBUF"
  proof (cases "y \<in> pinned s1")
    case False
    then have "card (pinned s1) < card (pinned s1 \<union> {y})" by (intro psubset_card_mono) auto
    also have "pinned s1 \<union> {y} = pinned s \<union> {x, y}" using p1 by auto
    finally show ?thesis using room by simp
  next
    case True
    then show ?thesis using p1 ne h(2) sp1(4) by (auto simp: pinned_def bio_same_def)
  qed
  moreover have "\<not> held s1 y" "y < disksize s1" using sp1(3,4) h(2) ne le(2) by (auto simp: bio_same_def)
  ultimately obtain j s2 where 2: "bread 1 y s1 = Some (j, s2)" using bread_ok [OF inv1] by blast
  note inv2 = bread_inv [OF inv1 2] and e2 = bread_effect [OF inv1 2] and sp2 = bread_spec [OF inv1 2]
  have ij: "i \<noteq> j" using e1(10) e2(2) by auto
  have "cached s2 x = Some i" using e1(1,5,6) e2(4) ij cached_iff [OF inv2] by auto
  moreover have "bufs s2 i = bufs s1 i" using e2(4) ij by auto
  moreover have "blk s1 y = blk s y" "bio_same s s2" using sp1(4) sp2(4) by (auto simp: bio_same_def)
  ultimately show ?thesis using 1 2 inv2 sp1 sp2 ij e1(10,11) e2(10,11) by auto
qed

text \<open>Writing and releasing two held blocks: \<open>z\<close> gets \<open>d\<close>, \<open>w\<close> is only released.\<close>

definition copied :: "u32 \<Rightarrow> u32 \<Rightarrow> block \<Rightarrow> 'a bio_scheme \<Rightarrow> 'a bio_scheme \<Rightarrow> bool" where
  "copied z w d s s' \<longleftrightarrow> bio_inv s' \<and> blk s' = (blk s)(z := d) \<and> disk s' = (disk s)(z := d) \<and> dtrace s' = dtrace s @ [(z, d)] \<and>
     (\<forall>m. dirty s' m \<longleftrightarrow> dirty s m \<and> m \<noteq> z) \<and> (\<forall>m. held s' m \<longleftrightarrow> held s m \<and> m \<noteq> z \<and> m \<noteq> w) \<and>
     disksize s' = disksize s \<and> bio.more s' = bio.more s"

lemma release_two:
  assumes inv: "bio_inv s" and k: "cached s x = Some k" "cached s y = Some l" "b_locked (bufs s k)" "b_locked (bufs s l)" "k \<noteq> l"
    and ok: "dirty s x \<or> blk s x = disk s x" "dirty s y \<or> blk s y = disk s y"
  obtains s2 s3 where "brelse k s = Some s2" "brelse l s2 = Some s3" "bio_inv s3" "blk s3 = blk s" "disk s3 = disk s"
    "dtrace s3 = dtrace s" "dirty s3 = dirty s" "\<forall>m. held s3 m \<longleftrightarrow> held s m \<and> m \<noteq> x \<and> m \<noteq> y" "disksize s3 = disksize s"
    "bio.more s3 = bio.more s"
proof -
  obtain s2 where s2: "brelse k s = Some s2" "bio_inv s2" "\<forall>m. cached s2 m = cached s m" "\<forall>m. held s2 m \<longleftrightarrow> m \<noteq> x \<and> held s m"
    "\<forall>m. blk s2 m = blk s m" "\<forall>m. dirty s2 m = dirty s m" "disk s2 = disk s" "dtrace s2 = dtrace s" "disksize s2 = disksize s"
    "bio.more s2 = bio.more s" "\<forall>j. j \<noteq> k \<longrightarrow> bufs s2 j = bufs s j"
    using brelse_spec [OF inv k(1,3) ok(1)] by blast
  have 2: "cached s2 y = Some l" "b_locked (bufs s2 l)" "dirty s2 y \<or> blk s2 y = disk s2 y" using s2 k ok by auto
  obtain s3 where s3: "brelse l s2 = Some s3" "bio_inv s3" "\<forall>m. held s3 m \<longleftrightarrow> m \<noteq> y \<and> held s2 m"
    "\<forall>m. blk s3 m = blk s2 m" "\<forall>m. dirty s3 m = dirty s2 m" "disk s3 = disk s2" "dtrace s3 = dtrace s2" "disksize s3 = disksize s2"
    "bio.more s3 = bio.more s2"
    using brelse_spec [OF s2(2) 2] by blast
  have "blk s3 = blk s" "dirty s3 = dirty s" using s3(4,5) s2(5,6) by auto
  moreover have "\<forall>m. held s3 m \<longleftrightarrow> held s m \<and> m \<noteq> x \<and> m \<noteq> y" using s2(4) s3(3) by auto
  ultimately show thesis using that [OF s2(1) s3(1,2)] s2(7-10) s3(6-9) by simp
qed

lemma write_block:
  assumes inv: "bio_inv s" and c: "cached s z = Some i" "b_locked (bufs s i)" and z: "z < disksize s"
  obtains s1 where "bwrite i (set_data i d s) = Some s1" "bio_inv s1" "cached s1 = cached s" "held s1 = held s"
    "blk s1 = (blk s)(z := d)" "\<forall>m. dirty s1 m \<longleftrightarrow> dirty s m \<and> m \<noteq> z" "disk s1 = (disk s)(z := d)"
    "dtrace s1 = dtrace s @ [(z, d)]" "disksize s1 = disksize s" "bio.more s1 = bio.more s"
    "\<forall>k. b_locked (bufs s1 k) = b_locked (bufs s k)"
proof -
  note sd = set_data_spec [OF inv c, of d]
  have c0: "cached (set_data i d s) z = Some i" "b_locked (bufs (set_data i d s) i)" "z < disksize (set_data i d s)"
    using sd c z by simp_all
  obtain s1 where s1: "bwrite i (set_data i d s) = Some s1" "bio_inv s1" "\<forall>m. cached s1 m = cached s m" "\<forall>m. held s1 m = held s m"
    "\<forall>m. blk s1 m = (if m = z then d else blk s m)" "\<forall>m. dirty s1 m \<longleftrightarrow> m \<noteq> z \<and> dirty s m" "disk s1 = (disk s)(z := d)"
    "dtrace s1 = dtrace s @ [(z, d)]" "disksize s1 = disksize s" "bio.more s1 = bio.more s"
    "\<forall>k. b_locked (bufs s1 k) = b_locked (bufs s k)"
    using bwrite_spec [OF sd(1) c0] sd by auto
  have "cached s1 = cached s" "held s1 = held s" "blk s1 = (blk s)(z := d)" using s1(3-5) by auto
  then show thesis using that [OF s1(1,2)] s1(6-11) by auto
qed

lemma write_release_other:
  assumes inv: "bio_inv s" and c: "cached s z = Some i" "cached s w = Some j" "b_locked (bufs s i)" "b_locked (bufs s j)" "i \<noteq> j"
    and ne: "z \<noteq> w" and z: "z < disksize s" and w: "dirty s w \<or> blk s w = disk s w"
  obtains s1 s2 s3 where "bwrite i (set_data i d s) = Some s1" "brelse j s1 = Some s2" "brelse i s2 = Some s3" "copied z w d s s3"
proof -
  obtain s1 where s1: "bwrite i (set_data i d s) = Some s1" "bio_inv s1" "cached s1 = cached s" "held s1 = held s"
    "blk s1 = (blk s)(z := d)" "\<forall>m. dirty s1 m \<longleftrightarrow> dirty s m \<and> m \<noteq> z" "disk s1 = (disk s)(z := d)"
    "dtrace s1 = dtrace s @ [(z, d)]" "disksize s1 = disksize s" "bio.more s1 = bio.more s"
    "\<forall>k. b_locked (bufs s1 k) = b_locked (bufs s k)"
    by (rule write_block [OF inv c(1,3) z])
  have ok: "dirty s1 w \<or> blk s1 w = disk s1 w" "dirty s1 z \<or> blk s1 z = disk s1 z" using s1(5-7) w ne by auto
  have c1: "cached s1 w = Some j" "cached s1 z = Some i" "b_locked (bufs s1 j)" "b_locked (bufs s1 i)" "j \<noteq> i" using s1 c by auto
  obtain s2 s3 where s3: "brelse j s1 = Some s2" "brelse i s2 = Some s3" "bio_inv s3" "blk s3 = blk s1" "disk s3 = disk s1"
    "dtrace s3 = dtrace s1" "dirty s3 = dirty s1" "\<forall>m. held s3 m \<longleftrightarrow> held s1 m \<and> m \<noteq> w \<and> m \<noteq> z" "disksize s3 = disksize s1"
    "bio.more s3 = bio.more s1"
    by (rule release_two [OF s1(2) c1 ok])
  have "copied z w d s s3" unfolding copied_def using s1 s3 by auto
  then show thesis using that s1(1) s3(1,2) by blast
qed

lemma copied_wrote:
  assumes c: "copied z w d s1 s'" and same: "bio_same s s1" and h: "\<forall>m. held s1 m \<longleftrightarrow> held s m \<or> m = z \<or> m = w"
    and nh: "\<not> held s z" "\<not> held s w"
  shows "wrote [(z, d)] s s'"
proof -
  have e: "blk s1 = blk s" "dirty s1 = dirty s" using same by (auto simp: bio_same_def)
  have "held s' m = held s m" for m using c h nh by (auto simp: copied_def)
  then show ?thesis using c same e by (simp add: copied_def wrote_def bio_same_def)
qed

section \<open>The loops of the log\<close>

lemma more_fields:
  assumes "bio.more s' = bio.more (s :: 'a xlog_scheme)"
  shows "lg_start s' = lg_start s" "lg_size s' = lg_size s" "lg_outstanding s' = lg_outstanding s"
    "lg_committing s' = lg_committing s" "lg_dev s' = lg_dev s" "lh_n s' = lh_n s" "lh_block s' = lh_block s"
    "xlog.more s' = xlog.more s"
  using assms by (cases s; cases s'; simp)+

lemma log_slot_more: "bio.more s' = bio.more (s :: 'a xlog_scheme) \<Longrightarrow> log_slot s' = log_slot s"
  using more_fields [of s' s] by (simp add: log_slot_def fun_eq_iff)

text \<open>Where the blocks of a transaction may be: on the disk, not held, homes outside the log.\<close>

definition places_ok :: "nat list \<Rightarrow> 'a xlog_scheme \<Rightarrow> bool" where
  "places_ok ts s \<longleftrightarrow> lg_dev s = 1 \<and>
     (\<forall>i \<in> set ts. log_slot s i < disksize s \<and> lh_block s i < disksize s \<and> \<not> held s (log_slot s i) \<and> \<not> held s (lh_block s i) \<and>
        card (pinned s \<union> {log_slot s i, lh_block s i}) \<le> NBUF) \<and>
     (\<forall>i \<in> set ts. \<forall>j \<in> set ts. lh_block s i \<noteq> log_slot s j)"

lemma places_ok_wrote:
  assumes "places_ok ts s" "wrote ws s s'"
  shows "places_ok ts s'"
proof -
  note m = more_fields [of s' s] log_slot_more [of s' s]
  have "pinned s' \<subseteq> pinned s" using assms(2) by (auto simp: wrote_def pinned_def)
  then have "card (pinned s' \<union> X) \<le> card (pinned s \<union> X)" for X by (intro card_mono) auto
  then have "card (pinned s' \<union> {log_slot s i, lh_block s i}) \<le> NBUF" if "i \<in> set ts" for i
    using assms(1) that le_trans unfolding places_ok_def by blast
  then show ?thesis using assms m unfolding places_ok_def wrote_def by simp
qed

lemma places_ok_Cons: "places_ok (t # ts) s \<Longrightarrow> places_ok ts s"
  by (simp add: places_ok_def)

lemma log_blocks_step:
  assumes inv: "bio_inv s" and ok: "places_ok (t # ts) s"
  shows "\<exists>s1. log_blocks (t # ts) s = log_blocks ts s1 \<and> wrote [(log_slot s t, blk s (lh_block s t))] s s1"
proof -
  let ?x = "log_slot s t" and ?y = "lh_block s t"
  have p: "?x \<noteq> ?y" "\<not> held s ?x" "\<not> held s ?y" "?x < disksize s" "?y < disksize s" "card (pinned s \<union> {?x, ?y}) \<le> NBUF" "lg_dev s = 1"
    using ok by (auto simp: places_ok_def)
  from bread_two [OF inv p(1-6)] obtain i s1 j s2 where r: "bread 1 ?x s = Some (i, s1)" "bread 1 ?y s1 = Some (j, s2)"
    "bio_inv s2" "bio_same s s1" "bio_same s s2" "cached s2 ?x = Some i" "cached s2 ?y = Some j" "i \<noteq> j" "b_locked (bufs s2 i)"
    "b_locked (bufs s2 j)" "b_data (bufs s2 j) = blk s ?y" "\<forall>m. held s2 m \<longleftrightarrow> held s m \<or> m = ?x \<or> m = ?y" by blast
  have same: "blk s2 = blk s" "disk s2 = disk s" "disksize s2 = disksize s" "dtrace s2 = dtrace s" "dirty s2 = dirty s"
    "bio.more s1 = bio.more s" "bio.more s2 = bio.more s"
    using r(4,5) by (auto simp: bio_same_def)
  have w: "dirty s2 ?y \<or> blk s2 ?y = disk s2 ?y" using clean_blk [OF inv p(3)] same by simp
  have "?x < disksize s2" using p(4) same by simp
  then obtain s3 s4 s5 where
    f: "bwrite i (set_data i (blk s ?y) s2) = Some s3" "brelse j s3 = Some s4" "brelse i s4 = Some s5"
      "copied ?x ?y (blk s ?y) s2 s5"
    using write_release_other [OF r(3) r(6,7) r(9,10,8) p(1) _ w] by blast
  have "log_blocks (t # ts) s = log_blocks ts s5"
    using r(1,2,11) f(1-3) p(7) more_fields [OF same(6)] by simp
  moreover have "wrote [(?x, blk s ?y)] s s5" by (rule copied_wrote [OF f(4) r(5,12) p(2,3)])
  ultimately show ?thesis by blast
qed

lemma install_blocks_step:
  assumes inv: "bio_inv s" and ok: "places_ok (t # ts) s"
  shows "\<exists>s1. install_blocks (t # ts) s = install_blocks ts s1 \<and> wrote [(lh_block s t, blk s (log_slot s t))] s s1"
proof -
  let ?x = "log_slot s t" and ?y = "lh_block s t"
  have p: "?x \<noteq> ?y" "\<not> held s ?x" "\<not> held s ?y" "?x < disksize s" "?y < disksize s" "card (pinned s \<union> {?x, ?y}) \<le> NBUF" "lg_dev s = 1"
    using ok by (auto simp: places_ok_def)
  from bread_two [OF inv p(1-6)] obtain i s1 j s2 where r: "bread 1 ?x s = Some (i, s1)" "bread 1 ?y s1 = Some (j, s2)"
    "bio_inv s2" "bio_same s s1" "bio_same s s2" "cached s2 ?x = Some i" "cached s2 ?y = Some j" "i \<noteq> j" "b_locked (bufs s2 i)"
    "b_locked (bufs s2 j)" "b_data (bufs s2 i) = blk s ?x" "\<forall>m. held s2 m \<longleftrightarrow> held s m \<or> m = ?x \<or> m = ?y" by blast
  have same: "blk s2 = blk s" "disk s2 = disk s" "disksize s2 = disksize s" "dtrace s2 = dtrace s" "dirty s2 = dirty s"
    "bio.more s1 = bio.more s" "bio.more s2 = bio.more s"
    using r(4,5) by (auto simp: bio_same_def)
  have w: "dirty s2 ?x \<or> blk s2 ?x = disk s2 ?x" using clean_blk [OF inv p(2)] same by simp
  have "?y < disksize s2" "?y \<noteq> ?x" "j \<noteq> i" using p(1,5) same r(8) by auto
  then obtain s3 s4 s5 where
    f: "bwrite j (set_data j (blk s ?x) s2) = Some s3" "brelse i s3 = Some s4" "brelse j s4 = Some s5"
      "copied ?y ?x (blk s ?x) s2 s5"
    using write_release_other [OF r(3) r(7,6) r(10,9) _ _ _ w] by blast
  have "install_blocks (t # ts) s = install_blocks ts s5"
    using r(1,2,11) f(1-3) p(7) more_fields [OF same(6)] by simp
  moreover have "wrote [(?y, blk s ?x)] s s5"
    by (rule copied_wrote [OF f(4) r(5) _ p(3,2)]) (use r(12) in blast)
  ultimately show ?thesis by blast
qed

lemma log_blocks_wrote:
  assumes "bio_inv s" "places_ok ts s"
  shows "\<exists>s'. log_blocks ts s = Some s' \<and> wrote (map (\<lambda>i. (log_slot s i, blk s (lh_block s i))) ts) s s'"
  using assms
proof (induction ts arbitrary: s)
  case (Cons t ts)
  obtain s1 where s1: "log_blocks (t # ts) s = log_blocks ts s1" "wrote [(log_slot s t, blk s (lh_block s t))] s s1"
    using log_blocks_step [OF Cons.prems] by blast
  have more: "bio.more s1 = bio.more s" and inv1: "bio_inv s1" using s1(2) by (simp_all add: wrote_def)
  have "places_ok ts s1" using places_ok_wrote [OF Cons.prems(2) s1(2)] places_ok_Cons by blast
  with Cons.IH [OF inv1] obtain s' where
    s': "log_blocks ts s1 = Some s'" "wrote (map (\<lambda>i. (log_slot s1 i, blk s1 (lh_block s1 i))) ts) s1 s'" by blast
  have "blk s1 (lh_block s i) = blk s (lh_block s i)" if "i \<in> set ts" for i
    using s1(2) Cons.prems(2) that by (auto simp: wrote_def places_ok_def)
  then have "map (\<lambda>i. (log_slot s1 i, blk s1 (lh_block s1 i))) ts = map (\<lambda>i. (log_slot s i, blk s (lh_block s i))) ts"
    using more_fields [OF more] log_slot_more [OF more] by simp
  with s'(2) wrote_trans [OF s1(2)] have "wrote (map (\<lambda>i. (log_slot s i, blk s (lh_block s i))) (t # ts)) s s'" by fastforce
  with s1(1) s'(1) show ?case by auto
qed (simp add: wrote_refl)

lemma install_blocks_wrote:
  assumes "bio_inv s" "places_ok ts s"
  shows "\<exists>s'. install_blocks ts s = Some s' \<and> wrote (map (\<lambda>i. (lh_block s i, blk s (log_slot s i))) ts) s s'"
  using assms
proof (induction ts arbitrary: s)
  case (Cons t ts)
  obtain s1 where s1: "install_blocks (t # ts) s = install_blocks ts s1" "wrote [(lh_block s t, blk s (log_slot s t))] s s1"
    using install_blocks_step [OF Cons.prems] by blast
  have more: "bio.more s1 = bio.more s" and inv1: "bio_inv s1" using s1(2) by (simp_all add: wrote_def)
  have "places_ok ts s1" using places_ok_wrote [OF Cons.prems(2) s1(2)] places_ok_Cons by blast
  with Cons.IH [OF inv1] obtain s' where
    s': "install_blocks ts s1 = Some s'" "wrote (map (\<lambda>i. (lh_block s1 i, blk s1 (log_slot s1 i))) ts) s1 s'" by blast
  have "blk s1 (log_slot s i) = blk s (log_slot s i)" if "i \<in> set ts" for i
    using s1(2) Cons.prems(2) that by (auto simp: wrote_def places_ok_def)
  then have "map (\<lambda>i. (lh_block s1 i, blk s1 (log_slot s1 i))) ts = map (\<lambda>i. (lh_block s i, blk s (log_slot s i))) ts"
    using more_fields [OF more] log_slot_more [OF more] by simp
  with s'(2) wrote_trans [OF s1(2)] have "wrote (map (\<lambda>i. (lh_block s i, blk s (log_slot s i))) (t # ts)) s s'" by fastforce
  with s1(1) s'(1) show ?case by auto
qed (simp add: wrote_refl)

section \<open>Reading and writing the header\<close>

lemma bio_more_upd:
  fixes s :: "'a xlog_scheme"
  assumes "bufs s' = bufs s" "lru s' = lru s" "disk s' = disk s"
  shows "bio_inv s' = bio_inv s" "cached s' = cached s" "blk s' = blk s" "dirty s' = dirty s" "held s' = held s" "pinned s' = pinned s"
proof -
  show c: "cached s' = cached s" using assms by (simp add: cached_def fun_eq_iff)
  show b: "blk s' = blk s" "dirty s' = dirty s" "held s' = held s"
    unfolding blk_def [abs_def] dirty_def [abs_def] held_def [abs_def] c assms by simp_all
  show "pinned s' = pinned s" using b by (simp add: pinned_def)
  show "bio_inv s' = bio_inv s" using assms by (simp add: bio_inv_def)
qed

lemma read_head_spec:
  fixes s :: "'a xlog_scheme"
  assumes inv: "bio_inv s" and "lg_dev s = 1" "\<not> held s (lg_start s)" "lg_start s < disksize s" "card (pinned s) < NBUF"
    and n: "sint (get32 (blk s (lg_start s)) 0) \<le> int LOGSIZE"
  shows "\<exists>s'. read_head s = Some s' \<and> wrote [] s (s'\<lparr>lh_n := lh_n s, lh_block := lh_block s\<rparr>) \<and>
    lh_n s' = sint (get32 (blk s (lg_start s)) 0) \<and>
    (\<forall>i. int i < lh_n s' \<longrightarrow> lh_block s' i = get32 (blk s (lg_start s)) (head_off i))"
proof -
  let ?st = "lg_start s" and ?d = "blk s (lg_start s)"
  obtain b s1 where r: "bread 1 ?st s = Some (b, s1)" using bread_ok [OF inv] assms by blast
  note inv1 = bread_inv [OF inv r] and e = bread_effect [OF inv r] and sp = bread_spec [OF inv r]
  note mf = more_fields [OF e(16)]
  define s2 where "s2 = s1\<lparr>lh_n := sint (get32 ?d 0),
    lh_block := (\<lambda>i. if int i < sint (get32 ?d 0) then get32 ?d (head_off i) else lh_block s1 i)\<rparr>"
  have s21: "bufs s2 = bufs s1" "lru s2 = lru s1" "disk s2 = disk s1" "dtrace s2 = dtrace s1" "disksize s2 = disksize s1"
    by (simp_all add: s2_def)
  note u = bio_more_upd [OF s21(1-3)]
  have c2: "cached s2 ?st = Some b" "b_locked (bufs s2 b)" "bio_inv s2" using sp(1) e(10) inv1 u s21 by simp_all
  have "dirty s ?st \<or> blk s ?st = disk s ?st" using clean_blk [OF inv assms(3)] .
  then have "dirty s2 ?st \<or> blk s2 ?st = disk s2 ?st" using sp(4) u s21 by (simp add: bio_same_def)
  from brelse_spec [OF c2(3,1,2) this] obtain s3 where s3: "brelse b s2 = Some s3" "bio_inv s3" "\<forall>m. held s3 m \<longleftrightarrow> m \<noteq> ?st \<and> held s2 m"
    "\<forall>m. blk s3 m = blk s2 m" "\<forall>m. dirty s3 m = dirty s2 m" "disk s3 = disk s2" "dtrace s3 = dtrace s2" "disksize s3 = disksize s2"
    "bio.more s3 = bio.more s2" by blast
  note m3 = more_fields [OF s3(9)]
  have ret: "read_head s = Some s3" using r s3(1) assms(2) n e(11) by (simp add: read_head_def s2_def)
  have "wrote [] s (s3\<lparr>lh_n := lh_n s, lh_block := lh_block s\<rparr>)"
  proof -
    let ?s4 = "s3\<lparr>lh_n := lh_n s, lh_block := lh_block s\<rparr>"
    have u4: "bio_inv ?s4 = bio_inv s3" "blk ?s4 = blk s3" "dirty ?s4 = dirty s3" "held ?s4 = held s3"
      by (rule bio_more_upd; simp)+
    have "held s3 m = held s m" for m using s3(3) u sp(2,3) by auto
    moreover have "blk s3 = blk s" "dirty s3 = dirty s" using s3(4,5) u sp(4) by (auto simp: bio_same_def)
    moreover have "bio.more ?s4 = bio.more s"
      using m3 mf by (cases s; cases s3) (simp add: s2_def)
    ultimately show ?thesis using u4 s3(2,6-8) s21 e(13-15) by (simp add: wrote_def)
  qed
  then show ?thesis using ret m3 by (auto simp: s2_def)
qed

lemma write_head_spec:
  fixes s :: "'a xlog_scheme"
  assumes inv: "bio_inv s" and "lg_dev s = 1" "\<not> held s (lg_start s)" "lg_start s < disksize s" "card (pinned s) < NBUF"
  shows "\<exists>s'. write_head s = Some s' \<and>
    wrote [(lg_start s, copy_head (lh_block s) [0..<nat (lh_n s)] (put32 0 (word_of_int (lh_n s)) (blk s (lg_start s))))] s s'"
proof -
  let ?st = "lg_start s"
  let ?d = "copy_head (lh_block s) [0..<nat (lh_n s)] (put32 0 (word_of_int (lh_n s)) (blk s ?st))"
  obtain b s1 where r: "bread 1 ?st s = Some (b, s1)" using bread_ok [OF inv] assms by blast
  note inv1 = bread_inv [OF inv r] and e = bread_effect [OF inv r] and sp = bread_spec [OF inv r]
  note mf = more_fields [OF e(16)]
  have "?st < disksize s1" using assms(4) e(14) by simp
  then obtain s2 where s2: "bwrite b (set_data b ?d s1) = Some s2" "bio_inv s2" "cached s2 = cached s1" "held s2 = held s1"
    "blk s2 = (blk s1)(?st := ?d)" "\<forall>m. dirty s2 m \<longleftrightarrow> dirty s1 m \<and> m \<noteq> ?st" "disk s2 = (disk s1)(?st := ?d)"
    "dtrace s2 = dtrace s1 @ [(?st, ?d)]" "disksize s2 = disksize s1" "bio.more s2 = bio.more s1"
    "\<forall>k. b_locked (bufs s2 k) = b_locked (bufs s1 k)"
    using write_block [OF inv1 sp(1) e(10)] by blast
  have c2: "cached s2 ?st = Some b" "b_locked (bufs s2 b)" "dirty s2 ?st \<or> blk s2 ?st = disk s2 ?st"
    using s2 sp(1) e(10) by simp_all
  from brelse_spec [OF s2(2) c2] obtain s3 where s3: "brelse b s2 = Some s3" "bio_inv s3" "\<forall>m. held s3 m \<longleftrightarrow> m \<noteq> ?st \<and> held s2 m"
    "\<forall>m. blk s3 m = blk s2 m" "\<forall>m. dirty s3 m = dirty s2 m" "disk s3 = disk s2" "dtrace s3 = dtrace s2" "disksize s3 = disksize s2"
    "bio.more s3 = bio.more s2" by blast
  have "write_head s = Some s3" using r s2(1) s3(1) assms(2) e(11) mf by (simp add: write_head_def)
  moreover have "wrote [(?st, ?d)] s s3"
  proof -
    have "blk s1 = blk s" using sp(4) by (auto simp: bio_same_def)
    then have "blk s3 = (blk s)(?st := ?d)" using s3(4) s2(5) by auto
    moreover have "held s3 m = held s m" "dirty s3 m \<longleftrightarrow> dirty s m \<and> m \<noteq> ?st" for m
      using s3(3,5) s2(4,6) sp(2-4) by (auto simp: bio_same_def)
    ultimately show ?thesis using s2 s3 e(13-16) by (simp add: wrote_def)
  qed
  ultimately show ?thesis by blast
qed

end
