(* ===== verification/Xv6_Crash.thy ===== *)
theory Xv6_Crash
  imports Xv6_Log_Writes
begin

text \<open>
  Crash safety of the log: a commit as a fixed sequence of disk writes, recovery after a restart,
  and that stopping between any two of the writes leaves either all of the transaction or nothing
  of it.
\<close>

section \<open>Committing\<close>

definition log_region :: "'a xlog_scheme \<Rightarrow> u32 set" where
  "log_region s = insert (lg_start s) (log_slot s ` {..<LOGSIZE})"

lemma word_of_nat_u32_inj: "i < 2 ^ 32 \<Longrightarrow> j < 2 ^ 32 \<Longrightarrow> (word_of_nat i :: u32) = word_of_nat j \<Longrightarrow> i = j"
proof -
  assume lt: "i < 2 ^ 32" "j < 2 ^ 32" and eq: "(word_of_nat i :: u32) = word_of_nat j"
  have "unat (word_of_nat i :: u32) = unat (word_of_nat j :: u32)" using eq by simp
  then show ?thesis using lt by (simp add: unat_of_nat)
qed

lemma log_slot_inj: "i < LOGSIZE \<Longrightarrow> j < LOGSIZE \<Longrightarrow> log_slot s i = log_slot s j \<Longrightarrow> i = j"
  using word_of_nat_u32_inj [of i j] by (simp add: log_slot_def LOGSIZE_def MAXOPBLOCKS_def)

lemma log_slot_start: "i < LOGSIZE \<Longrightarrow> log_slot s i \<noteq> lg_start s"
proof
  assume i: "i < LOGSIZE" and "log_slot s i = lg_start s"
  then have "(word_of_nat (Suc i) :: u32) = word_of_nat 0" by (simp add: log_slot_def add.commute)
  then show False using word_of_nat_u32_inj [of "Suc i" 0] i by (simp add: LOGSIZE_def MAXOPBLOCKS_def)
qed

text \<open>Where the log is.\<close>

definition log_ok :: "'a xlog_scheme \<Rightarrow> bool" where
  "log_ok s \<longleftrightarrow> lg_dev s = 1 \<and> (\<forall>m \<in> log_region s. m < disksize s) \<and> 1 \<notin> log_region s \<and> 1 < disksize s"

text \<open>
  A transaction that is ready to commit: between system calls, with its blocks in the cache, all
  of them recorded, outside the log, and with one buffer left to read the log.
\<close>

definition tx_ok :: "'a xlog_scheme \<Rightarrow> bool" where
  "tx_ok s \<longleftrightarrow> bio_inv s \<and> log_ok s \<and> (\<forall>m. \<not> held s m) \<and> 0 \<le> lh_n s \<and> nat (lh_n s) < NBUF \<and>
     inj_on (lh_block s) {..<nat (lh_n s)} \<and> (\<forall>m. dirty s m \<longleftrightarrow> m \<in> lh_block s ` {..<nat (lh_n s)}) \<and>
     (\<forall>i < nat (lh_n s). lh_block s i < disksize s \<and> lh_block s i \<notin> log_region s \<and> lh_block s i \<noteq> 1)"

definition home_writes :: "'a xlog_scheme \<Rightarrow> (u32 \<times> block) list" where
  "home_writes s = map (\<lambda>i. (lh_block s i, blk s (lh_block s i))) [0..<nat (lh_n s)]"

definition log_writes :: "'a xlog_scheme \<Rightarrow> (u32 \<times> block) list" where
  "log_writes s = map (\<lambda>i. (log_slot s i, blk s (lh_block s i))) [0..<nat (lh_n s)]"

definition head_with :: "int \<Rightarrow> (nat \<Rightarrow> u32) \<Rightarrow> block \<Rightarrow> block" where
  "head_with n blks d = copy_head blks [0..<nat n] (put32 0 (word_of_int n) d)"

definition commit_writes :: "'a xlog_scheme \<Rightarrow> (u32 \<times> block) list" where
  "commit_writes s =
     (let h = head_with (lh_n s) (lh_block s) (blk s (lg_start s))
      in log_writes s @ [(lg_start s, h)] @ home_writes s @ [(lg_start s, head_with 0 (lh_block s) h)])"

lemma NBUF_LOGSIZE: "NBUF = LOGSIZE"
  by (simp add: NBUF_def LOGSIZE_def)

lemma tx_ok_places:
  assumes "tx_ok s"
  shows "places_ok [0..<nat (lh_n s)] s" "card (pinned s) < NBUF"
proof -
  let ?n = "nat (lh_n s)"
  have pin: "pinned s = lh_block s ` {..<?n}" using assms by (auto simp: tx_ok_def pinned_def)
  have "card (pinned s) \<le> ?n" unfolding pin using card_image_le [of "{..<?n}" "lh_block s"] by simp
  moreover have n: "?n < NBUF" using assms by (simp add: tx_ok_def)
  ultimately show p: "card (pinned s) < NBUF" by simp
  have c: "card (pinned s \<union> {log_slot s i, lh_block s i}) \<le> NBUF" if "i < ?n" for i
  proof -
    have "pinned s \<union> {log_slot s i, lh_block s i} = insert (log_slot s i) (pinned s)" using that pin by auto
    then show ?thesis using p card_insert_le_m1 [of NBUF "pinned s" "log_slot s i"] by simp
  qed
  have slot: "log_slot s i \<in> log_region s" if "i < ?n" for i using that n by (simp add: log_region_def NBUF_LOGSIZE)
  have home: "lh_block s i < disksize s" "lh_block s i \<notin> log_region s" if "i < ?n" for i using assms that by (simp_all add: tx_ok_def)
  have "lh_block s i \<noteq> log_slot s j" if "i < ?n" "j < ?n" for i j using home(2) [OF that(1)] slot [OF that(2)] by metis
  moreover have "log_slot s i < disksize s" if "i < ?n" for i using slot [OF that] assms by (simp add: tx_ok_def log_ok_def)
  moreover have "\<not> held s m" "lg_dev s = 1" for m using assms by (simp_all add: tx_ok_def log_ok_def)
  ultimately show "places_ok [0..<?n] s" using c home(1) unfolding places_ok_def by simp
qed

lemma lh_n_upd:
  fixes s :: "'a xlog_scheme"
  shows "bio_inv (s\<lparr>lh_n := n\<rparr>) = bio_inv s" "blk (s\<lparr>lh_n := n\<rparr>) = blk s" "dirty (s\<lparr>lh_n := n\<rparr>) = dirty s"
    "held (s\<lparr>lh_n := n\<rparr>) = held s" "pinned (s\<lparr>lh_n := n\<rparr>) = pinned s" "log_slot (s\<lparr>lh_n := n\<rparr>) = log_slot s"
  by (rule bio_more_upd; simp)+ (simp add: log_slot_def fun_eq_iff)

lemma pinned_wrote: "wrote ws s s' \<Longrightarrow> pinned s' \<subseteq> pinned s"
  by (auto simp: wrote_def pinned_def)

lemma card_pinned_wrote: "wrote ws s s' \<Longrightarrow> card (pinned s) < k \<Longrightarrow> card (pinned s') < k"
  using card_mono [OF _ pinned_wrote, of s ws s'] by simp

lemma commit_wrote:
  fixes s :: "'a xlog_scheme"
  assumes ok: "tx_ok s" and n: "0 < lh_n s"
  shows "\<exists>s'. commit s = Some s' \<and> lh_n s' = 0 \<and> wrote (commit_writes s) s (s'\<lparr>lh_n := lh_n s\<rparr>)"
proof -
  let ?n = "nat (lh_n s)" and ?st = "lg_start s" and ?h = "head_with (lh_n s) (lh_block s) (blk s (lg_start s))"
  note pl = tx_ok_places [OF ok]
  have base: "bio_inv s" "lg_dev s = 1" "\<not> held s m" "?st < disksize s" for m using ok by (simp_all add: tx_ok_def log_ok_def log_region_def)
  have slot: "i < ?n \<Longrightarrow> i < LOGSIZE" for i using ok by (simp add: tx_ok_def NBUF_LOGSIZE)
  have home: "lh_block s i \<notin> log_region s" if "i < ?n" for i using ok that by (simp add: tx_ok_def)
  obtain s1 where s1: "write_log s = Some s1" "wrote (log_writes s) s s1"
    using log_blocks_wrote [OF base(1) pl(1)] unfolding write_log_def log_writes_def by blast
  have w1: "bio_inv s1" "held s1 = held s" "disksize s1 = disksize s" "bio.more s1 = bio.more s" "blk s1 = upds (log_writes s) (blk s)"
    using s1(2) by (auto simp: wrote_def)
  note m1 = more_fields [OF w1(4)]
  have st1: "blk s1 ?st = blk s ?st" unfolding w1(5) using log_slot_start [of _ s] slot by (intro upds_notin) (force simp: log_writes_def)
  have "lg_dev s1 = 1" "\<not> held s1 (lg_start s1)" "lg_start s1 < disksize s1" "card (pinned s1) < NBUF"
    using base w1(2,3) m1 card_pinned_wrote [OF s1(2) pl(2)] by simp_all
  from write_head_spec [OF w1(1) this] obtain s2 where s2: "write_head s1 = Some s2" "wrote [(?st, ?h)] s1 s2"
    unfolding head_with_def m1 st1 by blast
  note t2 = wrote_trans [OF s1(2) s2(2)]
  have w2: "bio_inv s2" "held s2 = held s" "disksize s2 = disksize s" "bio.more s2 = bio.more s"
    "blk s2 = upds (log_writes s @ [(?st, ?h)]) (blk s)"
    using t2 by (auto simp: wrote_def)
  note m2 = more_fields [OF w2(4)] log_slot_more [OF w2(4)]
  have "places_ok [0..<?n] s2" by (rule places_ok_wrote [OF pl(1) t2])
  from install_blocks_wrote [OF w2(1) this] obtain s3 where
    s3: "install_trans s2 = Some s3" "wrote (map (\<lambda>i. (lh_block s i, blk s2 (log_slot s i))) [0..<?n]) s2 s3"
    unfolding install_trans_def m2 by blast
  have "blk s2 (log_slot s i) = blk s (lh_block s i)" if "i \<in> set [0..<?n]" for i
  proof -
    have "blk s2 (log_slot s i) = upds (log_writes s) (blk s) (log_slot s i)"
      unfolding w2(5) using log_slot_start [of i s] slot that by simp
    also have "\<dots> = blk s (lh_block s i)" unfolding log_writes_def
    proof (rule upds_map)
      show "distinct (map (log_slot s) [0..<?n])" using log_slot_inj [of _ _ s] slot by (auto simp: distinct_map inj_on_def)
    qed (rule that)
    finally show ?thesis .
  qed
  then have "map (\<lambda>i. (lh_block s i, blk s2 (log_slot s i))) [0..<?n] = home_writes s" by (simp add: home_writes_def)
  with s3(2) have h3: "wrote (home_writes s) s2 s3" by simp
  note t3 = wrote_trans [OF t2 h3]
  have w3: "bio_inv s3" "held s3 = held s" "disksize s3 = disksize s" "bio.more s3 = bio.more s" "blk s3 = upds (home_writes s) (blk s2)"
    using t3 h3 by (auto simp: wrote_def)
  note m3 = more_fields [OF w3(4)]
  have "blk s3 ?st = blk s2 ?st" unfolding w3(5) using home by (intro upds_notin) (force simp: home_writes_def log_region_def)
  then have st3: "blk s3 ?st = ?h" unfolding w2(5) by simp
  let ?s3 = "s3\<lparr>lh_n := 0\<rparr>"
  have "bio_inv ?s3" "lg_dev ?s3 = 1" "\<not> held ?s3 (lg_start ?s3)" "lg_start ?s3 < disksize ?s3" "card (pinned ?s3) < NBUF"
    using w3 base m3 card_pinned_wrote [OF t3 pl(2)] by (simp_all add: lh_n_upd)
  from write_head_spec [OF this] obtain s4 where s4: "write_head ?s3 = Some s4"
    "wrote [(?st, head_with 0 (lh_block s) ?h)] ?s3 s4"
    using m3 st3 by (auto simp: lh_n_upd head_with_def)
  have more4: "bio.more s4 = bio.more ?s3" using s4(2) by (simp add: wrote_def)
  have "wrote [(?st, head_with 0 (lh_block s) ?h)] s3 (s4\<lparr>lh_n := lh_n s\<rparr>)"
  proof -
    have "bio.more (s4\<lparr>lh_n := lh_n s\<rparr>) = bio.more s3" using more4 m3 by (cases s4; cases s3) simp
    then show ?thesis using s4(2) unfolding wrote_def lh_n_upd by simp
  qed
  from wrote_trans [OF t3 this] have "wrote (commit_writes s) s (s4\<lparr>lh_n := lh_n s\<rparr>)" by (simp add: commit_writes_def Let_def)
  moreover have "commit s = Some s4" using n s1(1) s2(1) s3(1) s4(1) by (simp add: commit_def)
  moreover have "lh_n s4 = 0" using more_fields(6) [OF more4] by simp
  ultimately show ?thesis by blast
qed

section \<open>Recovery\<close>

definition zero_buf :: buf where
  "zero_buf = \<lparr>b_valid = False, b_dirty = False, b_dev = 0, b_blockno = 0, b_locked = False, b_refcnt = 0, b_data = replicate BSIZE 0\<rparr>"

text \<open>The machine starts again with the contents \<open>d\<close> of the disk.\<close>

definition reboot :: "(u32 \<Rightarrow> block) \<Rightarrow> 'a xlog_scheme \<Rightarrow> 'a xlog_scheme" where
  "reboot d s = binit (s\<lparr>disk := d, bufs := (\<lambda>_. zero_buf), lru := [], dtrace := [], lg_start := 0, lg_size := 0, lg_outstanding := 0,
     lg_committing := False, lg_dev := 0, lh_n := 0, lh_block := (\<lambda>_. 0)\<rparr>)"

lemma empty_cache:
  assumes "lru s = rev [0..<NBUF]" "bufs s = (\<lambda>_. zero_buf)"
  shows "bio_inv s" "cached s m = None" "blk s = disk s" "\<not> dirty s m" "\<not> held s m" "pinned s = {}"
proof -
  have n: "cached s m = None" for m using assms by (auto simp: cached_def find_None_iff zero_buf_def)
  then show "cached s m = None" .
  show "blk s = disk s" using n by (simp add: blk_def fun_eq_iff)
  show "\<not> dirty s m" "\<not> held s m" "pinned s = {}" using n by (simp_all add: dirty_def held_def pinned_def)
  show "bio_inv s" unfolding bio_inv_def using assms by (auto simp: zero_buf_def)
qed

lemma reboot_facts:
  "bio_inv (reboot d s)" "blk (reboot d s) = d" "\<not> dirty (reboot d s) m" "\<not> held (reboot d s) m" "pinned (reboot d s) = {}"
  "disk (reboot d s) = d" "disksize (reboot d s) = disksize s"
proof -
  have e: "lru (reboot d s) = rev [0..<NBUF]" "bufs (reboot d s) = (\<lambda>_. zero_buf)" "disk (reboot d s) = d"
    by (simp_all add: reboot_def binit_def zero_buf_def fun_eq_iff)
  show "bio_inv (reboot d s)" "blk (reboot d s) = d" "\<not> dirty (reboot d s) m" "\<not> held (reboot d s) m" "pinned (reboot d s) = {}"
    using empty_cache [OF e(1,2)] e(3) by simp_all
  show "disk (reboot d s) = d" "disksize (reboot d s) = disksize s" by (simp_all add: reboot_def binit_def)
qed

lemma readsb_spec:
  fixes s :: "'a xlog_scheme"
  assumes inv: "bio_inv s" and "\<not> held s 1" "1 < disksize s" "card (pinned s) < NBUF"
  shows "\<exists>s'. readsb 1 s = Some (sb_of (blk s 1), s') \<and> wrote [] s s'"
proof -
  obtain b s1 where r: "bread 1 1 s = Some (b, s1)" using bread_ok [OF inv] assms by blast
  note inv1 = bread_inv [OF inv r] and e = bread_effect [OF inv r] and sp = bread_spec [OF inv r]
  have ok: "dirty s1 1 \<or> blk s1 1 = disk s1 1" using clean_blk [OF inv assms(2)] sp(4) by (simp add: bio_same_def)
  from brelse_spec [OF inv1 sp(1) e(10) ok] obtain s3 where s3: "brelse b s1 = Some s3" "bio_inv s3" "\<forall>m. held s3 m \<longleftrightarrow> m \<noteq> 1 \<and> held s1 m"
    "\<forall>m. blk s3 m = blk s1 m" "\<forall>m. dirty s3 m = dirty s1 m" "disk s3 = disk s1" "dtrace s3 = dtrace s1" "disksize s3 = disksize s1"
    "bio.more s3 = bio.more s1" by blast
  have "readsb 1 s = Some (sb_of (blk s 1), s3)" using r s3(1) e(11) by (simp add: readsb_def)
  moreover have "blk s3 = blk s" "held s3 m = held s m" "dirty s3 m = dirty s m" for m
    using s3(3-5) sp(2-4) by (auto simp: bio_same_def)
  ultimately show ?thesis using s3 e(13-16) by (auto simp: wrote_def)
qed

text \<open>What recovery finds in the log: a number of blocks that is in range, with homes outside the log.\<close>

definition head_ok :: "block \<Rightarrow> 'a xlog_scheme \<Rightarrow> bool" where
  "head_ok h s \<longleftrightarrow> 0 \<le> sint (get32 h 0) \<and> sint (get32 h 0) \<le> int LOGSIZE \<and>
     (\<forall>i. int i < sint (get32 h 0) \<longrightarrow> get32 h (head_off i) < disksize s \<and> get32 h (head_off i) \<notin> log_region s)"

lemma recover_wrote:
  fixes s :: "'a xlog_scheme"
  assumes inv: "bio_inv s" and clean: "\<forall>m. \<not> dirty s m" "\<forall>m. \<not> held s m" and log: "log_ok s"
    and h: "h = blk s (lg_start s)" "head_ok h s"
  shows "\<exists>r. recover_from_log s = Some r \<and>
    disk r = upds (map (\<lambda>i. (get32 h (head_off i), blk s (log_slot s i))) [0..<nat (sint (get32 h 0))] @
      [(lg_start s, put32 0 0 h)]) (disk s)"
proof -
  let ?st = "lg_start s" and ?n = "nat (sint (get32 h 0))"
  have pin: "pinned s = {}" using clean by (simp add: pinned_def)
  have base: "lg_dev s = 1" "?st < disksize s" "card (pinned s) < NBUF" "\<not> held s ?st"
    using log clean pin by (simp_all add: log_ok_def log_region_def NBUF_def MAXOPBLOCKS_def)
  have "sint (get32 (blk s ?st) 0) \<le> int LOGSIZE" using h by (simp add: head_ok_def)
  from read_head_spec [OF inv base(1,4,2,3) this] obtain s1 where s1: "read_head s = Some s1"
    "wrote [] s (s1\<lparr>lh_n := lh_n s, lh_block := lh_block s\<rparr>)" "lh_n s1 = sint (get32 h 0)"
    "\<forall>i. int i < lh_n s1 \<longrightarrow> lh_block s1 i = get32 h (head_off i)" unfolding h(1) by blast
  let ?s1' = "s1\<lparr>lh_n := lh_n s, lh_block := lh_block s\<rparr>"
  have u: "bio_inv ?s1' = bio_inv s1" "blk ?s1' = blk s1" "dirty ?s1' = dirty s1" "held ?s1' = held s1" "pinned ?s1' = pinned s1"
    by (rule bio_more_upd; simp)+
  have w1: "bio_inv s1" "blk s1 = blk s" "disk s1 = disk s" "dirty s1 m = dirty s m" "held s1 m = held s m" "disksize s1 = disksize s"
    "lg_start s1 = ?st" "lg_dev s1 = 1" for m
    using s1(2) u more_fields [of ?s1' s] base(1) by (auto simp: wrote_def)
  have slot: "log_slot s1 = log_slot s" using w1(7) by (simp add: log_slot_def fun_eq_iff)
  have pin1: "pinned s1 = {}" using w1(4,5) clean by (simp add: pinned_def)
  have hd: "i < ?n \<Longrightarrow> lh_block s1 i = get32 h (head_off i) \<and> get32 h (head_off i) < disksize s \<and> get32 h (head_off i) \<notin> log_region s" for i
    using s1(3,4) h(2) by (simp add: head_ok_def)
  have reg: "i < ?n \<Longrightarrow> log_slot s i \<in> log_region s" for i using h(2) by (auto simp: head_ok_def log_region_def)
  have "places_ok [0..<?n] s1"
  proof -
    have "lh_block s1 i \<noteq> log_slot s j" if "i < ?n" "j < ?n" for i j using hd [OF that(1)] reg [OF that(2)] by metis
    moreover have "log_slot s i < disksize s" if "i < ?n" for i using reg [OF that] log by (simp add: log_ok_def)
    moreover have "card {x, y} \<le> NBUF" for x y :: u32
      using card_insert_le_m1 [of 2 "{y}" x] by (simp add: NBUF_def MAXOPBLOCKS_def)
    ultimately show ?thesis using hd w1 clean slot pin1 unfolding places_ok_def by simp
  qed
  from install_blocks_wrote [OF w1(1) this] obtain s2 where s2: "install_trans s1 = Some s2"
    "wrote (map (\<lambda>i. (lh_block s1 i, blk s1 (log_slot s1 i))) [0..<?n]) s1 s2"
    unfolding install_trans_def s1(3) by blast
  have ws: "map (\<lambda>i. (lh_block s1 i, blk s1 (log_slot s1 i))) [0..<?n] = map (\<lambda>i. (get32 h (head_off i), blk s (log_slot s i))) [0..<?n]"
    using hd slot w1(2) by simp
  let ?ws = "map (\<lambda>i. (get32 h (head_off i), blk s (log_slot s i))) [0..<?n]"
  have w2: "bio_inv s2" "blk s2 = upds ?ws (blk s)" "disk s2 = upds ?ws (disk s)" "\<not> held s2 m" "disksize s2 = disksize s" "lg_dev s2 = 1" "lg_start s2 = ?st"
    "pinned s2 = {}" for m
    using s2(2) pinned_wrote [OF s2(2)] pin1 w1 clean more_fields [of s2 s1] unfolding ws wrote_def by auto
  have "blk s2 ?st = h" unfolding w2(2) h(1) using hd by (intro upds_notin) (force simp: log_region_def h(1))
  moreover have "lh_n (s2\<lparr>lh_n := 0\<rparr>) = 0" by simp
  ultimately obtain r where r: "write_head (s2\<lparr>lh_n := 0\<rparr>) = Some r" "wrote [(?st, put32 0 0 h)] (s2\<lparr>lh_n := 0\<rparr>) r"
    using write_head_spec [of "s2\<lparr>lh_n := 0\<rparr>"] w2 base(2) by (auto simp: lh_n_upd NBUF_def MAXOPBLOCKS_def)
  have "recover_from_log s = Some r" using s1(1) s2(1) r(1) by (simp add: recover_from_log_def)
  moreover have "disk r = upds (?ws @ [(?st, put32 0 0 h)]) (disk s)" using r(2) w2(3) by (simp add: wrote_def)
  ultimately show ?thesis by blast
qed

lemma initlog_reboot:
  fixes s :: "'a xlog_scheme"
  assumes sb: "sb_logstart (sb_of (d 1)) = lg_start s" and log: "log_ok s" and h: "head_ok (d (lg_start s)) s"
  shows "\<exists>r. initlog 1 (reboot d s) = Some r \<and>
    disk r = upds (map (\<lambda>i. (get32 (d (lg_start s)) (head_off i), d (log_slot s i))) [0..<nat (sint (get32 (d (lg_start s)) 0))] @
      [(lg_start s, put32 0 0 (d (lg_start s)))]) d"
proof -
  let ?h = "d (lg_start s)"
  note rf = reboot_facts [of d s]
  have "\<not> held (reboot d s) 1" "1 < disksize (reboot d s)" "card (pinned (reboot d s)) < NBUF"
    using rf log by (simp_all add: log_ok_def NBUF_def MAXOPBLOCKS_def)
  from readsb_spec [OF rf(1) this] obtain s1 where s1: "readsb 1 (reboot d s) = Some (sb_of (d 1), s1)" "wrote [] (reboot d s) s1"
    using rf(2) by auto
  define s2 where "s2 = s1\<lparr>lg_start := lg_start s, lg_size := sb_nlog (sb_of (d 1)), lg_dev := 1\<rparr>"
  have eq: "bufs s2 = bufs s1" "lru s2 = lru s1" "disk s2 = disk s1" by (simp_all add: s2_def)
  note u = bio_more_upd [OF eq]
  have w: "bio_inv s2" "blk s2 = d" "disk s2 = d" "\<forall>m. \<not> dirty s2 m" "\<forall>m. \<not> held s2 m" "disksize s2 = disksize s" "lg_start s2 = lg_start s"
    using s1(2) rf u eq by (auto simp: wrote_def s2_def)
  have slot: "log_slot s2 = log_slot s" using w(7) by (simp add: log_slot_def fun_eq_iff)
  then have reg: "log_region s2 = log_region s" using w(7) by (simp add: log_region_def)
  have "log_ok s2" using log w(6) reg by (simp add: log_ok_def s2_def)
  moreover have "?h = blk s2 (lg_start s2)" "head_ok ?h s2" using h w reg by (simp_all add: head_ok_def)
  ultimately obtain r where "recover_from_log s2 = Some r"
    "disk r = upds (map (\<lambda>i. (get32 ?h (head_off i), blk s2 (log_slot s2 i))) [0..<nat (sint (get32 ?h 0))] @ [(lg_start s2, put32 0 0 ?h)]) (disk s2)"
    using recover_wrote [OF w(1,4,5)] by blast
  moreover have "initlog 1 (reboot d s) = recover_from_log s2"
    using s1(1) sb by (simp add: initlog_def s2_def LOGSIZE_def MAXOPBLOCKS_def BSIZE_def)
  ultimately show ?thesis using w slot by auto
qed

text \<open>The header that a commit writes.\<close>

lemma sint_small: "0 \<le> n \<Longrightarrow> n \<le> int LOGSIZE \<Longrightarrow> sint (word_of_int n :: u32) = n"
proof -
  assume n: "0 \<le> n" "n \<le> int LOGSIZE"
  then have "n < 2 ^ 31" by (simp add: LOGSIZE_def MAXOPBLOCKS_def)
  then show ?thesis using n(1) unfolding signed_of_int of_int_eq_id id_apply
    by (intro signed_take_bit_int_eq_self) simp_all
qed

lemma head_with_get:
  assumes "length d = BSIZE" "0 \<le> n" "n \<le> int LOGSIZE"
  shows "sint (get32 (head_with n blks d) 0) = n" "int i < n \<Longrightarrow> get32 (head_with n blks d) (head_off i) = blks i"
proof -
  have "get32 (head_with n blks d) 0 = word_of_int n"
    using assms(1) by (simp add: head_with_def copy_head_n get32_put32 BSIZE_def)
  then show "sint (get32 (head_with n blks d) 0) = n" using sint_small [OF assms(2,3)] by simp
  show "get32 (head_with n blks d) (head_off i) = blks i" if "int i < n"
    unfolding head_with_def using that assms
    by (intro copy_head_block) (auto simp: head_off_def BSIZE_def LOGSIZE_def MAXOPBLOCKS_def)
qed

lemma get32_put32_zero: "length d = BSIZE \<Longrightarrow> get32 (put32 0 v d) 0 = v"
  by (simp add: get32_put32 BSIZE_def)

section \<open>Crashes\<close>

text \<open>
  The disk before a commit: the superblock says where the log is, and the log is empty.
\<close>

definition disk_ok :: "'a xlog_scheme \<Rightarrow> bool" where
  "disk_ok s \<longleftrightarrow> sb_logstart (sb_of (disk s 1)) = lg_start s \<and> length (disk s (lg_start s)) = BSIZE \<and>
     get32 (disk s (lg_start s)) 0 = 0"

lemma tx_clean_blk: "tx_ok s \<Longrightarrow> m \<notin> lh_block s ` {..<nat (lh_n s)} \<Longrightarrow> blk s m = disk s m"
  using clean_blk [of s m] by (auto simp: tx_ok_def)

lemma start_not_home:
  assumes "tx_ok s"
  shows "lg_start s \<notin> lh_block s ` {..<nat (lh_n s)}"
proof
  assume "lg_start s \<in> lh_block s ` {..<nat (lh_n s)}"
  then obtain i where i: "i < nat (lh_n s)" "lg_start s = lh_block s i" by blast
  then have "lh_block s i \<notin> log_region s" using assms by (simp add: tx_ok_def)
  with i(2) show False by (simp add: log_region_def)
qed

lemma home_upds:
  assumes "tx_ok s" "m \<notin> log_region s" "\<And>x. x \<notin> log_region s \<Longrightarrow> f x = disk s x"
  shows "upds (home_writes s) f m = blk s m"
proof (cases "m \<in> lh_block s ` {..<nat (lh_n s)}")
  case True
  then obtain i where i: "i < nat (lh_n s)" "m = lh_block s i" by auto
  have "distinct (map (lh_block s) [0..<nat (lh_n s)])" using assms(1) by (auto simp: tx_ok_def distinct_map atLeast0LessThan)
  from upds_map [OF this, of i "\<lambda>i. blk s (lh_block s i)" f] show ?thesis using i by (simp add: home_writes_def)
next
  case False
  then have "m \<notin> fst ` set (home_writes s)" by (auto simp: home_writes_def)
  then have "upds (home_writes s) f m = f m" by (rule upds_notin)
  then show ?thesis using tx_clean_blk [OF assms(1) False] assms(2,3) by simp
qed

lemma crash_before:
  assumes ok: "tx_ok s" "disk_ok s" and ws: "fst ` set ws \<subseteq> log_slot s ` {..<nat (lh_n s)}"
  shows "\<exists>r. initlog 1 (reboot (upds ws (disk s)) s) = Some r \<and> (\<forall>m. m \<notin> log_region s \<longrightarrow> disk r m = disk s m)"
proof -
  let ?d = "upds ws (disk s)"
  have slot: "i < nat (lh_n s) \<Longrightarrow> i < LOGSIZE" for i using ok(1) by (simp add: tx_ok_def NBUF_LOGSIZE)
  have "log_slot s ` {..<nat (lh_n s)} \<subseteq> log_slot s ` {..<LOGSIZE}" using ok(1) by (intro image_mono) (simp add: tx_ok_def NBUF_LOGSIZE)
  then have notin: "m \<notin> fst ` set ws" if "m \<notin> log_slot s ` {..<LOGSIZE}" for m using ws that by blast
  have out: "?d m = disk s m" if "m \<notin> log_region s" for m using that notin [of m] by (intro upds_notin) (auto simp: log_region_def)
  have "lg_start s \<notin> log_slot s ` {..<LOGSIZE}"
  proof
    assume "lg_start s \<in> log_slot s ` {..<LOGSIZE}"
    then obtain i where "i < LOGSIZE" "lg_start s = log_slot s i" by blast
    with log_slot_start [of i s] show False by simp
  qed
  then have st: "?d (lg_start s) = disk s (lg_start s)" by (rule upds_notin [OF notin])
  have log: "log_ok s" using ok(1) by (simp add: tx_ok_def)
  have "?d 1 = disk s 1" using out log by (simp add: log_ok_def)
  then have sb: "sb_logstart (sb_of (?d 1)) = lg_start s" using ok(2) by (simp add: disk_ok_def)
  have zero: "get32 (?d (lg_start s)) 0 = 0" using st ok(2) by (simp add: disk_ok_def)
  then have "head_ok (?d (lg_start s)) s" by (simp add: head_ok_def)
  from initlog_reboot [OF sb log this] zero obtain r where r: "initlog 1 (reboot ?d s) = Some r"
    "disk r = upds [(lg_start s, put32 0 0 (?d (lg_start s)))] ?d" by auto
  have "disk r m = disk s m" if "m \<notin> log_region s" for m using r(2) out [OF that] that by (auto simp: log_region_def)
  with r(1) show ?thesis by blast
qed

text \<open>After the header has been written, whatever part of the home writes has been done.\<close>

lemma crash_after:
  assumes ok: "tx_ok s" "disk_ok s" "0 < lh_n s"
    and d: "d = upds hs (upds (log_writes s @ [(lg_start s, head_with (lh_n s) (lh_block s) (blk s (lg_start s)))]) (disk s))"
    and hs: "fst ` set hs \<subseteq> lh_block s ` {..<nat (lh_n s)}"
  shows "\<exists>r. initlog 1 (reboot d s) = Some r \<and> (\<forall>m. m \<notin> log_region s \<longrightarrow> disk r m = blk s m)"
proof -
  let ?n = "nat (lh_n s)" and ?st = "lg_start s" and ?h = "head_with (lh_n s) (lh_block s) (blk s (lg_start s))"
  let ?d1 = "upds (log_writes s @ [(?st, ?h)]) (disk s)"
  have log: "log_ok s" and n: "0 \<le> lh_n s" "lh_n s \<le> int LOGSIZE" using ok(1) by (auto simp: tx_ok_def NBUF_LOGSIZE)
  have slot: "i < ?n \<Longrightarrow> i < LOGSIZE" for i using ok(1) by (simp add: tx_ok_def NBUF_LOGSIZE)
  have home: "i < ?n \<Longrightarrow> lh_block s i \<notin> log_region s \<and> lh_block s i \<noteq> 1 \<and> lh_block s i < disksize s" for i using ok(1) by (simp add: tx_ok_def)
  have reg: "d m = ?d1 m" if "m \<in> log_region s \<or> m = 1" for m
  proof -
    have "lh_block s ` {..<?n} \<inter> insert 1 (log_region s) = {}" using home by auto
    with that hs have "m \<notin> fst ` set hs" by blast
    then show ?thesis unfolding d by (rule upds_notin)
  qed
  have st: "d ?st = ?h" using reg [of ?st] by (simp add: log_region_def)
  have slots: "d (log_slot s i) = blk s (lh_block s i)" if "i < ?n" for i
  proof -
    have "d (log_slot s i) = upds (log_writes s) (disk s) (log_slot s i)"
      using reg [of "log_slot s i"] slot [OF that] log_slot_start [of i s] by (simp add: log_region_def)
    also have "\<dots> = blk s (lh_block s i)" unfolding log_writes_def
    proof (rule upds_map)
      show "distinct (map (log_slot s) [0..<?n])" using log_slot_inj [of _ _ s] slot by (auto simp: distinct_map inj_on_def)
    qed (use that in simp)
    finally show ?thesis .
  qed
  have out1: "?d1 m = disk s m" if "m \<notin> log_region s" for m
    using that slot by (intro upds_notin) (force simp: log_region_def log_writes_def)
  have blk_st: "blk s ?st = disk s ?st" by (rule tx_clean_blk [OF ok(1) start_not_home [OF ok(1)]])
  then have len: "length (blk s ?st) = BSIZE" using ok(2) by (simp add: disk_ok_def)
  note hw = head_with_get [OF len n, where blks = "lh_block s"]
  have "1 \<notin> log_region s" using log by (simp add: log_ok_def)
  then have "d 1 = disk s 1" using reg [of 1] out1 [of 1] by metis
  then have sb: "sb_logstart (sb_of (d 1)) = ?st" using ok(2) by (simp add: disk_ok_def)
  have "head_ok (d ?st) s" unfolding st head_ok_def hw(1) using n hw(2) home by simp
  from initlog_reboot [OF sb log this] obtain r where r: "initlog 1 (reboot d s) = Some r"
    "disk r = upds (map (\<lambda>i. (get32 ?h (head_off i), d (log_slot s i))) [0..<?n] @ [(?st, put32 0 0 ?h)]) d"
    unfolding st hw(1) by blast
  have "map (\<lambda>i. (get32 ?h (head_off i), d (log_slot s i))) [0..<?n] = home_writes s"
    using hw(2) slots by (simp add: home_writes_def)
  then have dr: "disk r = upds (home_writes s @ [(?st, put32 0 0 ?h)]) d" using r(2) by simp
  have "disk r m = blk s m" if m: "m \<notin> log_region s" for m
  proof -
    have "disk r m = upds (home_writes s) d m" using dr m by (auto simp: log_region_def)
    also have "\<dots> = blk s m"
    proof (cases "m \<in> lh_block s ` {..<?n}")
      case True
      then obtain i where i: "i < ?n" "m = lh_block s i" by auto
      have "distinct (map (lh_block s) [0..<?n])" using ok(1) by (auto simp: tx_ok_def distinct_map atLeast0LessThan)
      from upds_map [OF this, of i "\<lambda>i. blk s (lh_block s i)" d] show ?thesis using i by (simp add: home_writes_def)
    next
      case False
      then have "m \<notin> fst ` set (home_writes s)" "m \<notin> fst ` set hs" using hs by (auto simp: home_writes_def)
      then have "upds (home_writes s) d m = ?d1 m" unfolding d by (simp add: upds_notin)
      then show ?thesis using out1 [OF m] tx_clean_blk [OF ok(1) False] by simp
    qed
    finally show ?thesis .
  qed
  with r(1) show ?thesis by blast
qed

lemma crash_end:
  assumes ok: "tx_ok s" "disk_ok s" "0 < lh_n s"
  shows "\<exists>r. initlog 1 (reboot (upds (commit_writes s) (disk s)) s) = Some r \<and> (\<forall>m. m \<notin> log_region s \<longrightarrow> disk r m = blk s m)"
proof -
  let ?n = "nat (lh_n s)" and ?st = "lg_start s" and ?h = "head_with (lh_n s) (lh_block s) (blk s (lg_start s))"
  let ?d1 = "upds (log_writes s @ [(?st, ?h)]) (disk s)"
  define d where "d = (upds (home_writes s) ?d1)(?st := head_with 0 (lh_block s) ?h)"
  have d: "upds (commit_writes s) (disk s) = d" by (simp add: commit_writes_def Let_def d_def)
  have log: "log_ok s" using ok(1) by (simp add: tx_ok_def)
  have home: "i < ?n \<Longrightarrow> lh_block s i \<notin> log_region s \<and> lh_block s i \<noteq> 1" for i using ok(1) by (simp add: tx_ok_def)
  have slots: "log_slot s ` {..<?n} \<subseteq> log_region s"
    using ok(1) by (auto simp: tx_ok_def NBUF_LOGSIZE log_region_def)
  have out1: "?d1 m = disk s m" if "m \<notin> log_region s" for m
  proof -
    have "m \<notin> log_slot s ` {..<?n}" "m \<noteq> ?st" using that slots by (auto simp: log_region_def)
    then have "m \<notin> fst ` set (log_writes s @ [(?st, ?h)])" by (auto simp: log_writes_def)
    then show ?thesis by (rule upds_notin)
  qed
  have out: "d m = blk s m" if "m \<notin> log_region s" for m
  proof -
    have "m \<noteq> ?st" using that by (simp add: log_region_def)
    then have "d m = upds (home_writes s) ?d1 m" by (simp add: d_def)
    then show ?thesis using home_upds [where f = ?d1, OF ok(1) that out1] by simp
  qed
  have "1 \<notin> log_region s" using log by (simp add: log_ok_def)
  moreover have "1 \<notin> lh_block s ` {..<?n}" using home by auto
  ultimately have "d 1 = disk s 1" using out tx_clean_blk [OF ok(1)] by metis
  then have sb: "sb_logstart (sb_of (d 1)) = ?st" using ok(2) by (simp add: disk_ok_def)
  have "length (blk s ?st) = BSIZE" using ok(2) tx_clean_blk [OF ok(1) start_not_home [OF ok(1)]] by (simp add: disk_ok_def)
  then have zero: "get32 (d ?st) 0 = 0" by (simp add: d_def head_with_def get32_put32_zero)
  then have "head_ok (d ?st) s" by (simp add: head_ok_def)
  from initlog_reboot [OF sb log this] zero obtain r where r: "initlog 1 (reboot d s) = Some r"
    "disk r = upds [(?st, put32 0 0 (d ?st))] d" by auto
  have "disk r m = blk s m" if "m \<notin> log_region s" for m using r(2) out [OF that] that by (auto simp: log_region_def)
  with r(1) show ?thesis unfolding d by blast
qed

lemma commit_crash_atomic:
  assumes ok: "tx_ok s" "disk_ok s" "0 < lh_n s"
  shows "\<exists>r. initlog 1 (reboot (upds (take k (commit_writes s)) (disk s)) s) = Some r \<and>
    (\<forall>m. m \<notin> log_region s \<longrightarrow> disk r m = (if k \<le> nat (lh_n s) then disk s m else blk s m))"
proof -
  let ?n = "nat (lh_n s)" and ?st = "lg_start s" and ?h = "head_with (lh_n s) (lh_block s) (blk s (lg_start s))"
  have len: "length (log_writes s) = ?n" "length (home_writes s) = ?n" by (simp_all add: log_writes_def home_writes_def)
  consider "k \<le> ?n" | "?n < k" "k \<le> 2 * ?n + 1" | "2 * ?n + 2 \<le> k" by linarith
  then show ?thesis
  proof cases
    case 1
    then have "take k (commit_writes s) = take k (log_writes s)" by (simp add: commit_writes_def Let_def len)
    moreover have "fst ` set (take k (log_writes s)) \<subseteq> log_slot s ` {..<?n}"
      using set_take_subset [of k "log_writes s"] by (auto simp: log_writes_def)
    ultimately show ?thesis using crash_before [OF ok(1,2)] 1 by metis
  next
    case 2
    define j where "j = k - ?n - 1"
    have "take k (commit_writes s) = log_writes s @ [(?st, ?h)] @ take j (home_writes s)"
      using 2 by (simp add: commit_writes_def Let_def len j_def take_Cons')
    then have "upds (take k (commit_writes s)) (disk s) = upds (take j (home_writes s)) (upds (log_writes s @ [(?st, ?h)]) (disk s))"
      by simp
    moreover have "fst ` set (take j (home_writes s)) \<subseteq> lh_block s ` {..<?n}"
      using set_take_subset [of j "home_writes s"] by (auto simp: home_writes_def)
    ultimately show ?thesis using crash_after [OF ok] 2(1) by (metis not_less)
  next
    case 3
    then have "take k (commit_writes s) = commit_writes s" by (simp add: commit_writes_def Let_def len)
    with crash_end [OF ok] 3 show ?thesis by auto
  qed
qed

text \<open>The disk after all of the writes.\<close>

lemma commit_installs:
  assumes "tx_ok s" "m \<notin> log_region s"
  shows "upds (commit_writes s) (disk s) m = blk s m"
proof -
  have st: "m \<noteq> lg_start s" using assms(2) by (auto simp: log_region_def)
  have log: "upds (log_writes s) (disk s) x = disk s x" if "x \<notin> log_region s" for x
  proof (rule upds_notin)
    have "nat (lh_n s) \<le> LOGSIZE" using assms(1) by (simp add: tx_ok_def NBUF_LOGSIZE)
    then show "x \<notin> fst ` set (log_writes s)" using that by (auto simp: log_writes_def log_region_def)
  qed
  show ?thesis unfolding commit_writes_def Let_def using st assms log
    by (simp add: fun_upd_other) (rule home_upds, auto simp: log_region_def)
qed

text \<open>A commit, with a machine that may stop after any number of its writes.\<close>

lemma commit_safe:
  fixes s :: "'a xlog_scheme"
  assumes ok: "tx_ok s" "disk_ok s" "0 < lh_n s"
  shows "\<exists>s' ws. commit s = Some s' \<and> lh_n s' = 0 \<and> dtrace s' = dtrace s @ ws \<and> disk s' = upds ws (disk s) \<and>
    (\<forall>m. m \<notin> log_region s \<longrightarrow> disk s' m = blk s m) \<and>
    (\<forall>k. \<exists>r. initlog 1 (reboot (upds (take k ws) (disk s)) s) = Some r \<and>
       ((\<forall>m. m \<notin> log_region s \<longrightarrow> disk r m = disk s m) \<or> (\<forall>m. m \<notin> log_region s \<longrightarrow> disk r m = blk s m)))"
proof -
  obtain s' where s': "commit s = Some s'" "lh_n s' = 0" "wrote (commit_writes s) s (s'\<lparr>lh_n := lh_n s\<rparr>)"
    using commit_wrote [OF ok(1,3)] by blast
  have "\<exists>r. initlog 1 (reboot (upds (take k (commit_writes s)) (disk s)) s) = Some r \<and>
      ((\<forall>m. m \<notin> log_region s \<longrightarrow> disk r m = disk s m) \<or> (\<forall>m. m \<notin> log_region s \<longrightarrow> disk r m = blk s m))" for k
    using commit_crash_atomic [OF ok, of k] by (cases "k \<le> nat (lh_n s)") auto
  then show ?thesis using s' commit_installs [OF ok(1)] by (intro exI [of _ s'] exI [of _ "commit_writes s"]) (auto simp: wrote_def)
qed

text \<open>
  A transaction may log as many blocks as there are buffers.  Such a transaction cannot commit: its
  blocks stay in the cache until they are installed, and there is no buffer left for the log.
\<close>

lemma commit_full_panics:
  fixes s :: "'a xlog_scheme"
  assumes "bio_inv s" "\<forall>i < NBUF. b_dirty (bufs s i)" "lg_dev s = 1" "0 < lh_n s" "cached s (log_slot s 0) = None"
  shows "commit s = None"
proof -
  have "find (\<lambda>i. b_refcnt (bufs s i) = 0 \<and> \<not> b_dirty (bufs s i)) (rev (lru s)) = None"
    using bio_invD(2) [OF assms(1)] assms(2) by (auto simp: find_None_iff)
  then have r: "bread 1 (log_slot s 0) s = None" using assms(5) by (simp add: bread_def bget_def cached_def)
  have "[0..<nat (lh_n s)] = 0 # [1..<nat (lh_n s)]" using assms(4) by (simp add: upt_conv_Cons)
  then show ?thesis using r assms(3,4) by (simp add: commit_def write_log_def)
qed

section \<open>Reading and writing one block\<close>

text \<open>The protocol of the users of a buffer, against a map from block numbers to contents.\<close>

lemma rewrite_block:
  fixes s :: "'a bio_scheme"
  assumes inv: "bio_inv s" and n: "\<not> held s n" "n < disksize s" and room: "dirty s n \<or> card (pinned s) < NBUF"
  shows "\<exists>i s1. bread 1 n s = Some (i, s1) \<and> bio_inv s1 \<and> b_data (bufs s1 i) = blk s n \<and> bio_same s s1 \<and>
    (\<forall>m. held s1 m \<longleftrightarrow> held s m \<or> m = n) \<and>
    (\<exists>s2. brelse i s1 = Some s2 \<and> bio_inv s2 \<and> bio_same s s2 \<and> (\<forall>m. held s2 m = held s m)) \<and>
    (\<forall>d. \<exists>s2 s3. bwrite i (set_data i d s1) = Some s2 \<and> brelse i s2 = Some s3 \<and> bio_inv s3 \<and>
       blk s3 = (blk s)(n := d) \<and> disk s3 = (disk s)(n := d) \<and> dtrace s3 = dtrace s @ [(n, d)] \<and> (\<forall>m. held s3 m = held s m))"
proof -
  obtain i s1 where 1: "bread 1 n s = Some (i, s1)" using bread_ok [OF inv n room] by blast
  note inv1 = bread_inv [OF inv 1] and e1 = bread_effect [OF inv 1] and sp1 = bread_spec [OF inv 1]
  have same: "blk s1 = blk s" "disk s1 = disk s" "disksize s1 = disksize s" "dtrace s1 = dtrace s" "dirty s1 = dirty s" "bio.more s1 = bio.more s"
    using sp1(4) by (auto simp: bio_same_def)
  have h: "held s1 m \<and> m \<noteq> n \<longleftrightarrow> held s m" for m using sp1(2,3) by auto
  have "dirty s1 n \<or> blk s1 n = disk s1 n" using clean_blk [OF inv n(1)] same by simp
  then obtain s2 where 2: "brelse i s1 = Some s2" "bio_inv s2" "\<forall>m. held s2 m \<longleftrightarrow> m \<noteq> n \<and> held s1 m"
    "\<forall>m. blk s2 m = blk s1 m" "\<forall>m. dirty s2 m = dirty s1 m" "disk s2 = disk s1" "dtrace s2 = dtrace s1" "disksize s2 = disksize s1"
    "bio.more s2 = bio.more s1"
    using brelse_spec [OF inv1 sp1(1) e1(10)] by blast
  have rel: "\<exists>s2. brelse i s1 = Some s2 \<and> bio_inv s2 \<and> bio_same s s2 \<and> (\<forall>m. held s2 m = held s m)"
    using 2 h same by (intro exI [of _ s2]) (auto simp: bio_same_def)
  have "\<exists>s2 s3. bwrite i (set_data i d s1) = Some s2 \<and> brelse i s2 = Some s3 \<and> bio_inv s3 \<and>
       blk s3 = (blk s)(n := d) \<and> disk s3 = (disk s)(n := d) \<and> dtrace s3 = dtrace s @ [(n, d)] \<and> (\<forall>m. held s3 m = held s m)" for d
  proof -
    obtain s2 where w: "bwrite i (set_data i d s1) = Some s2" "bio_inv s2" "cached s2 = cached s1" "held s2 = held s1"
      "blk s2 = (blk s1)(n := d)" "disk s2 = (disk s1)(n := d)" "dtrace s2 = dtrace s1 @ [(n, d)]"
      "\<forall>k. b_locked (bufs s2 k) = b_locked (bufs s1 k)"
      using write_block [OF inv1 sp1(1) e1(10)] n(2) same(3) by metis
    have "cached s2 n = Some i" "b_locked (bufs s2 i)" "dirty s2 n \<or> blk s2 n = disk s2 n" using w sp1(1) e1(10) by simp_all
    from brelse_spec [OF w(2) this] obtain s3 where r: "brelse i s2 = Some s3" "bio_inv s3" "\<forall>m. held s3 m \<longleftrightarrow> m \<noteq> n \<and> held s2 m"
      "\<forall>m. blk s3 m = blk s2 m" "disk s3 = disk s2" "dtrace s3 = dtrace s2" by blast
    then have "blk s3 = (blk s)(n := d)" using w same by auto
    then show ?thesis using w r same h by (intro exI [of _ s2] exI [of _ s3]) auto
  qed
  with rel show ?thesis using 1 inv1 e1(11) sp1 by blast
qed

end
