(* ===== verification/Xv6_Fs.thy ===== *)
theory Xv6_Fs
  imports Xv6_Log
begin

text \<open>
  The file system of xv6 (\<open>fs.c\<close>, \<open>fs.h\<close>, \<open>file.h\<close>): blocks, inodes, their contents, directories
  and paths, over the log.  The in-memory inodes extend the state of the log.  On disk an inode is
  64 bytes of a block and a directory entry 16 bytes of a file; both are read and written byte by
  byte.  A panic, or waiting for a lock that the caller holds itself, has no result.
\<close>

section \<open>On-disk format\<close>

definition ROOTINO :: u32 where "ROOTINO = 1"
definition ROOTDEV :: u32 where "ROOTDEV = 1"
definition NDIRECT :: nat where "NDIRECT = 12"
definition NINDIRECT :: nat where "NINDIRECT = BSIZE div 4"
definition MAXFILE :: nat where "MAXFILE = NDIRECT + NINDIRECT"
definition DINODE_SIZE :: nat where "DINODE_SIZE = 64"
definition IPB :: nat where "IPB = BSIZE div DINODE_SIZE"
definition BPB :: nat where "BPB = BSIZE * 8"
definition DIRSIZ :: nat where "DIRSIZ = 14"
definition DIRENT_SIZE :: nat where "DIRENT_SIZE = 16"
definition NINODE :: nat where "NINODE = 50"
definition NDEV :: nat where "NDEV = 10"
definition T_DIR :: u16 where "T_DIR = 1"
definition T_FILE :: u16 where "T_FILE = 2"
definition T_DEV :: u16 where "T_DEV = 3"

definition IBLOCK :: "u32 \<Rightarrow> superblock \<Rightarrow> u32" where
  "IBLOCK i sb = i div word_of_nat IPB + sb_inodestart sb"

definition BBLOCK :: "u32 \<Rightarrow> superblock \<Rightarrow> u32" where
  "BBLOCK b sb = b div word_of_nat BPB + sb_bmapstart sb"

definition put16 :: "nat \<Rightarrow> u16 \<Rightarrow> block \<Rightarrow> block" where
  "put16 k v d = d[k := ucast v, k + 1 := ucast (drop_bit 8 v)]"

definition get16 :: "block \<Rightarrow> nat \<Rightarrow> u16" where
  "get16 d k = ucast (d ! k) OR push_bit 8 (ucast (d ! (k + 1)))"

section \<open>State\<close>

record inode =
  i_dev :: u32
  i_inum :: u32
  i_ref :: int
  i_locked :: bool
  i_valid :: bool
  i_type :: u16
  i_major :: u16
  i_minor :: u16
  i_nlink :: u16
  i_size :: u32
  i_addrs :: "nat \<Rightarrow> u32"

record xfs = xlog +
  fsb :: superblock
  icache :: "nat \<Rightarrow> inode"
  cwd :: nat

definition upd_ino :: "nat \<Rightarrow> (inode \<Rightarrow> inode) \<Rightarrow> xfs \<Rightarrow> xfs" where
  "upd_ino ip f s = s\<lparr>icache := (icache s)(ip := f (icache s ip))\<rparr>"

section \<open>Blocks\<close>

definition bzero :: "u32 \<Rightarrow> u32 \<Rightarrow> xfs \<Rightarrow> xfs option" where
  "bzero dev bno s = do {
     (bp, s) \<leftarrow> bread dev bno s;
     s \<leftarrow> log_write bp (set_data bp (replicate BSIZE 0) s);
     brelse bp s
   }"

definition bit_free :: "block \<Rightarrow> nat \<Rightarrow> bool" where
  "bit_free d bi \<longleftrightarrow> d ! (bi div 8) AND push_bit (bi mod 8) 1 = 0"

definition bit_set :: "nat \<Rightarrow> block \<Rightarrow> block" where
  "bit_set bi d = d[bi div 8 := d ! (bi div 8) OR push_bit (bi mod 8) 1]"

definition bit_clear :: "nat \<Rightarrow> block \<Rightarrow> block" where
  "bit_clear bi d = d[bi div 8 := d ! (bi div 8) AND NOT (push_bit (bi mod 8) 1)]"

text \<open>The inner loop over the bits of one block of the map, and the outer one over these blocks.\<close>

definition first_free :: "nat \<Rightarrow> nat \<Rightarrow> block \<Rightarrow> nat option" where
  "first_free b sz d = find (bit_free d) (takeWhile (\<lambda>bi. b + bi < sz) [0..<BPB])"

fun balloc_loop :: "u32 \<Rightarrow> nat list \<Rightarrow> xfs \<Rightarrow> (u32 \<times> xfs) option" where
  "balloc_loop dev [] s = None"
| "balloc_loop dev (b # bs) s = do {
     (bp, s) \<leftarrow> bread dev (BBLOCK (word_of_nat b) (fsb s)) s;
     (case first_free b (unat (sb_size (fsb s))) (b_data (bufs s bp)) of
        Some bi \<Rightarrow> do {
          s \<leftarrow> log_write bp (set_data bp (bit_set bi (b_data (bufs s bp))) s);
          s \<leftarrow> brelse bp s;
          s \<leftarrow> bzero dev (word_of_nat (b + bi)) s;
          Some (word_of_nat (b + bi), s)
        }
      | None \<Rightarrow> do {
          s \<leftarrow> brelse bp s;
          balloc_loop dev bs s
        })
   }"

definition balloc :: "u32 \<Rightarrow> xfs \<Rightarrow> (u32 \<times> xfs) option" where
  "balloc dev s = balloc_loop dev (filter (\<lambda>b. b mod BPB = 0) [0..<unat (sb_size (fsb s))]) s"

definition bfree :: "u32 \<Rightarrow> u32 \<Rightarrow> xfs \<Rightarrow> xfs option" where
  "bfree dev b s = do {
     (bp, s) \<leftarrow> bread dev (BBLOCK b (fsb s)) s;
     let bi = unat b mod BPB;
     if bit_free (b_data (bufs s bp)) bi then None
     else do {
       s \<leftarrow> log_write bp (set_data bp (bit_clear bi (b_data (bufs s bp))) s);
       brelse bp s
     }
   }"

section \<open>Inodes\<close>

text \<open>The array is in the zeroed part of the kernel image; only its locks are initialised.\<close>

definition iinit :: "u32 \<Rightarrow> xfs \<Rightarrow> xfs option" where
  "iinit dev s = do {
     (sb, s) \<leftarrow> readsb dev (s\<lparr>icache := (\<lambda>i. (icache s i)\<lparr>i_locked := False\<rparr>)\<rparr>);
     Some (s\<lparr>fsb := sb\<rparr>)
   }"

definition dinode_off :: "u32 \<Rightarrow> nat" where
  "dinode_off inum = unat inum mod IPB * DINODE_SIZE"

fun put_addrs :: "nat \<Rightarrow> (nat \<Rightarrow> u32) \<Rightarrow> nat list \<Rightarrow> block \<Rightarrow> block" where
  "put_addrs k a [] d = d"
| "put_addrs k a (j # js) d = put_addrs k a js (put32 (k + 12 + 4 * j) (a j) d)"

definition put_dinode :: "nat \<Rightarrow> inode \<Rightarrow> block \<Rightarrow> block" where
  "put_dinode k ip d =
     put_addrs k (i_addrs ip) [0..<NDIRECT + 1]
       (put32 (k + 8) (i_size ip) (put16 (k + 6) (i_nlink ip) (put16 (k + 4) (i_minor ip)
         (put16 (k + 2) (i_major ip) (put16 k (i_type ip) d)))))"

definition get_dinode :: "nat \<Rightarrow> block \<Rightarrow> inode \<Rightarrow> inode" where
  "get_dinode k d ip = ip\<lparr>i_type := get16 d k, i_major := get16 d (k + 2), i_minor := get16 d (k + 4),
     i_nlink := get16 d (k + 6), i_size := get32 d (k + 8),
     i_addrs := (\<lambda>j. if j < NDIRECT + 1 then get32 d (k + 12 + 4 * j) else i_addrs ip j)\<rparr>"

text \<open>The cached inode of a number, and the first entry that is not in use before it is found.\<close>

definition iget :: "u32 \<Rightarrow> u32 \<Rightarrow> xfs \<Rightarrow> (nat \<times> xfs) option" where
  "iget dev inum s =
     (case find (\<lambda>ip. i_ref (icache s ip) > 0 \<and> i_dev (icache s ip) = dev \<and> i_inum (icache s ip) = inum) [0..<NINODE] of
        Some ip \<Rightarrow> Some (ip, upd_ino ip (\<lambda>i. i\<lparr>i_ref := i_ref i + 1\<rparr>) s)
      | None \<Rightarrow>
          (case find (\<lambda>ip. i_ref (icache s ip) = 0) [0..<NINODE] of
             None \<Rightarrow> None
           | Some ip \<Rightarrow> Some (ip, upd_ino ip (\<lambda>i. i\<lparr>i_dev := dev, i_inum := inum, i_ref := 1, i_valid := False\<rparr>) s)))"

fun ialloc_loop :: "u32 \<Rightarrow> u16 \<Rightarrow> nat list \<Rightarrow> xfs \<Rightarrow> (nat \<times> xfs) option" where
  "ialloc_loop dev type [] s = None"
| "ialloc_loop dev type (inum # ns) s = do {
     (bp, s) \<leftarrow> bread dev (IBLOCK (word_of_nat inum) (fsb s)) s;
     let d = b_data (bufs s bp);
     let k = dinode_off (word_of_nat inum);
     if get16 d k = 0 then do {
       let d' = take k d @ replicate DINODE_SIZE 0 @ drop (k + DINODE_SIZE) d;
       s \<leftarrow> log_write bp (set_data bp (put16 k type d') s);
       s \<leftarrow> brelse bp s;
       iget dev (word_of_nat inum) s
     } else do {
       s \<leftarrow> brelse bp s;
       ialloc_loop dev type ns s
     }
   }"

definition ialloc :: "u32 \<Rightarrow> u16 \<Rightarrow> xfs \<Rightarrow> (nat \<times> xfs) option" where
  "ialloc dev type s = ialloc_loop dev type [1..<unat (sb_ninodes (fsb s))] s"

definition iupdate :: "nat \<Rightarrow> xfs \<Rightarrow> xfs option" where
  "iupdate ip s = do {
     let i = icache s ip;
     (bp, s) \<leftarrow> bread (i_dev i) (IBLOCK (i_inum i) (fsb s)) s;
     s \<leftarrow> log_write bp (set_data bp (put_dinode (dinode_off (i_inum i)) i (b_data (bufs s bp))) s);
     brelse bp s
   }"

definition idup :: "nat \<Rightarrow> xfs \<Rightarrow> nat \<times> xfs" where
  "idup ip s = (ip, upd_ino ip (\<lambda>i. i\<lparr>i_ref := i_ref i + 1\<rparr>) s)"

text \<open>An inode is given by its place in the cache; there is no null pointer to look for.\<close>

definition ilock :: "nat \<Rightarrow> xfs \<Rightarrow> xfs option" where
  "ilock ip s =
     (if i_ref (icache s ip) < 1 then None
      else if i_locked (icache s ip) then None
      else
        let s = upd_ino ip (\<lambda>i. i\<lparr>i_locked := True\<rparr>) s
        in if i_valid (icache s ip) then Some s
           else do {
             (bp, s) \<leftarrow> bread (i_dev (icache s ip)) (IBLOCK (i_inum (icache s ip)) (fsb s)) s;
             let i = get_dinode (dinode_off (i_inum (icache s ip))) (b_data (bufs s bp)) (icache s ip);
             s \<leftarrow> brelse bp (upd_ino ip (\<lambda>_. i) s);
             let s = upd_ino ip (\<lambda>i. i\<lparr>i_valid := True\<rparr>) s;
             if i_type (icache s ip) = 0 then None else Some s
           })"

definition iunlock :: "nat \<Rightarrow> xfs \<Rightarrow> xfs option" where
  "iunlock ip s =
     (if \<not> i_locked (icache s ip) \<or> i_ref (icache s ip) < 1 then None
      else Some (upd_ino ip (\<lambda>i. i\<lparr>i_locked := False\<rparr>) s))"

section \<open>Contents\<close>

definition set_addr :: "nat \<Rightarrow> nat \<Rightarrow> u32 \<Rightarrow> xfs \<Rightarrow> xfs" where
  "set_addr ip j a s = upd_ino ip (\<lambda>i. i\<lparr>i_addrs := (i_addrs i)(j := a)\<rparr>) s"

definition bmap :: "nat \<Rightarrow> nat \<Rightarrow> xfs \<Rightarrow> (u32 \<times> xfs) option" where
  "bmap ip bn s =
     (if bn < NDIRECT then
        if i_addrs (icache s ip) bn = 0 then do {
          (a, s) \<leftarrow> balloc (i_dev (icache s ip)) s;
          Some (a, set_addr ip bn a s)
        } else Some (i_addrs (icache s ip) bn, s)
      else
        let bn = bn - NDIRECT
        in if bn < NINDIRECT then do {
             s \<leftarrow> (if i_addrs (icache s ip) NDIRECT = 0 then do {
                       (a, s) \<leftarrow> balloc (i_dev (icache s ip)) s;
                       Some (set_addr ip NDIRECT a s)
                     } else Some s);
             (bp, s) \<leftarrow> bread (i_dev (icache s ip)) (i_addrs (icache s ip) NDIRECT) s;
             let a = get32 (b_data (bufs s bp)) (4 * bn);
             if a = 0 then do {
               (a, s) \<leftarrow> balloc (i_dev (icache s ip)) s;
               s \<leftarrow> log_write bp (set_data bp (put32 (4 * bn) a (b_data (bufs s bp))) s);
               s \<leftarrow> brelse bp s;
               Some (a, s)
             } else do {
               s \<leftarrow> brelse bp s;
               Some (a, s)
             }
           } else None)"

fun free_direct :: "nat \<Rightarrow> nat list \<Rightarrow> xfs \<Rightarrow> xfs option" where
  "free_direct ip [] s = Some s"
| "free_direct ip (i # is) s =
     (if i_addrs (icache s ip) i \<noteq> 0 then do {
        s \<leftarrow> bfree (i_dev (icache s ip)) (i_addrs (icache s ip) i) s;
        free_direct ip is (set_addr ip i 0 s)
      } else free_direct ip is s)"

fun free_indirect :: "u32 \<Rightarrow> nat \<Rightarrow> nat list \<Rightarrow> xfs \<Rightarrow> xfs option" where
  "free_indirect dev bp [] s = Some s"
| "free_indirect dev bp (j # js) s =
     (if get32 (b_data (bufs s bp)) (4 * j) \<noteq> 0 then do {
        s \<leftarrow> bfree dev (get32 (b_data (bufs s bp)) (4 * j)) s;
        free_indirect dev bp js s
      } else free_indirect dev bp js s)"

definition itrunc :: "nat \<Rightarrow> xfs \<Rightarrow> xfs option" where
  "itrunc ip s = do {
     s \<leftarrow> free_direct ip [0..<NDIRECT] s;
     let dev = i_dev (icache s ip);
     let ind = i_addrs (icache s ip) NDIRECT;
     s \<leftarrow> (if ind \<noteq> 0 then do {
               (bp, s) \<leftarrow> bread dev ind s;
               s \<leftarrow> free_indirect dev bp [0..<NINDIRECT] s;
               s \<leftarrow> brelse bp s;
               s \<leftarrow> bfree dev ind s;
               Some (set_addr ip NDIRECT 0 s)
             } else Some s);
     iupdate ip (upd_ino ip (\<lambda>i. i\<lparr>i_size := 0\<rparr>) s)
   }"

definition iput :: "nat \<Rightarrow> xfs \<Rightarrow> xfs option" where
  "iput ip s =
     (if i_locked (icache s ip) then None
      else do {
        let s = upd_ino ip (\<lambda>i. i\<lparr>i_locked := True\<rparr>) s;
        s \<leftarrow> (if i_valid (icache s ip) \<and> i_nlink (icache s ip) = 0 \<and> i_ref (icache s ip) = 1 then do {
                  s \<leftarrow> itrunc ip s;
                  s \<leftarrow> iupdate ip (upd_ino ip (\<lambda>i. i\<lparr>i_type := 0\<rparr>) s);
                  Some (upd_ino ip (\<lambda>i. i\<lparr>i_valid := False\<rparr>) s)
                } else Some s);
        Some (upd_ino ip (\<lambda>i. i\<lparr>i_locked := False, i_ref := i_ref i - 1\<rparr>) s)
      })"

definition iunlockput :: "nat \<Rightarrow> xfs \<Rightarrow> xfs option" where
  "iunlockput ip s = do {
     s \<leftarrow> iunlock ip s;
     iput ip s
   }"

record xstat =
  st_dev :: u32
  st_ino :: u32
  st_type :: u16
  st_nlink :: u16
  st_size :: u32

definition stati :: "nat \<Rightarrow> xfs \<Rightarrow> xstat" where
  "stati ip s = \<lparr>st_dev = i_dev (icache s ip), st_ino = i_inum (icache s ip), st_type = i_type (icache s ip),
     st_nlink = i_nlink (icache s ip), st_size = i_size (icache s ip)\<rparr>"

text \<open>
  The drivers of devices are reached through \<open>devsw\<close>, a table of functions by major number that
  other parts of the kernel fill: \<open>drd\<close> reads up to a number of bytes, \<open>dwr\<close> writes.
\<close>

type_synonym dev_read = "nat \<Rightarrow> (nat \<Rightarrow> u32 \<Rightarrow> xfs \<Rightarrow> (int \<times> u8 list \<times> xfs) option) option"
type_synonym dev_write = "nat \<Rightarrow> (nat \<Rightarrow> u8 list \<Rightarrow> xfs \<Rightarrow> (int \<times> xfs) option) option"

definition major_ok :: "u16 \<Rightarrow> bool" where
  "major_ok m \<longleftrightarrow> 0 \<le> sint m \<and> sint m < int NDEV"

definition chunk :: "nat \<Rightarrow> nat \<Rightarrow> nat" where
  "chunk off n = min n (BSIZE - off mod BSIZE)"

lemma chunk_pos: "0 < n \<Longrightarrow> 0 < chunk off n"
  by (simp add: chunk_def BSIZE_def)

function readi_loop :: "nat \<Rightarrow> nat \<Rightarrow> nat \<Rightarrow> xfs \<Rightarrow> (u8 list \<times> xfs) option" where
  "readi_loop ip off n s =
     (if n = 0 then Some ([], s)
      else do {
        (a, s) \<leftarrow> bmap ip (off div BSIZE) s;
        (bp, s) \<leftarrow> bread (i_dev (icache s ip)) a s;
        let d = take (chunk off n) (drop (off mod BSIZE) (b_data (bufs s bp)));
        s \<leftarrow> brelse bp s;
        (ds, s) \<leftarrow> readi_loop ip (off + chunk off n) (n - chunk off n) s;
        Some (d @ ds, s)
      })"
  by pat_completeness auto
termination
  by (relation "measure (\<lambda>(ip, off, n, s). n)") (auto simp: chunk_pos)

declare readi_loop.simps [simp del]

definition readi :: "dev_read \<Rightarrow> nat \<Rightarrow> u32 \<Rightarrow> u32 \<Rightarrow> xfs \<Rightarrow> (int \<times> u8 list \<times> xfs) option" where
  "readi drd ip off n s =
     (let i = icache s ip
      in if i_type i = T_DEV then
           if \<not> major_ok (i_major i) then Some (- 1, [], s)
           else (case drd (unat (i_major i)) of
                   None \<Rightarrow> Some (- 1, [], s)
                 | Some f \<Rightarrow> f ip n s)
         else if off > i_size i \<or> off + n < off then Some (- 1, [], s)
         else do {
           let n' = (if off + n > i_size i then i_size i - off else n);
           (d, s) \<leftarrow> readi_loop ip (unat off) (unat n') s;
           Some (sint n', d, s)
         })"

function writei_loop :: "nat \<Rightarrow> nat \<Rightarrow> u8 list \<Rightarrow> xfs \<Rightarrow> xfs option" where
  "writei_loop ip off src s =
     (if src = [] then Some s
      else do {
        (a, s) \<leftarrow> bmap ip (off div BSIZE) s;
        (bp, s) \<leftarrow> bread (i_dev (icache s ip)) a s;
        let m = chunk off (length src);
        let d = b_data (bufs s bp);
        s \<leftarrow> log_write bp (set_data bp (take (off mod BSIZE) d @ take m src @ drop (off mod BSIZE + m) d) s);
        s \<leftarrow> brelse bp s;
        writei_loop ip (off + m) (drop m src) s
      })"
  by pat_completeness auto
termination
  by (relation "measure (\<lambda>(ip, off, src, s). length src)") (auto simp: chunk_pos)

declare writei_loop.simps [simp del]

definition writei :: "dev_write \<Rightarrow> nat \<Rightarrow> u8 list \<Rightarrow> u32 \<Rightarrow> u32 \<Rightarrow> xfs \<Rightarrow> (int \<times> xfs) option" where
  "writei dwr ip src off n s =
     (let i = icache s ip
      in if i_type i = T_DEV then
           if \<not> major_ok (i_major i) then Some (- 1, s)
           else (case dwr (unat (i_major i)) of
                   None \<Rightarrow> Some (- 1, s)
                 | Some f \<Rightarrow> f ip (take (unat n) src) s)
         else if off > i_size i \<or> off + n < off then Some (- 1, s)
         else if off + n > word_of_nat (MAXFILE * BSIZE) then Some (- 1, s)
         else do {
           s \<leftarrow> writei_loop ip (unat off) (take (unat n) src) s;
           s \<leftarrow> (if n > 0 \<and> off + n > i_size (icache s ip)
                  then iupdate ip (upd_ino ip (\<lambda>i. i\<lparr>i_size := off + n\<rparr>) s) else Some s);
           Some (sint n, s)
         })"

section \<open>Directories\<close>

text \<open>Strings are lists of bytes; those in memory end at the first zero or at the end of the list.\<close>

fun strncmp :: "u8 list \<Rightarrow> u8 list \<Rightarrow> nat \<Rightarrow> int" where
  "strncmp p q 0 = 0"
| "strncmp p q (Suc n) =
     (let a = (case p of [] \<Rightarrow> 0 | x # _ \<Rightarrow> x); b = (case q of [] \<Rightarrow> 0 | x # _ \<Rightarrow> x)
      in if a \<noteq> 0 \<and> a = b then strncmp (tl p) (tl q) n else uint a - uint b)"

fun strncpy :: "u8 list \<Rightarrow> nat \<Rightarrow> u8 list" where
  "strncpy t 0 = []"
| "strncpy t (Suc n) =
     (case t of [] \<Rightarrow> replicate (Suc n) 0
      | c # cs \<Rightarrow> if c = 0 then replicate (Suc n) 0 else c # strncpy cs n)"

definition namecmp :: "u8 list \<Rightarrow> u8 list \<Rightarrow> int" where
  "namecmp a b = strncmp a b DIRSIZ"

fun dirlookup_loop :: "dev_read \<Rightarrow> nat \<Rightarrow> u8 list \<Rightarrow> nat list \<Rightarrow> xfs \<Rightarrow> ((nat \<times> u32) option \<times> xfs) option" where
  "dirlookup_loop drd dp name [] s = Some (None, s)"
| "dirlookup_loop drd dp name (off # offs) s = do {
     (r, de, s) \<leftarrow> readi drd dp (word_of_nat off) (word_of_nat DIRENT_SIZE) s;
     if r \<noteq> int DIRENT_SIZE then None
     else if get16 de 0 = 0 then dirlookup_loop drd dp name offs s
     else if namecmp name (drop 2 de) = 0 then do {
       (ip, s) \<leftarrow> iget (i_dev (icache s dp)) (ucast (get16 de 0)) s;
       Some (Some (ip, word_of_nat off), s)
     } else dirlookup_loop drd dp name offs s
   }"

definition dirent_offs :: "nat \<Rightarrow> xfs \<Rightarrow> nat list" where
  "dirent_offs dp s = filter (\<lambda>off. off mod DIRENT_SIZE = 0) [0..<unat (i_size (icache s dp))]"

text \<open>The result is the inode with the offset of its entry, or nothing.\<close>

definition dirlookup :: "dev_read \<Rightarrow> nat \<Rightarrow> u8 list \<Rightarrow> xfs \<Rightarrow> ((nat \<times> u32) option \<times> xfs) option" where
  "dirlookup drd dp name s =
     (if i_type (icache s dp) \<noteq> T_DIR then None else dirlookup_loop drd dp name (dirent_offs dp s) s)"

text \<open>The offset at which the search for an empty entry ends.\<close>

fun empty_dirent :: "dev_read \<Rightarrow> nat \<Rightarrow> nat list \<Rightarrow> nat \<Rightarrow> xfs \<Rightarrow> (nat \<times> xfs) option" where
  "empty_dirent drd dp [] eoff s = Some (eoff, s)"
| "empty_dirent drd dp (off # offs) eoff s = do {
     (r, de, s) \<leftarrow> readi drd dp (word_of_nat off) (word_of_nat DIRENT_SIZE) s;
     if r \<noteq> int DIRENT_SIZE then None
     else if get16 de 0 = 0 then Some (off, s)
     else empty_dirent drd dp offs eoff s
   }"

definition dirlink :: "dev_read \<Rightarrow> dev_write \<Rightarrow> nat \<Rightarrow> u8 list \<Rightarrow> u32 \<Rightarrow> xfs \<Rightarrow> (int \<times> xfs) option" where
  "dirlink drd dwr dp name inum s = do {
     (found, s) \<leftarrow> dirlookup drd dp name s;
     (case found of
        Some (ip, _) \<Rightarrow> do {
          s \<leftarrow> iput ip s;
          Some (- 1, s)
        }
      | None \<Rightarrow> do {
          (off, s) \<leftarrow> empty_dirent drd dp (dirent_offs dp s) (length (dirent_offs dp s) * DIRENT_SIZE) s;
          let de = put16 0 (ucast inum) ([0, 0] @ strncpy name DIRSIZ);
          (r, s) \<leftarrow> writei dwr dp de (word_of_nat off) (word_of_nat DIRENT_SIZE) s;
          if r \<noteq> int DIRENT_SIZE then None else Some (0, s)
        })
   }"

section \<open>Paths\<close>

definition slash :: u8 where "slash = 47"

text \<open>
  A path without its terminating zero.  \<open>name\<close> is the buffer of the caller, of which a short
  element overwrites only its own bytes and the zero that ends it.
\<close>

definition skipelem :: "u8 list \<Rightarrow> u8 list \<Rightarrow> (u8 list \<times> u8 list) option" where
  "skipelem path name =
     (let p = dropWhile (\<lambda>c. c = slash) path
      in if p = [] then None
         else
           let elem = takeWhile (\<lambda>c. c \<noteq> slash) p;
               rest = dropWhile (\<lambda>c. c \<noteq> slash) p;
               len = length elem;
               name' = (if len \<ge> DIRSIZ then take DIRSIZ elem @ drop DIRSIZ name
                        else elem @ [0] @ drop (len + 1) name)
           in Some (dropWhile (\<lambda>c. c = slash) rest, name'))"

lemma skipelem_shorter: "skipelem path name = Some (path', name') \<Longrightarrow> length path' < length path"
proof -
  assume "skipelem path name = Some (path', name')"
  then have ne: "dropWhile (\<lambda>c. c = slash) path \<noteq> []"
    and p': "path' = dropWhile (\<lambda>c. c = slash) (dropWhile (\<lambda>c. c \<noteq> slash) (dropWhile (\<lambda>c. c = slash) path))"
    by (auto simp: skipelem_def Let_def split: if_splits)
  obtain c cs where c: "dropWhile (\<lambda>c. c = slash) path = c # cs" using ne by (cases "dropWhile (\<lambda>c. c = slash) path") auto
  then have "c \<noteq> slash" using hd_dropWhile [OF ne] by auto
  then have "length path' \<le> length cs"
    unfolding p' c using length_dropWhile_le [of "\<lambda>c. c = slash"] length_dropWhile_le [of "\<lambda>c. c \<noteq> slash"] le_trans by (auto intro: le_trans)
  moreover have "length (c # cs) \<le> length path" unfolding c [symmetric] by (rule length_dropWhile_le)
  ultimately show ?thesis by simp
qed

function namex_loop :: "dev_read \<Rightarrow> nat \<Rightarrow> u8 list \<Rightarrow> bool \<Rightarrow> u8 list \<Rightarrow> xfs \<Rightarrow> (nat option \<times> u8 list \<times> xfs) option" where
  "namex_loop drd ip path parent name s =
     (case skipelem path name of
        None \<Rightarrow>
          if parent then do {
            s \<leftarrow> iput ip s;
            Some (None, name, s)
          } else Some (Some ip, name, s)
      | Some (path', name') \<Rightarrow> do {
          s \<leftarrow> ilock ip s;
          if i_type (icache s ip) \<noteq> T_DIR then do {
            s \<leftarrow> iunlockput ip s;
            Some (None, name', s)
          } else if parent \<and> path' = [] then do {
            s \<leftarrow> iunlock ip s;
            Some (Some ip, name', s)
          } else do {
            (nxt, s) \<leftarrow> dirlookup drd ip name' s;
            s \<leftarrow> iunlockput ip s;
            (case nxt of
               None \<Rightarrow> Some (None, name', s)
             | Some (ip', _) \<Rightarrow> namex_loop drd ip' path' parent name' s)
          }
        })"
  by pat_completeness auto
termination
  by (relation "measure (\<lambda>(drd, ip, path, parent, name, s). length path)") (auto dest: skipelem_shorter)

declare namex_loop.simps [simp del]

text \<open>The inode, if there is one, and the last element of the path.\<close>

definition namex :: "dev_read \<Rightarrow> u8 list \<Rightarrow> bool \<Rightarrow> u8 list \<Rightarrow> xfs \<Rightarrow> (nat option \<times> u8 list \<times> xfs) option" where
  "namex drd path parent name s = do {
     (ip, s) \<leftarrow> (if path \<noteq> [] \<and> hd path = slash then iget ROOTDEV ROOTINO s else Some (idup (cwd s) s));
     namex_loop drd ip path parent name s
   }"

definition namei :: "dev_read \<Rightarrow> u8 list \<Rightarrow> xfs \<Rightarrow> (nat option \<times> xfs) option" where
  "namei drd path s = map_option (\<lambda>(ip, name, s). (ip, s)) (namex drd path False (replicate DIRSIZ 0) s)"

definition nameiparent :: "dev_read \<Rightarrow> u8 list \<Rightarrow> u8 list \<Rightarrow> xfs \<Rightarrow> (nat option \<times> u8 list \<times> xfs) option" where
  "nameiparent drd path name s = namex drd path True name s"

end
