(* ===== verification/Xv6_Tx.thy ===== *)
theory Xv6_Tx
  imports Xv6_Crash Xv6_Fs
begin

text \<open>
  The file system inside of a transaction: updating a block through the cache and the log, and
  allocating and freeing disk blocks in the bitmap.
\<close>

section \<open>Logging a block\<close>

lemma log_find_result:
  assumes "log_find b blks k i = r"
  shows "i \<le> r" "r \<le> i + k" "i \<le> j \<Longrightarrow> j < r \<Longrightarrow> blks j \<noteq> b" "r < i + k \<Longrightarrow> blks r = b"
proof -
  have "i \<le> log_find b blks k i \<and> log_find b blks k i \<le> i + k \<and> (\<forall>j. i \<le> j \<longrightarrow> j < log_find b blks k i \<longrightarrow> blks j \<noteq> b) \<and>
      (log_find b blks k i < i + k \<longrightarrow> blks (log_find b blks k i) = b)"
  proof (induction k arbitrary: i)
    case (Suc k)
    show ?case
    proof (cases "blks i = b")
      case False
      then have "blks j \<noteq> b" if "i \<le> j" "j < log_find b blks k (i + 1)" for j
        using Suc.IH [of "i + 1"] that by (cases "j = i") auto
      then show ?thesis using Suc.IH [of "i + 1"] False by auto
    qed simp
  qed simp
  then show "i \<le> r" "r \<le> i + k" "i \<le> j \<Longrightarrow> j < r \<Longrightarrow> blks j \<noteq> b" "r < i + k \<Longrightarrow> blks r = b"
    using assms by auto
qed

text \<open>The log after \<open>log_write\<close> of block \<open>b\<close>: its places and their number.\<close>

definition logged :: "u32 \<Rightarrow> 'a xlog_scheme \<Rightarrow> 'a xlog_scheme" where
  "logged b s =
     (let i = log_find b (lh_block s) (nat (lh_n s)) 0
      in s\<lparr>lh_block := (lh_block s)(i := b), lh_n := (if int i = lh_n s then lh_n s + 1 else lh_n s)\<rparr>)"

lemma logged_places:
  assumes n: "0 \<le> lh_n s" and inj: "inj_on (lh_block s) {..<nat (lh_n s)}"
  shows "lh_n s \<le> lh_n (logged b s)" "lh_n (logged b s) \<le> lh_n s + 1"
    and "inj_on (lh_block (logged b s)) {..<nat (lh_n (logged b s))}"
    and "lh_block (logged b s) ` {..<nat (lh_n (logged b s))} = insert b (lh_block s ` {..<nat (lh_n s)})"
proof -
  let ?k = "nat (lh_n s)" and ?r = "log_find b (lh_block s) (nat (lh_n s)) 0"
  note r = log_find_result [where b = b and blks = "lh_block s" and k = ?k and i = 0, OF refl]
  show "lh_n s \<le> lh_n (logged b s)" "lh_n (logged b s) \<le> lh_n s + 1" by (simp_all add: logged_def Let_def)
  have "inj_on (lh_block (logged b s)) {..<nat (lh_n (logged b s))} \<and>
      lh_block (logged b s) ` {..<nat (lh_n (logged b s))} = insert b (lh_block s ` {..<?k})"
  proof (cases "?r = ?k")
    case True
    then have "lh_block s j \<noteq> b" if "j < ?k" for j using r(3) that by simp
    then have "b \<notin> lh_block s ` {..<?k}" by auto
    moreover have "nat (lh_n s + 1) = Suc ?k" using n by simp
    ultimately show ?thesis
      using inj n True by (auto simp: logged_def Let_def lessThan_Suc inj_on_def)
  next
    case False
    then have "?r < ?k" "lh_block s ?r = b" using r by auto
    moreover have "int ?r \<noteq> lh_n s" using False by auto
    moreover have "b \<in> lh_block s ` {..<?k}" using calculation by (metis imageI lessThan_iff)
    ultimately show ?thesis using inj by (simp add: logged_def Let_def fun_upd_idem insert_absorb)
  qed
  then show "inj_on (lh_block (logged b s)) {..<nat (lh_n (logged b s))}"
    "lh_block (logged b s) ` {..<nat (lh_n (logged b s))} = insert b (lh_block s ` {..<nat (lh_n s)})" by auto
qed

lemma logged_bio [simp]:
  fixes s :: "'a xlog_scheme"
  shows "bufs (logged b s) = bufs s" "lru (logged b s) = lru s" "disk (logged b s) = disk s" "disksize (logged b s) = disksize s"
    "dtrace (logged b s) = dtrace s" "lg_start (logged b s) = lg_start s" "lg_size (logged b s) = lg_size s" "lg_dev (logged b s) = lg_dev s"
    "lg_outstanding (logged b s) = lg_outstanding s" "lg_committing (logged b s) = lg_committing s"
    "xlog.more (logged b s) = xlog.more s"
  by (simp_all add: logged_def Let_def)

lemma logged_contents [simp]:
  fixes s :: "'a xlog_scheme"
  shows "cached (logged b s) = cached s" "blk (logged b s) = blk s" "held (logged b s) = held s" "dirty (logged b s) = dirty s"
    "bio_inv (logged b s) = bio_inv s" "log_slot (logged b s) = log_slot s" "log_region (logged b s) = log_region s"
  by (simp_all add: cached_def blk_def held_def dirty_def bio_inv_def log_slot_def log_region_def fun_eq_iff split: option.split)

lemma log_write_logged:
  assumes "lh_n s < int LOGSIZE" "lh_n s < sint (lg_size s) - 1" "1 \<le> lg_outstanding s"
  shows "log_write i s = Some (set_dirty i (logged (b_blockno (bufs s i)) s))"
  using assms by (simp add: log_write_def logged_def Let_def)

section \<open>Updating a block in a transaction\<close>

text \<open>Room for \<open>k\<close> more blocks in the log, in an operation that has begun.\<close>

definition tx_room :: "nat \<Rightarrow> 'a xlog_scheme \<Rightarrow> bool" where
  "tx_room k s \<longleftrightarrow> 1 \<le> lg_outstanding s \<and> lh_n s + int k < int NBUF \<and> lh_n s + int k < sint (lg_size s)"

text \<open>A block that operations may change: on the disk, neither the superblock nor in the log.\<close>

definition home :: "'a xlog_scheme \<Rightarrow> u32 \<Rightarrow> bool" where
  "home s n \<longleftrightarrow> n < disksize s \<and> n \<notin> log_region s \<and> n \<noteq> 1"

text \<open>What an operation may do between two states of its transaction: change the contents of blocks to \<open>f\<close>.\<close>

definition tx_step :: "(u32 \<Rightarrow> block) \<Rightarrow> nat \<Rightarrow> 'a xlog_scheme \<Rightarrow> 'a xlog_scheme \<Rightarrow> bool" where
  "tx_step f k s s' \<longleftrightarrow> tx_ok s' \<and> blk s' = f \<and> disk s' = disk s \<and> disksize s' = disksize s \<and> dtrace s' = dtrace s \<and>
     lg_start s' = lg_start s \<and> lg_size s' = lg_size s \<and> lg_dev s' = lg_dev s \<and> lg_outstanding s' = lg_outstanding s \<and>
     lg_committing s' = lg_committing s \<and> xlog.more s' = xlog.more s \<and> lh_n s' \<le> lh_n s + int k"

definition update_block :: "u32 \<Rightarrow> (block \<Rightarrow> block) \<Rightarrow> 'a xlog_scheme \<Rightarrow> 'a xlog_scheme option" where
  "update_block n f s = do {
     (bp, s) \<leftarrow> bread 1 n s;
     s \<leftarrow> log_write bp (set_data bp (f (b_data (bufs s bp))) s);
     brelse bp s
   }"


lemma pinned_card_unheld:
  assumes "tx_ok s"
  shows "card (pinned s) = nat (lh_n s)"
proof -
  have "pinned s = lh_block s ` {..<nat (lh_n s)}" using assms by (auto simp: tx_ok_def pinned_def)
  then show ?thesis using assms by (simp add: tx_ok_def card_image)
qed

lemma tx_read:
  assumes ok: "tx_ok s" and n: "n < disksize s"
  obtains i s1 where "bread 1 n s = Some (i, s1)" "bio_inv s1" "bio_same s s1" "cached s1 n = Some i" "b_locked (bufs s1 i)"
    "b_data (bufs s1 i) = blk s n" "b_blockno (bufs s1 i) = n" "\<forall>m. held s1 m \<longleftrightarrow> m = n"
proof -
  have inv: "bio_inv s" and nh: "\<not> held s m" for m using ok by (auto simp: tx_ok_def)
  have "card (pinned s) < NBUF" using tx_ok_places(2) [OF ok] .
  then obtain i s1 where ret: "bread 1 n s = Some (i, s1)" using bread_ok [OF inv nh n] by blast
  note e = bread_effect [OF inv ret] and sp = bread_spec [OF inv ret]
  have "\<forall>m. held s1 m \<longleftrightarrow> m = n" using sp(3) nh by blast
  then show thesis using that [OF ret bread_inv [OF inv ret] sp(4,1) e(10,11,6)] by blast
qed

lemma bio_same_fields:
  assumes "bio_same s (s' :: 'a xlog_scheme)"
  shows "blk s' = blk s" "dirty s' = dirty s" "disk s' = disk s" "disksize s' = disksize s" "dtrace s' = dtrace s" "bio.more s' = bio.more s"
  using assms by (auto simp: bio_same_def fun_eq_iff)

lemma update_block_step:
  assumes ok: "tx_ok s" and h: "home s n" and room: "tx_room (Suc k) s"
  shows "\<exists>s'. update_block n f s = Some s' \<and> tx_step ((blk s)(n := f (blk s n))) 1 s s' \<and> tx_room k s'"
proof -
  have n: "n < disksize s" using h by (simp add: home_def)
  obtain i s1 where r: "bread 1 n s = Some (i, s1)" "bio_inv s1" "bio_same s s1" "cached s1 n = Some i" "b_locked (bufs s1 i)"
    "b_data (bufs s1 i) = blk s n" "b_blockno (bufs s1 i) = n" "\<forall>m. held s1 m \<longleftrightarrow> m = n"
    using tx_read [OF ok n] .
  note same = bio_same_fields [OF r(3)] and more = more_fields [OF bio_same_fields(6) [OF r(3)]]
  let ?s2 = "set_data i (f (blk s n)) s1"
  note d = set_data_spec [OF r(2,4,5), of "f (blk s n)"] and dm = more_fields [OF set_data_spec(9) [OF r(2,4,5), of "f (blk s n)"]]
  let ?s3 = "logged n ?s2"
  have c3: "bio_inv ?s3" "cached ?s3 n = Some i" "b_locked (bufs ?s3 i)" using d r by simp_all
  let ?s4 = "set_dirty i ?s3"
  note t = set_dirty_spec [OF c3] and tm = more_fields [OF set_dirty_spec(9) [OF c3]]
  have "lh_n ?s2 = lh_n s" "lg_size ?s2 = lg_size s" "lg_outstanding ?s2 = lg_outstanding s" using dm more by simp_all
  then have lw: "log_write i ?s2 = Some ?s4"
    using room r(7) by (subst log_write_logged) (auto simp: tx_room_def NBUF_LOGSIZE set_data_def)
  have c4: "cached ?s4 n = Some i" "b_locked (bufs ?s4 i)" "dirty ?s4 n" using t c3 by simp_all
  obtain s' where s': "brelse i ?s4 = Some s'" "bio_inv s'" "\<forall>m. held s' m \<longleftrightarrow> m \<noteq> n \<and> held ?s4 m"
    "\<forall>m. blk s' m = blk ?s4 m" "\<forall>m. dirty s' m = dirty ?s4 m" "disk s' = disk ?s4" "dtrace s' = dtrace ?s4"
    "disksize s' = disksize ?s4" "bio.more s' = bio.more ?s4"
    using brelse_spec [OF t(1) c4(1,2)] c4(3) by blast
  note m' = more_fields [OF s'(9)]
  have ls: "lh_n ?s2 = lh_n s" "lh_block ?s2 = lh_block s" using dm more by simp_all
  have old: "0 \<le> lh_n ?s2" "inj_on (lh_block ?s2) {..<nat (lh_n ?s2)}" using ok ls by (simp_all add: tx_ok_def)
  note p = logged_places [OF old, of n, unfolded ls]
  have lh: "lh_n s' = lh_n ?s3" "lh_block s' = lh_block ?s3" using m' tm by simp_all
  have fields: "disk s' = disk s" "disksize s' = disksize s" "dtrace s' = dtrace s" "lg_start s' = lg_start s" "lg_size s' = lg_size s"
    "lg_dev s' = lg_dev s" "lg_outstanding s' = lg_outstanding s" "lg_committing s' = lg_committing s" "xlog.more s' = xlog.more s"
    using s' t d same m' tm dm more by simp_all
  have region: "log_region s' = log_region s" using fields by (simp add: log_region_def log_slot_def fun_eq_iff image_def)
  have contents: "blk s' = (blk s)(n := f (blk s n))" using s'(4) t(4) d(4) same by (simp add: fun_eq_iff)
  have dirt: "dirty s' m \<longleftrightarrow> m = n \<or> dirty s m" for m using s'(5) t(5) d(5) same by simp
  have unheld: "\<not> held s' m" for m using s'(3) t(3) d(3) r(8) by simp
  have "nat (lh_n s') < NBUF" using room p(1,2) lh old(1) ls by (simp add: tx_room_def nat_less_iff)
  moreover have "\<forall>m. dirty s' m \<longleftrightarrow> m \<in> lh_block s' ` {..<nat (lh_n s')}"
    using p(4) dirt ok by (simp add: lh tx_ok_def)
  moreover have "\<forall>m \<in> lh_block s' ` {..<nat (lh_n s')}. m < disksize s' \<and> m \<notin> log_region s' \<and> m \<noteq> 1"
    using p(4) h ok by (auto simp: lh tx_ok_def fields region home_def)
  ultimately have "tx_ok s'"
    using s'(2) unheld p(1,3) old(1) ok lh fields region by (simp add: tx_ok_def log_ok_def ls)
  moreover have "tx_room k s'" using room p(2) lh fields by (simp add: tx_room_def)
  moreover have "update_block n f s = Some s'" using r(1) lw s'(1) r(6) by (simp add: update_block_def)
  ultimately show ?thesis using contents fields p(2) lh by (simp add: tx_step_def)
qed

section \<open>Steps of a transaction\<close>

lemma tx_step_trans: "tx_step f k s s1 \<Longrightarrow> tx_step g l s1 s2 \<Longrightarrow> tx_step g (k + l) s s2"
  by (simp add: tx_step_def)

lemma tx_stepD:
  assumes "tx_step f k s s'"
  shows "tx_ok s'" "blk s' = f" "disksize s' = disksize s" "xlog.more s' = xlog.more s" "log_region s' = log_region s"
    "home s' n = home s n" "tx_room (k + l) s \<Longrightarrow> tx_room l s'"
proof -
  show r: "log_region s' = log_region s"
    using assms by (simp add: tx_step_def log_region_def log_slot_def fun_eq_iff image_def)
  show "tx_ok s'" "blk s' = f" "disksize s' = disksize s" "xlog.more s' = xlog.more s" using assms by (simp_all add: tx_step_def)
  then show "home s' n = home s n" using r by (simp add: home_def)
  show "tx_room (k + l) s \<Longrightarrow> tx_room l s'" using assms by (auto simp: tx_step_def tx_room_def)
qed

lemma xfs_more: "xlog.more s' = xlog.more (s :: xfs) \<Longrightarrow> fsb s' = fsb s \<and> icache s' = icache s \<and> cwd s' = cwd s"
  by (cases s; cases s') simp

text \<open>Reading a block and giving it back.\<close>

lemma tx_release:
  assumes ok: "tx_ok s" and n: "n < disksize s" and ret: "bread 1 n s = Some (i, s1)"
  shows "b_data (bufs s1 i) = blk s n" "\<exists>s'. brelse i s1 = Some s' \<and> tx_step (blk s) 0 s s' \<and> lh_n s' = lh_n s" "bio.more s1 = bio.more s"
proof -
  obtain j s2 where "bread 1 n s = Some (j, s2)" "bio_inv s2" "bio_same s s2" "cached s2 n = Some j" "b_locked (bufs s2 j)"
    "b_data (bufs s2 j) = blk s n" "\<forall>m. held s2 m \<longleftrightarrow> m = n"
    using tx_read [OF ok n] by metis
  then have r: "bio_inv s1" "bio_same s s1" "cached s1 n = Some i" "b_locked (bufs s1 i)" "b_data (bufs s1 i) = blk s n"
    "\<forall>m. held s1 m \<longleftrightarrow> m = n" using ret by auto
  note same = bio_same_fields [OF r(2)]
  show "b_data (bufs s1 i) = blk s n" "bio.more s1 = bio.more s" using r same by auto
  have "dirty s1 n \<or> blk s1 n = disk s1 n" using clean_blk [of s n] ok same by (simp add: tx_ok_def)
  then obtain s' where s': "brelse i s1 = Some s'" "bio_inv s'" "\<forall>m. held s' m \<longleftrightarrow> m \<noteq> n \<and> held s1 m"
    "\<forall>m. blk s' m = blk s1 m" "\<forall>m. dirty s' m = dirty s1 m" "disk s' = disk s1" "dtrace s' = dtrace s1"
    "disksize s' = disksize s1" "bio.more s' = bio.more s1"
    using brelse_spec [OF r(1,3,4)] by blast
  note m = more_fields [OF trans [OF s'(9) same(6)]]
  have "log_region s' = log_region s" using m by (simp add: log_region_def log_slot_def fun_eq_iff image_def)
  then have "tx_ok s'" using ok s' same m r(6) by (simp add: tx_ok_def log_ok_def)
  moreover have "blk s' = blk s" using s'(4) same by (simp add: fun_eq_iff)
  ultimately show "\<exists>s'. brelse i s1 = Some s' \<and> tx_step (blk s) 0 s s' \<and> lh_n s' = lh_n s"
    using s' same m by (simp add: tx_step_def)
qed

lemma tx_peek:
  assumes ok: "tx_ok s" and n: "n < disksize s"
  obtains i s1 s' where "bread 1 n s = Some (i, s1)" "b_data (bufs s1 i) = blk s n" "bio.more s1 = bio.more s"
    "brelse i s1 = Some s'" "tx_step (blk s) 0 s s'"
proof -
  obtain i s1 where "bread 1 n s = Some (i, s1)" using tx_read [OF ok n] by metis
  then show thesis using that tx_release [OF ok n] by blast
qed

section \<open>The free map\<close>

text \<open>The place of a block's bit in the map, and whether it is set.\<close>

definition map_block :: "xfs \<Rightarrow> nat \<Rightarrow> u32" where
  "map_block s b = BBLOCK (word_of_nat b) (fsb s)"

definition used :: "xfs \<Rightarrow> nat \<Rightarrow> bool" where
  "used s b \<longleftrightarrow> \<not> bit_free (blk s (map_block s b)) (b mod BPB)"

text \<open>
  The layout of the disk: the blocks of the map have full length and can be changed, and so can every
  block that the map has as free, which is none of them.
\<close>

definition map_ok :: "xfs \<Rightarrow> bool" where
  "map_ok s \<longleftrightarrow> (\<forall>b < unat (sb_size (fsb s)). home s (map_block s b) \<and> length (blk s (map_block s b)) = BSIZE \<and>
     (\<not> used s b \<longrightarrow> home s (word_of_nat b) \<and> (\<forall>c < unat (sb_size (fsb s)). map_block s c \<noteq> word_of_nat b)))"

lemma bit_ops:
  assumes "length d = BSIZE" "bi < BPB"
  shows "\<not> bit_free (bit_set bi d) bi" "bit_free (bit_clear bi d) bi" "bit_free d bi \<Longrightarrow> bit_clear bi (bit_set bi d) = d"
    "bj \<noteq> bi \<Longrightarrow> bj < BPB \<Longrightarrow> bit_free (bit_set bi d) bj = bit_free d bj" "length (bit_set bi d) = length d"
proof -
  have i: "bi div 8 < length d" using assms by (simp add: BSIZE_def BPB_def)
  have bit: "bit_free e k \<longleftrightarrow> \<not> bit (e ! (k div 8)) (k mod 8)" for e :: block and k
    by (simp add: bit_free_def bit_iff_and_push_bit_not_eq_0 flip: push_bit_of_1)
  show "\<not> bit_free (bit_set bi d) bi" "bit_free (bit_clear bi d) bi"
    using i by (simp_all add: bit bit_set_def bit_clear_def bit_simps)
  show "length (bit_set bi d) = length d" by (simp add: bit_set_def)
  show "bit_clear bi (bit_set bi d) = d" if "bit_free d bi"
  proof -
    have "(d ! (bi div 8) OR push_bit (bi mod 8) 1) AND NOT (push_bit (bi mod 8) 1) = d ! (bi div 8)"
      by (rule bit_word_eqI) (use that in \<open>auto simp: bit bit_simps\<close>)
    then show ?thesis using i by (simp add: bit_clear_def bit_set_def)
  qed
  show "bit_free (bit_set bi d) bj = bit_free d bj" if "bj \<noteq> bi" "bj < BPB"
  proof (cases "bj div 8 = bi div 8")
    case True
    then have "bj mod 8 \<noteq> bi mod 8" using that(1) by (metis div_mod_decomp)
    then show ?thesis using True i by (auto simp: bit bit_set_def bit_simps)
  next
    case False
    then show ?thesis by (simp add: bit_free_def bit_set_def)
  qed
qed

lemma bzero_update: "bzero 1 n s = update_block n (\<lambda>_. replicate BSIZE 0) s"
  by (simp add: bzero_def update_block_def)

lemma bfree_update:
  assumes ok: "tx_ok s" and n: "BBLOCK b (fsb s) < disksize s" and set: "\<not> bit_free (blk s (BBLOCK b (fsb s))) (unat b mod BPB)"
  shows "bfree 1 b s = update_block (BBLOCK b (fsb s)) (bit_clear (unat b mod BPB)) s"
proof -
  obtain i s1 where "bread 1 (BBLOCK b (fsb s)) s = Some (i, s1)" "b_data (bufs s1 i) = blk s (BBLOCK b (fsb s))"
    using tx_peek [OF ok n] by metis
  then show ?thesis using set by (simp add: bfree_def update_block_def Let_def)
qed

lemma bfree_free:
  assumes ok: "tx_ok s" and n: "BBLOCK b (fsb s) < disksize s" and free: "bit_free (blk s (BBLOCK b (fsb s))) (unat b mod BPB)"
  shows "bfree 1 b s = None"
proof -
  obtain i s1 where "bread 1 (BBLOCK b (fsb s)) s = Some (i, s1)" "b_data (bufs s1 i) = blk s (BBLOCK b (fsb s))"
    using tx_peek [OF ok n] by metis
  then show ?thesis using free by (simp add: bfree_def Let_def)
qed

section \<open>Finding a free block\<close>

lemma first_free_Some:
  assumes "first_free b sz d = Some bi"
  shows "bi < BPB" "b + bi < sz" "bit_free d bi"
  using assms find_Some_mem [OF assms [unfolded first_free_def]] set_takeWhileD [of bi "\<lambda>bi. b + bi < sz" "[0..<BPB]"]
  by auto

lemma takeWhile_upt: "takeWhile (\<lambda>i. b + i < sz) [0..<k] = [0..<min k (sz - b)]"
  by (subst takeWhile_eq_take_P_nth [where n = "min k (sz - b)"]) auto

lemma first_free_None: "first_free b sz d = None \<Longrightarrow> bi < BPB \<Longrightarrow> b + bi < sz \<Longrightarrow> \<not> bit_free d bi"
  by (auto simp: first_free_def takeWhile_upt find_None_iff)

lemma map_block_chunk:
  assumes "b0 mod BPB = 0" "bi < BPB" "b0 + bi < 2 ^ 32"
  shows "map_block s (b0 + bi) = map_block s b0" "(b0 + bi) mod BPB = bi"
proof -
  have "unat (word_of_nat (b0 + bi) div (4096 :: u32)) = unat (word_of_nat b0 div (4096 :: u32))"
  proof -
    have "unat (word_of_nat (b0 + bi) :: u32) = b0 + bi" "unat (word_of_nat b0 :: u32) = b0"
      using assms(3) by (simp_all add: unat_of_nat del: of_nat_add)
    then show ?thesis using assms by (auto simp: unat_div BPB_def BSIZE_def simp del: of_nat_add)
  qed
  then have "word_of_nat (b0 + bi) div (4096 :: u32) = word_of_nat b0 div (4096 :: u32)" by (simp only: word_unat_eq_iff)
  then show "map_block s (b0 + bi) = map_block s b0" by (simp add: map_block_def BBLOCK_def BPB_def BSIZE_def)
  show "(b0 + bi) mod BPB = bi" using assms by (auto simp: BPB_def BSIZE_def)
qed

text \<open>What an allocation of \<open>b\<close> does to the contents of the disk.\<close>

definition alloc_blk :: "xfs \<Rightarrow> nat \<Rightarrow> u32 \<Rightarrow> block" where
  "alloc_blk s b = (blk s)(map_block s b := bit_set (b mod BPB) (blk s (map_block s b)), word_of_nat b := replicate BSIZE 0)"

lemma balloc_take:
  assumes ok: "tx_ok s" and m: "map_ok s" and b: "b < unat (sb_size (fsb s))" "\<not> used s b" and room: "tx_room (Suc (Suc k)) s"
    and chunk: "map_block s b = map_block s b0" "b mod BPB = bi" and ret: "bread 1 (map_block s b0) s = Some (bp, s1)"
  shows "\<exists>s'. do { s2 \<leftarrow> log_write bp (set_data bp (bit_set bi (b_data (bufs s1 bp))) s1);
      s3 \<leftarrow> brelse bp s2; bzero 1 (word_of_nat b) s3 } = Some s' \<and> tx_step (alloc_blk s b) 2 s s' \<and> tx_room k s'"
proof -
  have h: "home s (map_block s b)" "home s (word_of_nat b)" "map_block s b \<noteq> word_of_nat b"
    using m b by (auto simp: map_ok_def)
  obtain s3 where s3: "update_block (map_block s b) (bit_set bi) s = Some s3" "tx_room (Suc k) s3"
    and st: "tx_step ((blk s)(map_block s b := bit_set bi (blk s (map_block s b)))) 1 s s3"
    using update_block_step [OF ok h(1) room] by blast
  note d = tx_stepD [OF st]
  obtain s' where s': "update_block (word_of_nat b) (\<lambda>_. replicate BSIZE 0) s3 = Some s'" "tx_room k s'"
    and st': "tx_step ((blk s3)(word_of_nat b := replicate BSIZE 0)) 1 s3 s'"
    using update_block_step [OF d(1), of "word_of_nat b"] d(6) h(2) s3(2) by blast
  have "tx_step (alloc_blk s b) 2 s s'"
    using tx_step_trans [OF st st'] d(2) chunk(2) by (simp add: alloc_blk_def numeral_2_eq_2)
  moreover have "do { s2 \<leftarrow> log_write bp (set_data bp (bit_set bi (b_data (bufs s1 bp))) s1); s3 \<leftarrow> brelse bp s2;
      bzero 1 (word_of_nat b) s3 } = Some s'"
    using s3(1) s'(1) ret chunk(1) by (simp add: update_block_def bzero_update bind_eq_Some_conv) blast
  ultimately show ?thesis using s'(2) by blast
qed


text \<open>The outer loop: it stops at the first block of the map that has a free bit.\<close>

lemma balloc_loop_finds:
  assumes "tx_ok s" "map_ok s" "tx_room (Suc (Suc k)) s"
    and "\<forall>b0 \<in> set bs. b0 mod BPB = 0 \<and> b0 < unat (sb_size (fsb s))"
    and "\<exists>b0 \<in> set bs. \<exists>bi < BPB. b0 + bi < unat (sb_size (fsb s)) \<and> \<not> used s (b0 + bi)"
  shows "\<exists>b s'. balloc_loop 1 bs s = Some (word_of_nat b, s') \<and> b < unat (sb_size (fsb s)) \<and> \<not> used s b \<and>
    tx_step (alloc_blk s b) 2 s s' \<and> tx_room k s'"
  using assms
proof (induction bs arbitrary: s)
  case (Cons b0 bs)
  let ?sz = "unat (sb_size (fsb s))" and ?d = "blk s (map_block s b0)"
  have b0: "b0 mod BPB = 0" "b0 < ?sz" using Cons.prems(4) by auto
  have n: "map_block s b0 < disksize s" using Cons.prems(2) b0(2) by (simp add: map_ok_def home_def)
  obtain bp s1 s2 where r: "bread 1 (map_block s b0) s = Some (bp, s1)" "b_data (bufs s1 bp) = ?d" "bio.more s1 = bio.more s"
    "brelse bp s1 = Some s2" "tx_step (blk s) 0 s s2"
    using tx_peek [OF Cons.prems(1) n] by metis
  have f1: "fsb s1 = fsb s" using r(3) xfs_more [of s1 s] more_fields(8) by blast
  note ch = map_block_chunk [OF b0(1)]
  have used: "used s (b0 + bi) \<longleftrightarrow> \<not> bit_free ?d bi" if "bi < BPB" "b0 + bi < ?sz" for bi
    using ch [of bi] that less_trans [OF that(2), of "2 ^ 32"] by (simp add: used_def)
  show ?case
  proof (cases "first_free b0 ?sz ?d")
    case (Some bi)
    note ff = first_free_Some [OF Some]
    have c: "map_block s (b0 + bi) = map_block s b0" "(b0 + bi) mod BPB = bi"
      using ch [OF ff(1)] less_trans [OF ff(2), of "2 ^ 32"] by simp_all
    obtain s' where s': "do { s2 \<leftarrow> log_write bp (set_data bp (bit_set bi (b_data (bufs s1 bp))) s1);
        s3 \<leftarrow> brelse bp s2; bzero 1 (word_of_nat (b0 + bi)) s3 } = Some s'" "tx_step (alloc_blk s (b0 + bi)) 2 s s'" "tx_room k s'"
      using balloc_take [OF Cons.prems(1,2) ff(2) _ Cons.prems(3) c r(1)] used [OF ff(1,2)] ff(3) by blast
    have "balloc_loop 1 (b0 # bs) s = Some (word_of_nat (b0 + bi), s')"
      using r(1,2) f1 Some s'(1) by (auto simp: map_block_def bind_eq_Some_conv simp del: of_nat_add)
    then show ?thesis using s'(2,3) ff used [OF ff(1,2)] by blast
  next
    case None
    note d = tx_stepD [OF r(5)]
    have f2: "fsb s2 = fsb s" using d(4) xfs_more by blast
    have mb: "map_block s2 = map_block s" "used s2 = used s" using f2 d(2) by (simp_all add: map_block_def used_def fun_eq_iff)
    have prems: "tx_ok s2" "map_ok s2" "tx_room (Suc (Suc k)) s2"
      using d Cons.prems(2) d(7) [of "Suc (Suc k)"] Cons.prems(3) by (simp_all add: map_ok_def mb f2)
    have "\<exists>b0 \<in> set bs. \<exists>bi < BPB. b0 + bi < ?sz \<and> \<not> used s (b0 + bi)"
      using Cons.prems(5) used first_free_None [OF None] by auto
    then obtain b s' where "balloc_loop 1 bs s2 = Some (word_of_nat b, s')" "b < ?sz" "\<not> used s b"
      "tx_step (alloc_blk s2 b) 2 s2 s'" "tx_room k s'"
      using Cons.IH [OF prems] Cons.prems(4) by (auto simp: f2 mb)
    moreover have "balloc_loop 1 (b0 # bs) s = balloc_loop 1 bs s2"
      using r(1,2,4) f1 None by (simp add: map_block_def)
    moreover have "alloc_blk s2 b = alloc_blk s b" by (simp add: alloc_blk_def mb d(2))
    ultimately show ?thesis using tx_step_trans [OF r(5)] by fastforce
  qed
qed simp

lemma balloc_finds:
  assumes ok: "tx_ok s" "map_ok s" "tx_room (Suc (Suc k)) s" and b: "b < unat (sb_size (fsb s))" "\<not> used s b"
  shows "\<exists>b s'. balloc 1 s = Some (word_of_nat b, s') \<and> b < unat (sb_size (fsb s)) \<and> \<not> used s b \<and>
    tx_step (alloc_blk s b) 2 s s' \<and> tx_room k s'"
proof -
  let ?b0 = "b - b mod BPB"
  have "?b0 mod BPB = 0" "?b0 + b mod BPB = b" "?b0 \<le> b" by (simp_all add: minus_mod_eq_mult_div)
  moreover have "b mod BPB < BPB" by (simp add: BPB_def BSIZE_def)
  moreover have "?b0 \<in> set (filter (\<lambda>b. b mod BPB = 0) [0..<unat (sb_size (fsb s))])" using calculation b(1) by simp
  ultimately have ex: "\<exists>b0 \<in> set (filter (\<lambda>b. b mod BPB = 0) [0..<unat (sb_size (fsb s))]). \<exists>bi < BPB.
      b0 + bi < unat (sb_size (fsb s)) \<and> \<not> used s (b0 + bi)"
    using b by metis
  show ?thesis unfolding balloc_def by (rule balloc_loop_finds [OF ok _ ex]) auto
qed

lemma map_block_inj:
  assumes "map_block s c = map_block s b" "c mod BPB = b mod BPB" "c < 2 ^ 32" "b < 2 ^ 32"
  shows "c = b"
proof -
  have "word_of_nat c div (4096 :: u32) = word_of_nat b div 4096"
    using assms(1) by (simp add: map_block_def BBLOCK_def BPB_def BSIZE_def)
  then have "unat (word_of_nat c div (4096 :: u32)) = unat (word_of_nat b div (4096 :: u32))" by simp
  then have "c div 4096 = b div 4096" using assms(3,4) by (simp add: unat_div unat_of_nat)
  moreover have "c mod 4096 = b mod 4096" using assms(2) by (simp add: BPB_def BSIZE_def)
  ultimately show ?thesis by (metis div_mod_decomp)
qed

lemma alloc_used:
  assumes m: "map_ok s" and b: "b < unat (sb_size (fsb s))" "\<not> used s b"
    and s': "blk s' = alloc_blk s b" "fsb s' = fsb s" and c: "c < unat (sb_size (fsb s))"
  shows "used s' c \<longleftrightarrow> c = b \<or> used s c"
proof -
  have lt: "b < 2 ^ 32" "c < 2 ^ 32" using b c less_trans [OF b(1), of "2 ^ 32"] less_trans [OF c, of "2 ^ 32"] by simp_all
  have mb: "map_block s' = map_block s" using s'(2) by (simp add: map_block_def fun_eq_iff)
  have ne: "map_block s c \<noteq> word_of_nat b" and len: "length (blk s (map_block s b)) = BSIZE" using m b c by (auto simp: map_ok_def)
  have bi: "b mod BPB < BPB" "c mod BPB < BPB" by (simp_all add: BPB_def BSIZE_def)
  note o = bit_ops [OF len bi(1)]
  show ?thesis
  proof (cases "map_block s c = map_block s b")
    case True
    have "c mod BPB = b mod BPB \<Longrightarrow> c = b" using map_block_inj [OF True _ lt(2,1)] by blast
    then show ?thesis
      using True ne o(1) o(4) [of "c mod BPB"] bi by (cases "c = b") (auto simp: used_def mb s'(1) alloc_blk_def)
  next
    case False
    then have "c \<noteq> b" by auto
    then show ?thesis using False ne by (simp add: used_def mb s'(1) alloc_blk_def)
  qed
qed

lemma bfree_after_balloc:
  assumes ok: "tx_ok s'" "tx_room (Suc k) s'" and m: "map_ok s" and b: "b < unat (sb_size (fsb s))" "\<not> used s b"
    and st: "tx_step (alloc_blk s b) j s s'"
  shows "\<exists>s2. bfree 1 (word_of_nat b) s' = Some s2 \<and> tx_ok s2 \<and> blk s2 = (blk s)(word_of_nat b := replicate BSIZE 0)"
proof -
  note d = tx_stepD [OF st]
  have f: "fsb s' = fsb s" using d(4) xfs_more by blast
  have un: "unat (word_of_nat b :: u32) = b" using less_trans [OF b(1), of "2 ^ 32"] by (simp add: unat_of_nat)
  have bb: "BBLOCK (word_of_nat b) (fsb s') = map_block s b" by (simp add: map_block_def f)
  have h: "home s (map_block s b)" "map_block s b \<noteq> word_of_nat b" "length (blk s (map_block s b)) = BSIZE"
    using m b by (auto simp: map_ok_def)
  have bi: "b mod BPB < BPB" by (simp add: BPB_def BSIZE_def)
  note o = bit_ops [OF h(3) bi]
  have cur: "blk s' (map_block s b) = bit_set (b mod BPB) (blk s (map_block s b))" using h(2) d(2) by (simp add: alloc_blk_def)
  have n: "map_block s b < disksize s'" using h(1) d(3) by (simp add: home_def)
  have upd: "bfree 1 (word_of_nat b) s' = update_block (map_block s b) (bit_clear (b mod BPB)) s'"
    using bfree_update [OF ok(1), of "word_of_nat b"] n o(1) cur by (simp add: bb un)
  obtain s2 where s2: "update_block (map_block s b) (bit_clear (b mod BPB)) s' = Some s2"
    "tx_step ((blk s')(map_block s b := bit_clear (b mod BPB) (blk s' (map_block s b)))) 1 s' s2"
    using update_block_step [OF ok(1) _ ok(2), of "map_block s b"] h(1) d(6) by blast
  have "bit_clear (b mod BPB) (blk s' (map_block s b)) = blk s (map_block s b)"
    using o(3) b(2) cur by (simp add: used_def)
  then have "blk s2 = (blk s)(word_of_nat b := replicate BSIZE 0)"
    using tx_stepD(2) [OF s2(2)] h(2) d(2) by (auto simp: alloc_blk_def fun_eq_iff)
  then show ?thesis using s2(1) upd tx_stepD(1) [OF s2(2)] by auto
qed

lemma balloc_bfree:
  assumes ok: "tx_ok s" "map_ok s" "tx_room 3 s" and ex: "\<exists>b < unat (sb_size (fsb s)). \<not> used s b"
  shows "\<exists>b s1 s2. balloc 1 s = Some (b, s1) \<and> unat b < unat (sb_size (fsb s)) \<and> \<not> used s (unat b) \<and> tx_ok s1 \<and>
    blk s1 b = replicate BSIZE 0 \<and> (\<forall>c < unat (sb_size (fsb s)). used s1 c \<longleftrightarrow> c = unat b \<or> used s c) \<and>
    (\<forall>m. m \<noteq> b \<longrightarrow> m \<noteq> map_block s (unat b) \<longrightarrow> blk s1 m = blk s m) \<and>
    bfree 1 b s1 = Some s2 \<and> tx_ok s2 \<and> blk s2 = (blk s)(b := replicate BSIZE 0)"
proof -
  obtain b0 where "b0 < unat (sb_size (fsb s))" "\<not> used s b0" using ex by blast
  moreover have "tx_room (Suc (Suc 1)) s" using ok(3) by (simp add: numeral_3_eq_3)
  ultimately obtain b s1 where r: "balloc 1 s = Some (word_of_nat b, s1)" and b: "b < unat (sb_size (fsb s))" "\<not> used s b"
    and st: "tx_step (alloc_blk s b) 2 s s1" and room: "tx_room (Suc 0) s1"
    using balloc_finds [OF ok(1,2)] by (metis One_nat_def)
  note d = tx_stepD [OF st]
  have un: "unat (word_of_nat b :: u32) = b" using less_trans [OF b(1), of "2 ^ 32"] by (simp add: unat_of_nat)
  have f: "fsb s1 = fsb s" using d(4) xfs_more by blast
  have "map_block s b \<noteq> word_of_nat b" using ok(2) b by (auto simp: map_ok_def)
  then have "blk s1 (word_of_nat b) = replicate BSIZE 0"
    "\<forall>m. m \<noteq> word_of_nat b \<longrightarrow> m \<noteq> map_block s b \<longrightarrow> blk s1 m = blk s m"
    using d(2) by (simp_all add: alloc_blk_def)
  moreover obtain s2 where "bfree 1 (word_of_nat b) s1 = Some s2" "tx_ok s2" "blk s2 = (blk s)(word_of_nat b := replicate BSIZE 0)"
    using bfree_after_balloc [OF d(1) room ok(2) b st] by blast
  ultimately show ?thesis
    using r un b alloc_used [OF ok(2) b d(2) f] d(1) by (intro exI [of _ "word_of_nat b"] exI [of _ s1] exI [of _ s2]) simp
qed

end
