(* ===== verification/Xv6_Inode.thy ===== *)
theory Xv6_Inode
  imports Xv6_Tx "HOL-Library.Multiset"
begin

text \<open>
  Inodes: writing an inode to its block and reading it again, and the reference counts of the inode
  cache through any sequence of operations on it.
\<close>

section \<open>Inodes in blocks\<close>

lemma put16_length [simp]: "length (put16 k v d) = length d"
  by (simp add: put16_def)

lemma get16_put16: "k + 1 < length d \<Longrightarrow> get16 (put16 k v d) k = v"
proof -
  assume k: "k + 1 < length d"
  have "ucast (ucast v :: u8) OR push_bit 8 (ucast (ucast (drop_bit 8 v) :: u8)) = v"
  proof (rule bit_word_eqI)
    fix n assume "n < LENGTH(16)"
    then show "bit (ucast (ucast v :: u8) OR push_bit 8 (ucast (ucast (drop_bit 8 v) :: u8)) :: u16) n = bit v n"
      by (cases "n < 8") (simp_all add: bit_simps less_diff_conv2)
  qed
  then show ?thesis using k by (simp add: get16_def put16_def)
qed

text \<open>Reading a place that a write does not touch.\<close>

lemma get_put_apart:
  "j + 1 < k \<or> k + 1 < j \<Longrightarrow> get16 (put16 k v d) j = get16 d j"
  "j + 1 < k \<or> k + 3 < j \<Longrightarrow> get16 (put32 k w d) j = get16 d j"
  "j + 3 < k \<or> k + 1 < j \<Longrightarrow> get32 (put16 k v d) j = get32 d j"
  "j + 3 < k \<or> k + 3 < j \<Longrightarrow> get32 (put32 k w d) j = get32 d j"
  by (auto simp: get16_def get32_def put16_def put32_def)

lemma put_addrs_length [simp]: "length (put_addrs k a js d) = length d"
  by (induction js arbitrary: d) auto

lemma put_addrs_before: "j + 3 < k + 12 \<Longrightarrow> get32 (put_addrs k a js d) j = get32 d j" "j + 1 < k + 12 \<Longrightarrow> get16 (put_addrs k a js d) j = get16 d j"
  by (induction js arbitrary: d) (auto simp: get_put_apart)

lemma put_addrs_notin: "j \<notin> set js \<Longrightarrow> get32 (put_addrs k a js d) (k + 12 + 4 * j) = get32 d (k + 12 + 4 * j)"
proof (induction js arbitrary: d)
  case (Cons x js)
  then have "k + 12 + 4 * j + 3 < k + 12 + 4 * x \<or> k + 12 + 4 * x + 3 < k + 12 + 4 * j" by (cases "j < x") auto
  then show ?case using Cons by (simp add: get_put_apart)
qed simp

lemma put_addrs_in:
  "j \<in> set js \<Longrightarrow> distinct js \<Longrightarrow> k + 12 + 4 * j + 3 < length d \<Longrightarrow> get32 (put_addrs k a js d) (k + 12 + 4 * j) = a j"
  by (induction js arbitrary: d) (auto simp: put_addrs_notin get32_put32)

text \<open>The fields of an inode that are on the disk.\<close>

definition same_dinode :: "inode \<Rightarrow> inode \<Rightarrow> bool" where
  "same_dinode i j \<longleftrightarrow> i_type i = i_type j \<and> i_major i = i_major j \<and> i_minor i = i_minor j \<and> i_nlink i = i_nlink j \<and>
     i_size i = i_size j \<and> (\<forall>k < NDIRECT + 1. i_addrs i k = i_addrs j k)"

lemma get_put_dinode:
  assumes "k + DINODE_SIZE \<le> length d"
  shows "same_dinode (get_dinode k (put_dinode k ip d) jp) ip"
  using assms unfolding same_dinode_def get_dinode_def put_dinode_def
  by (simp add: put_addrs_before get_put_apart get16_put16 get32_put32 put_addrs_in DINODE_SIZE_def NDIRECT_def)

lemma put_addrs_nth: "n < k + 12 \<or> (\<forall>j \<in> set js. k + 16 + 4 * j \<le> n) \<Longrightarrow> put_addrs k a js d ! n = d ! n"
  by (induction js arbitrary: d) (auto simp: put32_def)

lemma put_dinode_nth: "n < k \<or> k + DINODE_SIZE \<le> n \<Longrightarrow> put_dinode k ip d ! n = d ! n"
  unfolding put_dinode_def
  by (subst put_addrs_nth) (auto simp: put16_def put32_def DINODE_SIZE_def NDIRECT_def)

lemma get_dinode_cong:
  assumes "\<And>n. k \<le> n \<Longrightarrow> n < k + DINODE_SIZE \<Longrightarrow> d ! n = e ! n"
  shows "get_dinode k d jp = get_dinode k e jp"
proof -
  have "d ! n = e ! n" if "k \<le> n" "n < k + 64" for n using assms that by (simp add: DINODE_SIZE_def)
  then show ?thesis by (simp add: get_dinode_def get16_def get32_def NDIRECT_def fun_eq_iff)
qed

lemma dinode_off_apart:
  "a mod IPB \<noteq> b mod IPB \<Longrightarrow> a mod IPB * DINODE_SIZE + DINODE_SIZE \<le> b mod IPB * DINODE_SIZE \<or>
     b mod IPB * DINODE_SIZE + DINODE_SIZE \<le> a mod IPB * DINODE_SIZE"
  by (simp add: DINODE_SIZE_def) linarith

lemma dinode_off_fits: "dinode_off inum + DINODE_SIZE \<le> BSIZE"
proof -
  have "unat inum mod 8 \<le> 7" by (simp add: less_Suc_eq_le [symmetric])
  then show ?thesis by (simp add: dinode_off_def IPB_def DINODE_SIZE_def BSIZE_def)
qed


section \<open>Writing and reading inodes\<close>

text \<open>The inode on the disk, as \<open>ilock\<close> would read it into \<open>jp\<close>.\<close>

definition disk_inode :: "xfs \<Rightarrow> u32 \<Rightarrow> inode \<Rightarrow> inode" where
  "disk_inode s inum jp = get_dinode (dinode_off inum) (blk s (IBLOCK inum (fsb s))) jp"

lemma iupdate_update:
  assumes "i_dev (icache s ip) = 1"
  shows "iupdate ip s = update_block (IBLOCK (i_inum (icache s ip)) (fsb s))
    (put_dinode (dinode_off (i_inum (icache s ip))) (icache s ip)) s"
  using assms by (simp add: iupdate_def update_block_def Let_def)

lemma iblock_apart:
  assumes "inum \<noteq> inum'" "IBLOCK inum sb = IBLOCK inum' sb"
  shows "unat inum mod IPB \<noteq> unat inum' mod IPB"
proof
  assume "unat inum mod IPB = unat inum' mod IPB"
  moreover have "unat (inum div 8) = unat (inum' div 8)" using assms(2) by (simp add: IBLOCK_def IPB_def BSIZE_def DINODE_SIZE_def)
  ultimately have "unat inum mod 8 = unat inum' mod 8" "unat inum div 8 = unat inum' div 8"
    by (simp_all add: IPB_def BSIZE_def DINODE_SIZE_def unat_div)
  then have "unat inum = unat inum'" by (metis div_mod_decomp)
  then show False using assms(1) by (simp add: word_unat_eq_iff)
qed

lemma iupdate_writes:
  assumes ok: "tx_ok s" "tx_room (Suc k) s" and dev: "i_dev (icache s ip) = 1"
    and h: "home s (IBLOCK (i_inum (icache s ip)) (fsb s))" and len: "length (blk s (IBLOCK (i_inum (icache s ip)) (fsb s))) = BSIZE"
  shows "\<exists>s'. iupdate ip s = Some s' \<and> tx_ok s' \<and> tx_room k s' \<and> icache s' = icache s \<and> fsb s' = fsb s \<and>
    disksize s' = disksize s \<and>
    same_dinode (disk_inode s' (i_inum (icache s ip)) jp) (icache s ip) \<and>
    (\<forall>inum. inum \<noteq> i_inum (icache s ip) \<longrightarrow> disk_inode s' inum jp = disk_inode s inum jp) \<and>
    (\<forall>m. m \<noteq> IBLOCK (i_inum (icache s ip)) (fsb s) \<longrightarrow> blk s' m = blk s m)"
proof -
  let ?i = "icache s ip" let ?n = "IBLOCK (i_inum ?i) (fsb s)" let ?k = "dinode_off (i_inum ?i)"
  note upd = iupdate_update [OF dev]
  obtain s' where s': "iupdate ip s = Some s'" "tx_room k s'" and st: "tx_step ((blk s)(?n := put_dinode ?k ?i (blk s ?n))) 1 s s'"
    using update_block_step [OF ok(1) h ok(2), of "put_dinode ?k ?i"] upd by auto
  note d = tx_stepD [OF st]
  have m: "fsb s' = fsb s" "icache s' = icache s" using xfs_more [OF d(4)] by auto
  have "same_dinode (disk_inode s' (i_inum ?i) jp) ?i"
    using get_put_dinode [of ?k "blk s ?n" ?i jp] dinode_off_fits [of "i_inum ?i"] len by (simp add: disk_inode_def m d(2))
  moreover have "disk_inode s' inum jp = disk_inode s inum jp" if "inum \<noteq> i_inum ?i" for inum
  proof (cases "IBLOCK inum (fsb s) = ?n")
    case True
    have "dinode_off inum + DINODE_SIZE \<le> ?k \<or> ?k + DINODE_SIZE \<le> dinode_off inum"
      unfolding dinode_off_def by (rule dinode_off_apart [OF iblock_apart [OF that True]])
    then show ?thesis
      unfolding disk_inode_def m d(2) by (auto simp: True put_dinode_nth intro!: get_dinode_cong)
  qed (simp add: disk_inode_def m d(2))
  ultimately show ?thesis using s' d(1,2,3) m by simp
qed

lemma brelse_icache: "brelse i (s\<lparr>icache := c\<rparr>) = map_option (\<lambda>s. s\<lparr>icache := c\<rparr>) (brelse i s)"
  by (simp add: brelse_def Let_def holdingsleep_def releasesleep_def upd_buf_def)


lemma bread_icache:
  "bread dev n (s\<lparr>icache := c\<rparr>) = map_option (\<lambda>(i, s). (i, s\<lparr>icache := c\<rparr>)) (bread dev n s)"
  by (simp add: bread_def bget_def iderw_def acquiresleep_def holdingsleep_def upd_buf_def disk_write_def Let_def
      split: option.split)

lemma get_dinode_locked: "get_dinode k d (ip\<lparr>i_locked := b\<rparr>) = (get_dinode k d ip)\<lparr>i_locked := b\<rparr>"
  by (cases ip) (simp add: get_dinode_def cong: if_cong)

lemma ilock_valid:
  assumes "1 \<le> i_ref (icache s ip)" "\<not> i_locked (icache s ip)" "i_valid (icache s ip)"
  shows "ilock ip s = Some (upd_ino ip (\<lambda>i. i\<lparr>i_locked := True\<rparr>) s)"
  using assms by (simp add: ilock_def upd_ino_def Let_def)

text \<open>The first lock of an inode reads it; it must have a type.\<close>

lemma ilock_reads:
  assumes ok: "tx_ok s" and ref: "1 \<le> i_ref (icache s ip)" "\<not> i_locked (icache s ip)" "\<not> i_valid (icache s ip)"
    and dev: "i_dev (icache s ip) = 1" "IBLOCK (i_inum (icache s ip)) (fsb s) < disksize s"
  defines "i \<equiv> disk_inode s (i_inum (icache s ip)) (icache s ip)"
  shows "i_type i \<noteq> 0 \<Longrightarrow> \<exists>s'. ilock ip s = Some s' \<and> icache s' = (icache s)(ip := i\<lparr>i_locked := True, i_valid := True\<rparr>)"
    and "i_type i = 0 \<Longrightarrow> ilock ip s = None"
proof -
  let ?n = "IBLOCK (i_inum (icache s ip)) (fsb s)" and ?k = "dinode_off (i_inum (icache s ip))"
  obtain bp s1 s2 where r: "bread 1 ?n s = Some (bp, s1)" "b_data (bufs s1 bp) = blk s ?n" "bio.more s1 = bio.more s"
    "brelse bp s1 = Some s2" "tx_step (blk s) 0 s s2"
    using tx_peek [OF ok dev(2)] by metis
  have m: "fsb s1 = fsb s" "icache s1 = icache s" "icache s2 = icache s"
    using xfs_more [OF more_fields(8) [OF r(3)]] xfs_more [OF tx_stepD(4) [OF r(5)]] by auto
  show "i_type i \<noteq> 0 \<Longrightarrow> \<exists>s'. ilock ip s = Some s' \<and> icache s' = (icache s)(ip := i\<lparr>i_locked := True, i_valid := True\<rparr>)"
    and "i_type i = 0 \<Longrightarrow> ilock ip s = None"
    using ref dev r m
    by (simp_all add: ilock_def Let_def upd_ino_def bread_icache brelse_icache i_def disk_inode_def get_dinode_locked)
qed


text \<open>The inode cache is no part of the blocks or of the transaction.\<close>

lemma icache_frame:
  fixes s :: xfs
  shows "blk (s\<lparr>icache := c\<rparr>) = blk s" "tx_ok (s\<lparr>icache := c\<rparr>) = tx_ok s"
proof -
  show "blk (s\<lparr>icache := c\<rparr>) = blk s" by (rule ext) (simp add: blk_def cached_def split: option.split)
  show "tx_ok (s\<lparr>icache := c\<rparr>) = tx_ok s"
    by (simp add: tx_ok_def bio_inv_def log_ok_def held_def dirty_def cached_def log_region_def log_slot_def)
qed

text \<open>
  An entry of the cache that is locked for the first time after a write, in any later state with the
  same blocks, finds what was written.
\<close>

definition unread :: "xfs \<Rightarrow> nat \<Rightarrow> u32 \<Rightarrow> bool" where
  "unread s jp inum \<longleftrightarrow> 1 \<le> i_ref (icache s jp) \<and> \<not> i_locked (icache s jp) \<and> \<not> i_valid (icache s jp) \<and>
     i_dev (icache s jp) = 1 \<and> i_inum (icache s jp) = inum"

lemma iupdate_ilock:
  assumes ok: "tx_ok s" "tx_room (Suc k) s" and dev: "i_dev (icache s ip) = 1" and type: "i_type (icache s ip) \<noteq> 0"
    and h: "home s (IBLOCK (i_inum (icache s ip)) (fsb s))" and len: "length (blk s (IBLOCK (i_inum (icache s ip)) (fsb s))) = BSIZE"
  shows "\<exists>s1. iupdate ip s = Some s1 \<and> tx_ok s1 \<and> icache s1 = icache s \<and>
    (\<forall>s2 jp. tx_ok s2 \<longrightarrow> blk s2 = blk s1 \<longrightarrow> fsb s2 = fsb s \<longrightarrow> disksize s2 = disksize s \<longrightarrow>
       unread s2 jp (i_inum (icache s ip)) \<longrightarrow> (\<exists>s3. ilock jp s2 = Some s3 \<and> same_dinode (icache s3 jp) (icache s ip))) \<and>
    (\<forall>inum i. inum \<noteq> i_inum (icache s ip) \<longrightarrow> disk_inode s1 inum i = disk_inode s inum i)"
proof -
  note w = iupdate_writes [OF ok dev h len]
  obtain s1 where s1: "iupdate ip s = Some s1" "tx_ok s1" "icache s1 = icache s" "fsb s1 = fsb s" "disksize s1 = disksize s"
    using w by blast
  have same: "same_dinode (disk_inode s1 (i_inum (icache s ip)) i) (icache s ip)" for i using w [of i] s1(1) by auto
  have other: "disk_inode s1 inum i = disk_inode s inum i" if "inum \<noteq> i_inum (icache s ip)" for inum i
    using w [of i] s1(1) that by auto
  have "\<exists>s3. ilock jp s2 = Some s3 \<and> same_dinode (icache s3 jp) (icache s ip)"
    if s2: "tx_ok s2" "blk s2 = blk s1" "fsb s2 = fsb s" "disksize s2 = disksize s" "unread s2 jp (i_inum (icache s ip))" for s2 jp
  proof -
    let ?i = "disk_inode s2 (i_inum (icache s2 jp)) (icache s2 jp)"
    have e: "same_dinode ?i (icache s ip)"
      using same [of "icache s2 jp"] s2 s1(4) by (simp add: disk_inode_def unread_def)
    then have "i_type ?i \<noteq> 0" using type by (simp add: same_dinode_def)
    then obtain s3 where "ilock jp s2 = Some s3" "icache s3 jp = ?i\<lparr>i_locked := True, i_valid := True\<rparr>"
      using ilock_reads(1) [OF s2(1), of jp] s2 h by (auto simp: unread_def home_def)
    then show ?thesis using e by (auto simp: same_dinode_def)
  qed
  then show ?thesis using s1 other by blast
qed

section \<open>Who changes the inode cache\<close>

text \<open>What the block layer and the log keep, whatever the state of their own data.\<close>

lemma bread_more: "bread dev n s = Some (i, s') \<Longrightarrow> bio.more s' = bio.more s"
  by (auto simp: bread_def bget_def acquiresleep_def iderw_def Let_def bind_eq_Some_conv split: option.splits if_splits)

lemma brelse_more: "brelse i s = Some s' \<Longrightarrow> bio.more s' = bio.more s"
  by (auto simp: brelse_def releasesleep_def upd_buf_def Let_def split: if_splits)

lemma log_write_more: "log_write i s = Some s' \<Longrightarrow> xlog.more s' = xlog.more s"
  by (auto simp: log_write_def set_dirty_def upd_buf_def Let_def split: if_splits)

lemma set_data_more: "bio.more (set_data i d s) = bio.more s"
  by (simp add: set_data_def)

lemmas keeps_more =
  xfs_more [OF more_fields(8) [OF bread_more]] xfs_more [OF more_fields(8) [OF brelse_more]] xfs_more [OF log_write_more]
  xfs_more [OF more_fields(8) [OF set_data_more]]

lemma bzero_icache: "bzero dev n s = Some s' \<Longrightarrow> icache s' = icache s \<and> fsb s' = fsb s"
  by (auto simp: bzero_def bind_eq_Some_conv dest!: keeps_more(1-3) simp: keeps_more(4))

lemma bfree_icache: "bfree dev b s = Some s' \<Longrightarrow> icache s' = icache s \<and> fsb s' = fsb s"
  by (auto simp: bfree_def bind_eq_Some_conv Let_def dest!: keeps_more(1-3) simp: keeps_more(4) split: if_splits)

lemma iupdate_icache: "iupdate ip s = Some s' \<Longrightarrow> icache s' = icache s \<and> fsb s' = fsb s"
  by (auto simp: iupdate_def bind_eq_Some_conv Let_def dest!: keeps_more(1-3) simp: keeps_more(4))

text \<open>Entries keep their identity and their number of references.\<close>

definition keeps_ids :: "xfs \<Rightarrow> xfs \<Rightarrow> bool" where
  "keeps_ids s s' \<longleftrightarrow> (\<forall>i. i_dev (icache s' i) = i_dev (icache s i) \<and> i_inum (icache s' i) = i_inum (icache s i) \<and>
     i_ref (icache s' i) = i_ref (icache s i))"

lemma keeps_ids_refl [simp]: "keeps_ids s s"
  by (simp add: keeps_ids_def)

lemma keeps_ids_trans: "keeps_ids s s1 \<Longrightarrow> keeps_ids s1 s2 \<Longrightarrow> keeps_ids s s2"
  by (simp add: keeps_ids_def)

lemma keeps_ids_same: "icache s' = icache s \<Longrightarrow> keeps_ids s s'"
  by (simp add: keeps_ids_def)

lemma keeps_ids_upd:
  assumes "\<And>i. i_dev (f i) = i_dev i \<and> i_inum (f i) = i_inum i \<and> i_ref (f i) = i_ref i"
  shows "keeps_ids s (upd_ino ip f s)"
  using assms by (simp add: keeps_ids_def upd_ino_def)

lemma free_direct_ids: "free_direct ip is s = Some s' \<Longrightarrow> keeps_ids s s'"
proof (induction "is" arbitrary: s)
  case (Cons i "is")
  show ?case
  proof (cases "i_addrs (icache s ip) i = 0")
    case False
    then obtain s1 where s1: "bfree (i_dev (icache s ip)) (i_addrs (icache s ip) i) s = Some s1"
      "free_direct ip is (set_addr ip i 0 s1) = Some s'"
      using Cons.prems by (auto simp: bind_eq_Some_conv)
    have "keeps_ids s s1" using bfree_icache [OF s1(1)] by (simp add: keeps_ids_same)
    moreover have "keeps_ids s1 (set_addr ip i 0 s1)" unfolding set_addr_def by (rule keeps_ids_upd) simp
    ultimately show ?thesis using Cons.IH [OF s1(2)] keeps_ids_trans by blast
  qed (use Cons in simp)
qed simp

lemma free_indirect_icache: "free_indirect dev bp js s = Some s' \<Longrightarrow> icache s' = icache s"
proof (induction js arbitrary: s)
  case (Cons j js)
  show ?case
  proof (cases "get32 (b_data (bufs s bp)) (4 * j) = 0")
    case False
    then obtain s1 where "bfree dev (get32 (b_data (bufs s bp)) (4 * j)) s = Some s1" "free_indirect dev bp js s1 = Some s'"
      using Cons.prems by (auto simp: bind_eq_Some_conv)
    then show ?thesis using Cons.IH bfree_icache by metis
  qed (use Cons in simp)
qed simp


lemma itrunc_ids: "itrunc ip s = Some s' \<Longrightarrow> keeps_ids s s'"
proof -
  assume ret: "itrunc ip s = Some s'"
  obtain s1 where s1: "free_direct ip [0..<NDIRECT] s = Some s1" using ret by (auto simp: itrunc_def bind_eq_Some_conv)
  let ?dev = "i_dev (icache s1 ip)" and ?ind = "i_addrs (icache s1 ip) NDIRECT"
  let ?f = "\<lambda>s. iupdate ip (upd_ino ip (\<lambda>i. i\<lparr>i_size := 0\<rparr>) s)"
  have fin: "keeps_ids s2 s'" if "?f s2 = Some s'" for s2
    using iupdate_icache [OF that] keeps_ids_upd [of "\<lambda>i. i\<lparr>i_size := 0\<rparr>" s2 ip] by (simp add: keeps_ids_def)
  have "keeps_ids s1 s'"
  proof (cases "?ind = 0")
    case True
    then show ?thesis using ret s1 fin by (simp add: itrunc_def Let_def)
  next
    case False
    then obtain bp s2 s3 s4 s5 where r: "bread ?dev ?ind s1 = Some (bp, s2)" "free_indirect ?dev bp [0..<NINDIRECT] s2 = Some s3"
      "brelse bp s3 = Some s4" "bfree ?dev ?ind s4 = Some s5" "?f (set_addr ip NDIRECT 0 s5) = Some s'"
      using ret s1 by (auto simp: itrunc_def Let_def bind_eq_Some_conv)
    have "icache s5 = icache s1"
      using keeps_more(1) [OF r(1)] free_indirect_icache [OF r(2)] keeps_more(2) [OF r(3)] bfree_icache [OF r(4)] by simp
    moreover have "keeps_ids s5 (set_addr ip NDIRECT 0 s5)" unfolding set_addr_def by (rule keeps_ids_upd) simp
    ultimately show ?thesis using fin [OF r(5)] by (simp add: keeps_ids_def)
  qed
  then show ?thesis using free_direct_ids [OF s1] keeps_ids_trans by blast
qed

lemma ilock_ids: "ilock ip s = Some s' \<Longrightarrow> keeps_ids s s'"
proof -
  assume ret: "ilock ip s = Some s'"
  let ?s = "upd_ino ip (\<lambda>i. i\<lparr>i_locked := True\<rparr>) s"
  have 1: "keeps_ids s ?s" by (rule keeps_ids_upd) simp
  show ?thesis
  proof (cases "i_valid (icache ?s ip)")
    case True
    then show ?thesis using ret 1 by (auto simp: ilock_def Let_def split: if_splits)
  next
    case False
    then obtain bp s1 i s2 where r: "bread (i_dev (icache ?s ip)) (IBLOCK (i_inum (icache ?s ip)) (fsb ?s)) ?s = Some (bp, s1)"
      "i = get_dinode (dinode_off (i_inum (icache s1 ip))) (b_data (bufs s1 bp)) (icache s1 ip)"
      "brelse bp (upd_ino ip (\<lambda>_. i) s1) = Some s2" "s' = upd_ino ip (\<lambda>i. i\<lparr>i_valid := True\<rparr>) s2"
      using ret by (auto simp: ilock_def Let_def bind_eq_Some_conv split: if_splits)
    have "keeps_ids ?s s1" using keeps_more(1) [OF r(1)] by (simp add: keeps_ids_same)
    moreover have "keeps_ids s1 (upd_ino ip (\<lambda>_. i) s1)" by (simp add: keeps_ids_def upd_ino_def r(2) get_dinode_def)
    moreover have "keeps_ids (upd_ino ip (\<lambda>_. i) s1) s2" using keeps_more(2) [OF r(3)] by (simp add: keeps_ids_same)
    moreover have "keeps_ids s2 s'" unfolding r(4) by (rule keeps_ids_upd) simp
    ultimately show ?thesis using 1 keeps_ids_trans by blast
  qed
qed

lemma iunlock_ids: "iunlock ip s = Some s' \<Longrightarrow> keeps_ids s s'"
  by (auto simp: iunlock_def keeps_ids_def upd_ino_def split: if_splits)

lemma iput_drops:
  assumes "iput ip s = Some s'"
  shows "i_dev (icache s' j) = i_dev (icache s j)" "i_inum (icache s' j) = i_inum (icache s j)"
    "i_ref (icache s' j) = i_ref (icache s j) - (if j = ip then 1 else 0)"
proof -
  let ?s = "upd_ino ip (\<lambda>i. i\<lparr>i_locked := True\<rparr>) s"
  obtain s1 where s1: "s' = upd_ino ip (\<lambda>i. i\<lparr>i_locked := False, i_ref := i_ref i - 1\<rparr>) s1"
    and c: "s1 = ?s \<or> (\<exists>s2 s3. itrunc ip ?s = Some s2 \<and> iupdate ip (upd_ino ip (\<lambda>i. i\<lparr>i_type := 0\<rparr>) s2) = Some s3 \<and>
      s1 = upd_ino ip (\<lambda>i. i\<lparr>i_valid := False\<rparr>) s3)"
    using assms by (auto simp: iput_def Let_def bind_eq_Some_conv split: if_splits)
  have 0: "keeps_ids s ?s" by (rule keeps_ids_upd) simp
  have "keeps_ids s s1"
    using c
  proof
    assume "\<exists>s2 s3. itrunc ip ?s = Some s2 \<and> iupdate ip (upd_ino ip (\<lambda>i. i\<lparr>i_type := 0\<rparr>) s2) = Some s3 \<and>
      s1 = upd_ino ip (\<lambda>i. i\<lparr>i_valid := False\<rparr>) s3"
    then obtain s2 s3 where r: "itrunc ip ?s = Some s2" "iupdate ip (upd_ino ip (\<lambda>i. i\<lparr>i_type := 0\<rparr>) s2) = Some s3"
      "s1 = upd_ino ip (\<lambda>i. i\<lparr>i_valid := False\<rparr>) s3" by blast
    have "keeps_ids s2 (upd_ino ip (\<lambda>i. i\<lparr>i_type := 0\<rparr>) s2)" by (rule keeps_ids_upd) simp
    moreover have "keeps_ids (upd_ino ip (\<lambda>i. i\<lparr>i_type := 0\<rparr>) s2) s3" using iupdate_icache [OF r(2)] by (simp add: keeps_ids_same)
    moreover have "keeps_ids s3 s1" unfolding r(3) by (rule keeps_ids_upd) simp
    ultimately show ?thesis using 0 itrunc_ids [OF r(1)] keeps_ids_trans by blast
  qed (use 0 in simp)
  then show "i_dev (icache s' j) = i_dev (icache s j)" "i_inum (icache s' j) = i_inum (icache s j)"
    "i_ref (icache s' j) = i_ref (icache s j) - (if j = ip then 1 else 0)"
    by (simp_all add: s1 keeps_ids_def upd_ino_def)
qed

section \<open>References to inodes\<close>

text \<open>
  Sequences of operations on the cache, with the references that the callers hold: the entry with
  the inode that they asked for.  \<open>iget\<close> and \<open>idup\<close> add one, \<open>iput\<close> takes one away; the others need
  one.  In between, the rest of the file system changes inodes but not their identity.
\<close>

inductive inode_run :: "xfs \<Rightarrow> (nat \<times> u32 \<times> u32) multiset \<Rightarrow> bool" where
  start: "(\<forall>i < NINODE. i_ref (icache s i) = 0) \<Longrightarrow> inode_run s {#}"
| get: "inode_run s hs \<Longrightarrow> iget dev inum s = Some (ip, s') \<Longrightarrow> inode_run s' (add_mset (ip, dev, inum) hs)"
| dup: "inode_run s hs \<Longrightarrow> (ip, dev, inum) \<in># hs \<Longrightarrow> inode_run (snd (idup ip s)) (add_mset (ip, dev, inum) hs)"
| lock: "inode_run s hs \<Longrightarrow> (ip, dev, inum) \<in># hs \<Longrightarrow> ilock ip s = Some s' \<Longrightarrow> inode_run s' hs"
| unlock: "inode_run s hs \<Longrightarrow> (ip, dev, inum) \<in># hs \<Longrightarrow> iunlock ip s = Some s' \<Longrightarrow> inode_run s' hs"
| put: "inode_run s hs \<Longrightarrow> (ip, dev, inum) \<in># hs \<Longrightarrow> iput ip s = Some s' \<Longrightarrow> inode_run s' (hs - {#(ip, dev, inum)#})"
| other: "inode_run s hs \<Longrightarrow> keeps_ids s s' \<Longrightarrow> inode_run s' hs"

text \<open>Counts, identities, and no inode in two entries.\<close>

definition refs_ok :: "xfs \<Rightarrow> (nat \<times> u32 \<times> u32) multiset \<Rightarrow> bool" where
  "refs_ok s hs \<longleftrightarrow>
     (\<forall>i < NINODE. i_ref (icache s i) = int (size {#h \<in># hs. fst h = i#})) \<and>
     (\<forall>(ip, dev, inum) \<in># hs. ip < NINODE \<and> i_dev (icache s ip) = dev \<and> i_inum (icache s ip) = inum) \<and>
     (\<forall>i < NINODE. \<forall>j < NINODE. i_ref (icache s i) > 0 \<longrightarrow> i_ref (icache s j) > 0 \<longrightarrow>
        i_dev (icache s i) = i_dev (icache s j) \<longrightarrow> i_inum (icache s i) = i_inum (icache s j) \<longrightarrow> i = j)"

lemma refs_okD:
  assumes "refs_ok s hs"
  shows "i < NINODE \<Longrightarrow> i_ref (icache s i) = int (size {#h \<in># hs. fst h = i#})"
    and "(ip, dev, inum) \<in># hs \<Longrightarrow> ip < NINODE \<and> i_dev (icache s ip) = dev \<and> i_inum (icache s ip) = inum"
    and "i < NINODE \<Longrightarrow> j < NINODE \<Longrightarrow> i_ref (icache s i) > 0 \<Longrightarrow> i_ref (icache s j) > 0 \<Longrightarrow>
      i_dev (icache s i) = i_dev (icache s j) \<Longrightarrow> i_inum (icache s i) = i_inum (icache s j) \<Longrightarrow> i = j"
proof -
  note r = assms [unfolded refs_ok_def]
  show "i < NINODE \<Longrightarrow> i_ref (icache s i) = int (size {#h \<in># hs. fst h = i#})" using conjunct1 [OF r] by blast
  show "(ip, dev, inum) \<in># hs \<Longrightarrow> ip < NINODE \<and> i_dev (icache s ip) = dev \<and> i_inum (icache s ip) = inum"
    using bspec [OF conjunct1 [OF conjunct2 [OF r]], of "(ip, dev, inum)"] by simp
  show "i < NINODE \<Longrightarrow> j < NINODE \<Longrightarrow> i_ref (icache s i) > 0 \<Longrightarrow> i_ref (icache s j) > 0 \<Longrightarrow>
      i_dev (icache s i) = i_dev (icache s j) \<Longrightarrow> i_inum (icache s i) = i_inum (icache s j) \<Longrightarrow> i = j"
    using conjunct2 [OF conjunct2 [OF r]] by blast
qed

lemma refs_okI:
  assumes "\<And>i. i < NINODE \<Longrightarrow> i_ref (icache s i) = int (size {#h \<in># hs. fst h = i#})"
    and "\<And>ip dev inum. (ip, dev, inum) \<in># hs \<Longrightarrow> ip < NINODE \<and> i_dev (icache s ip) = dev \<and> i_inum (icache s ip) = inum"
    and "\<And>i j. i < NINODE \<Longrightarrow> j < NINODE \<Longrightarrow> i_ref (icache s i) > 0 \<Longrightarrow> i_ref (icache s j) > 0 \<Longrightarrow>
      i_dev (icache s i) = i_dev (icache s j) \<Longrightarrow> i_inum (icache s i) = i_inum (icache s j) \<Longrightarrow> i = j"
  shows "refs_ok s hs"
  unfolding refs_ok_def
proof (intro conjI)
  show "\<forall>(ip, dev, inum) \<in># hs. ip < NINODE \<and> i_dev (icache s ip) = dev \<and> i_inum (icache s ip) = inum"
    using assms(2) by (intro ballI) (auto split: prod.split)
qed (use assms(1,3) in blast)+

lemma refs_ok_held:
  assumes "refs_ok s hs" "(ip, dev, inum) \<in># hs"
  shows "0 < i_ref (icache s ip)"
proof -
  have "(ip, dev, inum) \<in># {#h \<in># hs. fst h = ip#}" using assms(2) by simp
  then have "0 < size {#h \<in># hs. fst h = ip#}" by (metis empty_not_add_mset gr0I insert_DiffM size_eq_0_iff_empty)
  then show ?thesis using refs_okD(1,2) [OF assms(1)] assms(2) by simp
qed

lemma refs_ok_ids: "refs_ok s hs \<Longrightarrow> keeps_ids s s' \<Longrightarrow> refs_ok s' hs"
  by (simp add: refs_ok_def keeps_ids_def)

lemma refs_ok_add:
  assumes r: "refs_ok s hs" and ip: "ip < NINODE" "0 < i_ref (icache s ip)"
  shows "refs_ok (upd_ino ip (\<lambda>i. i\<lparr>i_ref := i_ref i + 1\<rparr>) s) (add_mset (ip, i_dev (icache s ip), i_inum (icache s ip)) hs)"
proof (rule refs_okI)
  fix i assume i: "i < NINODE"
  then show "i_ref (icache (upd_ino ip (\<lambda>i. i\<lparr>i_ref := i_ref i + 1\<rparr>) s) i) =
      int (size {#h \<in># add_mset (ip, i_dev (icache s ip), i_inum (icache s ip)) hs. fst h = i#})"
    using refs_okD(1) [OF r i] by (cases "i = ip") (simp_all add: upd_ino_def)
next
  fix jp dev inum assume "(jp, dev, inum) \<in># add_mset (ip, i_dev (icache s ip), i_inum (icache s ip)) hs"
  then show "jp < NINODE \<and> i_dev (icache (upd_ino ip (\<lambda>i. i\<lparr>i_ref := i_ref i + 1\<rparr>) s) jp) = dev \<and>
      i_inum (icache (upd_ino ip (\<lambda>i. i\<lparr>i_ref := i_ref i + 1\<rparr>) s) jp) = inum"
    using refs_okD(2) [OF r, of jp dev inum] ip(1) by (auto simp: upd_ino_def)
next
  fix i j let ?s = "upd_ino ip (\<lambda>i. i\<lparr>i_ref := i_ref i + 1\<rparr>) s"
  assume ij: "i < NINODE" "j < NINODE" "i_ref (icache ?s i) > 0" "i_ref (icache ?s j) > 0"
    "i_dev (icache ?s i) = i_dev (icache ?s j)" "i_inum (icache ?s i) = i_inum (icache ?s j)"
  have "i_ref (icache ?s k) > 0 \<longleftrightarrow> i_ref (icache s k) > 0" "i_dev (icache ?s k) = i_dev (icache s k)"
    "i_inum (icache ?s k) = i_inum (icache s k)" for k
    using ip(2) by (simp_all add: upd_ino_def)
  note eq = this
  show "i = j" using refs_okD(3) [OF r ij(1,2)] ij(3-6) unfolding eq by blast
qed

lemma refs_ok_new:
  assumes r: "refs_ok s hs" and ip: "ip < NINODE" "i_ref (icache s ip) = 0"
    and new: "\<forall>i < NINODE. i_ref (icache s i) > 0 \<longrightarrow> i_dev (icache s i) = dev \<longrightarrow> i_inum (icache s i) \<noteq> inum"
  shows "refs_ok (upd_ino ip (\<lambda>i. i\<lparr>i_dev := dev, i_inum := inum, i_ref := 1, i_valid := False\<rparr>) s) (add_mset (ip, dev, inum) hs)"
proof -
  have none: "{#h \<in># hs. fst h = ip#} = {#}" using refs_okD(1) [OF r ip(1)] ip(2) by simp
  then have unheld: "(ip, d, n) \<notin># hs" for d n
  proof -
    have "(ip, d, n) \<in># {#h \<in># hs. fst h = ip#} \<longleftrightarrow> (ip, d, n) \<in># hs" by simp
    then show ?thesis by (simp add: none)
  qed
  let ?s = "upd_ino ip (\<lambda>i. i\<lparr>i_dev := dev, i_inum := inum, i_ref := 1, i_valid := False\<rparr>) s"
  show ?thesis
  proof (rule refs_okI)
    fix i assume i: "i < NINODE"
    then show "i_ref (icache ?s i) = int (size {#h \<in># add_mset (ip, dev, inum) hs. fst h = i#})"
      using refs_okD(1) [OF r i] none by (simp add: upd_ino_def)
  next
    fix jp d n assume "(jp, d, n) \<in># add_mset (ip, dev, inum) hs"
    then show "jp < NINODE \<and> i_dev (icache ?s jp) = d \<and> i_inum (icache ?s jp) = n"
      using refs_okD(2) [OF r, of jp d n] unheld [of d n] ip(1) by (auto simp: upd_ino_def)
  next
    fix i j assume ij: "i < NINODE" "j < NINODE" "i_ref (icache ?s i) > 0" "i_ref (icache ?s j) > 0"
      "i_dev (icache ?s i) = i_dev (icache ?s j)" "i_inum (icache ?s i) = i_inum (icache ?s j)"
    then show "i = j"
      using refs_okD(3) [OF r ij(1,2)] spec [OF new, of i] spec [OF new, of j] by (auto simp: upd_ino_def split: if_splits)
  qed
qed

lemma refs_ok_drop:
  assumes r: "refs_ok s hs" and h: "(ip, dev, inum) \<in># hs"
    and s': "\<And>j. i_dev (icache s' j) = i_dev (icache s j)" "\<And>j. i_inum (icache s' j) = i_inum (icache s j)"
      "\<And>j. i_ref (icache s' j) = i_ref (icache s j) - (if j = ip then 1 else 0)"
  shows "refs_ok s' (hs - {#(ip, dev, inum)#})"
proof -
  obtain hs' where hs: "hs = add_mset (ip, dev, inum) hs'" using h by (metis insert_DiffM)
  have "refs_ok s' hs'"
  proof (rule refs_okI)
    fix i assume i: "i < NINODE"
    then show "i_ref (icache s' i) = int (size {#h \<in># hs'. fst h = i#})"
      using refs_okD(1) [OF r i] s'(3) [of i] hs by (cases "i = ip") auto
  next
    fix jp d n assume "(jp, d, n) \<in># hs'"
    then show "jp < NINODE \<and> i_dev (icache s' jp) = d \<and> i_inum (icache s' jp) = n"
      using refs_okD(2) [OF r, of jp d n] hs by (simp add: s'(1,2))
  next
    fix i j assume ij: "i < NINODE" "j < NINODE" "i_ref (icache s' i) > 0" "i_ref (icache s' j) > 0"
      "i_dev (icache s' i) = i_dev (icache s' j)" "i_inum (icache s' i) = i_inum (icache s' j)"
    have "i_ref (icache s i) > 0" "i_ref (icache s j) > 0"
      using ij(3,4) s'(3) [of i] s'(3) [of j] by (simp_all split: if_splits)
    then show "i = j" using refs_okD(3) [OF r ij(1,2)] ij(5,6) by (simp only: s'(1,2))
  qed
  then show ?thesis using hs by simp
qed

lemma iget_refs:
  assumes r: "refs_ok s hs" and ret: "iget dev inum s = Some (ip, s')"
  shows "refs_ok s' (add_mset (ip, dev, inum) hs)"
proof (cases "find (\<lambda>ip. i_ref (icache s ip) > 0 \<and> i_dev (icache s ip) = dev \<and> i_inum (icache s ip) = inum) [0..<NINODE]")
  case None
  then have new: "\<forall>i < NINODE. i_ref (icache s i) > 0 \<longrightarrow> i_dev (icache s i) = dev \<longrightarrow> i_inum (icache s i) \<noteq> inum"
    by (auto simp: find_None_iff)
  obtain e where e: "find (\<lambda>ip. i_ref (icache s ip) = 0) [0..<NINODE] = Some e"
    using ret None by (auto simp: iget_def split: option.splits)
  then show ?thesis
    using ret None find_Some_mem [OF e] refs_ok_new [OF r _ _ new] by (auto simp: iget_def)
next
  case (Some e)
  then show ?thesis
    using ret find_Some_mem [OF Some] refs_ok_add [OF r, of e] by (auto simp: iget_def)
qed

lemma inode_run_refs: "inode_run s hs \<Longrightarrow> refs_ok s hs"
proof (induction rule: inode_run.induct)
  case (start s)
  then show ?case by (simp add: refs_ok_def)
next
  case (dup s hs ip dev inum)
  then show ?case
    using refs_ok_add [OF dup(3)] refs_okD(2) [OF dup(3,2)] refs_ok_held [OF dup(3,2)] by (auto simp: idup_def)
next
  case (put s hs ip dev inum s')
  then show ?case using refs_ok_drop [OF put(4,2)] iput_drops [OF put(3)] by blast
qed (auto intro: iget_refs refs_ok_ids ilock_ids iunlock_ids)

end
