(* ===== verification/Xv6_Mem.thy ===== *)
theory Xv6_Mem
  imports Mvrlu_Prelude
begin

text \<open>
  The physical page allocator of xv6 (\<open>kalloc.c\<close>) and its string functions (\<open>string.c\<close>).  The
  kernel runs on 32-bit x86.  Memory is given by the bytes at each address; the free list is linked
  through the first word of each free page.
\<close>

section \<open>Bytes and strings\<close>

fun memcmp :: "u8 list \<Rightarrow> u8 list \<Rightarrow> nat \<Rightarrow> int" where
  "memcmp (a # s1) (b # s2) (Suc n) = (if a \<noteq> b then uint a - uint b else memcmp s1 s2 n)"
| "memcmp s1 s2 n = 0"

text \<open>
  \<open>memmove\<close> copies forwards, or backwards when the destination starts inside the source.  Memory is
  a function; the two loops take the number of bytes still to copy.
\<close>

fun copy_back :: "nat \<Rightarrow> u32 \<Rightarrow> u32 \<Rightarrow> (u32 \<Rightarrow> u8) \<Rightarrow> u32 \<Rightarrow> u8" where
  "copy_back 0 d s m = m"
| "copy_back (Suc n) d s m = copy_back n (d - 1) (s - 1) (m(d - 1 := m (s - 1)))"

fun copy_fwd :: "nat \<Rightarrow> u32 \<Rightarrow> u32 \<Rightarrow> (u32 \<Rightarrow> u8) \<Rightarrow> u32 \<Rightarrow> u8" where
  "copy_fwd 0 d s m = m"
| "copy_fwd (Suc n) d s m = copy_fwd n (d + 1) (s + 1) (m(d := m s))"

definition memmove :: "u32 \<Rightarrow> u32 \<Rightarrow> u32 \<Rightarrow> (u32 \<Rightarrow> u8) \<Rightarrow> u32 \<Rightarrow> u8" where
  "memmove dst src n m =
     (if src < dst \<and> src + n > dst then copy_back (unat n) (dst + n) (src + n) m
      else copy_fwd (unat n) dst src m)"

definition xmemcpy :: "u32 \<Rightarrow> u32 \<Rightarrow> u32 \<Rightarrow> (u32 \<Rightarrow> u8) \<Rightarrow> u32 \<Rightarrow> u8" where
  "xmemcpy dst src n m = memmove dst src n m"

text \<open>The string instructions behind \<open>stosl\<close> and \<open>stosb\<close> (\<open>x86.h\<close>): \<open>n\<close> words, or bytes, from \<open>dst\<close> on.\<close>

fun stosl :: "nat \<Rightarrow> u32 \<Rightarrow> u32 \<Rightarrow> (u32 \<Rightarrow> u8) \<Rightarrow> u32 \<Rightarrow> u8" where
  "stosl 0 dst w m = m"
| "stosl (Suc n) dst w m = stosl n (dst + 4) w
     (m(dst := ucast w, dst + 1 := ucast (drop_bit 8 w), dst + 2 := ucast (drop_bit 16 w), dst + 3 := ucast (drop_bit 24 w)))"

fun stosb :: "nat \<Rightarrow> u32 \<Rightarrow> u8 \<Rightarrow> (u32 \<Rightarrow> u8) \<Rightarrow> u32 \<Rightarrow> u8" where
  "stosb 0 dst c m = m"
| "stosb (Suc n) dst c m = stosb n (dst + 1) c (m(dst := c))"

definition memset :: "u32 \<Rightarrow> u32 \<Rightarrow> u32 \<Rightarrow> (u32 \<Rightarrow> u8) \<Rightarrow> u32 \<Rightarrow> u8" where
  "memset dst c n m =
     (if dst mod 4 = 0 \<and> n mod 4 = 0 then
        let c = c AND 0xFF
        in stosl (unat (n div 4)) dst (push_bit 24 c OR push_bit 16 c OR push_bit 8 c OR c) m
      else stosb (unat n) dst (ucast c) m)"

text \<open>The copy that \<open>safestrcpy\<close> leaves in \<open>n\<close> bytes: a prefix of the string and a zero.\<close>

fun safestr :: "nat \<Rightarrow> u8 list \<Rightarrow> u8 list" where
  "safestr 0 t = [0]"
| "safestr (Suc n) [] = [0]"
| "safestr (Suc n) (c # cs) = (if c = 0 then [0] else c # safestr n cs)"

definition safestrcpy :: "u8 list \<Rightarrow> u8 list \<Rightarrow> int \<Rightarrow> u8 list" where
  "safestrcpy s t n = (if n \<le> 0 then s else let r = safestr (nat n - 1) t in r @ drop (length r) s)"

definition strlen :: "u8 list \<Rightarrow> nat" where
  "strlen s = length (takeWhile (\<lambda>c. c \<noteq> 0) s)"

section \<open>Pages\<close>

definition PGSIZE :: u32 where "PGSIZE = 4096"
definition KERNBASE :: u32 where "KERNBASE = 0x80000000"
definition PHYSTOP :: u32 where "PHYSTOP = 0xE000000"

definition V2P :: "u32 \<Rightarrow> u32" where
  "V2P a = a - KERNBASE"

definition PGROUNDUP :: "u32 \<Rightarrow> u32" where
  "PGROUNDUP sz = (sz + PGSIZE - 1) AND NOT (PGSIZE - 1)"

record kmem =
  use_lock :: bool
  freelist :: u32
  pmem :: "u32 \<Rightarrow> u8"

text \<open>The word at an address: \<open>r->next\<close> of a free page \<open>r\<close>.\<close>

definition load32 :: "(u32 \<Rightarrow> u8) \<Rightarrow> u32 \<Rightarrow> u32" where
  "load32 m a = ucast (m a) OR push_bit 8 (ucast (m (a + 1))) OR push_bit 16 (ucast (m (a + 2))) OR push_bit 24 (ucast (m (a + 3)))"

definition store32 :: "u32 \<Rightarrow> u32 \<Rightarrow> (u32 \<Rightarrow> u8) \<Rightarrow> u32 \<Rightarrow> u8" where
  "store32 a w m = m(a := ucast w, a + 1 := ucast (drop_bit 8 w), a + 2 := ucast (drop_bit 16 w), a + 3 := ucast (drop_bit 24 w))"

text \<open>\<open>kend\<close> is the first address after the kernel, \<open>end\<close> of the linker script.\<close>

definition kfree :: "u32 \<Rightarrow> u32 \<Rightarrow> kmem \<Rightarrow> kmem option" where
  "kfree kend v s =
     (if v mod PGSIZE \<noteq> 0 \<or> v < kend \<or> V2P v \<ge> PHYSTOP then None
      else Some (s\<lparr>pmem := store32 v (freelist s) (memset v 1 PGSIZE (pmem s)), freelist := v\<rparr>))"

definition kalloc :: "kmem \<Rightarrow> u32 \<times> kmem" where
  "kalloc s =
     (if freelist s \<noteq> 0 then (freelist s, s\<lparr>freelist := load32 (pmem s) (freelist s)\<rparr>) else (0, s))"

text \<open>Pointers wrap at the end of the address space, where the loop would go on from its beginning.\<close>

partial_function (option) freerange_loop :: "u32 \<Rightarrow> u32 \<Rightarrow> u32 \<Rightarrow> kmem \<Rightarrow> kmem option" where
  "freerange_loop kend p vend s =
     (if p + PGSIZE \<le> vend
      then Option.bind (kfree kend p s) (freerange_loop kend (p + PGSIZE) vend)
      else Some s)"

definition freerange :: "u32 \<Rightarrow> u32 \<Rightarrow> u32 \<Rightarrow> kmem \<Rightarrow> kmem option" where
  "freerange kend vstart vend s = freerange_loop kend (PGROUNDUP vstart) vend s"

definition kinit1 :: "u32 \<Rightarrow> u32 \<Rightarrow> u32 \<Rightarrow> kmem \<Rightarrow> kmem option" where
  "kinit1 kend vstart vend s = freerange kend vstart vend (s\<lparr>use_lock := False\<rparr>)"

definition kinit2 :: "u32 \<Rightarrow> u32 \<Rightarrow> u32 \<Rightarrow> kmem \<Rightarrow> kmem option" where
  "kinit2 kend vstart vend s = map_option (\<lambda>s. s\<lparr>use_lock := True\<rparr>) (freerange kend vstart vend s)"

end
