(* ===== verification/Xv6_File.thy ===== *)
theory Xv6_File
  imports Xv6_Fs Xv6_Mem
begin

text \<open>
  Pipes and open files of xv6 (\<open>pipe.c\<close>, \<open>file.c\<close>).  A pipe is known by the address of its page.
  An operation that sleeps gives the other processes, \<open>env\<close>, a turn.
\<close>

section \<open>Pipes\<close>

definition PIPESIZE :: nat where "PIPESIZE = 512"

record pipe =
  p_data :: "nat \<Rightarrow> u8"
  nread :: u32
  nwrite :: u32
  readopen :: bool
  writeopen :: bool

definition pipe_full :: "pipe \<Rightarrow> bool" where
  "pipe_full p \<longleftrightarrow> nwrite p = nread p + word_of_nat PIPESIZE"

definition pipe_empty :: "pipe \<Rightarrow> bool" where
  "pipe_empty p \<longleftrightarrow> nread p = nwrite p"

definition pipe_put :: "u8 \<Rightarrow> pipe \<Rightarrow> pipe" where
  "pipe_put c p = p\<lparr>p_data := (p_data p)(unat (nwrite p) mod PIPESIZE := c), nwrite := nwrite p + 1\<rparr>"

definition pipe_get :: "pipe \<Rightarrow> u8 \<times> pipe" where
  "pipe_get p = (p_data p (unat (nread p) mod PIPESIZE), p\<lparr>nread := nread p + 1\<rparr>)"

text \<open>
  \<open>killed\<close> says whether the process has been killed, at the number of times that it has slept.
  The result is the returned number and the pipe.
\<close>

partial_function (option) pipewrite_loop ::
    "(pipe \<Rightarrow> pipe) \<Rightarrow> (nat \<Rightarrow> bool) \<Rightarrow> nat \<Rightarrow> u8 list \<Rightarrow> pipe \<Rightarrow> (bool \<times> pipe) option" where
  "pipewrite_loop env killed k cs p =
     (case cs of
        [] \<Rightarrow> Some (True, p)
      | c # cs' \<Rightarrow>
          if pipe_full p then
            if \<not> readopen p \<or> killed k then Some (False, p)
            else pipewrite_loop env killed (Suc k) cs (env p)
          else pipewrite_loop env killed k cs' (pipe_put c p))"

definition pipewrite :: "(pipe \<Rightarrow> pipe) \<Rightarrow> (nat \<Rightarrow> bool) \<Rightarrow> u8 list \<Rightarrow> int \<Rightarrow> pipe \<Rightarrow> (int \<times> pipe) option" where
  "pipewrite env killed addr n p =
     map_option (\<lambda>(ok, p). (if ok then n else - 1, p)) (pipewrite_loop env killed 0 (take (nat n) addr) p)"

partial_function (option) piperead_wait :: "(pipe \<Rightarrow> pipe) \<Rightarrow> (nat \<Rightarrow> bool) \<Rightarrow> nat \<Rightarrow> pipe \<Rightarrow> (bool \<times> pipe) option" where
  "piperead_wait env killed k p =
     (if pipe_empty p \<and> writeopen p then
        if killed k then Some (False, p) else piperead_wait env killed (Suc k) (env p)
      else Some (True, p))"

fun piperead_copy :: "nat \<Rightarrow> pipe \<Rightarrow> u8 list \<times> pipe" where
  "piperead_copy 0 p = ([], p)"
| "piperead_copy (Suc n) p =
     (if pipe_empty p then ([], p)
      else let (c, p1) = pipe_get p; (cs, p2) = piperead_copy n p1 in (c # cs, p2))"

definition piperead :: "(pipe \<Rightarrow> pipe) \<Rightarrow> (nat \<Rightarrow> bool) \<Rightarrow> int \<Rightarrow> pipe \<Rightarrow> (int \<times> u8 list \<times> pipe) option" where
  "piperead env killed n p =
     map_option (\<lambda>(ok, p).
       if ok then let (cs, p) = piperead_copy (nat n) p in (int (length cs), cs, p) else (- 1, [], p))
       (piperead_wait env killed 0 p)"

section \<open>Open files\<close>

definition NFILE :: nat where "NFILE = 100"

datatype fd_type = FD_NONE | FD_PIPE | FD_INODE

record xfile =
  f_type :: fd_type
  f_ref :: int
  f_readable :: bool
  f_writable :: bool
  f_pipe :: u32
  f_ip :: nat
  f_off :: u32

record fstate =
  ftable :: "nat \<Rightarrow> xfile"
  pipes :: "u32 \<Rightarrow> pipe"
  pages :: kmem
  fs :: xfs

definition upd_file :: "nat \<Rightarrow> (xfile \<Rightarrow> xfile) \<Rightarrow> fstate \<Rightarrow> fstate" where
  "upd_file f g s = s\<lparr>ftable := (ftable s)(f := g (ftable s f))\<rparr>"

definition filealloc :: "fstate \<Rightarrow> nat option \<times> fstate" where
  "filealloc s =
     (case find (\<lambda>f. f_ref (ftable s f) = 0) [0..<NFILE] of
        Some f \<Rightarrow> (Some f, upd_file f (\<lambda>x. x\<lparr>f_ref := 1\<rparr>) s)
      | None \<Rightarrow> (None, s))"

definition filedup :: "nat \<Rightarrow> fstate \<Rightarrow> (nat \<times> fstate) option" where
  "filedup f s =
     (if f_ref (ftable s f) < 1 then None else Some (f, upd_file f (\<lambda>x. x\<lparr>f_ref := f_ref x + 1\<rparr>) s))"

definition pipeclose :: "u32 \<Rightarrow> u32 \<Rightarrow> bool \<Rightarrow> fstate \<Rightarrow> fstate option" where
  "pipeclose kend p writable s =
     (let pp = (if writable then (pipes s p)\<lparr>writeopen := False\<rparr> else (pipes s p)\<lparr>readopen := False\<rparr>);
          s1 = s\<lparr>pipes := (pipes s)(p := pp)\<rparr>
      in if \<not> readopen pp \<and> \<not> writeopen pp
         then map_option (\<lambda>m. s1\<lparr>pages := m\<rparr>) (kfree kend p (pages s1))
         else Some s1)"

text \<open>\<open>lenv\<close> is what the file system does while a call waits to begin its transaction.\<close>

definition fileclose :: "(xfs \<Rightarrow> xfs) \<Rightarrow> u32 \<Rightarrow> nat \<Rightarrow> fstate \<Rightarrow> fstate option" where
  "fileclose lenv kend f s =
     (if f_ref (ftable s f) < 1 then None
      else
        let s1 = upd_file f (\<lambda>x. x\<lparr>f_ref := f_ref x - 1\<rparr>) s
        in if f_ref (ftable s1 f) > 0 then Some s1
           else
             let ff = ftable s1 f;
                 s2 = upd_file f (\<lambda>x. x\<lparr>f_ref := 0, f_type := FD_NONE\<rparr>) s1
             in if f_type ff = FD_PIPE then pipeclose kend (f_pipe ff) (f_writable ff) s2
                else if f_type ff = FD_INODE then do {
                  x \<leftarrow> begin_op lenv (fs s2);
                  x \<leftarrow> iput (f_ip ff) x;
                  x \<leftarrow> end_op x;
                  Some (s2\<lparr>fs := x\<rparr>)
                } else Some s2)"

text \<open>
  \<open>pipealloc\<close> gives back what it has taken when it fails.  The files that it closes then have no
  type: \<open>fileclose\<close> leaves every file as \<open>FD_NONE\<close>.
\<close>

definition close_opt :: "(xfs \<Rightarrow> xfs) \<Rightarrow> u32 \<Rightarrow> nat option \<Rightarrow> fstate \<Rightarrow> fstate option" where
  "close_opt lenv kend f s = (case f of None \<Rightarrow> Some s | Some f \<Rightarrow> fileclose lenv kend f s)"

definition pipealloc :: "(xfs \<Rightarrow> xfs) \<Rightarrow> u32 \<Rightarrow> fstate \<Rightarrow> ((nat \<times> nat) option \<times> fstate) option" where
  "pipealloc lenv kend s =
     (let (f0, s1) = filealloc s
      in case f0 of
           None \<Rightarrow> Some (None, s1)
         | Some a \<Rightarrow>
             let (f1, s2) = filealloc s1
             in case f1 of
                  None \<Rightarrow> map_option (\<lambda>s. (None, s)) (close_opt lenv kend f0 s2)
                | Some b \<Rightarrow>
                    let (p, m) = kalloc (pages s2); s3 = s2\<lparr>pages := m\<rparr>
                    in if p = 0
                       then do {
                         s \<leftarrow> close_opt lenv kend f0 s3;
                         s \<leftarrow> close_opt lenv kend f1 s;
                         Some (None, s)
                       }
                       else
                         let s4 = s3\<lparr>pipes := (pipes s3)(p := (pipes s3 p)\<lparr>readopen := True, writeopen := True,
                                    nwrite := 0, nread := 0\<rparr>)\<rparr>;
                             s5 = upd_file a (\<lambda>x. x\<lparr>f_type := FD_PIPE, f_readable := True, f_writable := False, f_pipe := p\<rparr>) s4;
                             s6 = upd_file b (\<lambda>x. x\<lparr>f_type := FD_PIPE, f_readable := False, f_writable := True, f_pipe := p\<rparr>) s5
                         in Some (Some (a, b), s6))"

definition filestat :: "nat \<Rightarrow> fstate \<Rightarrow> (int \<times> xstat option \<times> fstate) option" where
  "filestat f s =
     (if f_type (ftable s f) = FD_INODE then do {
        x \<leftarrow> ilock (f_ip (ftable s f)) (fs s);
        let st = stati (f_ip (ftable s f)) x;
        x \<leftarrow> iunlock (f_ip (ftable s f)) x;
        Some (0, Some st, s\<lparr>fs := x\<rparr>)
      } else Some (- 1, None, s))"

definition fileread ::
    "dev_read \<Rightarrow> (pipe \<Rightarrow> pipe) \<Rightarrow> (nat \<Rightarrow> bool) \<Rightarrow> nat \<Rightarrow> u32 \<Rightarrow> fstate \<Rightarrow> (int \<times> u8 list \<times> fstate) option" where
  "fileread drd env killed f n s =
     (let ff = ftable s f
      in if \<not> f_readable ff then Some (- 1, [], s)
         else if f_type ff = FD_PIPE then do {
           (r, d, p) \<leftarrow> piperead env killed (sint n) (pipes s (f_pipe ff));
           Some (r, d, s\<lparr>pipes := (pipes s)(f_pipe ff := p)\<rparr>)
         }
         else if f_type ff = FD_INODE then do {
           x \<leftarrow> ilock (f_ip ff) (fs s);
           (r, d, x) \<leftarrow> readi drd (f_ip ff) (f_off ff) n x;
           let off' = (if r > 0 then f_off ff + word_of_int r else f_off ff);
           x \<leftarrow> iunlock (f_ip ff) x;
           Some (r, d, upd_file f (\<lambda>y. y\<lparr>f_off := off'\<rparr>) (s\<lparr>fs := x\<rparr>))
         }
         else None)"

definition write_max :: nat where
  "write_max = (MAXOPBLOCKS - 1 - 1 - 2) div 2 * 512"

text \<open>The loop over the pieces of a write; its result is the number of bytes written.\<close>

function filewrite_loop :: "dev_write \<Rightarrow> (xfs \<Rightarrow> xfs) \<Rightarrow> nat \<Rightarrow> u8 list \<Rightarrow> nat \<Rightarrow> fstate \<Rightarrow> (nat \<times> fstate) option" where
  "filewrite_loop dwr lenv f src i s =
     (if src = [] then Some (i, s)
      else do {
        let ff = ftable s f;
        let n1 = min (length src) write_max;
        x \<leftarrow> begin_op lenv (fs s);
        x \<leftarrow> ilock (f_ip ff) x;
        (r, x) \<leftarrow> writei dwr (f_ip ff) (take n1 src) (f_off ff) (word_of_nat n1) x;
        let off' = (if r > 0 then f_off ff + word_of_int r else f_off ff);
        x \<leftarrow> iunlock (f_ip ff) x;
        x \<leftarrow> end_op x;
        let s = upd_file f (\<lambda>y. y\<lparr>f_off := off'\<rparr>) (s\<lparr>fs := x\<rparr>);
        if r < 0 then Some (i, s)
        else if r \<noteq> int n1 then None
        else filewrite_loop dwr lenv f (drop n1 src) (i + n1) s
      })"
  by pat_completeness auto
termination
  by (relation "measure (\<lambda>(dwr, lenv, f, src, i, s). length src)") (auto simp: write_max_def MAXOPBLOCKS_def)

declare filewrite_loop.simps [simp del]

definition filewrite ::
    "dev_write \<Rightarrow> (xfs \<Rightarrow> xfs) \<Rightarrow> (pipe \<Rightarrow> pipe) \<Rightarrow> (nat \<Rightarrow> bool) \<Rightarrow> nat \<Rightarrow> u8 list \<Rightarrow> u32 \<Rightarrow> fstate \<Rightarrow> (int \<times> fstate) option" where
  "filewrite dwr lenv env killed f addr n s =
     (let ff = ftable s f
      in if \<not> f_writable ff then Some (- 1, s)
         else if f_type ff = FD_PIPE then do {
           (r, p) \<leftarrow> pipewrite env killed addr (sint n) (pipes s (f_pipe ff));
           Some (r, s\<lparr>pipes := (pipes s)(f_pipe ff := p)\<rparr>)
         }
         else if f_type ff = FD_INODE then do {
           (i, s) \<leftarrow> filewrite_loop dwr lenv f (take (nat (sint n)) addr) 0 s;
           Some (if int i = sint n then sint n else - 1, s)
         }
         else None)"

end
