(* ===== verification/Xv6_Vm.thy ===== *)
theory Xv6_Vm
  imports Xv6_File
begin

text \<open>
  Page tables of xv6 (\<open>vm.c\<close>, \<open>mmu.h\<close>).  A page directory and its page tables are pages of physical
  memory, read and written a word at a time; kernel addresses are physical ones plus \<open>KERNBASE\<close>.  A
  panic, and a loop that does not end, have no result.  A null pointer is 0; to follow one has no
  result either.
\<close>

section \<open>Addresses and entries\<close>

definition EXTMEM :: u32 where "EXTMEM = 0x100000"
definition DEVSPACE :: u32 where "DEVSPACE = 0xFE000000"
definition KERNLINK :: u32 where "KERNLINK = KERNBASE + EXTMEM"
definition NPDENTRIES :: nat where "NPDENTRIES = 1024"
definition PTE_P :: u32 where "PTE_P = 1"
definition PTE_W :: u32 where "PTE_W = 2"
definition PTE_U :: u32 where "PTE_U = 4"

definition P2V :: "u32 \<Rightarrow> u32" where
  "P2V a = a + KERNBASE"

definition PDX :: "u32 \<Rightarrow> u32" where
  "PDX va = drop_bit 22 va AND 0x3FF"

definition PTX :: "u32 \<Rightarrow> u32" where
  "PTX va = drop_bit 12 va AND 0x3FF"

definition PGADDR :: "u32 \<Rightarrow> u32 \<Rightarrow> u32 \<Rightarrow> u32" where
  "PGADDR d t off = push_bit 22 d OR push_bit 12 t OR off"

definition PGROUNDDOWN :: "u32 \<Rightarrow> u32" where
  "PGROUNDDOWN a = a AND NOT (PGSIZE - 1)"

definition PTE_ADDR :: "u32 \<Rightarrow> u32" where
  "PTE_ADDR pte = pte AND NOT 0xFFF"

definition PTE_FLAGS :: "u32 \<Rightarrow> u32" where
  "PTE_FLAGS pte = pte AND 0xFFF"

definition present :: "u32 \<Rightarrow> bool" where
  "present e \<longleftrightarrow> e AND PTE_P \<noteq> 0"

text \<open>Assignments to memory.\<close>

definition put_word :: "u32 \<Rightarrow> u32 \<Rightarrow> kmem \<Rightarrow> kmem" where
  "put_word a w s = s\<lparr>pmem := store32 a w (pmem s)\<rparr>"

definition zero_page :: "u32 \<Rightarrow> kmem \<Rightarrow> kmem" where
  "zero_page p s = s\<lparr>pmem := memset p 0 PGSIZE (pmem s)\<rparr>"

section \<open>Page tables\<close>

text \<open>The result is the address of the entry, or 0.\<close>

definition walkpgdir :: "u32 \<Rightarrow> u32 \<Rightarrow> bool \<Rightarrow> kmem \<Rightarrow> u32 \<times> kmem" where
  "walkpgdir pgdir va alloc s =
     (let pde = pgdir + 4 * PDX va; e = load32 (pmem s) pde
      in if present e then (P2V (PTE_ADDR e) + 4 * PTX va, s)
         else if \<not> alloc then (0, s)
         else
           let (pgtab, s1) = kalloc s
           in if pgtab = 0 then (0, s1)
              else (pgtab + 4 * PTX va, put_word pde (V2P pgtab OR PTE_P OR PTE_W OR PTE_U) (zero_page pgtab s1)))"

partial_function (option) mappages_loop :: "u32 \<Rightarrow> u32 \<Rightarrow> u32 \<Rightarrow> u32 \<Rightarrow> u32 \<Rightarrow> kmem \<Rightarrow> (bool \<times> kmem) option" where
  "mappages_loop pgdir a lst pa perm s =
     (let (pte, s) = walkpgdir pgdir a True s
      in if pte = 0 then Some (False, s)
         else if present (load32 (pmem s) pte) then None
         else
           let s = put_word pte (pa OR perm OR PTE_P) s
           in if a = lst then Some (True, s)
              else mappages_loop pgdir (a + PGSIZE) lst (pa + PGSIZE) perm s)"

text \<open>The Boolean is the returned value: 0 for true, \<open>-1\<close> for false.\<close>

definition mappages :: "u32 \<Rightarrow> u32 \<Rightarrow> u32 \<Rightarrow> u32 \<Rightarrow> u32 \<Rightarrow> kmem \<Rightarrow> (bool \<times> kmem) option" where
  "mappages pgdir va sz pa perm s = mappages_loop pgdir (PGROUNDDOWN va) (PGROUNDDOWN (va + sz - 1)) pa perm s"

text \<open>\<open>kend\<close> is the end of the kernel and \<open>kdata\<close> the start of its data, both from the linker script.\<close>

partial_function (option) deallocuvm_loop :: "u32 \<Rightarrow> u32 \<Rightarrow> u32 \<Rightarrow> u32 \<Rightarrow> kmem \<Rightarrow> kmem option" where
  "deallocuvm_loop kend pgdir a oldsz s =
     (if a < oldsz then
        let (pte, s) = walkpgdir pgdir a False s
        in if pte = 0 then deallocuvm_loop kend pgdir (PGADDR (PDX a + 1) 0 0 - PGSIZE + PGSIZE) oldsz s
           else if present (load32 (pmem s) pte) then
             let pa = PTE_ADDR (load32 (pmem s) pte)
             in if pa = 0 then None
                else Option.bind (kfree kend (P2V pa) s)
                  (\<lambda>s. deallocuvm_loop kend pgdir (a + PGSIZE) oldsz (put_word pte 0 s))
           else deallocuvm_loop kend pgdir (a + PGSIZE) oldsz s
      else Some s)"

definition deallocuvm :: "u32 \<Rightarrow> u32 \<Rightarrow> u32 \<Rightarrow> u32 \<Rightarrow> kmem \<Rightarrow> (u32 \<times> kmem) option" where
  "deallocuvm kend pgdir oldsz newsz s =
     (if newsz \<ge> oldsz then Some (oldsz, s)
      else map_option (\<lambda>s. (newsz, s)) (deallocuvm_loop kend pgdir (PGROUNDUP newsz) oldsz s))"

fun free_tables :: "u32 \<Rightarrow> u32 \<Rightarrow> nat list \<Rightarrow> kmem \<Rightarrow> kmem option" where
  "free_tables kend pgdir [] s = Some s"
| "free_tables kend pgdir (i # is) s =
     (let e = load32 (pmem s) (pgdir + 4 * word_of_nat i)
      in if present e then Option.bind (kfree kend (P2V (PTE_ADDR e)) s) (free_tables kend pgdir is)
         else free_tables kend pgdir is s)"

definition freevm :: "u32 \<Rightarrow> u32 \<Rightarrow> kmem \<Rightarrow> kmem option" where
  "freevm kend pgdir s =
     (if pgdir = 0 then None
      else do {
        (_, s) \<leftarrow> deallocuvm kend pgdir KERNBASE 0 s;
        s \<leftarrow> free_tables kend pgdir [0..<NPDENTRIES] s;
        kfree kend pgdir s
      })"

record kmap_entry =
  km_virt :: u32
  km_start :: u32
  km_end :: u32
  km_perm :: u32

definition kmap :: "u32 \<Rightarrow> kmap_entry list" where
  "kmap kdata =
     [\<lparr>km_virt = KERNBASE, km_start = 0, km_end = EXTMEM, km_perm = PTE_W\<rparr>,
      \<lparr>km_virt = KERNLINK, km_start = V2P KERNLINK, km_end = V2P kdata, km_perm = 0\<rparr>,
      \<lparr>km_virt = kdata, km_start = V2P kdata, km_end = PHYSTOP, km_perm = PTE_W\<rparr>,
      \<lparr>km_virt = DEVSPACE, km_start = DEVSPACE, km_end = 0, km_perm = PTE_W\<rparr>]"

fun map_all :: "u32 \<Rightarrow> kmap_entry list \<Rightarrow> kmem \<Rightarrow> (bool \<times> kmem) option" where
  "map_all pgdir [] s = Some (True, s)"
| "map_all pgdir (k # ks) s = do {
     (ok, s) \<leftarrow> mappages pgdir (km_virt k) (km_end k - km_start k) (km_start k) (km_perm k) s;
     if ok then map_all pgdir ks s else Some (False, s)
   }"

text \<open>The page directory, or 0.\<close>

definition setupkvm :: "u32 \<Rightarrow> u32 \<Rightarrow> kmem \<Rightarrow> (u32 \<times> kmem) option" where
  "setupkvm kend kdata s =
     (let (pgdir, s) = kalloc s
      in if pgdir = 0 then Some (0, s)
         else if P2V PHYSTOP > DEVSPACE then None
         else do {
           (ok, s) \<leftarrow> map_all pgdir (kmap kdata) (zero_page pgdir s);
           if ok then Some (pgdir, s)
           else do {
             s \<leftarrow> freevm kend pgdir s;
             Some (0, s)
           }
         })"

section \<open>User memory\<close>

definition inituvm :: "u32 \<Rightarrow> u32 \<Rightarrow> u32 \<Rightarrow> kmem \<Rightarrow> kmem option" where
  "inituvm pgdir init sz s =
     (if sz \<ge> PGSIZE then None
      else do {
        let (mem, s) = kalloc s;
        if mem = 0 then None
        else do {
          (_, s) \<leftarrow> mappages pgdir 0 PGSIZE (V2P mem) (PTE_W OR PTE_U) (zero_page mem s);
          Some (s\<lparr>pmem := memmove mem init sz (pmem s)\<rparr>)
        }
      })"

partial_function (option) allocuvm_loop :: "u32 \<Rightarrow> u32 \<Rightarrow> u32 \<Rightarrow> u32 \<Rightarrow> u32 \<Rightarrow> kmem \<Rightarrow> (u32 \<times> kmem) option" where
  "allocuvm_loop kend pgdir a oldsz newsz s =
     (if a < newsz then
        let (mem, s) = kalloc s
        in if mem = 0 then do {
             (_, s) \<leftarrow> deallocuvm kend pgdir newsz oldsz s;
             Some (0, s)
           } else do {
             (ok, s) \<leftarrow> mappages pgdir a PGSIZE (V2P mem) (PTE_W OR PTE_U) (zero_page mem s);
             if ok then allocuvm_loop kend pgdir (a + PGSIZE) oldsz newsz s
             else do {
               (_, s) \<leftarrow> deallocuvm kend pgdir newsz oldsz s;
               s \<leftarrow> kfree kend mem s;
               Some (0, s)
             }
           }
      else Some (newsz, s))"

definition allocuvm :: "u32 \<Rightarrow> u32 \<Rightarrow> u32 \<Rightarrow> u32 \<Rightarrow> kmem \<Rightarrow> (u32 \<times> kmem) option" where
  "allocuvm kend pgdir oldsz newsz s =
     (if newsz \<ge> KERNBASE then Some (0, s)
      else if newsz < oldsz then Some (oldsz, s)
      else allocuvm_loop kend pgdir (PGROUNDUP oldsz) oldsz newsz s)"

definition clearpteu :: "u32 \<Rightarrow> u32 \<Rightarrow> kmem \<Rightarrow> kmem option" where
  "clearpteu pgdir uva s =
     (let (pte, s) = walkpgdir pgdir uva False s
      in if pte = 0 then None else Some (put_word pte (load32 (pmem s) pte AND NOT PTE_U) s))"

partial_function (option) copyuvm_loop :: "u32 \<Rightarrow> u32 \<Rightarrow> u32 \<Rightarrow> u32 \<Rightarrow> u32 \<Rightarrow> kmem \<Rightarrow> (bool \<times> kmem) option" where
  "copyuvm_loop kend pgdir d i sz s =
     (if i < sz then
        let (pte, s) = walkpgdir pgdir i False s; e = load32 (pmem s) pte
        in if pte = 0 then None
           else if \<not> present e then None
           else
             let (mem, s) = kalloc s
             in if mem = 0 then Some (False, s)
                else do {
                  (ok, s) \<leftarrow> mappages d i PGSIZE (V2P mem) (PTE_FLAGS e) (s\<lparr>pmem := memmove mem (P2V (PTE_ADDR e)) PGSIZE (pmem s)\<rparr>);
                  if ok then copyuvm_loop kend pgdir d (i + PGSIZE) sz s
                  else do {
                    s \<leftarrow> kfree kend mem s;
                    Some (False, s)
                  }
                }
      else Some (True, s))"

definition copyuvm :: "u32 \<Rightarrow> u32 \<Rightarrow> u32 \<Rightarrow> u32 \<Rightarrow> kmem \<Rightarrow> (u32 \<times> kmem) option" where
  "copyuvm kend kdata pgdir sz s = do {
     (d, s) \<leftarrow> setupkvm kend kdata s;
     if d = 0 then Some (0, s)
     else do {
       (ok, s) \<leftarrow> copyuvm_loop kend pgdir d 0 sz s;
       if ok then Some (d, s)
       else do {
         s \<leftarrow> freevm kend d s;
         Some (0, s)
       }
     }
   }"

text \<open>The entry is read without looking whether there is one.\<close>

definition uva2ka :: "u32 \<Rightarrow> u32 \<Rightarrow> kmem \<Rightarrow> u32 option" where
  "uva2ka pgdir uva s =
     (let (pte, s) = walkpgdir pgdir uva False s
      in if pte = 0 then None
         else
           let e = load32 (pmem s) pte
           in if e AND PTE_P = 0 then Some 0
              else if e AND PTE_U = 0 then Some 0
              else Some (P2V (PTE_ADDR e)))"

partial_function (option) copyout :: "u32 \<Rightarrow> u32 \<Rightarrow> u32 \<Rightarrow> u32 \<Rightarrow> kmem \<Rightarrow> (bool \<times> kmem) option" where
  "copyout pgdir va p len s =
     (if len > 0 then
        let va0 = PGROUNDDOWN va
        in Option.bind (uva2ka pgdir va0 s) (\<lambda>pa0.
             if pa0 = 0 then Some (False, s)
             else
               let n = (if PGSIZE - (va - va0) > len then len else PGSIZE - (va - va0))
               in copyout pgdir (va0 + PGSIZE) (p + n) (len - n) (s\<lparr>pmem := memmove (pa0 + (va - va0)) p n (pmem s)\<rparr>))
      else Some (True, s))"

end
