(* ===== verification/Xv6_Proc.thy ===== *)
theory Xv6_Proc
  imports Xv6_Vm
begin

text \<open>
  Processes of xv6 (\<open>proc.c\<close>, \<open>proc.h\<close>), the scheduler with the two changes that read-copy-update
  needs, CPU affinity and sections that are not preempted, and \<open>rcu.c\<close> itself.  Everything that
  holds \<open>ptable.lock\<close> is one step.  A switch to another kernel stack is modelled by its effect on the
  process table; the saved registers of a switch are not modelled.  A panic has no result.
\<close>

section \<open>Processes\<close>

text \<open>\<open>allowed_cpu\<close> is a signed byte in the code; at most 8 CPUs are numbered in it.\<close>

definition NPROC :: nat where "NPROC = 64"
definition NOFILE :: nat where "NOFILE = 16"

datatype procstate = UNUSED | EMBRYO | SLEEPING | RUNNABLE | RUNNING | ZOMBIE

record trapframe =
  tf_edi :: u32
  tf_esi :: u32
  tf_ebp :: u32
  tf_ebx :: u32
  tf_edx :: u32
  tf_ecx :: u32
  tf_eax :: u32
  tf_gs :: u16
  tf_fs :: u16
  tf_es :: u16
  tf_ds :: u16
  tf_trapno :: u32
  tf_err :: u32
  tf_eip :: u32
  tf_cs :: u16
  tf_eflags :: u32
  tf_esp :: u32
  tf_ss :: u16

definition empty_frame :: trapframe where
  "empty_frame = \<lparr>tf_edi = 0, tf_esi = 0, tf_ebp = 0, tf_ebx = 0, tf_edx = 0, tf_ecx = 0, tf_eax = 0, tf_gs = 0, tf_fs = 0,
     tf_es = 0, tf_ds = 0, tf_trapno = 0, tf_err = 0, tf_eip = 0, tf_cs = 0, tf_eflags = 0, tf_esp = 0, tf_ss = 0\<rparr>"

record proc =
  p_sz :: u32
  p_pgdir :: u32
  p_kstack :: u32
  p_state :: procstate
  p_pid :: int
  p_parent :: "nat option"
  p_tf :: trapframe
  p_chan :: u32
  p_killed :: bool
  p_ofile :: "nat \<Rightarrow> nat option"
  p_cwd :: "nat option"
  p_name :: "u8 list"
  allowed_cpu :: int

record cpu =
  apicid :: int
  cpu_proc :: "nat option"
  preempt_disable_count :: u32

record kern =
  procs :: "nat \<Rightarrow> proc"
  initproc :: nat
  nextpid :: int
  cpus :: "nat \<Rightarrow> cpu"
  ncpu :: nat
  kfs :: fstate

definition upd_proc :: "nat \<Rightarrow> (proc \<Rightarrow> proc) \<Rightarrow> kern \<Rightarrow> kern" where
  "upd_proc p f s = s\<lparr>procs := (procs s)(p := f (procs s p))\<rparr>"

definition upd_cpu :: "nat \<Rightarrow> (cpu \<Rightarrow> cpu) \<Rightarrow> kern \<Rightarrow> kern" where
  "upd_cpu c f s = s\<lparr>cpus := (cpus s)(c := f (cpus s c))\<rparr>"

definition set_pages :: "kmem \<Rightarrow> kern \<Rightarrow> kern" where
  "set_pages m s = s\<lparr>kfs := (kfs s)\<lparr>pages := m\<rparr>\<rparr>"

text \<open>What \<open>allocproc\<close> puts on the new kernel stack, for the first switch to the process, is not modelled.\<close>

definition allocproc :: "kern \<Rightarrow> nat option \<times> kern" where
  "allocproc s =
     (case find (\<lambda>p. p_state (procs s p) = UNUSED) [0..<NPROC] of
        None \<Rightarrow> (None, s)
      | Some p \<Rightarrow>
          let s = upd_proc p (\<lambda>q. q\<lparr>p_state := EMBRYO, p_pid := nextpid s, allowed_cpu := - 1\<rparr>) (s\<lparr>nextpid := nextpid s + 1\<rparr>);
              (k, m) = kalloc (pages (kfs s));
              s = upd_proc p (\<lambda>q. q\<lparr>p_kstack := k\<rparr>) (set_pages m s)
          in if k = 0 then (None, upd_proc p (\<lambda>q. q\<lparr>p_state := UNUSED\<rparr>) s)
             else (Some p, s))"

definition SEG_UCODE :: u16 where "SEG_UCODE = 3"
definition SEG_UDATA :: u16 where "SEG_UDATA = 4"
definition DPL_USER :: u16 where "DPL_USER = 3"
definition FL_IF :: u32 where "FL_IF = 0x200"

text \<open>
  The first process.  \<open>initcode\<close> and \<open>initsz\<close> are the address and the size of its program in the image of
  the kernel; without a free process or page the code follows a null pointer.
\<close>

definition userinit :: "dev_read \<Rightarrow> u32 \<Rightarrow> u32 \<Rightarrow> u32 \<Rightarrow> u32 \<Rightarrow> kern \<Rightarrow> kern option" where
  "userinit drd kend kdata initcode initsz s =
     (let (np, s) = allocproc s
      in case np of
           None \<Rightarrow> None
         | Some p \<Rightarrow> do {
             let s = s\<lparr>initproc := p\<rparr>;
             (d, m) \<leftarrow> setupkvm kend kdata (pages (kfs s));
             if d = 0 then None
             else do {
               m \<leftarrow> inituvm d initcode initsz m;
               let ds = push_bit 3 SEG_UDATA OR DPL_USER;
               let s = upd_proc p (\<lambda>q. q\<lparr>p_pgdir := d, p_sz := PGSIZE,
                         p_tf := empty_frame\<lparr>tf_cs := push_bit 3 SEG_UCODE OR DPL_USER, tf_ds := ds, tf_es := ds, tf_ss := ds,
                           tf_eflags := FL_IF, tf_esp := PGSIZE, tf_eip := 0\<rparr>,
                         p_name := safestrcpy (p_name q) (map of_char ''initcode'' @ [0]) 16\<rparr>) (set_pages m s);
               (ip, x) \<leftarrow> namei drd [slash] (fs (kfs s));
               let s = upd_proc p (\<lambda>q. q\<lparr>p_cwd := ip\<rparr>) (s\<lparr>kfs := (kfs s)\<lparr>fs := x\<rparr>\<rparr>);
               Some (upd_proc p (\<lambda>q. q\<lparr>p_state := RUNNABLE\<rparr>) s)
             }
           })"

text \<open>Wake up all processes sleeping on \<open>chan\<close>.\<close>

definition wakeup1 :: "u32 \<Rightarrow> kern \<Rightarrow> kern" where
  "wakeup1 chan s = s\<lparr>procs := (\<lambda>p. if p < NPROC \<and> p_state (procs s p) = SLEEPING \<and> p_chan (procs s p) = chan
     then (procs s p)\<lparr>p_state := RUNNABLE\<rparr> else procs s p)\<rparr>"

definition xkill :: "int \<Rightarrow> kern \<Rightarrow> int \<times> kern" where
  "xkill pid s =
     (case find (\<lambda>p. p_pid (procs s p) = pid) [0..<NPROC] of
        None \<Rightarrow> (- 1, s)
      | Some p \<Rightarrow> (0, upd_proc p (\<lambda>q. q\<lparr>p_killed := True,
          p_state := (if p_state q = SLEEPING then RUNNABLE else p_state q)\<rparr>) s))"

definition growproc :: "u32 \<Rightarrow> nat \<Rightarrow> int \<Rightarrow> kern \<Rightarrow> (int \<times> kern) option" where
  "growproc kend cur n s = do {
     let sz = p_sz (procs s cur);
     let pgdir = p_pgdir (procs s cur);
     (sz', m) \<leftarrow> (if n > 0 then allocuvm kend pgdir sz (sz + word_of_int n) (pages (kfs s))
                  else if n < 0 then deallocuvm kend pgdir sz (sz + word_of_int n) (pages (kfs s))
                  else Some (sz, pages (kfs s)));
     let s = set_pages m s;
     if n \<noteq> 0 \<and> sz' = 0 then Some (- 1, s)
     else if p_kstack (procs s cur) = 0 \<or> pgdir = 0 then None
     else Some (0, upd_proc cur (\<lambda>q. q\<lparr>p_sz := sz'\<rparr>) s)
   }"

text \<open>The open files of the parent, given to the child.\<close>

fun dup_files :: "nat \<Rightarrow> nat \<Rightarrow> nat list \<Rightarrow> kern \<Rightarrow> kern option" where
  "dup_files cur np [] s = Some s"
| "dup_files cur np (i # is) s =
     (case p_ofile (procs s cur) i of
        None \<Rightarrow> dup_files cur np is s
      | Some f \<Rightarrow> do {
          (f', x) \<leftarrow> filedup f (kfs s);
          dup_files cur np is (upd_proc np (\<lambda>q. q\<lparr>p_ofile := (p_ofile q)(i := Some f')\<rparr>) (s\<lparr>kfs := x\<rparr>))
        })"

definition fork :: "u32 \<Rightarrow> u32 \<Rightarrow> nat \<Rightarrow> kern \<Rightarrow> (int \<times> kern) option" where
  "fork kend kdata cur s =
     (let (np, s) = allocproc s
      in case np of
           None \<Rightarrow> Some (- 1, s)
         | Some np \<Rightarrow> do {
             (d, m) \<leftarrow> copyuvm kend kdata (p_pgdir (procs s cur)) (p_sz (procs s cur)) (pages (kfs s));
             let s = upd_proc np (\<lambda>q. q\<lparr>p_pgdir := d\<rparr>) (set_pages m s);
             if d = 0 then do {
               m \<leftarrow> kfree kend (p_kstack (procs s np)) (pages (kfs s));
               Some (- 1, upd_proc np (\<lambda>q. q\<lparr>p_kstack := 0, p_state := UNUSED\<rparr>) (set_pages m s))
             } else do {
               let s = upd_proc np (\<lambda>q. q\<lparr>p_sz := p_sz (procs s cur), p_parent := Some cur,
                         p_tf := (p_tf (procs s cur))\<lparr>tf_eax := 0\<rparr>\<rparr>) s;
               s \<leftarrow> dup_files cur np [0..<NOFILE] s;
               (cwd', x) \<leftarrow> map_option (\<lambda>ip. idup ip (fs (kfs s))) (p_cwd (procs s cur));
               let s = upd_proc np (\<lambda>q. q\<lparr>p_cwd := Some cwd',
                         p_name := safestrcpy (p_name q) (p_name (procs s cur)) 16\<rparr>) (s\<lparr>kfs := (kfs s)\<lparr>fs := x\<rparr>\<rparr>);
               Some (p_pid (procs s np), upd_proc np (\<lambda>q. q\<lparr>p_state := RUNNABLE\<rparr>) s)
             }
           })"

fun close_files :: "(xfs \<Rightarrow> xfs) \<Rightarrow> u32 \<Rightarrow> nat \<Rightarrow> nat list \<Rightarrow> kern \<Rightarrow> kern option" where
  "close_files lenv kend cur [] s = Some s"
| "close_files lenv kend cur (fd # fds) s =
     (case p_ofile (procs s cur) fd of
        None \<Rightarrow> close_files lenv kend cur fds s
      | Some f \<Rightarrow> do {
          x \<leftarrow> fileclose lenv kend f (kfs s);
          close_files lenv kend cur fds (upd_proc cur (\<lambda>q. q\<lparr>p_ofile := (p_ofile q)(fd := None)\<rparr>) (s\<lparr>kfs := x\<rparr>))
        })"

text \<open>Channels are addresses; \<open>paddr\<close> gives that of a process.\<close>

definition reparent :: "(nat \<Rightarrow> u32) \<Rightarrow> nat \<Rightarrow> nat \<Rightarrow> kern \<Rightarrow> kern" where
  "reparent paddr cur p s =
     (if p_parent (procs s p) = Some cur then
        let s = upd_proc p (\<lambda>q. q\<lparr>p_parent := Some (initproc s)\<rparr>) s
        in if p_state (procs s p) = ZOMBIE then wakeup1 (paddr (initproc s)) s else s
      else s)"

text \<open>\<open>exit\<close> up to its call of \<open>sched\<close>, from which it must not come back.\<close>

definition xexit :: "(xfs \<Rightarrow> xfs) \<Rightarrow> u32 \<Rightarrow> (nat \<Rightarrow> u32) \<Rightarrow> nat \<Rightarrow> kern \<Rightarrow> kern option" where
  "xexit lenv kend paddr cur s =
     (if cur = initproc s then None
      else do {
        s \<leftarrow> close_files lenv kend cur [0..<NOFILE] s;
        x \<leftarrow> begin_op lenv (fs (kfs s));
        ip \<leftarrow> p_cwd (procs s cur);
        x \<leftarrow> iput ip x;
        x \<leftarrow> end_op x;
        let s = upd_proc cur (\<lambda>q. q\<lparr>p_cwd := None\<rparr>) (s\<lparr>kfs := (kfs s)\<lparr>fs := x\<rparr>\<rparr>);
        let s = (case p_parent (procs s cur) of None \<Rightarrow> wakeup1 0 s | Some q \<Rightarrow> wakeup1 (paddr q) s);
        let s = fold (reparent paddr cur) [0..<NPROC] s;
        Some (upd_proc cur (\<lambda>q. q\<lparr>p_state := ZOMBIE\<rparr>) s)
      })"

text \<open>One pass of \<open>wait\<close> over the table: a child that has exited is freed.\<close>

datatype wait_result = Reaped int | NoChild | KeepWaiting

definition wait_pass :: "u32 \<Rightarrow> nat \<Rightarrow> kern \<Rightarrow> (wait_result \<times> kern) option" where
  "wait_pass kend cur s =
     (case find (\<lambda>p. p_parent (procs s p) = Some cur \<and> p_state (procs s p) = ZOMBIE) [0..<NPROC] of
        Some p \<Rightarrow> do {
          m \<leftarrow> kfree kend (p_kstack (procs s p)) (pages (kfs s));
          m \<leftarrow> freevm kend (p_pgdir (procs s p)) m;
          Some (Reaped (p_pid (procs s p)),
            upd_proc p (\<lambda>q. q\<lparr>p_kstack := 0, p_pid := 0, p_parent := None, p_name := 0 # tl (p_name q), p_killed := False,
              p_state := UNUSED\<rparr>) (set_pages m s))
        }
      | None \<Rightarrow>
          if \<not> (\<exists>p \<in> set [0..<NPROC]. p_parent (procs s p) = Some cur) \<or> p_killed (procs s cur) then Some (NoChild, s)
          else Some (KeepWaiting, s))"

partial_function (option) xwait :: "(kern \<Rightarrow> kern) \<Rightarrow> u32 \<Rightarrow> nat \<Rightarrow> kern \<Rightarrow> (int \<times> kern) option" where
  "xwait env kend cur s =
     Option.bind (wait_pass kend cur s) (\<lambda>(r, s).
       case r of Reaped pid \<Rightarrow> Some (pid, s) | NoChild \<Rightarrow> Some (- 1, s) | KeepWaiting \<Rightarrow> xwait env kend cur (env s))"

section \<open>The scheduler\<close>

text \<open>The tests of the loop of \<open>scheduler\<close> on one process.\<close>

definition may_run :: "nat \<Rightarrow> nat \<Rightarrow> kern \<Rightarrow> bool" where
  "may_run c p s \<longleftrightarrow> p_state (procs s p) = RUNNABLE \<and>
     \<not> (allowed_cpu (procs s p) > - 1 \<and> allowed_cpu (procs s p) \<noteq> apicid (cpus s c))"

text \<open>
  From the label \<open>rerun\<close> to the switch.  The registers that \<open>switchuvm\<close> loads, and its checks that
  there are a kernel stack and a page directory, are not modelled.
\<close>

definition run_proc :: "nat \<Rightarrow> nat \<Rightarrow> kern \<Rightarrow> kern" where
  "run_proc c p s = upd_proc p (\<lambda>q. q\<lparr>p_state := RUNNING\<rparr>) (upd_cpu c (\<lambda>x. x\<lparr>cpu_proc := Some p\<rparr>) s)"

text \<open>What the scheduler does when \<open>sched\<close> has switched back to it.\<close>

definition sched_back :: "nat \<Rightarrow> nat \<Rightarrow> kern \<Rightarrow> kern" where
  "sched_back c p s =
     (if preempt_disable_count (cpus s c) > 0 then run_proc c p s
      else upd_cpu c (\<lambda>x. x\<lparr>cpu_proc := None\<rparr>) s)"

definition xyield :: "nat \<Rightarrow> nat \<Rightarrow> kern \<Rightarrow> kern" where
  "xyield c p s = sched_back c p (upd_proc p (\<lambda>q. q\<lparr>p_state := RUNNABLE\<rparr>) s)"

text \<open>\<open>sleep\<close> up to its switch to the scheduler, holding \<open>ptable.lock\<close>.\<close>

definition sleep :: "nat \<Rightarrow> nat \<Rightarrow> u32 \<Rightarrow> kern \<Rightarrow> kern" where
  "sleep c p chan s = sched_back c p (upd_proc p (\<lambda>q. q\<lparr>p_chan := chan, p_state := SLEEPING\<rparr>) s)"

text \<open>The end of \<open>sleep\<close>, when the process runs again.\<close>

definition woken :: "nat \<Rightarrow> kern \<Rightarrow> kern" where
  "woken p s = upd_proc p (\<lambda>q. q\<lparr>p_chan := 0\<rparr>) s"

text \<open>The end of \<open>exit\<close>: when the scheduler runs the process again it panics.\<close>

definition exit_sched :: "nat \<Rightarrow> nat \<Rightarrow> kern \<Rightarrow> kern option" where
  "exit_sched c p s =
     (let s = sched_back c p (upd_proc p (\<lambda>q. q\<lparr>p_state := ZOMBIE\<rparr>) s)
      in if p_state (procs s p) = RUNNING then None else Some s)"

section \<open>Read-copy-update\<close>

definition rcu_read_lock :: "nat \<Rightarrow> kern \<Rightarrow> kern" where
  "rcu_read_lock c s = upd_cpu c (\<lambda>x. x\<lparr>preempt_disable_count := preempt_disable_count x + 1\<rparr>) s"

definition rcu_read_unlock :: "nat \<Rightarrow> kern \<Rightarrow> kern" where
  "rcu_read_unlock c s = upd_cpu c (\<lambda>x. x\<lparr>preempt_disable_count := preempt_disable_count x - 1\<rparr>) s"

text \<open>
  Where a process is in \<open>call_rcu\<close>: at the test of the loop with its counter, or between the
  assignment of the affinity and the call of \<open>yield\<close>.
\<close>

datatype rcu_pc = Test nat | Yield nat

text \<open>One turn of \<open>call_rcu\<close> on CPU \<open>c\<close>; the end of the call has no program counter.\<close>

definition call_rcu_step :: "nat \<Rightarrow> nat \<Rightarrow> rcu_pc \<Rightarrow> kern \<Rightarrow> rcu_pc option \<times> kern" where
  "call_rcu_step c p pc s =
     (case pc of
        Test i \<Rightarrow>
          if i < ncpu s then (Some (Yield i), upd_proc p (\<lambda>q. q\<lparr>allowed_cpu := int i\<rparr>) s)
          else (None, upd_proc p (\<lambda>q. q\<lparr>allowed_cpu := - 1\<rparr>) s)
      | Yield i \<Rightarrow> (Some (Test (i + 1)), xyield c p s))"

end
