(* ===== verification/Xv6_Rcu.thy ===== *)
theory Xv6_Rcu
  imports Xv6_Proc
begin

text \<open>
  Read-copy-update on the xv6 scheduler: when \<open>call_rcu\<close> returns, every section that was open at the
  call has ended, in all interleavings of scheduling, clock ticks, sleeping, exits, sections and other
  calls; and three ways in which the scheduler defeats it.
\<close>

section \<open>Runs of the scheduler\<close>

definition preempt_off :: "kern \<Rightarrow> nat \<Rightarrow> bool" where
  "preempt_off s c \<longleftrightarrow> preempt_disable_count (cpus s c) > 0"

text \<open>
  The CPUs that a caller of \<open>call_rcu\<close> still has to see outside of a section: those that were in one
  when the call began, without those that have left it since.
\<close>

definition still :: "kern \<Rightarrow> (nat \<Rightarrow> nat set) \<Rightarrow> nat \<Rightarrow> nat set" where
  "still s old p = {c \<in> old p. preempt_off s c}"

text \<open>
  All interleavings of the CPUs: scheduling, clock ticks, sleeping and waking, exits, sections, and
  calls of \<open>call_rcu\<close> with their program counters.  A caller of \<open>call_rcu\<close> is not in a section itself.
  A process that does not run may also be changed by others, as \<open>fork\<close> and \<open>wait\<close> do.
\<close>

inductive rcu_run :: "kern \<Rightarrow> (nat \<Rightarrow> rcu_pc option) \<Rightarrow> (nat \<Rightarrow> nat set) \<Rightarrow> bool" where
  boot: "(\<forall>c < ncpu s. apicid (cpus s c) = int c \<and> cpu_proc (cpus s c) = None \<and> \<not> preempt_off s c) \<Longrightarrow>
    rcu_run s (\<lambda>_. None) (\<lambda>_. {})"
| pick: "rcu_run s pc old \<Longrightarrow> c < ncpu s \<Longrightarrow> cpu_proc (cpus s c) = None \<Longrightarrow> may_run c p s \<Longrightarrow> rcu_run (run_proc c p s) pc old"
| tick: "rcu_run s pc old \<Longrightarrow> c < ncpu s \<Longrightarrow> cpu_proc (cpus s c) = Some p \<Longrightarrow> rcu_run (xyield c p s) pc old"
| sleeps: "rcu_run s pc old \<Longrightarrow> c < ncpu s \<Longrightarrow> cpu_proc (cpus s c) = Some p \<Longrightarrow> pc p = None \<Longrightarrow> rcu_run (sleep c p chan s) pc old"
| wakes: "rcu_run s pc old \<Longrightarrow> rcu_run (woken p s) pc old"
| exits: "rcu_run s pc old \<Longrightarrow> c < ncpu s \<Longrightarrow> cpu_proc (cpus s c) = Some p \<Longrightarrow> pc p = None \<Longrightarrow> exit_sched c p s = Some s' \<Longrightarrow>
    rcu_run s' pc old"
| wake: "rcu_run s pc old \<Longrightarrow> rcu_run (wakeup1 chan s) pc old"
| kill: "rcu_run s pc old \<Longrightarrow> rcu_run (snd (xkill pid s)) pc old"
| change: "rcu_run s pc old \<Longrightarrow> p_state (procs s p) \<noteq> RUNNING \<Longrightarrow> pc p = None \<Longrightarrow> p_state q \<noteq> RUNNING \<Longrightarrow>
    rcu_run (upd_proc p (\<lambda>_. q) s) pc old"
| read_lock: "rcu_run s pc old \<Longrightarrow> c < ncpu s \<Longrightarrow> cpu_proc (cpus s c) = Some p \<Longrightarrow> pc p = None \<Longrightarrow>
    s' = rcu_read_lock c s \<Longrightarrow> rcu_run s' pc (still s' old)"
| read_unlock: "rcu_run s pc old \<Longrightarrow> c < ncpu s \<Longrightarrow> cpu_proc (cpus s c) = Some p \<Longrightarrow> pc p = None \<Longrightarrow>
    s' = rcu_read_unlock c s \<Longrightarrow> rcu_run s' pc (still s' old)"
| call: "rcu_run s pc old \<Longrightarrow> c < ncpu s \<Longrightarrow> cpu_proc (cpus s c) = Some p \<Longrightarrow> pc p = None \<Longrightarrow> \<not> preempt_off s c \<Longrightarrow>
    rcu_run s (pc(p := Some (Test 0))) (old(p := {d. d < ncpu s \<and> preempt_off s d}))"
| turn: "rcu_run s pc old \<Longrightarrow> c < ncpu s \<Longrightarrow> cpu_proc (cpus s c) = Some p \<Longrightarrow> pc p = Some x \<Longrightarrow>
    call_rcu_step c p x s = (x', s') \<Longrightarrow> rcu_run s' (pc(p := x')) old"

section \<open>The invariant\<close>

text \<open>
  CPUs: an idle CPU is in no section, a process runs on one CPU at most, and a caller of
  \<open>call_rcu\<close> is in no section.
\<close>

definition cpu_ok :: "kern \<Rightarrow> (nat \<Rightarrow> rcu_pc option) \<Rightarrow> nat \<Rightarrow> bool" where
  "cpu_ok s pc c \<longleftrightarrow> apicid (cpus s c) = int c \<and>
     (case cpu_proc (cpus s c) of
        None \<Rightarrow> \<not> preempt_off s c
      | Some p \<Rightarrow> p_state (procs s p) = RUNNING \<and> (pc p \<noteq> None \<longrightarrow> \<not> preempt_off s c) \<and>
          (\<forall>d < ncpu s. cpu_proc (cpus s d) = Some p \<longrightarrow> d = c))"

definition cpus_ok :: "kern \<Rightarrow> (nat \<Rightarrow> rcu_pc option) \<Rightarrow> bool" where
  "cpus_ok s pc \<longleftrightarrow> (\<forall>c < ncpu s. cpu_ok s pc c)"

text \<open>
  Callers: with counter \<open>i\<close> at the test of the loop the caller has been on CPU \<open>i - 1\<close> if it runs,
  and will be when it runs next otherwise; the CPUs before have all been seen.
\<close>

definition caller_ok :: "kern \<Rightarrow> nat set \<Rightarrow> proc \<Rightarrow> rcu_pc \<Rightarrow> bool" where
  "caller_ok s cs q x = (case x of
     Test i \<Rightarrow> i \<le> ncpu s \<and> cs \<subseteq> {i - 1..<ncpu s} \<and> (p_state q = RUNNING \<longrightarrow> cs \<subseteq> {i..<ncpu s}) \<and>
       (0 < i \<longrightarrow> allowed_cpu q = int (i - 1))
   | Yield i \<Rightarrow> i < ncpu s \<and> cs \<subseteq> {i..<ncpu s} \<and> allowed_cpu q = int i)"

definition callers_ok :: "kern \<Rightarrow> (nat \<Rightarrow> rcu_pc option) \<Rightarrow> (nat \<Rightarrow> nat set) \<Rightarrow> bool" where
  "callers_ok s pc old \<longleftrightarrow> (\<forall>p x. pc p = Some x \<longrightarrow> caller_ok s (old p) (procs s p) x \<and> (\<forall>c \<in> old p. preempt_off s c))"

lemma op_simps [simp]:
  "procs (upd_proc p f s) = (procs s)(p := f (procs s p))" "cpus (upd_proc p f s) = cpus s" "ncpu (upd_proc p f s) = ncpu s"
  "procs (upd_cpu c g s) = procs s" "cpus (upd_cpu c g s) = (cpus s)(c := g (cpus s c))" "ncpu (upd_cpu c g s) = ncpu s"
  "preempt_off (upd_proc p f s) d = preempt_off s d"
  by (simp_all add: upd_proc_def upd_cpu_def preempt_off_def)

lemma run_proc_simps [simp]:
  "procs (run_proc c p s) = (procs s)(p := (procs s p)\<lparr>p_state := RUNNING\<rparr>)"
  "cpus (run_proc c p s) = (cpus s)(c := (cpus s c)\<lparr>cpu_proc := Some p\<rparr>)" "ncpu (run_proc c p s) = ncpu s"
  "preempt_off (run_proc c p s) d = preempt_off s d"
  by (simp_all add: run_proc_def preempt_off_def)

text \<open>Coming back to the scheduler, on a CPU in a section and on one that is in none.\<close>

lemma sched_back_simps:
  "preempt_off s c \<Longrightarrow> sched_back c p s = run_proc c p s"
  "\<not> preempt_off s c \<Longrightarrow> sched_back c p s = upd_cpu c (\<lambda>x. x\<lparr>cpu_proc := None\<rparr>) s"
  by (simp_all add: sched_back_def preempt_off_def)

lemma cpus_okD:
  assumes "cpus_ok s pc" "c < ncpu s"
  shows "apicid (cpus s c) = int c" "cpu_proc (cpus s c) = None \<Longrightarrow> \<not> preempt_off s c"
    "cpu_proc (cpus s c) = Some p \<Longrightarrow> p_state (procs s p) = RUNNING"
    "cpu_proc (cpus s c) = Some p \<Longrightarrow> pc p \<noteq> None \<Longrightarrow> \<not> preempt_off s c"
    "cpu_proc (cpus s c) = Some p \<Longrightarrow> d < ncpu s \<Longrightarrow> cpu_proc (cpus s d) = Some p \<Longrightarrow> d = c"
proof -
  have "cpu_ok s pc c" using assms by (simp add: cpus_ok_def)
  note ok = this [unfolded cpu_ok_def]
  show "apicid (cpus s c) = int c" using ok by simp
  show "cpu_proc (cpus s c) = None \<Longrightarrow> \<not> preempt_off s c" using ok by simp
  show "cpu_proc (cpus s c) = Some p \<Longrightarrow> p_state (procs s p) = RUNNING" using ok by simp
  show "cpu_proc (cpus s c) = Some p \<Longrightarrow> pc p \<noteq> None \<Longrightarrow> \<not> preempt_off s c" using ok by simp
  show "cpu_proc (cpus s c) = Some p \<Longrightarrow> d < ncpu s \<Longrightarrow> cpu_proc (cpus s d) = Some p \<Longrightarrow> d = c" using ok by simp
qed

lemma cpus_okI:
  assumes "\<And>c. c < ncpu s \<Longrightarrow> apicid (cpus s c) = int c"
    and "\<And>c. c < ncpu s \<Longrightarrow> cpu_proc (cpus s c) = None \<Longrightarrow> \<not> preempt_off s c"
    and "\<And>c p. c < ncpu s \<Longrightarrow> cpu_proc (cpus s c) = Some p \<Longrightarrow> p_state (procs s p) = RUNNING"
    and "\<And>c p. c < ncpu s \<Longrightarrow> cpu_proc (cpus s c) = Some p \<Longrightarrow> pc p \<noteq> None \<Longrightarrow> \<not> preempt_off s c"
    and "\<And>c d p. c < ncpu s \<Longrightarrow> cpu_proc (cpus s c) = Some p \<Longrightarrow> d < ncpu s \<Longrightarrow> cpu_proc (cpus s d) = Some p \<Longrightarrow> d = c"
  shows "cpus_ok s pc"
  unfolding cpus_ok_def
proof (intro allI impI)
  fix c assume c: "c < ncpu s"
  show "cpu_ok s pc c"
  proof (cases "cpu_proc (cpus s c)")
    case None
    then show ?thesis using assms(1,2) [OF c] by (simp add: cpu_ok_def)
  next
    case (Some p)
    have "\<forall>d < ncpu s. cpu_proc (cpus s d) = Some p \<longrightarrow> d = c" using assms(5) [OF c Some] by blast
    then show ?thesis using Some assms(1) [OF c] assms(3,4) [OF c Some] by (simp add: cpu_ok_def)
  qed
qed

section \<open>Keeping the invariant\<close>

lemma cpus_ok_run:
  assumes ok: "cpus_ok s pc" and c: "c < ncpu s" "cpu_proc (cpus s c) = None" and p: "p_state (procs s p) \<noteq> RUNNING"
  shows "cpus_ok (run_proc c p s) pc"
proof (rule cpus_okI)
  have off: "cpu_proc (cpus s d) \<noteq> Some p" if "d < ncpu s" for d using cpus_okD(3) [OF ok that] p by blast
  note n = cpus_okD(2) [OF ok c]
  fix d q assume d: "d < ncpu (run_proc c p s)"
  then have d': "d < ncpu s" by simp
  show "apicid (cpus (run_proc c p s) d) = int d" using cpus_okD(1) [OF ok d'] cpus_okD(1) [OF ok c(1)] by simp
  show "cpu_proc (cpus (run_proc c p s) d) = None \<Longrightarrow> \<not> preempt_off (run_proc c p s) d"
    using cpus_okD(2) [OF ok d'] by (simp split: if_splits)
  assume q: "cpu_proc (cpus (run_proc c p s) d) = Some q"
  show "p_state (procs (run_proc c p s) q) = RUNNING" using cpus_okD(3) [OF ok d', of q] q by (simp split: if_splits)
  show "pc q \<noteq> None \<Longrightarrow> \<not> preempt_off (run_proc c p s) d"
    using cpus_okD(4) [OF ok d', of q] q n by (simp split: if_splits)
  show "e = d" if "e < ncpu (run_proc c p s)" "cpu_proc (cpus (run_proc c p s) e) = Some q" for e
    using that q off [of d] off [of e] d' cpus_okD(5) [OF ok d', of q e] by (auto split: if_splits)
qed

lemma cpus_ok_leave:
  assumes ok: "cpus_ok s pc" and c: "c < ncpu s" "cpu_proc (cpus s c) = Some p" "\<not> preempt_off s c" and q: "f (procs s p) = q"
  shows "cpus_ok (upd_cpu c (\<lambda>x. x\<lparr>cpu_proc := None\<rparr>) (upd_proc p f s)) pc" (is "cpus_ok ?s pc")
proof (rule cpus_okI)
  have po: "preempt_off ?s d = preempt_off s d" for d by (simp add: preempt_off_def)
  fix d r assume "d < ncpu ?s"
  then have d: "d < ncpu s" by simp
  show "apicid (cpus ?s d) = int d" using cpus_okD(1) [OF ok d] cpus_okD(1) [OF ok c(1)] by simp
  show "cpu_proc (cpus ?s d) = None \<Longrightarrow> \<not> preempt_off ?s d" using cpus_okD(2) [OF ok d] c(3) po by (auto split: if_splits)
  assume r: "cpu_proc (cpus ?s d) = Some r"
  then have r': "d \<noteq> c" "cpu_proc (cpus s d) = Some r" by (auto split: if_splits)
  then have "r \<noteq> p" using cpus_okD(5) [OF ok c(1,2) d] by blast
  then show "p_state (procs ?s r) = RUNNING" using cpus_okD(3) [OF ok d r'(2)] by simp
  show "pc r \<noteq> None \<Longrightarrow> \<not> preempt_off ?s d" using cpus_okD(4) [OF ok d r'(2)] po by simp
  show "e = d" if "e < ncpu ?s" "cpu_proc (cpus ?s e) = Some r" for e
    using that cpus_okD(5) [OF ok d r'(2)] by (simp split: if_splits)
qed


lemma cpus_ok_frame:
  assumes ok: "cpus_ok s pc" and s': "cpus s' = cpus s" "ncpu s' = ncpu s"
    and r: "\<And>p. p_state (procs s p) = RUNNING \<Longrightarrow> p_state (procs s' p) = RUNNING"
    and pc: "\<And>c p. c < ncpu s \<Longrightarrow> cpu_proc (cpus s c) = Some p \<Longrightarrow> pc' p \<noteq> None \<Longrightarrow> \<not> preempt_off s c"
  shows "cpus_ok s' pc'"
proof (rule cpus_okI)
  have po: "preempt_off s' d = preempt_off s d" for d using s' by (simp add: preempt_off_def)
  fix d q assume "d < ncpu s'"
  then have d: "d < ncpu s" using s' by simp
  show "apicid (cpus s' d) = int d" using cpus_okD(1) [OF ok d] s' by simp
  show "cpu_proc (cpus s' d) = None \<Longrightarrow> \<not> preempt_off s' d" using cpus_okD(2) [OF ok d] s' po by simp
  assume q: "cpu_proc (cpus s' d) = Some q"
  show "p_state (procs s' q) = RUNNING" using cpus_okD(3) [OF ok d] r q s' by simp
  show "pc' q \<noteq> None \<Longrightarrow> \<not> preempt_off s' d" using pc [OF d] q s' po by simp
  show "e = d" if "e < ncpu s'" "cpu_proc (cpus s' e) = Some q" for e
    using that q cpus_okD(5) [OF ok d] s' by simp
qed

lemma cpus_ok_count:
  assumes ok: "cpus_ok s pc" and c: "c < ncpu s" "cpu_proc (cpus s c) = Some p" "pc p = None"
  shows "cpus_ok (upd_cpu c (\<lambda>x. x\<lparr>preempt_disable_count := n\<rparr>) s) pc" (is "cpus_ok ?s pc")
proof (rule cpus_okI)
  have po: "d \<noteq> c \<Longrightarrow> preempt_off ?s d = preempt_off s d" for d by (simp add: preempt_off_def)
  have pr: "cpu_proc (cpus ?s d) = cpu_proc (cpus s d)" for d by simp
  fix d q assume "d < ncpu ?s"
  then have d: "d < ncpu s" by simp
  show "apicid (cpus ?s d) = int d" using cpus_okD(1) [OF ok d] cpus_okD(1) [OF ok c(1)] by simp
  show "cpu_proc (cpus ?s d) = None \<Longrightarrow> \<not> preempt_off ?s d"
    using cpus_okD(2) [OF ok d] c po [of d] pr by (cases "d = c") simp_all
  assume q: "cpu_proc (cpus ?s d) = Some q"
  show "p_state (procs ?s q) = RUNNING" using cpus_okD(3) [OF ok d, of q] q pr by simp
  show "pc q \<noteq> None \<Longrightarrow> \<not> preempt_off ?s d"
    using cpus_okD(4) [OF ok d, of q] q c po [of d] pr by (cases "d = c") simp_all
  show "e = d" if "e < ncpu ?s" "cpu_proc (cpus ?s e) = Some q" for e
    using that q cpus_okD(5) [OF ok d, of q e] pr by simp
qed

lemma callers_okD:
  assumes "callers_ok s pc old" "pc p = Some x"
  shows "caller_ok s (old p) (procs s p) x" "c \<in> old p \<Longrightarrow> preempt_off s c"
  using assms unfolding callers_ok_def by blast+

lemma callers_ok_frame:
  assumes ok: "callers_ok s pc old" and s': "ncpu s' = ncpu s" "\<And>c. preempt_off s' c = preempt_off s c"
    and q: "\<And>p x. pc p = Some x \<Longrightarrow> (p_state (procs s' p) = RUNNING \<longrightarrow> p_state (procs s p) = RUNNING) \<and>
      allowed_cpu (procs s' p) = allowed_cpu (procs s p)"
  shows "callers_ok s' pc old"
  unfolding callers_ok_def
proof (intro allI impI)
  fix p x assume x: "pc p = Some x"
  show "caller_ok s' (old p) (procs s' p) x \<and> (\<forall>c \<in> old p. preempt_off s' c)"
    using callers_okD [OF ok x] q [OF x] s' by (cases x) (simp_all add: caller_ok_def)
qed

text \<open>A caller that is picked runs on the CPU that it asked for, which is in no section.\<close>

lemma callers_ok_run:
  assumes cp: "cpus_ok s pc" and ok: "callers_ok s pc old" and c: "c < ncpu s" "cpu_proc (cpus s c) = None" and p: "may_run c p s"
  shows "callers_ok (run_proc c p s) pc old"
  unfolding callers_ok_def
proof (intro allI impI)
  fix q x assume x: "pc q = Some x"
  note o = callers_okD [OF ok x]
  have idle: "c \<notin> old q" using cpus_okD(2) [OF cp c] o(2) by blast
  have "caller_ok (run_proc c p s) (old q) (procs (run_proc c p s) q) x"
  proof (cases "q = p")
    case True
    have "old q \<subseteq> {i..<ncpu s}" if i: "x = Test i" for i
    proof (cases "i = 0")
      case False
      then have "allowed_cpu (procs s p) = int (i - 1)" "old q \<subseteq> {i - 1..<ncpu s}"
        using o(1) i True by (simp_all add: caller_ok_def)
      moreover from this have "i - 1 = c" using p cpus_okD(1) [OF cp c(1)] by (simp add: may_run_def)
      ultimately show ?thesis using idle False by (auto simp: subset_iff) (metis Suc_pred le_antisym not_less_eq_eq gr0I)
    qed (use o(1) i in \<open>simp add: caller_ok_def\<close>)
    then show ?thesis using o(1) True by (cases x) (auto simp: caller_ok_def)
  qed (use o(1) in \<open>cases x; simp add: caller_ok_def\<close>)
  then show "caller_ok (run_proc c p s) (old q) (procs (run_proc c p s) q) x \<and> (\<forall>d \<in> old q. preempt_off (run_proc c p s) d)"
    using o(2) by simp
qed

definition rcu_inv :: "kern \<Rightarrow> (nat \<Rightarrow> rcu_pc option) \<Rightarrow> (nat \<Rightarrow> nat set) \<Rightarrow> bool" where
  "rcu_inv s pc old \<longleftrightarrow> cpus_ok s pc \<and> callers_ok s pc old"

text \<open>A process that comes back to the scheduler, whatever the state it has given itself.\<close>

lemma rcu_inv_back:
  assumes ok: "rcu_inv s pc old" and c: "c < ncpu s" "cpu_proc (cpus s c) = Some p"
    and f: "allowed_cpu (f (procs s p)) = allowed_cpu (procs s p)" "p_state (f (procs s p)) \<noteq> RUNNING"
  shows "rcu_inv (sched_back c p (upd_proc p f s)) pc old"
proof (cases "preempt_off s c")
  case True
  then have s': "sched_back c p (upd_proc p f s) = run_proc c p (upd_proc p f s)" (is "_ = ?s")
    by (simp add: sched_back_simps)
  note cp = conjunct1 [OF ok [unfolded rcu_inv_def]] and ca = conjunct2 [OF ok [unfolded rcu_inv_def]]
  have pc: "pc p = None" using cpus_okD(4) [OF cp c] True by blast
  have cs: "cpus ?s = cpus s" using c by (simp add: fun_upd_idem)
  have "cpus_ok ?s pc" by (rule cpus_ok_frame [OF cp cs]) (use cpus_okD(4) [OF cp] in simp_all)
  moreover have "callers_ok ?s pc old" by (rule callers_ok_frame [OF ca]) (use pc in auto)
  ultimately show ?thesis using s' by (simp add: rcu_inv_def)
next
  case False
  then have s': "sched_back c p (upd_proc p f s) = upd_cpu c (\<lambda>x. x\<lparr>cpu_proc := None\<rparr>) (upd_proc p f s)" (is "_ = ?s")
    by (simp add: sched_back_simps)
  have "cpus_ok ?s pc" by (rule cpus_ok_leave [OF _ c False refl]) (use ok in \<open>simp add: rcu_inv_def\<close>)
  moreover have "callers_ok ?s pc old"
    by (rule callers_ok_frame [of s]) (use ok f in \<open>auto simp: rcu_inv_def preempt_off_def\<close>)
  ultimately show ?thesis using s' by (simp add: rcu_inv_def)
qed

text \<open>Others changing what they may of processes.\<close>

lemma rcu_inv_procs:
  assumes ok: "rcu_inv s pc old" and s': "cpus s' = cpus s" "ncpu s' = ncpu s"
    and r: "\<And>p. p_state (procs s' p) = RUNNING \<longleftrightarrow> p_state (procs s p) = RUNNING"
    and a: "\<And>p x. pc p = Some x \<Longrightarrow> allowed_cpu (procs s' p) = allowed_cpu (procs s p)"
  shows "rcu_inv s' pc old"
proof -
  note cp = conjunct1 [OF ok [unfolded rcu_inv_def]] and ca = conjunct2 [OF ok [unfolded rcu_inv_def]]
  have "cpus_ok s' pc" by (rule cpus_ok_frame [OF cp s']) (use r cpus_okD(4) [OF cp] in simp_all)
  moreover have "callers_ok s' pc old"
    by (rule callers_ok_frame [OF ca]) (use s' r a in \<open>simp_all add: preempt_off_def\<close>)
  ultimately show ?thesis by (simp add: rcu_inv_def)
qed

text \<open>Entering and leaving a section.\<close>

lemma rcu_inv_count:
  assumes ok: "rcu_inv s pc old" and c: "c < ncpu s" "cpu_proc (cpus s c) = Some p" "pc p = None"
    and s': "s' = upd_cpu c (\<lambda>x. x\<lparr>preempt_disable_count := n\<rparr>) s"
  shows "rcu_inv s' pc (still s' old)"
proof -
  note cp = conjunct1 [OF ok [unfolded rcu_inv_def]] and ca = conjunct2 [OF ok [unfolded rcu_inv_def]]
  have "callers_ok s' pc (still s' old)" unfolding callers_ok_def
  proof (intro allI impI)
    fix q x assume "pc q = Some x"
    note o = callers_okD(1) [OF ca this]
    have "still s' old q \<subseteq> old q" by (auto simp: still_def)
    then have "caller_ok s' (still s' old q) (procs s' q) x"
      using o s' by (cases x) (auto simp: caller_ok_def)
    then show "caller_ok s' (still s' old q) (procs s' q) x \<and> (\<forall>c \<in> still s' old q. preempt_off s' c)"
      by (simp add: still_def)
  qed
  then show ?thesis using cpus_ok_count [OF cp c, of n] s' by (simp add: rcu_inv_def)
qed

text \<open>Calling \<open>call_rcu\<close> and its turns.\<close>

lemma rcu_inv_call:
  assumes ok: "rcu_inv s pc old" and c: "c < ncpu s" "cpu_proc (cpus s c) = Some p" "\<not> preempt_off s c"
  shows "rcu_inv s (pc(p := Some (Test 0))) (old(p := {d. d < ncpu s \<and> preempt_off s d}))"
proof -
  note cp = conjunct1 [OF ok [unfolded rcu_inv_def]] and ca = conjunct2 [OF ok [unfolded rcu_inv_def]]
  have "cpus_ok s (pc(p := Some (Test 0)))"
  proof (rule cpus_ok_frame [OF cp])
    fix d q assume d: "d < ncpu s" "cpu_proc (cpus s d) = Some q" "(pc(p := Some (Test 0))) q \<noteq> None"
    show "\<not> preempt_off s d"
      using d c(3) cpus_okD(4) [OF cp d(1,2)] cpus_okD(5) [OF cp c(1,2) d(1)] by (cases "q = p") auto
  qed simp_all
  moreover have "callers_ok s (pc(p := Some (Test 0))) (old(p := {d. d < ncpu s \<and> preempt_off s d}))"
    using ca by (auto simp: callers_ok_def caller_ok_def [of _ "Collect _"])
  ultimately show ?thesis by (simp add: rcu_inv_def)
qed

lemma callers_ok_caller:
  assumes ok: "callers_ok s pc old" and x: "pc p = Some x"
    and s': "ncpu s' = ncpu s" "\<And>d. preempt_off s' d = preempt_off s d" "\<And>q. q \<noteq> p \<Longrightarrow> procs s' q = procs s q"
    and p: "\<And>y. x' = Some y \<Longrightarrow> caller_ok s (old p) (procs s' p) y"
  shows "callers_ok s' (pc(p := x')) old"
  unfolding callers_ok_def
proof (intro allI impI)
  fix q y assume y: "(pc(p := x')) q = Some y"
  have n: "caller_ok s' cs r y = caller_ok s cs r y" for cs r by (cases y) (simp_all add: caller_ok_def s'(1))
  show "caller_ok s' (old q) (procs s' q) y \<and> (\<forall>d \<in> old q. preempt_off s' d)"
  proof (cases "q = p")
    case True
    then show ?thesis using y p callers_okD(2) [OF ok x] n s' by simp
  next
    case False
    then have "pc q = Some y" using y by simp
    from callers_okD [OF ok this] show ?thesis using False n s' by simp
  qed
qed

lemma rcu_inv_turn:
  assumes ok: "rcu_inv s pc old" and c: "c < ncpu s" "cpu_proc (cpus s c) = Some p" and x: "pc p = Some x"
    and s': "call_rcu_step c p x s = (x', s')"
  shows "rcu_inv s' (pc(p := x')) old"
proof -
  note cp = conjunct1 [OF ok [unfolded rcu_inv_def]] and ca = conjunct2 [OF ok [unfolded rcu_inv_def]]
  note o = callers_okD [OF ca x]
  have run: "p_state (procs s p) = RUNNING" by (rule cpus_okD(3) [OF cp c])
  have off: "\<not> preempt_off s c" using cpus_okD(4) [OF cp c] x by simp
  have cps: "cpus_ok s (pc(p := x'))"
  proof (rule cpus_ok_frame [OF cp])
    fix d q assume d: "d < ncpu s" "cpu_proc (cpus s d) = Some q" "(pc(p := x')) q \<noteq> None"
    show "\<not> preempt_off s d" using d(3) x cpus_okD(4) [OF cp d(1,2)] by (cases "q = p") auto
  qed simp_all
  show ?thesis
  proof (cases x)
    case (Test i)
    let ?s = "upd_proc p (\<lambda>q. q\<lparr>allowed_cpu := if i < ncpu s then int i else - 1\<rparr>) s"
    have e: "s' = ?s" "x' = (if i < ncpu s then Some (Yield i) else None)"
      using s' Test by (auto simp: call_rcu_step_def split: if_splits)
    have "cpus_ok ?s (pc(p := x'))" by (rule cpus_ok_frame [OF cps]) (use cpus_okD(4) [OF cps] in auto)
    moreover have "callers_ok ?s (pc(p := x')) old"
      by (rule callers_ok_caller [OF ca x]) (use e o(1) Test run in \<open>auto simp: caller_ok_def split: if_splits\<close>)
    ultimately show ?thesis using e by (simp add: rcu_inv_def)
  next
    case (Yield i)
    then have e: "s' = xyield c p s" "x' = Some (Test (i + 1))" using s' by (auto simp: call_rcu_step_def)
    let ?s = "upd_cpu c (\<lambda>x. x\<lparr>cpu_proc := None\<rparr>) (upd_proc p (\<lambda>q. q\<lparr>p_state := RUNNABLE\<rparr>) s)"
    have s1: "s' = ?s" using e off by (simp add: xyield_def sched_back_simps)
    have "callers_ok ?s (pc(p := x')) old"
      by (rule callers_ok_caller [OF ca x]) (use e o(1) Yield in \<open>auto simp: caller_ok_def preempt_off_def\<close>)
    then show ?thesis using s1 cpus_ok_leave [OF cps c off refl] by (simp add: rcu_inv_def)
  qed
qed

theorem rcu_run_inv: "rcu_run s pc old \<Longrightarrow> rcu_inv s pc old"
proof (induction rule: rcu_run.induct)
  case (boot s)
  then show ?case by (auto simp: rcu_inv_def callers_ok_def cpus_ok_def cpu_ok_def)
next
  case (pick s pc old c p)
  then show ?case using cpus_ok_run callers_ok_run by (simp add: rcu_inv_def may_run_def)
next
  case (tick s pc old c p)
  then show ?case by (simp add: xyield_def rcu_inv_back)
next
  case (sleeps s pc old c p chan)
  then show ?case by (simp add: sleep_def rcu_inv_back)
next
  case (wakes s pc old p)
  show ?case by (rule rcu_inv_procs [OF wakes.IH]) (auto simp: woken_def)
next
  case (exits s pc old c p s')
  then show ?case using rcu_inv_back [OF exits.IH exits.hyps(2,3), of "\<lambda>q. q\<lparr>p_state := ZOMBIE\<rparr>"]
    by (auto simp: exit_sched_def Let_def split: if_splits)
next
  case (wake s pc old chan)
  show ?case by (rule rcu_inv_procs [OF wake.IH]) (auto simp: wakeup1_def)
next
  case (kill s pc old pid)
  show ?case by (rule rcu_inv_procs [OF kill.IH]) (auto simp: xkill_def Let_def split: option.splits)
next
  case (change s pc old p q)
  show ?case by (rule rcu_inv_procs [OF change.IH]) (use change.hyps in auto)
next
  case (read_lock s pc old c p s')
  show ?case
    by (rule rcu_inv_count [OF read_lock.IH read_lock.hyps(2-4)]) (simp add: read_lock.hyps(5) rcu_read_lock_def upd_cpu_def)
next
  case (read_unlock s pc old c p s')
  show ?case
    by (rule rcu_inv_count [OF read_unlock.IH read_unlock.hyps(2-4)]) (simp add: read_unlock.hyps(5) rcu_read_unlock_def upd_cpu_def)
next
  case (call s pc old c p)
  then show ?case by (intro rcu_inv_call)
next
  case (turn s pc old c p x x' s')
  then show ?case by (intro rcu_inv_turn)
qed

text \<open>
  When \<open>call_rcu\<close> returns, every CPU that was in a section at the call has left it since.
\<close>

lemma call_rcu_grace:
  assumes run: "rcu_run s pc old" and c: "c < ncpu s" "cpu_proc (cpus s c) = Some p" and x: "pc p = Some x"
    and s': "call_rcu_step c p x s = (None, s')"
  shows "old p = {}"
proof -
  have inv: "cpus_ok s pc" "callers_ok s pc old" using rcu_run_inv [OF run] by (simp_all add: rcu_inv_def)
  obtain i where i: "x = Test i" "ncpu s \<le> i" using s' by (auto simp: call_rcu_step_def split: rcu_pc.splits if_splits)
  then have "old p \<subseteq> {i..<ncpu s}"
    using callers_okD(1) [OF inv(2) x] cpus_okD(3) [OF inv(1) c] by (simp add: caller_ok_def)
  then show ?thesis using i by auto
qed

section \<open>Where the scheduler goes wrong\<close>

text \<open>
  \<open>call_rcu\<close> counts CPUs and the scheduler compares the count with the number of the interrupt
  controller.  Where no CPU has that number the caller is left runnable and no CPU may run it.
\<close>

lemma upd_proc_upd: "upd_proc p f (upd_proc p g s) = upd_proc p (\<lambda>q. f (g q)) s"
  by (simp add: upd_proc_def)

lemma call_rcu_strands:
  assumes "cpu_proc (cpus s c) = Some p" "\<not> preempt_off s c" "i < ncpu s" "\<forall>d < ncpu s. apicid (cpus s d) \<noteq> int i"
    and "call_rcu_step c p (Test i) s = (Some x, s')" "call_rcu_step c p x s' = (y, s'')"
  shows "p_state (procs s'' p) = RUNNABLE" "\<forall>d < ncpu s''. \<not> may_run d p s''"
proof -
  have e: "s'' = upd_cpu c (\<lambda>x. x\<lparr>cpu_proc := None\<rparr>) (upd_proc p (\<lambda>q. q\<lparr>allowed_cpu := int i, p_state := RUNNABLE\<rparr>) s)"
    using assms by (auto simp: call_rcu_step_def xyield_def sched_back_simps upd_proc_upd)
  show "p_state (procs s'' p) = RUNNABLE" by (simp add: e)
  show "\<forall>d < ncpu s''. \<not> may_run d p s''"
  proof (intro allI impI)
    fix d assume "d < ncpu s''"
    then have "apicid (cpus s d) \<noteq> int i" using assms(4) by (simp add: e)
    then show "\<not> may_run d p s''" by (auto simp: e may_run_def split: if_splits)
  qed
qed

text \<open>A process that exits inside of a section is run again and panics.\<close>

lemma exit_in_section_panics: "preempt_off s c \<Longrightarrow> exit_sched c p s = None"
  by (simp add: exit_sched_def sched_back_simps Let_def)

text \<open>A caller inside of a section of its own stays on its CPU: the call waits for nobody.\<close>

lemma call_rcu_in_section_stays:
  assumes "cpu_proc (cpus s c) = Some p" "preempt_off s c"
  shows "cpu_proc (cpus (snd (call_rcu_step c p x s)) c) = Some p" "ncpu (snd (call_rcu_step c p x s)) = ncpu s"
    "preempt_off (snd (call_rcu_step c p x s)) c"
  using assms by (auto simp: call_rcu_step_def xyield_def sched_back_simps split: rcu_pc.splits)

end
