(* ===== verification/Xv6_Pipe.thy ===== *)
theory Xv6_Pipe
  imports Xv6_File
begin

text \<open>
  A pipe is a queue of bytes of bounded length: what a writer adds and a reader takes, through the
  two wrapping counters, and while the other side of the pipe goes on between two copies.
\<close>

section \<open>A pipe as a queue of bytes\<close>

text \<open>
  The bytes in a pipe, oldest first.  The counters are never reduced; they wrap, which does no harm
  as the size of the buffer divides the number of their values.
\<close>

definition pipe_len :: "pipe \<Rightarrow> nat" where
  "pipe_len p = unat (nwrite p - nread p)"

definition pipe_bytes :: "pipe \<Rightarrow> u8 list" where
  "pipe_bytes p = map (\<lambda>i. p_data p ((unat (nread p) + i) mod PIPESIZE)) [0..<pipe_len p]"

definition pipe_inv :: "pipe \<Rightarrow> bool" where
  "pipe_inv p \<longleftrightarrow> pipe_len p \<le> PIPESIZE"

lemma length_pipe_bytes [simp]: "length (pipe_bytes p) = pipe_len p"
  by (simp add: pipe_bytes_def)

lemma pipe_full_iff: "pipe_full p \<longleftrightarrow> pipe_len p = PIPESIZE"
proof -
  have "nwrite p - nread p = 512 \<longleftrightarrow> unat (nwrite p - nread p) = 512" by (simp add: word_unat_eq_iff)
  moreover have "nwrite p = nread p + 512 \<longleftrightarrow> nwrite p - nread p = 512" by (auto simp: algebra_simps)
  ultimately show ?thesis by (simp add: pipe_full_def pipe_len_def PIPESIZE_def)
qed

lemma pipe_empty_iff: "pipe_empty p \<longleftrightarrow> pipe_bytes p = []"
  by (auto simp: pipe_empty_def pipe_bytes_def pipe_len_def unat_eq_zero)

lemma slot_wrap: "(unat (a + b :: u32)) mod PIPESIZE = (unat a + unat b) mod PIPESIZE"
  by (simp add: unat_word_ariths PIPESIZE_def mod_mod_cancel)

lemma unat_Suc_small: "unat (d :: u32) < 512 \<Longrightarrow> unat (d + 1) = Suc (unat d)"
  by (simp add: unat_word_ariths)

lemma pipe_put_appends:
  assumes inv: "pipe_inv p" and nf: "\<not> pipe_full p"
  shows "pipe_inv (pipe_put c p)" "pipe_bytes (pipe_put c p) = pipe_bytes p @ [c]"
    "readopen (pipe_put c p) = readopen p" "writeopen (pipe_put c p) = writeopen p"
proof -
  let ?w = "unat (nwrite p) mod PIPESIZE" and ?r = "unat (nread p)"
  have lt: "pipe_len p < 512" using inv nf by (simp add: pipe_inv_def pipe_full_iff PIPESIZE_def)
  have len: "pipe_len (pipe_put c p) = Suc (pipe_len p)"
  proof -
    have "nwrite (pipe_put c p) - nread (pipe_put c p) = (nwrite p - nread p) + 1" by (simp add: pipe_put_def)
    then show ?thesis using lt unat_Suc_small [of "nwrite p - nread p"] by (simp only: pipe_len_def)
  qed
  then show "pipe_inv (pipe_put c p)" using lt by (simp add: pipe_inv_def PIPESIZE_def)
  have w: "?w = (?r + pipe_len p) mod PIPESIZE"
    using slot_wrap [of "nread p" "nwrite p - nread p"] by (simp add: pipe_len_def)
  have other: "(?r + i) mod PIPESIZE \<noteq> ?w" if "i < pipe_len p" for i
  proof
    assume "(?r + i) mod PIPESIZE = ?w"
    then have "PIPESIZE dvd (?r + pipe_len p) - (?r + i)"
      using that unfolding w by (intro mod_eq_dvd_iff_nat [THEN iffD1]) auto
    then have "512 \<le> pipe_len p - i" using that dvd_imp_le [of 512 "pipe_len p - i"] by (simp add: PIPESIZE_def)
    then show False using lt by simp
  qed
  show "pipe_bytes (pipe_put c p) = pipe_bytes p @ [c]"
    unfolding pipe_bytes_def len using w other by (simp add: pipe_put_def)
  show "readopen (pipe_put c p) = readopen p" "writeopen (pipe_put c p) = writeopen p" by (simp_all add: pipe_put_def)
qed

lemma pipe_get_takes:
  assumes inv: "pipe_inv p" and ne: "\<not> pipe_empty p"
  shows "pipe_get p = (hd (pipe_bytes p), snd (pipe_get p))" "pipe_inv (snd (pipe_get p))"
    "pipe_bytes (snd (pipe_get p)) = tl (pipe_bytes p)" "writeopen (snd (pipe_get p)) = writeopen p"
proof -
  show "writeopen (snd (pipe_get p)) = writeopen p" by (simp add: pipe_get_def)
  have pos: "pipe_len p \<noteq> 0" using ne by (simp add: pipe_empty_iff pipe_bytes_def)
  have len: "pipe_len (snd (pipe_get p)) = pipe_len p - 1"
  proof -
    have "nwrite (snd (pipe_get p)) - nread (snd (pipe_get p)) = (nwrite p - nread p) - 1" by (simp add: pipe_get_def)
    moreover have "nwrite p - nread p \<noteq> 0" using pos by (auto simp: pipe_len_def)
    ultimately show ?thesis using unat_minus_one [of "nwrite p - nread p"] by (simp only: pipe_len_def simp_thms)
  qed
  obtain n where n: "pipe_len p = Suc n" using pos by (cases "pipe_len p") auto
  have up: "[0..<Suc n] = 0 # map Suc [0..<n]" by (simp add: map_Suc_upt upt_conv_Cons del: upt_Suc)
  have b: "pipe_bytes p = p_data p (unat (nread p) mod PIPESIZE) #
      map (\<lambda>i. p_data p ((unat (nread p) + Suc i) mod PIPESIZE)) [0..<n]"
    unfolding pipe_bytes_def n up by simp
  show "pipe_get p = (hd (pipe_bytes p), snd (pipe_get p))" unfolding b by (simp add: pipe_get_def)
  show "pipe_inv (snd (pipe_get p))" using inv len by (simp add: pipe_inv_def)
  have "(unat (nread p + 1) + i) mod PIPESIZE = (unat (nread p) + Suc i) mod PIPESIZE" for i
  proof -
    have "unat (nread p + 1) mod PIPESIZE = Suc (unat (nread p)) mod PIPESIZE" using slot_wrap [of "nread p" 1] by simp
    from mod_add_cong [OF this refl, of i] show ?thesis by simp
  qed
  then show "pipe_bytes (snd (pipe_get p)) = tl (pipe_bytes p)"
    unfolding b using len n by (simp add: pipe_bytes_def pipe_get_def)
qed


lemma piperead_copy_takes:
  "pipe_inv p \<Longrightarrow> \<exists>p'. piperead_copy n p = (take n (pipe_bytes p), p') \<and> pipe_inv p' \<and> pipe_bytes p' = drop n (pipe_bytes p) \<and>
     writeopen p' = writeopen p"
proof (induction n arbitrary: p)
  case (Suc n)
  show ?case
  proof (cases "pipe_empty p")
    case True
    then show ?thesis using Suc.prems by (simp add: pipe_empty_iff)
  next
    case False
    obtain b q where pg: "pipe_get p = (b, q)" by (cases "pipe_get p")
    then have g: "hd (pipe_bytes p) = b" "pipe_inv q" "pipe_bytes q = tl (pipe_bytes p)" "writeopen q = writeopen p"
      using pipe_get_takes [OF Suc.prems False] by simp_all
    then obtain bs where b: "pipe_bytes p = b # bs" using False by (cases "pipe_bytes p") (auto simp: pipe_empty_iff)
    obtain p' where "piperead_copy n q = (take n bs, p')" "pipe_inv p'" "pipe_bytes p' = drop n bs" "writeopen p' = writeopen p"
      using Suc.IH [OF g(2)] g(3,4) b by auto
    then show ?thesis using False b pg by (simp add: Let_def)
  qed
qed simp

section \<open>The other end\<close>

text \<open>
  What the process at the other end does while this one sleeps: readers only take bytes from the
  front, and sooner or later make room or close; a writer only adds bytes at the end, and sooner or
  later adds one or closes.
\<close>

definition takes_bytes :: "(pipe \<Rightarrow> pipe) \<Rightarrow> bool" where
  "takes_bytes env \<longleftrightarrow>
     (\<forall>p. pipe_inv p \<longrightarrow> pipe_inv (env p) \<and> (\<exists>j. pipe_bytes (env p) = drop j (pipe_bytes p))) \<and>
     (\<forall>p. pipe_inv p \<longrightarrow> (\<exists>n. \<not> pipe_full ((env ^^ n) p) \<or> \<not> readopen ((env ^^ n) p)))"

definition adds_bytes :: "(pipe \<Rightarrow> pipe) \<Rightarrow> bool" where
  "adds_bytes env \<longleftrightarrow>
     (\<forall>p. pipe_inv p \<longrightarrow> pipe_inv (env p) \<and> (\<exists>ds. pipe_bytes (env p) = pipe_bytes p @ ds)) \<and>
     (\<forall>p. pipe_inv p \<longrightarrow> (\<exists>n. \<not> pipe_empty ((env ^^ n) p) \<or> \<not> writeopen ((env ^^ n) p)))"

text \<open>
  What a write of \<open>cs\<close> has done: all of it follows the bytes that nobody has taken, or a first part of it if the pipe is
  full and its reader has closed it or the writer has been killed, \<open>stop\<close>.
\<close>

definition written :: "bool \<Rightarrow> u8 list \<Rightarrow> pipe \<Rightarrow> bool \<Rightarrow> pipe \<Rightarrow> bool" where
  "written stop cs p ok p' \<longleftrightarrow> pipe_inv p' \<and> (\<exists>j m. pipe_bytes p' = drop j (pipe_bytes p @ take m cs) \<and>
     (if ok then m = length cs else m < length cs \<and> pipe_full p' \<and> (\<not> readopen p' \<or> stop)))"

lemma drop_before: "drop i xs @ ys = drop (min i (length xs)) (xs @ ys)"
  by (cases "i \<le> length xs") simp_all

lemma written_later:
  assumes "pipe_bytes q = drop i (pipe_bytes p)" "written stop cs q ok p'"
  shows "written stop cs p ok p'"
proof -
  obtain j m where "pipe_bytes p' = drop j (drop i (pipe_bytes p) @ take m cs)" "pipe_inv p'"
    "if ok then m = length cs else m < length cs \<and> pipe_full p' \<and> (\<not> readopen p' \<or> stop)"
    using assms by (auto simp: written_def)
  moreover from this have "pipe_bytes p' = drop (j + min i (pipe_len p)) (pipe_bytes p @ take m cs)"
    by (simp only: drop_before drop_drop length_pipe_bytes add.commute)
  ultimately show ?thesis unfolding written_def by blast
qed

lemma written_put:
  assumes "pipe_inv p" "\<not> pipe_full p" "written stop cs (pipe_put c p) ok p'"
  shows "written stop (c # cs) p ok p'"
proof -
  obtain j m where "pipe_bytes p' = drop j (pipe_bytes p @ take (Suc m) (c # cs))" "pipe_inv p'"
    "if ok then Suc m = length (c # cs) else Suc m < length (c # cs) \<and> pipe_full p' \<and> (\<not> readopen p' \<or> stop)"
    using assms(3) pipe_put_appends(2) [OF assms(1,2)] by (auto simp: written_def split: if_splits)
  then show ?thesis unfolding written_def by blast
qed

lemma pipewrite_loop_writes:
  assumes env: "takes_bytes env" and inv: "pipe_inv p" and stop: "stop = (\<exists>k. killed k)"
  shows "\<exists>ok p'. pipewrite_loop env killed k cs p = Some (ok, p') \<and> written stop cs p ok p'"
  using inv
proof (induction cs arbitrary: k p)
  case Nil
  then show ?case by (subst pipewrite_loop.simps) (auto simp: written_def intro!: exI [of _ 0])
next
  case (Cons c cs)
  have put: "\<exists>ok p'. pipewrite_loop env killed k (c # cs) p = Some (ok, p') \<and> written stop (c # cs) p ok p'"
    if nf: "pipe_inv p" "\<not> pipe_full p" for k p
  proof -
    obtain ok p' where "pipewrite_loop env killed k cs (pipe_put c p) = Some (ok, p')" "written stop cs (pipe_put c p) ok p'"
      using Cons.IH [OF pipe_put_appends(1) [OF nf]] by blast
    moreover have "pipewrite_loop env killed k (c # cs) p = pipewrite_loop env killed k cs (pipe_put c p)"
      using nf(2) by (subst pipewrite_loop.simps) simp
    ultimately show ?thesis using written_put [OF nf] by simp
  qed
  have fail: "written stop (c # cs) p False p" if "pipe_inv p" "pipe_full p" "\<not> readopen p \<or> killed k" for p k
    unfolding written_def stop using that by (intro conjI exI [of _ "0 :: nat"]) auto
  have loop: "\<exists>ok p'. pipewrite_loop env killed k (c # cs) p = Some (ok, p') \<and> written stop (c # cs) p ok p'"
    if "pipe_inv p" "\<not> pipe_full ((env ^^ n) p) \<or> \<not> readopen ((env ^^ n) p)" for n k p
    using that
  proof (induction n arbitrary: k p)
    case 0
    then show ?case using put [of p k] fail [of p k] by (cases "pipe_full p") (subst pipewrite_loop.simps, auto)
  next
    case (Suc n)
    show ?case
    proof (cases "pipe_full p \<and> readopen p \<and> \<not> killed k")
      case True
      have e: "pipe_inv (env p)" "\<exists>i. pipe_bytes (env p) = drop i (pipe_bytes p)"
        using env Suc.prems(1) by (auto simp: takes_bytes_def)
      have "\<exists>ok p'. pipewrite_loop env killed (Suc k) (c # cs) (env p) = Some (ok, p') \<and> written stop (c # cs) (env p) ok p'"
        using Suc.IH [OF e(1)] Suc.prems(2) by (simp add: funpow_swap1)
      moreover have "pipewrite_loop env killed k (c # cs) p = pipewrite_loop env killed (Suc k) (c # cs) (env p)"
        using True by (subst pipewrite_loop.simps) simp
      ultimately show ?thesis using e(2) written_later by metis
    next
      case False
      show ?thesis
      proof (cases "pipe_full p")
        case True
        then have "pipewrite_loop env killed k (c # cs) p = Some (False, p)"
          using False by (subst pipewrite_loop.simps) simp
        then show ?thesis using fail [OF Suc.prems(1) True, of k] False True by blast
      qed (use put Suc.prems in blast)
    qed
  qed
  obtain n where "\<not> pipe_full ((env ^^ n) p) \<or> \<not> readopen ((env ^^ n) p)"
    using env Cons.prems unfolding takes_bytes_def by blast
  then show ?case using loop [OF Cons.prems] by blast
qed


lemma pipewrite_writes:
  assumes "takes_bytes env" "pipe_inv p"
  shows "\<exists>ok p'. pipewrite env killed addr n p = Some (if ok then n else - 1, p') \<and> written (\<exists>k. killed k) (take (nat n) addr) p ok p'"
proof -
  obtain ok p' where "pipewrite_loop env killed 0 (take (nat n) addr) p = Some (ok, p')" "written (\<exists>k. killed k) (take (nat n) addr) p ok p'"
    using pipewrite_loop_writes [OF assms(1,2) refl] by blast
  then show ?thesis by (intro exI [of _ ok] exI [of _ p']) (simp add: pipewrite_def)
qed

text \<open>A writer leaves the other end open.\<close>

lemma pipewrite_loop_open:
  assumes env: "\<And>q. readopen (env q) = readopen q" and res: "pipewrite_loop env killed k cs p = Some (ok, p')"
  shows "readopen p' = readopen p"
proof -
  have "(\<forall>q. readopen (env q) = readopen q) \<longrightarrow> readopen (snd (ok, p')) = readopen p"
    by (rule pipewrite_loop.raw_induct [where P = "\<lambda>env killed k cs p r. (\<forall>q. readopen (env q) = readopen q) \<longrightarrow> readopen (snd r) = readopen p",
          OF _ res]) (fastforce simp: pipe_put_def split: list.splits if_splits)
  with env show ?thesis by simp
qed

lemma pipewrite_open:
  assumes "\<And>q. readopen (env q) = readopen q" and "pipewrite env killed addr n p = Some (r, p')"
  shows "readopen p' = readopen p"
proof -
  obtain ok where "pipewrite_loop env killed 0 (take (nat n) addr) p = Some (ok, p')"
    using assms(2) unfolding pipewrite_def by (auto split: prod.splits)
  with assms(1) show ?thesis by (rule pipewrite_loop_open)
qed

text \<open>What a reader has waited for: bytes, or the end of the writer, unless it was killed.\<close>

lemma piperead_wait_waits:
  assumes env: "adds_bytes env" and inv: "pipe_inv p"
  shows "\<exists>ok p' ds. piperead_wait env killed k p = Some (ok, p') \<and> pipe_inv p' \<and> pipe_bytes p' = pipe_bytes p @ ds \<and>
    (if ok then pipe_bytes p' \<noteq> [] \<or> \<not> writeopen p' else pipe_bytes p' = [] \<and> writeopen p' \<and> (\<exists>k. killed k))"
proof -
  have loop: "\<exists>ok p' ds. piperead_wait env killed k p = Some (ok, p') \<and> pipe_inv p' \<and> pipe_bytes p' = pipe_bytes p @ ds \<and>
      (if ok then pipe_bytes p' \<noteq> [] \<or> \<not> writeopen p' else pipe_bytes p' = [] \<and> writeopen p' \<and> (\<exists>k. killed k))"
    if "pipe_inv p" "\<not> pipe_empty ((env ^^ n) p) \<or> \<not> writeopen ((env ^^ n) p)" for n k p
    using that
  proof (induction n arbitrary: k p)
    case 0
    then show ?case by (subst piperead_wait.simps) (auto simp: pipe_empty_iff)
  next
    case (Suc n)
    show ?case
    proof (cases "pipe_empty p \<and> writeopen p \<and> \<not> killed k")
      case True
      obtain ds where e: "pipe_inv (env p)" "pipe_bytes (env p) = pipe_bytes p @ ds"
        using env Suc.prems(1) unfolding adds_bytes_def by blast
      have "piperead_wait env killed k p = piperead_wait env killed (Suc k) (env p)"
        using True by (subst piperead_wait.simps) simp
      moreover obtain ok p' es where "piperead_wait env killed (Suc k) (env p) = Some (ok, p')" "pipe_inv p'"
        "pipe_bytes p' = pipe_bytes (env p) @ es"
        "if ok then pipe_bytes p' \<noteq> [] \<or> \<not> writeopen p' else pipe_bytes p' = [] \<and> writeopen p' \<and> (\<exists>k. killed k)"
        using Suc.IH [OF e(1), of "Suc k"] Suc.prems(2) by (metis funpow_swap1 funpow_Suc_right o_apply)
      ultimately show ?thesis using e(2) by (intro exI [of _ ok] exI [of _ p'] exI [of _ "ds @ es"]) simp
    next
      case False
      then have r: "piperead_wait env killed k p = Some (\<not> (pipe_empty p \<and> writeopen p), p)"
        unfolding piperead_wait.simps [of env killed k p] by (cases "pipe_empty p"; cases "writeopen p"; simp)
      show ?thesis unfolding r using False Suc.prems(1) by (auto simp: pipe_empty_iff)
    qed
  qed
  obtain n where "\<not> pipe_empty ((env ^^ n) p) \<or> \<not> writeopen ((env ^^ n) p)"
    using env inv unfolding adds_bytes_def by blast
  then show ?thesis by (rule loop [OF inv])
qed

lemma piperead_reads:
  assumes "adds_bytes env" "pipe_inv p"
  shows "\<exists>r d p' ds. piperead env killed n p = Some (r, d, p') \<and> pipe_inv p' \<and>
    (if r = - 1 then d = [] \<and> pipe_bytes p @ ds = [] \<and> pipe_bytes p' = [] \<and> writeopen p' \<and> (\<exists>k. killed k)
     else r = int (length d) \<and> d = take (nat n) (pipe_bytes p @ ds) \<and> pipe_bytes p' = drop (nat n) (pipe_bytes p @ ds) \<and>
       (pipe_bytes p @ ds \<noteq> [] \<or> \<not> writeopen p'))"
proof -
  obtain ok q ds where q: "piperead_wait env killed 0 p = Some (ok, q)" "pipe_inv q" "pipe_bytes q = pipe_bytes p @ ds"
    "if ok then pipe_bytes q \<noteq> [] \<or> \<not> writeopen q else pipe_bytes q = [] \<and> writeopen q \<and> (\<exists>k. killed k)"
    using piperead_wait_waits [OF assms] by blast
  obtain p' where c: "piperead_copy (nat n) q = (take (nat n) (pipe_bytes q), p')" "pipe_inv p'"
    "pipe_bytes p' = drop (nat n) (pipe_bytes q)" "writeopen p' = writeopen q"
    using piperead_copy_takes [OF q(2)] by blast
  show ?thesis
  proof (cases ok)
    case True
    then show ?thesis using q c by (intro exI [of _ "int (length (take (nat n) (pipe_bytes q)))"] exI [of _ "take (nat n) (pipe_bytes q)"]
        exI [of _ p'] exI [of _ ds]) (auto simp: piperead_def)
  next
    case False
    then show ?thesis using q by (intro exI [of _ "- 1"] exI [of _ "[]"] exI [of _ q] exI [of _ ds]) (auto simp: piperead_def)
  qed
qed

end
