(* ===== verification/Xv6_Mem_Spec.thy ===== *)
theory Xv6_Mem_Spec
  imports Xv6_Mem Buffer_Pool
begin

text \<open>
  Memory of xv6: the string operations set and move exactly the bytes that they name, whatever the
  overlap, and the page allocator keeps a list of distinct free pages through its links in memory.
\<close>

section \<open>Ranges of addresses\<close>

text \<open>The \<open>n\<close> addresses from \<open>d\<close> on, for a range that does not wrap.\<close>

definition in_range :: "u32 \<Rightarrow> nat \<Rightarrow> u32 \<Rightarrow> bool" where
  "in_range d n a \<longleftrightarrow> unat d \<le> unat a \<and> unat a < unat d + n"

lemma in_range_0 [simp]: "\<not> in_range d 0 a"
  by (simp add: in_range_def)

lemma in_range_split:
  assumes "unat d + (k + n) \<le> 2 ^ 32"
  shows "in_range d (k + n) a \<longleftrightarrow> in_range d k a \<or> in_range (d + word_of_nat k) n a"
proof (cases "n = 0")
  case False
  then have "unat d + k < 2 ^ 32" using assms by simp
  then have "unat (d + word_of_nat k) = unat d + k"
    by (simp add: unat_word_ariths unat_of_nat)
  then show ?thesis by (auto simp: in_range_def)
qed simp

lemma in_range_1: "in_range d 1 a \<longleftrightarrow> a = d"
  by (auto simp: in_range_def word_unat_eq_iff)

lemma in_range_Suc:
  "unat d + Suc n \<le> 2 ^ 32 \<Longrightarrow> in_range d (Suc n) a \<longleftrightarrow> a = d \<or> in_range (d + 1) n a"
  using in_range_split [of d 1 n a] in_range_1 [of d a] by simp

section \<open>Filling\<close>

lemma stosb_fills:
  "unat d + n \<le> 2 ^ 32 \<Longrightarrow> stosb n d c m = (\<lambda>a. if in_range d n a then c else m a)"
proof (induction n arbitrary: d m)
  case (Suc n)
  have le: "n = 0 \<or> unat (d + 1) + n \<le> 2 ^ 32"
  proof (cases "n = 0")
    case False
    then have "unat d + 1 < 2 ^ 32" using Suc.prems by simp
    then have "unat (d + 1) = unat d + 1" by (simp add: unat_word_ariths)
    then show ?thesis using Suc.prems by simp
  qed simp
  then have "stosb n (d + 1) c (m(d := c)) = (\<lambda>a. if in_range (d + 1) n a then c else (m(d := c)) a)"
    using Suc.IH [of "d + 1"] by auto
  then show ?case using in_range_Suc [OF Suc.prems] by (auto simp: fun_eq_iff)
qed simp

text \<open>The word that \<open>memset\<close> stores has the low byte of \<open>c\<close> in all four places.\<close>

definition four :: "u32 \<Rightarrow> u32" where
  "four c = push_bit 24 (c AND 0xFF) OR push_bit 16 (c AND 0xFF) OR push_bit 8 (c AND 0xFF) OR (c AND 0xFF)"

lemma and_255_bit: "bit ((c :: u32) AND 0xFF) n \<longleftrightarrow> n < 8 \<and> bit c n"
proof -
  have "(0xFF :: u32) = mask 8" by (simp add: mask_eq_exp_minus_1)
  then show ?thesis by (simp only: bit_and_iff bit_mask_iff) (auto simp: bit_imp_possible_bit)
qed

lemma four_copies:
  assumes "\<And>n. bit b n \<Longrightarrow> n < 8"
  defines "w \<equiv> push_bit 24 b OR push_bit 16 b OR push_bit 8 b OR (b :: u32)"
  shows "(ucast w :: u8) = ucast b" "(ucast (drop_bit 8 w) :: u8) = ucast b"
    "(ucast (drop_bit 16 w) :: u8) = ucast b" "(ucast (drop_bit 24 w) :: u8) = ucast b"
  unfolding w_def by (rule bit_word_eqI; use assms(1) in \<open>fastforce simp: bit_simps\<close>)+

lemma four_bytes:
  "(ucast (four c) :: u8) = ucast c" "(ucast (drop_bit 8 (four c)) :: u8) = ucast c"
  "(ucast (drop_bit 16 (four c)) :: u8) = ucast c" "(ucast (drop_bit 24 (four c)) :: u8) = ucast c"
proof -
  have "(ucast (c AND 0xFF) :: u8) = ucast c"
    by (rule bit_word_eqI) (auto simp: bit_ucast_iff and_255_bit)
  then show "(ucast (four c) :: u8) = ucast c" "(ucast (drop_bit 8 (four c)) :: u8) = ucast c"
    "(ucast (drop_bit 16 (four c)) :: u8) = ucast c" "(ucast (drop_bit 24 (four c)) :: u8) = ucast c"
    unfolding four_def using four_copies [of "c AND 0xFF"] and_255_bit by metis+
qed

lemma stosl_fills:
  assumes "unat d + 4 * n \<le> 2 ^ 32"
  shows "stosl n d (four c) m = (\<lambda>a. if in_range d (4 * n) a then ucast c else m a)"
  using assms
proof (induction n arbitrary: d m)
  case (Suc n)
  let ?m = "m(d := ucast (four c), d + 1 := ucast (drop_bit 8 (four c)), d + 2 := ucast (drop_bit 16 (four c)),
    d + 3 := ucast (drop_bit 24 (four c)))"
  have le: "n = 0 \<or> unat (d + 4) + 4 * n \<le> 2 ^ 32"
  proof (cases "n = 0")
    case False
    then have "unat d + 4 < 2 ^ 32" using Suc.prems by simp
    then have "unat (d + 4) = unat d + 4" by (simp add: unat_word_ariths)
    then show ?thesis using Suc.prems by simp
  qed simp
  have "in_range d 4 a \<longleftrightarrow> a = d \<or> a = d + 1 \<or> a = d + 2 \<or> a = d + 3" for a
  proof -
    have "unat d + 4 \<le> 2 ^ 32" using Suc.prems by simp
    then have "unat (d + 1) = unat d + 1" "unat (d + 2) = unat d + 2" "unat (d + 3) = unat d + 3"
      by (simp_all add: unat_word_ariths)
    then show ?thesis by (auto simp: in_range_def word_unat_eq_iff)
  qed
  then have "?m = (\<lambda>a. if in_range d 4 a then ucast c else m a)" by (auto simp: four_bytes)
  moreover have "stosl n (d + 4) (four c) ?m = (\<lambda>a. if in_range (d + 4) (4 * n) a then ucast c else ?m a)"
    using le by (elim disjE) (simp_all only: Suc.IH stosl.simps mult_0_right in_range_0 if_False)
  ultimately show ?case using in_range_split [of d 4 "4 * n"] Suc.prems by (auto simp: fun_eq_iff)
qed simp

lemma memset_fills:
  assumes "unat d + unat n \<le> 2 ^ 32"
  shows "memset d c n m = (\<lambda>a. if in_range d (unat n) a then ucast c else m a)"
proof -
  have "4 * unat (n div 4) = unat n" if "n mod 4 = 0"
  proof -
    have "unat n mod 4 = 0" using arg_cong [OF that, of unat] by (simp add: unat_mod)
    then show ?thesis using mult_div_mod_eq [of 4 "unat n"] by (simp add: unat_div)
  qed
  then show ?thesis
    using assms stosl_fills [of d "unat (n div 4)" c m] stosb_fills [of d "unat n" "ucast c" m]
    by (cases "d mod 4 = 0 \<and> n mod 4 = 0") (simp_all only: memset_def Let_def four_def [symmetric] if_True if_False simp_thms)
qed

section \<open>Moving\<close>

lemma unat_Suc_word: "unat (d :: u32) + 1 < 2 ^ 32 \<Longrightarrow> unat (d + 1) = unat d + 1"
  by (simp add: unat_word_ariths)

lemma unat_offset:
  assumes "in_range d n a" "unat (s :: u32) + n \<le> 2 ^ 32"
  shows "unat (s + (a - d)) = unat s + (unat a - unat d)" "unat a - unat d < n"
proof -
  have "unat (a - d) = unat a - unat d" using assms by (simp add: in_range_def unat_sub word_le_nat_alt)
  then show "unat (s + (a - d)) = unat s + (unat a - unat d)" "unat a - unat d < n"
    using assms by (auto simp: in_range_def unat_word_ariths)
qed

text \<open>
  Copying forwards is right when the destination does not start inside the source, copying backwards
  when it does not end there.
\<close>

lemma copy_fwd_moves:
  assumes "unat d + n \<le> 2 ^ 32" "unat s + n \<le> 2 ^ 32" "unat d \<le> unat s \<or> unat s + n \<le> unat d"
  shows "copy_fwd n d s m a = (if in_range d n a then m (s + (a - d)) else m a)"
  using assms
proof (induction n arbitrary: d s m)
  case (Suc n)
  show ?case
  proof (cases "n = 0")
    case True
    then show ?thesis using in_range_1 [of d a] by auto
  next
    case False
    then have u: "unat (d + 1) = unat d + 1" "unat (s + 1) = unat s + 1"
      using Suc.prems(1,2) unat_Suc_word [of d] unat_Suc_word [of s] by simp_all
    have "copy_fwd n (d + 1) (s + 1) (m(d := m s)) a =
        (if in_range (d + 1) n a then (m(d := m s)) (s + 1 + (a - (d + 1))) else (m(d := m s)) a)"
      using Suc.prems u by (intro Suc.IH) auto
    moreover have "s + 1 + (a - (d + 1)) = s + (a - d)" by simp
    moreover have "s + (a - d) \<noteq> d" if "in_range (d + 1) n a"
    proof -
      have "in_range d (Suc n) a" "unat d < unat a" using that u by (auto simp: in_range_def)
      then show ?thesis using unat_offset [of d "Suc n" a s] Suc.prems(2,3) by (auto simp: word_unat_eq_iff)
    qed
    ultimately show ?thesis
      using in_range_Suc [OF Suc.prems(1), of a] by (auto simp: in_range_def u)
  qed
qed simp

lemma copy_back_moves:
  assumes "unat d + n \<le> 2 ^ 32" "unat s + n \<le> 2 ^ 32" "unat s \<le> unat d \<or> unat d + n \<le> unat s"
  shows "copy_back n (d + word_of_nat n) (s + word_of_nat n) m a = (if in_range d n a then m (s + (a - d)) else m a)"
  using assms
proof (induction n arbitrary: m)
  case (Suc n)
  let ?e = "d + word_of_nat n" and ?f = "s + word_of_nat n"
  have u: "unat ?e = unat d + n" "unat ?f = unat s + n"
    using Suc.prems by (simp_all add: unat_word_ariths unat_of_nat)
  have "d + word_of_nat (Suc n) - 1 = ?e" "s + word_of_nat (Suc n) - 1 = ?f" by simp_all
  then have "copy_back (Suc n) (d + word_of_nat (Suc n)) (s + word_of_nat (Suc n)) m a = copy_back n ?e ?f (m(?e := m ?f)) a"
    by (simp only: copy_back.simps)
  also have "\<dots> = (if in_range d n a then (m(?e := m ?f)) (s + (a - d)) else (m(?e := m ?f)) a)"
    using Suc.prems by (intro Suc.IH) auto
  also have "\<dots> = (if in_range d (Suc n) a then m (s + (a - d)) else m a)"
  proof -
    have "s + (a - d) \<noteq> ?e" if "in_range d n a"
      using unat_offset [OF that, of s] u Suc.prems by (auto simp: word_unat_eq_iff)
    moreover have "in_range d (Suc n) a \<longleftrightarrow> in_range d n a \<or> a = ?e"
      using in_range_split [of d n 1 a] in_range_1 [of ?e a] Suc.prems by simp
    moreover have "?e - d = word_of_nat n" "\<not> in_range d n ?e" by (simp_all add: in_range_def u)
    ultimately show ?thesis by auto
  qed
  finally show ?case .
qed simp

lemma memmove_moves:
  assumes "unat d + unat n \<le> 2 ^ 32" "unat s + unat n < 2 ^ 32"
  shows "memmove d s n m a = (if in_range d (unat n) a then m (s + (a - d)) else m a)"
proof -
  have "unat (s + n) = unat s + unat n" using assms(2) by (simp add: unat_word_ariths)
  then have "s < d \<and> s + n > d \<longleftrightarrow> unat s < unat d \<and> unat d < unat s + unat n" by (simp add: word_less_nat_alt)
  then show ?thesis
    using assms copy_back_moves [of d "unat n" s m a] copy_fwd_moves [of d "unat n" s m a]
    by (auto simp: memmove_def)
qed

section \<open>Free pages\<close>

definition page_ok :: "u32 \<Rightarrow> u32 \<Rightarrow> bool" where
  "page_ok kend v \<longleftrightarrow> v mod PGSIZE = 0 \<and> kend \<le> v \<and> V2P v < PHYSTOP"

definition in_page :: "u32 \<Rightarrow> u32 \<Rightarrow> bool" where
  "in_page p a \<longleftrightarrow> in_range p 4096 a"

text \<open>The list of pages that is linked through the memory from an address on.\<close>

fun free_chain :: "(u32 \<Rightarrow> u8) \<Rightarrow> u32 \<Rightarrow> u32 list \<Rightarrow> bool" where
  "free_chain m a [] \<longleftrightarrow> a = 0"
| "free_chain m a (p # ps) \<longleftrightarrow> a = p \<and> free_chain m (load32 m p) ps"

definition kmem_inv :: "u32 \<Rightarrow> kmem \<Rightarrow> u32 list \<Rightarrow> bool" where
  "kmem_inv kend s ps \<longleftrightarrow> free_chain (pmem s) (freelist s) ps \<and> distinct ps \<and> (\<forall>p \<in> set ps. page_ok kend p)"

lemma V2P_bounds: "V2P v < PHYSTOP \<Longrightarrow> 0x80000000 \<le> unat v \<and> unat v < 0x8E000000"
  by (auto simp: V2P_def PHYSTOP_def KERNBASE_def word_less_nat_alt unat_sub_if' split: if_splits)

lemma page_okD:
  assumes "page_ok kend v"
  shows "v \<noteq> 0" "unat v + 4096 \<le> 2 ^ 32" "unat v mod 4096 = 0"
proof -
  have b: "0x80000000 \<le> unat v" "unat v < 0x8E000000" using V2P_bounds assms by (auto simp: page_ok_def)
  then show "v \<noteq> 0" by auto
  show "unat v + 4096 \<le> 2 ^ 32" using b by simp
  have "unat (v mod 4096) = 0" using assms by (simp add: page_ok_def PGSIZE_def)
  then show "unat v mod 4096 = 0" by (simp add: unat_mod)
qed

lemma in_page_unique:
  assumes "page_ok kend p" "page_ok kend q" "in_page p a" "in_page q a"
  shows "p = q"
proof -
  have "unat p div 4096 = unat a div 4096" "unat q div 4096 = unat a div 4096"
    using assms(3,4) page_okD(3) [OF assms(1)] page_okD(3) [OF assms(2)]
    by (auto simp: in_page_def in_range_def elim!: dvdE intro!: div_nat_eqI simp: mod_eq_0_iff_dvd)
  then have "unat p = unat q"
    using page_okD(3) [OF assms(1)] page_okD(3) [OF assms(2)] by (metis div_mod_decomp)
  then show ?thesis by (simp add: word_unat_eq_iff)
qed

lemma load32_cong: "m a = m' a \<Longrightarrow> m (a + 1) = m' (a + 1) \<Longrightarrow> m (a + 2) = m' (a + 2) \<Longrightarrow> m (a + 3) = m' (a + 3) \<Longrightarrow>
    load32 m a = load32 m' a"
  by (simp add: load32_def)

lemma load32_store32: "load32 (store32 a w m) a = w"
  using bytes_of_word [of w] by (simp add: load32_def store32_def)

lemma page_words:
  assumes "page_ok kend p"
  shows "in_page p p" "in_page p (p + 1)" "in_page p (p + 2)" "in_page p (p + 3)"
  using page_okD(2) [OF assms] by (simp_all add: in_page_def in_range_def unat_word_ariths)

lemma free_chain_cong:
  assumes "\<And>p a. p \<in> set ps \<Longrightarrow> in_page p a \<Longrightarrow> m' a = m a" "\<forall>p \<in> set ps. page_ok kend p"
  shows "free_chain m' a ps = free_chain m a ps"
  using assms
proof (induction ps arbitrary: a)
  case (Cons p ps)
  have "load32 m' p = load32 m p"
    using Cons.prems page_words [of kend p] by (intro load32_cong) auto
  moreover have "free_chain m' b ps = free_chain m b ps" for b
    using Cons.prems by (intro Cons.IH) auto
  ultimately show ?case by simp
qed simp

section \<open>The allocator as a stack of pages\<close>

lemma one_byte: "(ucast (1 :: u32) :: u8) = 1"
  by (rule bit_word_eqI) (simp add: bit_ucast_iff bit_1_iff)

lemma kfree_pushes:
  assumes inv: "kmem_inv kend s ps" and v: "page_ok kend v" and new: "v \<notin> set ps"
  shows "\<exists>s'. kfree kend v s = Some s' \<and> kmem_inv kend s' (v # ps) \<and> use_lock s' = use_lock s \<and>
    (\<forall>a. \<not> in_page v a \<longrightarrow> pmem s' a = pmem s a)"
proof -
  let ?m = "store32 v (freelist s) (memset v 1 PGSIZE (pmem s))"
  let ?s = "s\<lparr>pmem := ?m, freelist := v\<rparr>"
  have fill: "memset v 1 PGSIZE (pmem s) = (\<lambda>a. if in_page v a then 1 else pmem s a)"
    using memset_fills [of v PGSIZE 1 "pmem s"] page_okD(2) [OF v]
    by (auto simp: PGSIZE_def in_page_def one_byte fun_eq_iff)
  have out: "?m a = pmem s a" if "\<not> in_page v a" for a
    using that page_words [OF v] by (auto simp: store32_def fill)
  have "free_chain ?m (freelist s) ps = free_chain (pmem s) (freelist s) ps"
  proof (rule free_chain_cong)
    show "\<forall>p \<in> set ps. page_ok kend p" using inv by (simp add: kmem_inv_def)
    fix p a assume "p \<in> set ps" "in_page p a"
    then have "\<not> in_page v a" using inv v new in_page_unique [of kend v p a] by (auto simp: kmem_inv_def)
    then show "?m a = pmem s a" by (rule out)
  qed
  then have "kmem_inv kend ?s (v # ps)"
    using inv v new by (simp add: kmem_inv_def load32_store32)
  moreover have "kfree kend v s = Some ?s" using v by (auto simp: kfree_def page_ok_def)
  ultimately show ?thesis using out by auto
qed

lemma kfree_refuses: "\<not> page_ok kend v \<Longrightarrow> kfree kend v s = None"
  unfolding kfree_def page_ok_def by (meson linorder_not_le)

lemma kalloc_pops:
  assumes "kmem_inv kend s ps"
  shows "case ps of
      [] \<Rightarrow> kalloc s = (0, s)
    | p # ps' \<Rightarrow> \<exists>s'. kalloc s = (p, s') \<and> kmem_inv kend s' ps' \<and> pmem s' = pmem s \<and> use_lock s' = use_lock s"
proof (cases ps)
  case (Cons p ps')
  then have "p \<noteq> 0" "freelist s = p" using assms page_okD(1) [of kend p] by (auto simp: kmem_inv_def)
  then show ?thesis using assms Cons by (simp add: kmem_inv_def kalloc_def)
qed (use assms in \<open>simp add: kmem_inv_def kalloc_def\<close>)


section \<open>Giving a range of pages to the allocator\<close>

text \<open>The \<open>k\<close> pages from \<open>p\<close> on.\<close>

definition pages_from :: "u32 \<Rightarrow> nat \<Rightarrow> u32 list" where
  "pages_from p k = map (\<lambda>i. p + PGSIZE * word_of_nat i) [0..<k]"

lemma pages_from_Suc: "pages_from p (Suc k) = p # pages_from (p + PGSIZE) k"
proof -
  have "[0..<Suc k] = 0 # map Suc [0..<k]" by (simp add: map_Suc_upt upt_conv_Cons del: upt_Suc)
  then show ?thesis by (simp add: pages_from_def algebra_simps o_def)
qed

lemma unat_PGROUNDUP:
  assumes "unat v + 4096 \<le> 2 ^ 32"
  shows "unat (PGROUNDUP v) = (unat v + 4095) div 4096 * 4096"
proof -
  have "(4095 :: u32) = mask 12" by (simp add: mask_eq_exp_minus_1)
  then have "PGROUNDUP v = (v + 4095) AND NOT (mask 12)" by (simp add: PGROUNDUP_def PGSIZE_def add.commute)
  then show ?thesis using assms
    by (simp add: unat_and_not_mask unat_word_ariths minus_mod_eq_div_mult)
qed

text \<open>The number of whole pages between two addresses.\<close>

definition whole_pages :: "u32 \<Rightarrow> u32 \<Rightarrow> nat" where
  "whole_pages p vend = (unat vend - unat p) div 4096"

lemma whole_pages_step:
  assumes "unat p \<le> 0x8E001000" "unat vend \<le> 0x8E000000"
  shows "unat (p + PGSIZE) = unat p + 4096" "p + PGSIZE \<le> vend \<longleftrightarrow> whole_pages p vend \<noteq> 0"
    "whole_pages (p + PGSIZE) vend = whole_pages p vend - 1"
proof -
  show u: "unat (p + PGSIZE) = unat p + 4096" using assms by (simp add: PGSIZE_def unat_word_ariths)
  show "p + PGSIZE \<le> vend \<longleftrightarrow> whole_pages p vend \<noteq> 0"
    by (auto simp: word_le_nat_alt u whole_pages_def div_eq_0_iff)
  show "whole_pages (p + PGSIZE) vend = whole_pages p vend - 1"
    unfolding whole_pages_def u using le_div_geq [of 4096 "unat vend - unat p"] by (cases "unat p + 4096 \<le> unat vend") simp_all
qed

lemma unat_page:
  assumes "unat p + 4096 * k < 2 ^ 32" "i \<le> k"
  shows "unat (p + PGSIZE * word_of_nat i) = unat p + 4096 * i"
  using assms by (simp add: PGSIZE_def unat_word_ariths unat_of_nat)

lemma distinct_pages:
  assumes "unat p + 4096 * k < 2 ^ 32"
  shows "distinct (pages_from p k)"
proof -
  have "inj_on (\<lambda>i. p + PGSIZE * word_of_nat i) {0..<k}"
  proof (rule inj_onI)
    fix i j assume ij: "i \<in> {0..<k}" "j \<in> {0..<k}" and e: "p + PGSIZE * word_of_nat i = p + PGSIZE * word_of_nat j"
    have "unat p + 4096 * i = unat (p + PGSIZE * word_of_nat i)" using ij(1) unat_page [OF assms, of i] by simp
    also have "\<dots> = unat p + 4096 * j" unfolding e using ij(2) unat_page [OF assms, of j] by simp
    finally show "i = j" by simp
  qed
  then show ?thesis by (simp add: pages_from_def distinct_map)
qed

lemma page_notin_later:
  assumes "unat p + 4096 * Suc k < 2 ^ 32"
  shows "p \<notin> set (pages_from (p + PGSIZE) k)"
proof
  assume "p \<in> set (pages_from (p + PGSIZE) k)"
  then obtain i where "i < k" "p = p + PGSIZE * word_of_nat (Suc i)" by (auto simp: pages_from_def algebra_simps)
  then show False using unat_page [OF assms, of "Suc i"] by simp
qed

lemma freerange_loop_frees:
  assumes "kmem_inv kend s ps" "unat p mod 4096 = 0" "kend \<le> p" "0x80000000 \<le> unat p" "unat p \<le> 0x8E001000"
    and "unat vend \<le> 0x8E000000" "set (pages_from p (whole_pages p vend)) \<inter> set ps = {}"
  shows "\<exists>s'. freerange_loop kend p vend s = Some s' \<and>
    kmem_inv kend s' (rev (pages_from p (whole_pages p vend)) @ ps) \<and> use_lock s' = use_lock s"
  using assms
proof (induction "whole_pages p vend" arbitrary: p s ps)
  case 0
  have "\<not> p + PGSIZE \<le> vend" using whole_pages_step(2) [OF 0(6,7)] 0(1) by simp
  then have "freerange_loop kend p vend s = Some s" by (subst freerange_loop.simps) simp
  then show ?case using 0(1) [symmetric] 0(2) by (simp add: pages_from_def)
next
  case (Suc k)
  note st = whole_pages_step [OF Suc.prems(5,6)]
  have le: "p + PGSIZE \<le> vend" and k: "k = whole_pages (p + PGSIZE) vend" using st Suc.hyps(2) by auto
  have p: "page_ok kend p"
    using Suc.prems le st(1) by (auto simp: page_ok_def V2P_def KERNBASE_def PHYSTOP_def PGSIZE_def word_less_nat_alt word_le_nat_alt
        unat_sub_if' word_unat_eq_iff unat_mod)
  have pg: "pages_from p (whole_pages p vend) = p # pages_from (p + PGSIZE) k"
    using Suc.hyps(2) [symmetric] by (simp add: pages_from_Suc)
  then have new: "p \<notin> set ps" using Suc.prems(7) by auto
  obtain s1 where s1: "kfree kend p s = Some s1" "kmem_inv kend s1 (p # ps)" "use_lock s1 = use_lock s"
    using kfree_pushes [OF Suc.prems(1) p new] by blast
  have "unat p + 4096 * Suc k \<le> unat vend"
    using Suc.hyps(2) times_div_less_eq_dividend [of 4096 "unat vend - unat p"] by (simp add: whole_pages_def)
  then have "p \<notin> set (pages_from (p + PGSIZE) k)" using Suc.prems(6) by (intro page_notin_later) simp
  then have "set (pages_from (p + PGSIZE) (whole_pages (p + PGSIZE) vend)) \<inter> set (p # ps) = {}"
    using Suc.prems(7) pg k by auto
  moreover have "unat (p + PGSIZE) mod 4096 = 0" "kend \<le> p + PGSIZE" "0x80000000 \<le> unat (p + PGSIZE)" "unat (p + PGSIZE) \<le> 0x8E001000"
    using Suc.prems st(1) le by (simp_all add: word_le_nat_alt)
  ultimately obtain s' where "freerange_loop kend (p + PGSIZE) vend s1 = Some s'"
    "kmem_inv kend s' (rev (pages_from (p + PGSIZE) k) @ p # ps)" "use_lock s' = use_lock s"
    using Suc.hyps(1) [OF k s1(2)] Suc.prems(6) s1(3) k by metis
  then show ?case using s1(1) le pg by (subst freerange_loop.simps) simp
qed


lemma kinit_frees:
  assumes inv: "kmem_inv kend s ps" and start: "kend \<le> PGROUNDUP vstart" "0x80000000 \<le> unat vstart"
    and le: "unat vstart \<le> unat vend" "unat vend \<le> 0x8E000000"
    and new: "set (pages_from (PGROUNDUP vstart) (whole_pages (PGROUNDUP vstart) vend)) \<inter> set ps = {}"
  defines "qs \<equiv> rev (pages_from (PGROUNDUP vstart) (whole_pages (PGROUNDUP vstart) vend))"
  shows "\<exists>s'. kinit1 kend vstart vend s = Some s' \<and> kmem_inv kend s' (qs @ ps) \<and> \<not> use_lock s'"
    and "\<exists>s'. kinit2 kend vstart vend s = Some s' \<and> kmem_inv kend s' (qs @ ps) \<and> use_lock s'"
proof -
  let ?p = "PGROUNDUP vstart"
  have "unat ?p = (unat vstart + 4095) div 4096 * 4096" using le by (intro unat_PGROUNDUP) simp
  then have p: "unat ?p mod 4096 = 0" "unat vstart \<le> unat ?p" "unat ?p \<le> unat vstart + 4095"
    using div_mult_mod_eq [of "unat vstart + 4095" 4096] mod_less_divisor [of 4096 "unat vstart + 4095"] by auto
  have fr: "\<exists>s'. freerange kend vstart vend s = Some s' \<and> kmem_inv kend s' (qs @ ps) \<and> use_lock s' = use_lock s"
    if "kmem_inv kend s ps" for s
    unfolding freerange_def qs_def using p start le new that by (intro freerange_loop_frees) auto
  have "kmem_inv kend (s\<lparr>use_lock := False\<rparr>) ps" using inv by (simp add: kmem_inv_def)
  from fr [OF this] show "\<exists>s'. kinit1 kend vstart vend s = Some s' \<and> kmem_inv kend s' (qs @ ps) \<and> \<not> use_lock s'"
    by (auto simp: kinit1_def)
  from fr [OF inv] obtain s' where s': "freerange kend vstart vend s = Some s'" "kmem_inv kend s' (qs @ ps)" by blast
  then have "kmem_inv kend (s'\<lparr>use_lock := True\<rparr>) (qs @ ps)" by (simp add: kmem_inv_def)
  with s'(1) show "\<exists>s'. kinit2 kend vstart vend s = Some s' \<and> kmem_inv kend s' (qs @ ps) \<and> use_lock s'"
    by (simp add: kinit2_def)
qed

text \<open>The page allocator keeps the contract of a pool.\<close>

interpretation page_pool: buffer_pool "kmem_inv kend" kalloc "kfree kend" 0 "Collect (page_ok kend)"
  for kend
proof
  fix s ps assume "kmem_inv kend s ps"
  then show "distinct ps \<and> set ps \<subseteq> Collect (page_ok kend)" by (auto simp: kmem_inv_def)
  show "0 \<notin> Collect (page_ok kend)" using page_okD(1) [of kend 0] by auto
next
  fix s p ps assume "kmem_inv kend s (p # ps)"
  from kalloc_pops [OF this] show "\<exists>s'. kalloc s = (p, s') \<and> kmem_inv kend s' ps" by auto
next
  fix s assume "kmem_inv kend s []"
  from kalloc_pops [OF this] show "kalloc s = (0, s)" by simp
next
  fix s ps p assume "kmem_inv kend s ps" "p \<in> Collect (page_ok kend)" "p \<notin> set ps"
  then show "\<exists>s'. kfree kend p s = Some s' \<and> kmem_inv kend s' (p # ps)" using kfree_pushes [of kend s ps p] by auto
qed

end
