(* ===== verification/Xv6_Spinlock.thy ===== *)
theory Xv6_Spinlock
  imports Main
begin

text \<open>
  Spin locks of xv6 (\<open>spinlock.c\<close>) and the nesting of disabled interrupts.  A CPU is given by its
  interrupt flag and its entries in \<open>cpus\<close>.  Acquiring and releasing a lock take more than one access
  to shared memory; each access is a step, and the steps of the CPUs are interleaved.  A panic has no
  result.  The call stack that a lock records for debugging is not modelled, and neither is that the
  scheduler keeps \<open>intena\<close> with the process when it switches to another.
\<close>

section \<open>Operations\<close>

record lcpu =
  ncli :: int
  intena :: bool
  iflag :: bool

record spinlock =
  locked :: bool
  lk_cpu :: "nat option"

record locks =
  lcpus :: "nat \<Rightarrow> lcpu"
  lks :: "nat \<Rightarrow> spinlock"

definition upd_lcpu :: "nat \<Rightarrow> (lcpu \<Rightarrow> lcpu) \<Rightarrow> locks \<Rightarrow> locks" where
  "upd_lcpu c f s = s\<lparr>lcpus := (lcpus s)(c := f (lcpus s c))\<rparr>"

definition upd_lk :: "nat \<Rightarrow> (spinlock \<Rightarrow> spinlock) \<Rightarrow> locks \<Rightarrow> locks" where
  "upd_lk l f s = s\<lparr>lks := (lks s)(l := f (lks s l))\<rparr>"

definition initlock :: "nat \<Rightarrow> locks \<Rightarrow> locks" where
  "initlock l s = upd_lk l (\<lambda>k. k\<lparr>locked := False, lk_cpu := None\<rparr>) s"

definition pushcli :: "nat \<Rightarrow> locks \<Rightarrow> locks" where
  "pushcli c s = upd_lcpu c (\<lambda>x. x\<lparr>iflag := False, intena := (if ncli x = 0 then iflag x else intena x), ncli := ncli x + 1\<rparr>) s"

definition popcli :: "nat \<Rightarrow> locks \<Rightarrow> locks option" where
  "popcli c s =
     (let x = lcpus s c
      in if iflag x then None
         else if ncli x - 1 < 0 then None
         else Some (upd_lcpu c (\<lambda>x. x\<lparr>ncli := ncli x - 1, iflag := (ncli x - 1 = 0 \<and> intena x)\<rparr>) s))"

definition holding :: "nat \<Rightarrow> nat \<Rightarrow> locks \<Rightarrow> (bool \<times> locks) option" where
  "holding c l s =
     (let s = pushcli c s; r = (locked (lks s l) \<and> lk_cpu (lks s l) = Some c)
      in map_option (\<lambda>s. (r, s)) (popcli c s))"

text \<open>\<open>acquire\<close> up to its loop, one turn of the loop, and what follows it.\<close>

definition acquire_enter :: "nat \<Rightarrow> nat \<Rightarrow> locks \<Rightarrow> locks option" where
  "acquire_enter c l s =
     (case holding c l (pushcli c s) of
        None \<Rightarrow> None
      | Some (r, s) \<Rightarrow> if r then None else Some s)"

definition acquire_xchg :: "nat \<Rightarrow> locks \<Rightarrow> bool \<times> locks" where
  "acquire_xchg l s = (locked (lks s l), upd_lk l (\<lambda>k. k\<lparr>locked := True\<rparr>) s)"

definition acquire_record :: "nat \<Rightarrow> nat \<Rightarrow> locks \<Rightarrow> locks" where
  "acquire_record c l s = upd_lk l (\<lambda>k. k\<lparr>lk_cpu := Some c\<rparr>) s"

text \<open>\<open>release\<close> up to the barrier, and the rest.\<close>

definition release_clear :: "nat \<Rightarrow> nat \<Rightarrow> locks \<Rightarrow> locks option" where
  "release_clear c l s =
     (case holding c l s of
        None \<Rightarrow> None
      | Some (r, s) \<Rightarrow> if r then Some (upd_lk l (\<lambda>k. k\<lparr>lk_cpu := None\<rparr>) s) else None)"

definition release_unlock :: "nat \<Rightarrow> nat \<Rightarrow> locks \<Rightarrow> locks option" where
  "release_unlock c l s = popcli c (upd_lk l (\<lambda>k. k\<lparr>locked := False\<rparr>) s)"

section \<open>Runs\<close>

text \<open>
  Where a CPU is: outside of the operations, in the loop of \<open>acquire\<close>, between the exchange and the
  record, or between the two parts of \<open>release\<close>.
\<close>

datatype lk_pc = Out | Spin nat | Got nat | Cleared nat

text \<open>
  All interleavings, from a state in which every lock has been initialised.  \<open>own c\<close> are the locks of CPU \<open>c\<close>, and \<open>ex c\<close> counts the calls of \<open>pushcli\<close> by other
  code that it has not yet undone, and \<open>fl c\<close> is the interrupt flag that code outside of all of this has last chosen.
\<close>

inductive lock_run :: "locks \<Rightarrow> (nat \<Rightarrow> lk_pc) \<Rightarrow> (nat \<Rightarrow> nat list) \<Rightarrow> (nat \<Rightarrow> nat) \<Rightarrow> (nat \<Rightarrow> bool) \<Rightarrow> bool" where
  boot: "(\<forall>l. lks s l = lks (initlock l s0) l) \<Longrightarrow> (\<forall>c. ncli (lcpus s c) = 0) \<Longrightarrow>
    lock_run s (\<lambda>_. Out) (\<lambda>_. []) (\<lambda>_. 0) (\<lambda>c. iflag (lcpus s c))"
| enter: "lock_run s pc own ex fl \<Longrightarrow> pc c = Out \<Longrightarrow> acquire_enter c l s = Some s' \<Longrightarrow> lock_run s' (pc(c := Spin l)) own ex fl"
| spin: "lock_run s pc own ex fl \<Longrightarrow> pc c = Spin l \<Longrightarrow> acquire_xchg l s = (old, s') \<Longrightarrow>
    lock_run s' (pc(c := if old then Spin l else Got l)) own ex fl"
| got: "lock_run s pc own ex fl \<Longrightarrow> pc c = Got l \<Longrightarrow> lock_run (acquire_record c l s) (pc(c := Out)) (own(c := l # own c)) ex fl"
| clear: "lock_run s pc own ex fl \<Longrightarrow> pc c = Out \<Longrightarrow> release_clear c l s = Some s' \<Longrightarrow>
    lock_run s' (pc(c := Cleared l)) (own(c := remove1 l (own c))) ex fl"
| unlock: "lock_run s pc own ex fl \<Longrightarrow> pc c = Cleared l \<Longrightarrow> release_unlock c l s = Some s' \<Longrightarrow> lock_run s' (pc(c := Out)) own ex fl"
| push: "lock_run s pc own ex fl \<Longrightarrow> pc c = Out \<Longrightarrow> lock_run (pushcli c s) pc own (ex(c := ex c + 1)) fl"
| pop: "lock_run s pc own ex fl \<Longrightarrow> pc c = Out \<Longrightarrow> 0 < ex c \<Longrightarrow> popcli c s = Some s' \<Longrightarrow> lock_run s' pc own (ex(c := ex c - 1)) fl"
| flag: "lock_run s pc own ex fl \<Longrightarrow> pc c = Out \<Longrightarrow> ncli (lcpus s c) = 0 \<Longrightarrow>
    lock_run (upd_lcpu c (\<lambda>x. x\<lparr>iflag := b\<rparr>) s) pc own ex (fl(c := b))"

section \<open>The invariant\<close>

text \<open>The lock that a CPU has in hand inside of an operation, and the depth of nesting.\<close>

fun in_hand :: "lk_pc \<Rightarrow> nat list" where
  "in_hand (Got l) = [l]"
| "in_hand (Cleared l) = [l]"
| "in_hand _ = []"

definition depth :: "lk_pc \<Rightarrow> nat list \<Rightarrow> nat \<Rightarrow> nat" where
  "depth x os e = length os + e + (if x = Out then 0 else 1)"

definition cpu_inv :: "lcpu \<Rightarrow> lk_pc \<Rightarrow> nat list \<Rightarrow> nat \<Rightarrow> bool \<Rightarrow> bool" where
  "cpu_inv x p os e f \<longleftrightarrow> ncli x = int (depth p os e) \<and> distinct (in_hand p @ os) \<and>
     (if depth p os e = 0 then iflag x = f else \<not> iflag x \<and> intena x = f)"

text \<open>A lock is taken by at most one CPU, and records it once the CPU has said so.\<close>

definition taken :: "(nat \<Rightarrow> lk_pc) \<Rightarrow> (nat \<Rightarrow> nat list) \<Rightarrow> nat \<Rightarrow> nat \<Rightarrow> bool" where
  "taken pc own l c \<longleftrightarrow> l \<in> set (in_hand (pc c)) \<or> l \<in> set (own c)"

definition lock_inv :: "spinlock \<Rightarrow> nat \<Rightarrow> (nat \<Rightarrow> lk_pc) \<Rightarrow> (nat \<Rightarrow> nat list) \<Rightarrow> bool" where
  "lock_inv k l pc own \<longleftrightarrow> (\<forall>c. lk_cpu k = Some c \<longleftrightarrow> l \<in> set (own c)) \<and>
     (locked k \<longleftrightarrow> (\<exists>c. taken pc own l c)) \<and> (\<forall>c d. taken pc own l c \<longrightarrow> taken pc own l d \<longrightarrow> c = d)"

definition run_inv :: "locks \<Rightarrow> (nat \<Rightarrow> lk_pc) \<Rightarrow> (nat \<Rightarrow> nat list) \<Rightarrow> (nat \<Rightarrow> nat) \<Rightarrow> (nat \<Rightarrow> bool) \<Rightarrow> bool" where
  "run_inv s pc own ex fl \<longleftrightarrow> (\<forall>c. cpu_inv (lcpus s c) (pc c) (own c) (ex c) (fl c)) \<and> (\<forall>l. lock_inv (lks s l) l pc own)"

lemma upd_simps [simp]:
  "lcpus (upd_lcpu c f s) = (lcpus s)(c := f (lcpus s c))" "lks (upd_lcpu c f s) = lks s"
  "lks (upd_lk l g s) = (lks s)(l := g (lks s l))" "lcpus (upd_lk l g s) = lcpus s"
  by (simp_all add: upd_lcpu_def upd_lk_def)

text \<open>Asking whether a lock is held leaves everything as it was.\<close>

lemma holding_result:
  assumes "0 \<le> ncli (lcpus s c)" "0 < ncli (lcpus s c) \<longrightarrow> \<not> iflag (lcpus s c)"
  shows "\<exists>s'. holding c l s = Some (locked (lks s l) \<and> lk_cpu (lks s l) = Some c, s') \<and> lks s' = lks s \<and>
    ncli (lcpus s' c) = ncli (lcpus s c) \<and> iflag (lcpus s' c) = iflag (lcpus s c) \<and>
    (0 < ncli (lcpus s c) \<longrightarrow> intena (lcpus s' c) = intena (lcpus s c)) \<and> (\<forall>d. d \<noteq> c \<longrightarrow> lcpus s' d = lcpus s d)"
proof -
  have "\<not> ncli (lcpus (pushcli c s) c) - 1 < 0" "\<not> iflag (lcpus (pushcli c s) c)" using assms by (simp_all add: pushcli_def)
  then obtain s' where s': "popcli c (pushcli c s) = Some s'" by (simp add: popcli_def Let_def)
  then have "s' = upd_lcpu c (\<lambda>x. x\<lparr>ncli := ncli x - 1, iflag := (ncli x - 1 = 0 \<and> intena x)\<rparr>) (pushcli c s)"
    by (simp add: popcli_def Let_def split: if_splits)
  then have "lks s' = lks s" "ncli (lcpus s' c) = ncli (lcpus s c)" "iflag (lcpus s' c) = iflag (lcpus s c)"
    "0 < ncli (lcpus s c) \<longrightarrow> intena (lcpus s' c) = intena (lcpus s c)" "\<forall>d. d \<noteq> c \<longrightarrow> lcpus s' d = lcpus s d"
    using assms by (auto simp: pushcli_def)
  moreover have "holding c l s = Some (locked (lks s l) \<and> lk_cpu (lks s l) = Some c, s')"
    using s' by (simp add: holding_def Let_def) (simp add: pushcli_def)
  ultimately show ?thesis by blast
qed

lemma lock_invD:
  assumes "lock_inv k l pc own"
  shows "lk_cpu k = Some c \<longleftrightarrow> l \<in> set (own c)" "taken pc own l c \<Longrightarrow> locked k" "\<not> locked k \<Longrightarrow> \<not> taken pc own l c"
    "taken pc own l c \<Longrightarrow> taken pc own l d \<Longrightarrow> c = d"
proof -
  note i = assms [unfolded lock_inv_def]
  show "lk_cpu k = Some c \<longleftrightarrow> l \<in> set (own c)" by (rule spec [OF conjunct1 [OF i]])
  show "taken pc own l c \<Longrightarrow> locked k" "\<not> locked k \<Longrightarrow> \<not> taken pc own l c" using i by blast+
  show "taken pc own l c \<Longrightarrow> taken pc own l d \<Longrightarrow> c = d" using i by blast
qed

lemma run_invD:
  assumes "run_inv s pc own ex fl"
  shows "cpu_inv (lcpus s c) (pc c) (own c) (ex c) (fl c)" "lock_inv (lks s l) l pc own"
  using assms by (simp_all add: run_inv_def)

lemma cpu_invD:
  assumes "cpu_inv x p os e f"
  shows "0 \<le> ncli x" "0 < ncli x \<longrightarrow> \<not> iflag x"
  using assms by (auto simp: cpu_inv_def)

text \<open>Steps that change one CPU and no lock.\<close>

lemma run_inv_cpu:
  assumes inv: "run_inv s pc own ex fl" and lks: "lks s' = lks s" and other: "\<And>d. d \<noteq> c \<Longrightarrow> lcpus s' d = lcpus s d \<and> ex' d = ex d \<and> fl' d = fl d"
    and c: "cpu_inv (lcpus s' c) x (own c) (ex' c) (fl' c)" and hand: "in_hand x = in_hand (pc c)"
  shows "run_inv s' (pc(c := x)) own ex' fl'"
proof -
  have "taken (pc(c := x)) own = taken pc own" by (auto simp: taken_def fun_eq_iff hand)
  then have "lock_inv (lks s' l) l (pc(c := x)) own" for l using run_invD(2) [OF inv, of l] by (simp add: lock_inv_def lks)
  moreover have "cpu_inv (lcpus s' d) ((pc(c := x)) d) (own d) (ex' d) (fl' d)" for d
    using run_invD(1) [OF inv, of d] other [of d] c by (cases "d = c") auto
  ultimately show ?thesis by (simp add: run_inv_def)
qed

text \<open>Steps that change one CPU and one lock.\<close>

lemma run_inv_lock:
  assumes inv: "run_inv s pc own ex fl" and lk: "\<And>m. m \<noteq> l \<Longrightarrow> lks s' m = lks s m" "lock_inv (lks s' l) l (pc(c := x)) (own(c := os))"
    and other: "\<And>d. d \<noteq> c \<Longrightarrow> lcpus s' d = lcpus s d" and c: "cpu_inv (lcpus s' c) x os (ex c) (fl c)"
    and m: "\<And>m. m \<noteq> l \<Longrightarrow> m \<in> set (in_hand x) \<longleftrightarrow> m \<in> set (in_hand (pc c))" "\<And>m. m \<noteq> l \<Longrightarrow> m \<in> set os \<longleftrightarrow> m \<in> set (own c)"
  shows "run_inv s' (pc(c := x)) (own(c := os)) ex fl"
proof -
  have "lock_inv (lks s' k) k (pc(c := x)) (own(c := os))" for k
  proof (cases "k = l")
    case False
    then have "taken (pc(c := x)) (own(c := os)) k = taken pc own k" using m by (auto simp: taken_def fun_eq_iff)
    moreover have "k \<in> set ((own(c := os)) d) \<longleftrightarrow> k \<in> set (own d)" for d using m(2) [OF False] by simp
    ultimately show ?thesis using run_invD(2) [OF inv, of k] lk(1) [OF False] by (simp add: lock_inv_def)
  qed (use lk(2) in simp)
  moreover have "cpu_inv (lcpus s' d) ((pc(c := x)) d) ((own(c := os)) d) (ex d) (fl d)" for d
    using run_invD(1) [OF inv, of d] other [of d] c by (cases "d = c") auto
  ultimately show ?thesis by (simp add: run_inv_def)
qed

lemma run_inv_enter:
  assumes inv: "run_inv s pc own ex fl" and pc: "pc c = Out" and s': "acquire_enter c l s = Some s'"
  shows "run_inv s' (pc(c := Spin l)) own ex fl"
proof -
  let ?s = "pushcli c s"
  have i: "cpu_inv (lcpus s c) Out (own c) (ex c) (fl c)" using run_invD(1) [OF inv, of c] pc by simp
  have p: "lks ?s = lks s" "ncli (lcpus ?s c) = ncli (lcpus s c) + 1" "\<not> iflag (lcpus ?s c)" "\<And>d. d \<noteq> c \<Longrightarrow> lcpus ?s d = lcpus s d"
    "intena (lcpus ?s c) = (if ncli (lcpus s c) = 0 then iflag (lcpus s c) else intena (lcpus s c))"
    by (simp_all add: pushcli_def)
  have "0 \<le> ncli (lcpus ?s c)" "0 < ncli (lcpus ?s c) \<longrightarrow> \<not> iflag (lcpus ?s c)" using cpu_invD [OF i] p by simp_all
  from holding_result [OF this, of l] obtain s2 where
    h: "holding c l ?s = Some (locked (lks ?s l) \<and> lk_cpu (lks ?s l) = Some c, s2)" "lks s2 = lks ?s"
    "ncli (lcpus s2 c) = ncli (lcpus ?s c)" "iflag (lcpus s2 c) = iflag (lcpus ?s c)"
    "0 < ncli (lcpus ?s c) \<longrightarrow> intena (lcpus s2 c) = intena (lcpus ?s c)" "\<forall>d. d \<noteq> c \<longrightarrow> lcpus s2 d = lcpus ?s d" by blast
  have e: "s' = s2" using s' h(1) by (simp add: acquire_enter_def split: if_splits)
  have "cpu_inv (lcpus s2 c) (Spin l) (own c) (ex c) (fl c)"
    using i h(3-5) p(2,3,5) by (cases "own c") (auto simp: cpu_inv_def depth_def split: if_splits)
  moreover have "d \<noteq> c \<Longrightarrow> lcpus s2 d = lcpus s d" for d using h(6) p(4) by simp
  ultimately show ?thesis using h(2) p(1) pc unfolding e by (intro run_inv_cpu [OF inv]) simp_all
qed

lemma run_inv_spin:
  assumes inv: "run_inv s pc own ex fl" and pc: "pc c = Spin l" and s': "acquire_xchg l s = (old, s')"
  shows "run_inv s' (pc(c := if old then Spin l else Got l)) own ex fl"
proof (cases old)
  case True
  then have "(lks s l)\<lparr>locked := True\<rparr> = lks s l" using s' by (cases "lks s l") (simp add: acquire_xchg_def)
  then have "s' = s" using s' by (simp add: acquire_xchg_def upd_lk_def)
  then show ?thesis using True pc inv by (simp add: fun_upd_idem)
next
  case False
  then have u: "\<not> locked (lks s l)" and e: "s' = upd_lk l (\<lambda>k. k\<lparr>locked := True\<rparr>) s" using s' by (auto simp: acquire_xchg_def)
  note lv = run_invD(2) [OF inv, of l]
  have none: "\<not> taken pc own l d" for d by (rule lock_invD(3) [OF lv u])
  then have t: "taken (pc(c := Got l)) own l d \<longleftrightarrow> d = c" for d by (auto simp: taken_def)
  have "run_inv s' (pc(c := Got l)) (own(c := own c)) ex fl"
  proof (rule run_inv_lock [OF inv, where l = l])
    show "lock_inv (lks s' l) l (pc(c := Got l)) (own(c := own c))"
      using lock_invD(1) [OF lv] t by (simp add: lock_inv_def e)
    have "l \<notin> set (own c)" using none [of c] by (simp add: taken_def)
    then show "cpu_inv (lcpus s' c) (Got l) (own c) (ex c) (fl c)"
      using run_invD(1) [OF inv, of c] pc by (simp add: e cpu_inv_def depth_def)
  qed (use pc in \<open>simp_all add: e\<close>)
  then show ?thesis using False by simp
qed

lemma run_inv_got:
  assumes inv: "run_inv s pc own ex fl" and pc: "pc c = Got l"
  shows "run_inv (acquire_record c l s) (pc(c := Out)) (own(c := l # own c)) ex fl"
proof (rule run_inv_lock [OF inv, where l = l])
  note lv = run_invD(2) [OF inv, of l]
  have t: "taken pc own l d \<longleftrightarrow> d = c" for d using lock_invD(4) [OF lv, of d c] pc by (auto simp: taken_def)
  have own: "l \<in> set (own d) \<Longrightarrow> d = c" for d using t [of d] by (simp add: taken_def)
  have t': "taken (pc(c := Out)) (own(c := l # own c)) l d \<longleftrightarrow> d = c" for d using t [of d] by (auto simp: taken_def)
  have "locked (lks s l)" using lock_invD(2) [OF lv, of c] t by simp
  then show "lock_inv (lks (acquire_record c l s) l) l (pc(c := Out)) (own(c := l # own c))"
    using own t' by (auto simp: lock_inv_def acquire_record_def)
  show "cpu_inv (lcpus (acquire_record c l s) c) Out (l # own c) (ex c) (fl c)"
    using run_invD(1) [OF inv, of c] pc by (simp add: acquire_record_def cpu_inv_def depth_def)
qed (use pc in \<open>simp_all add: acquire_record_def\<close>)

lemma run_inv_clear:
  assumes inv: "run_inv s pc own ex fl" and pc: "pc c = Out" and s': "release_clear c l s = Some s'"
  shows "run_inv s' (pc(c := Cleared l)) (own(c := remove1 l (own c))) ex fl"
proof -
  note lv = run_invD(2) [OF inv, of l]
  have i: "cpu_inv (lcpus s c) Out (own c) (ex c) (fl c)" using run_invD(1) [OF inv, of c] pc by simp
  obtain s2 where h: "holding c l s = Some (locked (lks s l) \<and> lk_cpu (lks s l) = Some c, s2)" "lks s2 = lks s"
    "ncli (lcpus s2 c) = ncli (lcpus s c)" "iflag (lcpus s2 c) = iflag (lcpus s c)"
    "0 < ncli (lcpus s c) \<longrightarrow> intena (lcpus s2 c) = intena (lcpus s c)" "\<forall>d. d \<noteq> c \<longrightarrow> lcpus s2 d = lcpus s d"
    using holding_result [OF cpu_invD [OF i], of l] by blast
  then have e: "s' = upd_lk l (\<lambda>k. k\<lparr>lk_cpu := None\<rparr>) s2" and l: "locked (lks s l)" "l \<in> set (own c)"
    using s' lock_invD(1) [OF lv] by (auto simp: release_clear_def split: if_splits)
  have d: "distinct (own c)" using i by (simp add: cpu_inv_def)
  have t: "taken pc own l d \<longleftrightarrow> d = c" for d using lock_invD(4) [OF lv, of d c] l(2) by (auto simp: taken_def)
  have nown: "l \<notin> set ((own(c := remove1 l (own c))) d)" for d using t [of d] d by (auto simp: taken_def)
  have t': "taken (pc(c := Cleared l)) (own(c := remove1 l (own c))) l d \<longleftrightarrow> d = c" for d using t [of d] d by (auto simp: taken_def)
  show ?thesis
  proof (rule run_inv_lock [OF inv, where l = l])
    show "lock_inv (lks s' l) l (pc(c := Cleared l)) (own(c := remove1 l (own c)))"
      using l(1) nown t' h(2) by (simp add: lock_inv_def e)
    have "0 < length (own c)" using l(2) by (rule length_pos_if_in_set)
    then have "depth (Cleared l) (remove1 l (own c)) (ex c) = depth Out (own c) (ex c)"
      using l(2) by (simp add: depth_def length_remove1)
    then show "cpu_inv (lcpus s' c) (Cleared l) (remove1 l (own c)) (ex c) (fl c)"
      using i h(3-5) d by (simp add: e cpu_inv_def split: if_splits)
    show "m \<noteq> l \<Longrightarrow> m \<in> set (remove1 l (own c)) \<longleftrightarrow> m \<in> set (own c)" for m by (simp add: in_set_remove1)
    show "m \<noteq> l \<Longrightarrow> lks s' m = lks s m" for m by (simp add: e h(2))
    show "d \<noteq> c \<Longrightarrow> lcpus s' d = lcpus s d" for d using h(6) by (simp add: e)
    show "m \<noteq> l \<Longrightarrow> m \<in> set (in_hand (Cleared l)) \<longleftrightarrow> m \<in> set (in_hand (pc c))" for m by (simp add: pc)
  qed
qed

lemma popcli_result:
  assumes "cpu_inv x p os e f" "lcpus s c = x" "0 < depth p os e"
  shows "popcli c s = Some (upd_lcpu c (\<lambda>x. x\<lparr>ncli := ncli x - 1, iflag := (ncli x - 1 = 0 \<and> intena x)\<rparr>) s)"
  using assms by (simp add: popcli_def cpu_inv_def Let_def)

lemma run_inv_unlock:
  assumes inv: "run_inv s pc own ex fl" and pc: "pc c = Cleared l" and s': "release_unlock c l s = Some s'"
  shows "run_inv s' (pc(c := Out)) own ex fl"
proof -
  note lv = run_invD(2) [OF inv, of l]
  have i: "cpu_inv (lcpus s c) (Cleared l) (own c) (ex c) (fl c)" using run_invD(1) [OF inv, of c] pc by simp
  let ?s = "upd_lk l (\<lambda>k. k\<lparr>locked := False\<rparr>) s"
  have e: "s' = upd_lcpu c (\<lambda>x. x\<lparr>ncli := ncli x - 1, iflag := (ncli x - 1 = 0 \<and> intena x)\<rparr>) ?s"
    using s' popcli_result [OF i, of ?s c] by (simp add: release_unlock_def depth_def)
  have t: "taken pc own l d \<longleftrightarrow> d = c" for d using lock_invD(4) [OF lv, of d c] pc by (auto simp: taken_def)
  have n: "l \<notin> set (own d)" for d using t [of d] i by (auto simp: taken_def cpu_inv_def)
  have t': "\<not> taken (pc(c := Out)) own l d" for d using t [of d] n [of d] by (auto simp: taken_def)
  have "run_inv s' (pc(c := Out)) (own(c := own c)) ex fl"
  proof (rule run_inv_lock [OF inv, where l = l])
    show "lock_inv (lks s' l) l (pc(c := Out)) (own(c := own c))" using lock_invD(1) [OF lv] n t' by (simp add: lock_inv_def e)
    show "cpu_inv (lcpus s' c) Out (own c) (ex c) (fl c)" using i by (cases "own c") (auto simp: e cpu_inv_def depth_def)
  qed (use pc in \<open>simp_all add: e\<close>)
  then show ?thesis by simp
qed

text \<open>The steps of a CPU outside of the operations.\<close>

lemma run_inv_out:
  assumes inv: "run_inv s pc own ex fl" and pc: "pc c = Out" and s': "s' = upd_lcpu c f s" and c: "cpu_inv (f (lcpus s c)) Out (own c) e b"
  shows "run_inv s' pc own (ex(c := e)) (fl(c := b))"
proof -
  have "run_inv s' (pc(c := Out)) own (ex(c := e)) (fl(c := b))" using c pc by (intro run_inv_cpu [OF inv]) (simp_all add: s')
  moreover have "pc(c := Out) = pc" using pc by (simp add: fun_upd_idem)
  ultimately show ?thesis by simp
qed

theorem lock_run_inv: "lock_run s pc own ex fl \<Longrightarrow> run_inv s pc own ex fl"
proof (induction rule: lock_run.induct)
  case (boot s s0)
  then show ?case by (simp add: initlock_def run_inv_def cpu_inv_def depth_def lock_inv_def taken_def)
next
  case (enter s pc own ex fl c l s')
  then show ?case by (intro run_inv_enter)
next
  case (spin s pc own ex fl c l old s')
  then show ?case by (intro run_inv_spin)
next
  case (got s pc own ex fl c l)
  then show ?case by (intro run_inv_got)
next
  case (clear s pc own ex fl c l s')
  then show ?case by (intro run_inv_clear)
next
  case (unlock s pc own ex fl c l s')
  show ?case by (rule run_inv_unlock [OF unlock.IH unlock.hyps(2,3)])
next
  case (push s pc own ex fl c)
  note i = run_invD(1) [OF push.IH, of c, unfolded push.hyps(2)]
  let ?f = "\<lambda>x. x\<lparr>iflag := False, intena := (if ncli x = 0 then iflag x else intena x), ncli := ncli x + 1\<rparr>"
  have "cpu_inv (?f (lcpus s c)) Out (own c) (ex c + 1) (fl c)"
    using i by (cases "own c") (auto simp: cpu_inv_def depth_def split: if_splits)
  from run_inv_out [OF push.IH push.hyps(2) pushcli_def this] show ?case by (simp only: fun_upd_triv)
next
  case (pop s pc own ex fl c s')
  note i = run_invD(1) [OF pop.IH, of c, unfolded pop.hyps(2)]
  have e: "s' = upd_lcpu c (\<lambda>x. x\<lparr>ncli := ncli x - 1, iflag := (ncli x - 1 = 0 \<and> intena x)\<rparr>) s"
    using popcli_result [OF i refl] pop.hyps by (simp add: depth_def)
  let ?f = "\<lambda>x. x\<lparr>ncli := ncli x - 1, iflag := (ncli x - 1 = 0 \<and> intena x)\<rparr>"
  have "cpu_inv (?f (lcpus s c)) Out (own c) (ex c - 1) (fl c)"
    using i pop.hyps(3) by (cases "own c") (auto simp: cpu_inv_def depth_def split: if_splits)
  from run_inv_out [OF pop.IH pop.hyps(2) e this] show ?case by (simp only: fun_upd_triv)
next
  case (flag s pc own ex fl c b)
  have "cpu_inv ((lcpus s c)\<lparr>iflag := b\<rparr>) Out (own c) (ex c) b"
    using run_invD(1) [OF flag.IH, of c] flag.hyps by (cases "own c") (auto simp: cpu_inv_def depth_def)
  from run_inv_out [OF flag.IH flag.hyps(2) refl, of "\<lambda>x. x\<lparr>iflag := b\<rparr>", OF this] show ?case by (simp only: fun_upd_triv)
qed

section \<open>Consequences\<close>

lemma run_owner:
  assumes "lock_run s pc own ex fl" "l \<in> set (own c)"
  shows "locked (lks s l)" "lk_cpu (lks s l) = Some c" "\<not> iflag (lcpus s c)" "l \<in> set (own d) \<Longrightarrow> d = c"
proof -
  note i = lock_run_inv [OF assms(1)] and lv = run_invD(2) [OF lock_run_inv [OF assms(1)], of l]
  have t: "taken pc own l c" using assms(2) by (simp add: taken_def)
  show "locked (lks s l)" by (rule lock_invD(2) [OF lv t])
  show o: "lk_cpu (lks s l) = Some c" using lock_invD(1) [OF lv, of c] assms(2) by simp
  have "0 < length (own c)" using assms(2) by (rule length_pos_if_in_set)
  then show "\<not> iflag (lcpus s c)" using run_invD(1) [OF i, of c] by (simp add: cpu_inv_def depth_def)
  show "l \<in> set (own d) \<Longrightarrow> d = c" using lock_invD(1) [OF lv, of d] o by simp
qed

text \<open>A CPU outside of the operations panics in \<open>release\<close> unless it owns the lock, and in \<open>acquire\<close> if it does.\<close>

lemma run_holding:
  assumes "lock_run s pc own ex fl"
  shows "\<exists>s'. holding c l s = Some (l \<in> set (own c), s') \<and> lks s' = lks s"
proof -
  note i = lock_run_inv [OF assms]
  note lv = run_invD(2) [OF i, of l]
  have "(locked (lks s l) \<and> lk_cpu (lks s l) = Some c) = (l \<in> set (own c))"
    using lock_invD(1) [OF lv, of c] lock_invD(2) [OF lv, of c] by (auto simp: taken_def)
  then show ?thesis using holding_result [OF cpu_invD [OF run_invD(1) [OF i, of c]], of l] by auto
qed

lemma run_release:
  assumes "lock_run s pc own ex fl"
  shows "release_clear c l s \<noteq> None \<longleftrightarrow> l \<in> set (own c)"
  using run_holding [OF assms, of c l] by (auto simp: release_clear_def split: if_splits)

lemma run_acquire:
  assumes "lock_run s pc own ex fl" "pc c = Out"
  shows "acquire_enter c l s \<noteq> None \<longleftrightarrow> l \<notin> set (own c)"
  using run_holding [OF lock_run.push [OF assms], of c l] by (auto simp: acquire_enter_def split: if_splits)

lemma run_unlock:
  assumes "lock_run s pc own ex fl" "pc c = Cleared l"
  shows "release_unlock c l s \<noteq> None"
proof -
  have "cpu_inv (lcpus s c) (Cleared l) (own c) (ex c) (fl c)" using run_invD(1) [OF lock_run_inv [OF assms(1)], of c] assms(2) by simp
  from popcli_result [OF this] show ?thesis by (simp add: release_unlock_def depth_def)
qed

text \<open>A CPU that holds nothing runs with the interrupt flag that it has chosen.\<close>

lemma run_flag:
  assumes "lock_run s pc own ex fl"
  shows "ncli (lcpus s c) = int (depth (pc c) (own c) (ex c))"
    "iflag (lcpus s c) \<longleftrightarrow> fl c \<and> depth (pc c) (own c) (ex c) = 0"
  using run_invD(1) [OF lock_run_inv [OF assms], of c] by (auto simp: cpu_inv_def split: if_splits)

end
