(* ===== verification/Xv6_Scenario.thy ===== *)
theory Xv6_Scenario
  imports Xv6_Inode Xv6_Rcu Xv6_Pipe Xv6_Mem_Spec Xv6_Spinlock
begin

text \<open>
  Concrete states of xv6, the data of the witnesses: a small file system before and inside of a
  transaction, a run on two CPUs in which a process waits for a section to end, and two CPUs at a spin
  lock.
\<close>

section \<open>A file system\<close>

text \<open>Forty blocks: the superblock in block 1, the log from block 2, inodes in block 33, the bitmap in block 34.\<close>

definition fx_sb :: superblock where
  "fx_sb = \<lparr>sb_size = 40, sb_nblocks = 5, sb_ninodes = 8, sb_nlog = 31, sb_logstart = 2, sb_inodestart = 33, sb_bmapstart = 34\<rparr>"

definition fx_map :: block where
  "fx_map = [255, 255, 255, 255, 15] @ replicate 507 0"

definition fx_disk :: "u32 \<Rightarrow> block" where
  "fx_disk n = (if n = 1 then put32 16 2 (replicate BSIZE 0) else if n = 34 then fx_map else replicate BSIZE 0)"

definition fx_inode :: inode where
  "fx_inode = \<lparr>i_dev = 1, i_inum = 3, i_ref = 1, i_locked = True, i_valid = True, i_type = T_FILE, i_major = 0, i_minor = 0,
     i_nlink = 1, i_size = 700, i_addrs = (\<lambda>k. if k = 0 then 35 else 0)\<rparr>"

definition no_inode :: inode where
  "no_inode = \<lparr>i_dev = 0, i_inum = 0, i_ref = 0, i_locked = False, i_valid = False, i_type = 0, i_major = 0, i_minor = 0,
     i_nlink = 0, i_size = 0, i_addrs = (\<lambda>k. 0)\<rparr>"

definition fx_fs :: xfs where
  "fx_fs = \<lparr>disk = fx_disk, disksize = 40, bufs = (\<lambda>_. zero_buf), lru = rev [0..<NBUF], dtrace = [],
     lg_start = 2, lg_size = 31, lg_outstanding = 1, lg_committing = False, lg_dev = 1, lh_n = 0, lh_block = (\<lambda>_. 0),
     fsb = fx_sb, icache = (\<lambda>_. no_inode)(0 := fx_inode), cwd = 0\<rparr>"

lemma fx_fs_fields [simp]:
  "disk fx_fs = fx_disk" "disksize fx_fs = 40" "bufs fx_fs = (\<lambda>_. zero_buf)" "lru fx_fs = rev [0..<NBUF]" "dtrace fx_fs = []"
  "lg_start fx_fs = 2" "lg_size fx_fs = 31" "lg_outstanding fx_fs = 1" "lg_committing fx_fs = False" "lg_dev fx_fs = 1"
  "lh_n fx_fs = 0" "fsb fx_fs = fx_sb" "icache fx_fs 0 = fx_inode"
  by (simp_all add: fx_fs_def)

lemma fx_cache: "bio_inv fx_fs" "blk fx_fs = fx_disk" "\<not> dirty fx_fs m" "\<not> held fx_fs m" "pinned fx_fs = {}"
  using empty_cache [of fx_fs] by simp_all

lemma fx_log_region: "m \<in> log_region fx_fs \<longleftrightarrow> 2 \<le> unat m \<and> unat m \<le> 32"
proof -
  have slot: "unat (log_slot fx_fs i) = i + 3" if "i < 30" for i
    using that by (simp add: log_slot_def unat_word_ariths unat_of_nat)
  have "m \<in> log_region fx_fs \<longleftrightarrow> unat m = 2 \<or> (\<exists>i < 30. unat m = i + 3)"
    by (auto simp: log_region_def LOGSIZE_def MAXOPBLOCKS_def image_iff word_unat_eq_iff slot)
  also have "\<dots> \<longleftrightarrow> 2 \<le> unat m \<and> unat m \<le> 32"
    by (auto intro: exI [of _ "unat m - 3"])
  finally show ?thesis .
qed

lemma fx_tx_ok: "tx_ok fx_fs"
  using fx_cache by (auto simp: tx_ok_def log_ok_def fx_log_region NBUF_def MAXOPBLOCKS_def word_less_nat_alt)

lemma fx_home: "home fx_fs n \<longleftrightarrow> n = 0 \<or> 33 \<le> unat n \<and> unat n < 40"
proof -
  have "n = 0 \<longleftrightarrow> unat n = 0" "n = 1 \<longleftrightarrow> unat n = 1" by (simp_all add: word_unat_eq_iff)
  then show ?thesis by (auto simp: home_def fx_log_region word_less_nat_alt)
qed

lemma fx_room: "tx_room 3 fx_fs"
  by (simp add: tx_room_def NBUF_def MAXOPBLOCKS_def)

lemma fx_disk_ok: "disk_ok fx_fs"
  by (simp add: disk_ok_def fx_disk_def sb_of_def get32_def put32_def BSIZE_def)

lemma fx_map_block: "b < 40 \<Longrightarrow> map_block fx_fs b = 34"
  by (simp add: map_block_def BBLOCK_def fx_sb_def BPB_def BSIZE_def word_unat_eq_iff unat_word_ariths unat_div unat_of_nat)

lemma fx_used: "b < 40 \<Longrightarrow> used fx_fs b \<longleftrightarrow> b < 36"
proof -
  assume b: "b < 40"
  have "list_all (\<lambda>b. bit_free fx_map (b mod BPB) \<longleftrightarrow> 36 \<le> b) [0..<40]" by code_simp
  then have "bit_free fx_map (b mod BPB) \<longleftrightarrow> 36 \<le> b" using b by (simp add: list_all_iff)
  then show ?thesis using fx_map_block [OF b] by (auto simp: used_def fx_cache(2) fx_disk_def)
qed

lemma fx_map_ok: "map_ok fx_fs" "\<exists>b < unat (sb_size (fsb fx_fs)). \<not> used fx_fs b"
proof -
  have n: "unat (sb_size (fsb fx_fs)) = 40" by (simp add: fx_sb_def)
  have "length fx_map = 512" by (simp add: fx_map_def)
  then have "length (blk fx_fs 34) = BSIZE" by (simp add: fx_cache(2) fx_disk_def BSIZE_def)
  moreover have "home fx_fs (word_of_nat b) \<and> (34 :: u32) \<noteq> word_of_nat b" if "b < 40" "36 \<le> b" for b
    using that by (simp add: fx_home word_unat_eq_iff unat_of_nat)
  moreover have "home fx_fs 34" by (simp add: fx_home)
  ultimately show "map_ok fx_fs" unfolding map_ok_def n by (auto simp: fx_used fx_map_block)
  show "\<exists>b < unat (sb_size (fsb fx_fs)). \<not> used fx_fs b" unfolding n by (auto simp: fx_used intro!: exI [of _ 36])
qed

text \<open>The same in a transaction that has written block 36.\<close>

definition fx_data :: block where
  "fx_data = replicate BSIZE 7"

definition fx_dirty :: xfs where
  "fx_dirty = the (update_block 36 (\<lambda>_. fx_data) fx_fs)"

lemma fx_dirty_step: "tx_step (fx_disk(36 := fx_data)) 1 fx_fs fx_dirty"
proof -
  have "home fx_fs 36" by (simp add: fx_home)
  from update_block_step [OF fx_tx_ok this, of 2 "\<lambda>_. fx_data"] fx_room show ?thesis
    by (auto simp: fx_dirty_def fx_cache(2) numeral_3_eq_3 numeral_2_eq_2)
qed

lemma fx_dirty_ok: "tx_ok fx_dirty" "disk_ok fx_dirty" "0 < lh_n fx_dirty" "blk fx_dirty 36 = fx_data" "disk fx_dirty 36 \<noteq> fx_data"
proof -
  note st = fx_dirty_step [unfolded tx_step_def]
  show ok: "tx_ok fx_dirty" using st by blast
  have d: "disk fx_dirty = fx_disk" using st by simp
  show "disk_ok fx_dirty" using st fx_disk_ok by (simp add: disk_ok_def)
  show b: "blk fx_dirty 36 = fx_data" using st by simp
  show ne: "disk fx_dirty 36 \<noteq> fx_data" by (simp add: d fx_disk_def fx_data_def BSIZE_def replicate_eqI)
  show "0 < lh_n fx_dirty"
  proof (rule ccontr)
    assume "\<not> 0 < lh_n fx_dirty"
    then have "blk fx_dirty 36 = disk fx_dirty 36" by (intro tx_clean_blk [OF ok]) simp
    with b ne show False by simp
  qed
qed

text \<open>With an empty inode cache.\<close>

lemma iget_empty:
  assumes "\<forall>i < NINODE. i_ref (icache s i) = 0"
  shows "iget dev inum s = Some (0, upd_ino 0 (\<lambda>i. i\<lparr>i_dev := dev, i_inum := inum, i_ref := 1, i_valid := False\<rparr>) s)"
proof -
  have "[0..<NINODE] = 0 # [Suc 0..<NINODE]" by (rule upt_conv_Cons) (simp add: NINODE_def)
  moreover have "find (\<lambda>ip. i_ref (icache s ip) > 0 \<and> i_dev (icache s ip) = dev \<and> i_inum (icache s ip) = inum) [0..<NINODE] = None"
    using assms by (auto simp: find_None_iff)
  ultimately show ?thesis using assms by (simp add: iget_def NINODE_def)
qed

section \<open>A pipe\<close>

text \<open>Two bytes written across the overflow of the counters.\<close>

definition px_pipe :: pipe where
  "px_pipe = pipe_put 8 (pipe_put 7
     \<lparr>p_data = (\<lambda>_. 0), nread = 2 ^ 32 - 1, nwrite = 2 ^ 32 - 1, readopen = True, writeopen = True\<rparr>)"

lemma px_pipe: "pipe_inv px_pipe" "pipe_bytes px_pipe = [7, 8]" "\<not> pipe_empty px_pipe"
proof -
  have two: "[0..<2] = [0, 1 :: nat]" by code_simp
  show "pipe_inv px_pipe" "pipe_bytes px_pipe = [7, 8]" "\<not> pipe_empty px_pipe"
    by (simp_all add: px_pipe_def pipe_inv_def pipe_bytes_def pipe_len_def pipe_put_def pipe_empty_def PIPESIZE_def two)
qed

lemma px_reader: "takes_bytes (\<lambda>p. p\<lparr>nread := nwrite p\<rparr>)"
proof -
  have e: "pipe_len (p\<lparr>nread := nwrite p\<rparr>) = 0" for p by (simp add: pipe_len_def)
  then have b: "pipe_bytes (p\<lparr>nread := nwrite p\<rparr>) = drop (pipe_len p) (pipe_bytes p)" for p by (simp add: pipe_bytes_def)
  have f: "\<not> pipe_full (p\<lparr>nread := nwrite p\<rparr>)" for p using e [of p] by (simp add: pipe_full_iff PIPESIZE_def)
  show ?thesis unfolding takes_bytes_def
  proof (intro conjI allI impI)
    fix p assume "pipe_inv p"
    show "pipe_inv (p\<lparr>nread := nwrite p\<rparr>)" by (simp add: pipe_inv_def e)
    show "\<exists>j. pipe_bytes (p\<lparr>nread := nwrite p\<rparr>) = drop j (pipe_bytes p)" using b by blast
    show "\<exists>n. \<not> pipe_full (((\<lambda>p. p\<lparr>nread := nwrite p\<rparr>) ^^ n) p) \<or> \<not> readopen (((\<lambda>p. p\<lparr>nread := nwrite p\<rparr>) ^^ n) p)"
      using f by (intro exI [of _ 1]) simp
  qed
qed

lemma px_writer: "adds_bytes (\<lambda>p. p\<lparr>writeopen := False\<rparr>)"
  unfolding adds_bytes_def
proof (intro conjI allI impI)
  fix p assume "pipe_inv p"
  then show "pipe_inv (p\<lparr>writeopen := False\<rparr>)" by (simp add: pipe_inv_def pipe_len_def)
  show "\<exists>ds. pipe_bytes (p\<lparr>writeopen := False\<rparr>) = pipe_bytes p @ ds" by (intro exI [of _ "[]"]) (simp add: pipe_bytes_def pipe_len_def)
  show "\<exists>n. \<not> pipe_empty (((\<lambda>p. p\<lparr>writeopen := False\<rparr>) ^^ n) p) \<or> \<not> writeopen (((\<lambda>p. p\<lparr>writeopen := False\<rparr>) ^^ n) p)"
    by (intro exI [of _ 1]) simp
qed

section \<open>Two CPUs\<close>

definition no_proc :: proc where
  "no_proc = \<lparr>p_sz = 0, p_pgdir = 0, p_kstack = 0, p_state = RUNNABLE, p_pid = 0, p_parent = None, p_tf = empty_frame, p_chan = 0,
     p_killed = False, p_ofile = (\<lambda>_. None), p_cwd = None, p_name = replicate 16 0, allowed_cpu = - 1\<rparr>"

definition kx_pages :: kmem where
  "kx_pages = \<lparr>use_lock = True, freelist = 0, pmem = (\<lambda>_. 0)\<rparr>"

definition kx_boot :: kern where
  "kx_boot = \<lparr>procs = (\<lambda>_. no_proc), initproc = 0, nextpid = 1,
     cpus = (\<lambda>c. \<lparr>apicid = int c, cpu_proc = None, preempt_disable_count = 0\<rparr>), ncpu = 2,
     kfs = \<lparr>ftable = (\<lambda>_. \<lparr>f_type = FD_NONE, f_ref = 0, f_readable = False, f_writable = False, f_pipe = 0, f_ip = 0, f_off = 0\<rparr>),
       pipes = (\<lambda>_. \<lparr>p_data = (\<lambda>_. 0), nread = 0, nwrite = 0, readopen = False, writeopen = False\<rparr>), pages = kx_pages, fs = fx_fs\<rparr>\<rparr>"

text \<open>Process 0 runs on CPU 0 and is in a section when process 1, on CPU 1, calls \<open>call_rcu\<close>.\<close>

definition kx_both :: kern where
  "kx_both = run_proc 1 1 (run_proc 0 0 kx_boot)"

definition kx_section :: kern where
  "kx_section = rcu_read_lock 0 kx_both"

text \<open>The turns of the caller, with the section ending after the first one.\<close>

definition kx_left :: kern where
  "kx_left = xyield 0 0 (snd (call_rcu_step 1 1 (Yield 0) (rcu_read_unlock 0 (snd (call_rcu_step 1 1 (Test 0) kx_section)))))"

definition kx_first :: kern where
  "kx_first = run_proc 0 1 kx_left"

definition kx_second :: kern where
  "kx_second = run_proc 1 1 (snd (call_rcu_step 0 1 (Yield 1) (snd (call_rcu_step 0 1 (Test 1) kx_first))))"

lemmas kx_defs = kx_boot_def kx_both_def kx_section_def kx_left_def kx_first_def kx_second_def run_proc_def xyield_def sched_back_def
  rcu_read_lock_def rcu_read_unlock_def call_rcu_step_def upd_proc_def upd_cpu_def preempt_off_def may_run_def no_proc_def

lemma kx_run_section: "\<exists>old. rcu_run kx_section (\<lambda>_. None) old"
proof -
  have "rcu_run kx_boot (\<lambda>_. None) (\<lambda>_. {})" by (rule rcu_run.boot) (simp add: kx_defs)
  then have "rcu_run (run_proc 0 0 kx_boot) (\<lambda>_. None) (\<lambda>_. {})" by (rule rcu_run.pick) (simp_all add: kx_defs)
  then have "rcu_run kx_both (\<lambda>_. None) (\<lambda>_. {})" unfolding kx_both_def by (rule rcu_run.pick) (simp_all add: kx_defs)
  from rcu_run.read_lock [OF this, of 0 0 kx_section] show ?thesis by (simp add: kx_defs) blast
qed

lemma kx_run_left: "\<exists>old. rcu_run kx_left ((\<lambda>_. None)(1 := Some (Test 1))) old"
proof -
  let ?a = "snd (call_rcu_step 1 1 (Test 0) kx_section)"
  obtain old where 0: "rcu_run kx_section (\<lambda>_. None) old" using kx_run_section by blast
  have "\<exists>old. rcu_run kx_section ((\<lambda>_. None)(1 := Some (Test 0))) old"
    using rcu_run.call [OF 0, of 1 1] by (auto simp: kx_defs)
  then obtain old where 1: "rcu_run kx_section ((\<lambda>_. None)(1 := Some (Test 0))) old" by blast
  have "\<exists>old. rcu_run ?a ((\<lambda>_. None)(1 := Some (Yield 0))) old"
    using rcu_run.turn [OF 1, of 1 1 "Test 0" "Some (Yield 0)" ?a] by (auto simp: kx_defs)
  then obtain old where 2: "rcu_run ?a ((\<lambda>_. None)(1 := Some (Yield 0))) old" by blast
  let ?b = "rcu_read_unlock 0 ?a"
  have "\<exists>old. rcu_run ?b ((\<lambda>_. None)(1 := Some (Yield 0))) old"
    using rcu_run.read_unlock [OF 2, of 0 0 ?b] by (auto simp: kx_defs)
  then obtain old where 3: "rcu_run ?b ((\<lambda>_. None)(1 := Some (Yield 0))) old" by blast
  let ?c = "snd (call_rcu_step 1 1 (Yield 0) ?b)"
  have "\<exists>old. rcu_run ?c ((\<lambda>_. None)(1 := Some (Test 1))) old"
    using rcu_run.turn [OF 3, of 1 1 "Yield 0" "Some (Test 1)" ?c] by (auto simp: kx_defs)
  then obtain old where 4: "rcu_run ?c ((\<lambda>_. None)(1 := Some (Test 1))) old" by blast
  have "rcu_run kx_left ((\<lambda>_. None)(1 := Some (Test 1))) old" unfolding kx_left_def
    by (rule rcu_run.tick [OF 4]) (simp_all add: kx_defs)
  then show ?thesis by blast
qed

lemma kx_run_second: "\<exists>old. rcu_run kx_second ((\<lambda>_. None)(1 := Some (Test 2))) old"
proof -
  obtain old where 0: "rcu_run kx_left ((\<lambda>_. None)(1 := Some (Test 1))) old" using kx_run_left by blast
  have 1: "rcu_run kx_first ((\<lambda>_. None)(1 := Some (Test 1))) old" unfolding kx_first_def
    by (rule rcu_run.pick [OF 0]) (simp_all add: kx_defs)
  let ?a = "snd (call_rcu_step 0 1 (Test 1) kx_first)"
  have "\<exists>old. rcu_run ?a ((\<lambda>_. None)(1 := Some (Yield 1))) old"
    using rcu_run.turn [OF 1, of 0 1 "Test 1" "Some (Yield 1)" ?a] by (auto simp: kx_defs)
  then obtain old where 2: "rcu_run ?a ((\<lambda>_. None)(1 := Some (Yield 1))) old" by blast
  let ?b = "snd (call_rcu_step 0 1 (Yield 1) ?a)"
  have "\<exists>old. rcu_run ?b ((\<lambda>_. None)(1 := Some (Test 2))) old"
    using rcu_run.turn [OF 2, of 0 1 "Yield 1" "Some (Test 2)" ?b] by (auto simp: kx_defs)
  then obtain old where 3: "rcu_run ?b ((\<lambda>_. None)(1 := Some (Test 2))) old" by blast
  have "rcu_run kx_second ((\<lambda>_. None)(1 := Some (Test 2))) old" unfolding kx_second_def
    by (rule rcu_run.pick [OF 3]) (simp_all add: kx_defs)
  then show ?thesis by blast
qed

lemma kx_returns: "cpu_proc (cpus kx_second 1) = Some 1" "ncpu kx_second = 2"
  "call_rcu_step 1 1 (Test 2) kx_second = (None, snd (call_rcu_step 1 1 (Test 2) kx_second))"
  by (simp_all add: kx_defs)

section \<open>Two CPUs at a spin lock\<close>

definition lx_boot :: locks where
  "lx_boot = \<lparr>lcpus = (\<lambda>_. \<lparr>ncli = 0, intena = False, iflag = True\<rparr>), lks = (\<lambda>_. \<lparr>locked = False, lk_cpu = None\<rparr>)\<rparr>"

definition lx_owned :: locks where
  "lx_owned = acquire_record 0 5 (snd (acquire_xchg 5 (the (acquire_enter 0 5 lx_boot))))"

definition lx_spin :: locks where
  "lx_spin = snd (acquire_xchg 5 (the (acquire_enter 1 5 lx_owned)))"

lemmas lx_ops = acquire_enter_def acquire_xchg_def acquire_record_def holding_def pushcli_def popcli_def upd_lcpu_def upd_lk_def

lemma lx_run:
  "lock_run lx_spin ((\<lambda>_. Out)(0 := Spin 5, 0 := Got 5, 0 := Out, 1 := Spin 5, 1 := Spin 5)) ((\<lambda>_. [])(0 := [5])) (\<lambda>_. 0) (\<lambda>_. True)"
proof -
  have "lock_run lx_boot (\<lambda>_. Out) (\<lambda>_. []) (\<lambda>_. 0) (\<lambda>_. True)"
    using lock_run.boot [of lx_boot lx_boot] by (simp add: lx_boot_def initlock_def upd_lk_def)
  from lock_run.enter [OF this, of 0 5] have "lock_run (the (acquire_enter 0 5 lx_boot)) ((\<lambda>_. Out)(0 := Spin 5)) (\<lambda>_. []) (\<lambda>_. 0) (\<lambda>_. True)"
    by (simp add: lx_boot_def lx_ops)
  from lock_run.spin [OF this, of 0 5 False] have "lock_run (snd (acquire_xchg 5 (the (acquire_enter 0 5 lx_boot))))
      ((\<lambda>_. Out)(0 := Spin 5, 0 := Got 5)) (\<lambda>_. []) (\<lambda>_. 0) (\<lambda>_. True)"
    by (simp add: lx_boot_def lx_ops)
  from lock_run.got [OF this, of 0 5]
  have o: "lock_run lx_owned ((\<lambda>_. Out)(0 := Spin 5, 0 := Got 5, 0 := Out)) ((\<lambda>_. [])(0 := [5])) (\<lambda>_. 0) (\<lambda>_. True)"
    by (simp add: lx_owned_def)
  from lock_run.enter [OF o, of 1 5] have "lock_run (the (acquire_enter 1 5 lx_owned))
      ((\<lambda>_. Out)(0 := Spin 5, 0 := Got 5, 0 := Out, 1 := Spin 5)) ((\<lambda>_. [])(0 := [5])) (\<lambda>_. 0) (\<lambda>_. True)"
    by (simp add: lx_boot_def lx_owned_def lx_ops)
  from lock_run.spin [OF this, of 1 5 True] show ?thesis
    by (simp add: lx_boot_def lx_owned_def lx_spin_def lx_ops)
qed

end
