(* ===== verification/Buddy.thy ===== *)
theory Buddy
  imports Mvrlu_Prelude "HOL-Library.Monad_Syntax"
begin

text \<open>
  The buddy allocator of the ScaleFS kernel (\<open>kernel/buddy.cc\<close>, \<open>include/buddy.hh\<close>) that provides the memory of the log
  buffers and of all other kernel objects.  The intrusive lists of free blocks are sequences of addresses, the bitmaps
  are arrays of bytes.  No result (\<open>None\<close>) is a panic, a failed assertion, an access outside of an array or the removal of a
  block from a list that it is not on.  The checks of \<open>free_order\<close> with \<open>is_allocated\<close> are not compiled with one allocator per
  CPU (\<open>KALLOC_BUDDY_PER_CPU\<close>), which is the configuration of \<open>param.h\<close>.
\<close>

section \<open>Data\<close>

definition MIN_SIZE :: u64 where
  "MIN_SIZE = 4096"

definition MAX_ORDER :: nat where
  "MAX_ORDER = 16"

definition MAX_SIZE :: u64 where
  "MAX_SIZE = push_bit MAX_ORDER MIN_SIZE"

record buddy =
  bd_base :: addr
  bd_limit :: addr
  free_bytes :: u64
  lowest_free_bytes :: u64
  bitmap_bytes :: u64
  waste_bytes :: u64
  blocks :: "nat \<Rightarrow> addr list"
  bitmap :: "nat \<Rightarrow> u8 list"
  debug :: "nat \<Rightarrow> u8 list"
  highest_avail_order :: nat

record buddy_stats =
  st_metadata_bytes :: u64
  st_waste_bytes :: u64
  st_free :: u64
  st_lowest_free :: u64
  st_nfree :: "nat \<Rightarrow> nat"

section \<open>Sizes\<close>

fun ctz :: "nat \<Rightarrow> nat" where
  "ctz n = (if n = 0 \<or> odd n then 0 else Suc (ctz (n div 2)))"

declare ctz.simps [simp del]

definition size_to_order :: "u64 \<Rightarrow> nat option" where
  "size_to_order sz =
     (if sz < MIN_SIZE then None
      else if sz > MAX_SIZE then None
      else let log2 = ctz (unat sz)
           in if sz \<noteq> push_bit log2 1 then None
              else Some (log2 - ctz (unat MIN_SIZE)))"

definition block_size :: "nat \<Rightarrow> u64" where
  "block_size order = push_bit order MIN_SIZE"

section \<open>Bitmaps\<close>

definition pair_bit :: "addr \<Rightarrow> nat \<Rightarrow> buddy \<Rightarrow> nat" where
  "pair_bit ptr order b = unat (drop_bit (order + 1) ((ptr - bd_base b) div MIN_SIZE))"

definition flip_pair :: "addr \<Rightarrow> nat \<Rightarrow> buddy \<Rightarrow> (bool \<times> buddy) option" where
  "flip_pair ptr order b =
     (let n = pair_bit ptr order b; msk = push_bit (n mod 8) 1; bs = bitmap b order
      in if n div 8 < length bs
         then let v = bs ! (n div 8) XOR msk
              in Some (v AND msk \<noteq> 0, b\<lparr>bitmap := (bitmap b)(order := bs[n div 8 := v])\<rparr>)
         else None)"

definition pair_first :: "addr \<Rightarrow> nat \<Rightarrow> addr" where
  "pair_first ptr order = ptr AND NOT (block_size order)"

definition is_allocated :: "addr \<Rightarrow> nat \<Rightarrow> buddy \<Rightarrow> bool option" where
  "is_allocated ptr order b =
     (let n = pair_bit ptr order b; msk = push_bit (n mod 8) 1
      in if n div 8 < length (debug b order) \<and> n div 8 < length (bitmap b order)
         then let dbg = (debug b order ! (n div 8) AND msk \<noteq> 0)
              in if ptr = pair_first ptr order then Some dbg
                 else Some (dbg \<noteq> (bitmap b order ! (n div 8) AND msk \<noteq> 0))
         else None)"

definition mark_allocated :: "addr \<Rightarrow> nat \<Rightarrow> bool \<Rightarrow> buddy \<Rightarrow> buddy option" where
  "mark_allocated ptr order allocated b =
     (if order = MAX_ORDER then Some b
      else if ptr \<noteq> pair_first ptr order then Some b
      else let n = pair_bit ptr order b; msk = push_bit (n mod 8) 1; bs = debug b order
           in if n div 8 < length bs
              then let v = (if allocated then bs ! (n div 8) OR msk else bs ! (n div 8) AND NOT msk)
                   in Some (b\<lparr>debug := (debug b)(order := bs[n div 8 := v])\<rparr>)
              else None)"

section \<open>Allocation\<close>

text \<open>The search for the highest order that has a block, downward from below \<open>i\<close>.\<close>

fun next_avail :: "nat \<Rightarrow> buddy \<Rightarrow> nat" where
  "next_avail 0 b = 0"
| "next_avail (Suc i) b = (if blocks b i \<noteq> [] then i else next_avail i b)"

definition assert_that :: "bool \<Rightarrow> unit option" where
  "assert_that c = (if c then Some () else None)"

definition pop_block :: "nat \<Rightarrow> addr \<Rightarrow> addr list \<Rightarrow> buddy \<Rightarrow> (addr \<times> buddy) option" where
  "pop_block order blk rest b = do {
     let b = b\<lparr>blocks := (blocks b)(order := rest)\<rparr>;
     b \<leftarrow> (if order < MAX_ORDER then do {
             (state, b) \<leftarrow> flip_pair blk order b;
             _ \<leftarrow> assert_that (\<not> state);
             mark_allocated blk order True b }
           else Some b);
     _ \<leftarrow> assert_that (bd_base b \<le> blk \<and> blk < bd_limit b);
     let b = (if order = highest_avail_order b \<and> blocks b order = [] then b\<lparr>highest_avail_order := next_avail order b\<rparr> else b);
     Some (blk, b) }"

text \<open>Putting a block at the front of a list, with the record of the highest order.\<close>

definition push_free :: "addr \<Rightarrow> nat \<Rightarrow> buddy \<Rightarrow> buddy" where
  "push_free ptr order b =
     (let b = b\<lparr>blocks := (blocks b)(order := ptr # blocks b order)\<rparr>
      in if order > highest_avail_order b then b\<lparr>highest_avail_order := order\<rparr> else b)"

definition push_second :: "nat \<Rightarrow> addr \<Rightarrow> buddy \<Rightarrow> (addr \<times> buddy) option" where
  "push_second order parent b = do {
     let b = push_free (parent + block_size order) order b;
     (state, b) \<leftarrow> flip_pair parent order b;
     _ \<leftarrow> assert_that state;
     b \<leftarrow> mark_allocated parent order True b;
     _ \<leftarrow> assert_that (bd_base b \<le> parent \<and> parent < bd_limit b);
     Some (parent, b) }"

function alloc_order :: "nat \<Rightarrow> buddy \<Rightarrow> (addr \<times> buddy) option" where
  "alloc_order order b =
     (if order > highest_avail_order b then Some (0, b)
      else if order > MAX_ORDER then None
      else (case blocks b order of
              blk # rest \<Rightarrow> pop_block order blk rest b
            | [] \<Rightarrow> if order = MAX_ORDER then Some (0, b)
                    else (case alloc_order (order + 1) b of
                            None \<Rightarrow> None
                          | Some (parent, b) \<Rightarrow> if parent = 0 then Some (0, b) else push_second order parent b)))"
  by pat_completeness auto

termination
  by (relation "measure (\<lambda>(order, b). MAX_ORDER + 1 - order)") auto

declare alloc_order.simps [simp del]

section \<open>Freeing\<close>

definition erase_block :: "nat \<Rightarrow> addr \<Rightarrow> buddy \<Rightarrow> buddy option" where
  "erase_block order p b =
     (if p \<in> set (blocks b order) then Some (b\<lparr>blocks := (blocks b)(order := remove1 p (blocks b order))\<rparr>) else None)"

function free_order :: "addr \<Rightarrow> nat \<Rightarrow> buddy \<Rightarrow> buddy option" where
  "free_order ptr order b =
     (if order > MAX_ORDER \<or> \<not> (bd_base b \<le> ptr \<and> ptr < bd_limit b) then None
      else case mark_allocated ptr order False b of
        None \<Rightarrow> None
      | Some b \<Rightarrow>
          if order = MAX_ORDER then Some (push_free ptr order b)
          else (case flip_pair ptr order b of
                  None \<Rightarrow> None
                | Some (state, b) \<Rightarrow>
                    if state then Some (push_free ptr order b)
                    else (case erase_block order (ptr XOR block_size order) b of
                            None \<Rightarrow> None
                          | Some b \<Rightarrow> free_order (pair_first ptr order) (order + 1) b)))"
  by pat_completeness auto

termination
  by (relation "measure (\<lambda>(ptr, order, b). MAX_ORDER + 1 - order)") auto

declare free_order.simps [simp del]

section \<open>The interface\<close>

definition buddy_empty :: "buddy \<Rightarrow> bool" where
  "buddy_empty b = list_all (\<lambda>order. blocks b order = []) [0..<MAX_ORDER + 1]"

definition alloc_nothrow :: "u64 \<Rightarrow> buddy \<Rightarrow> (addr \<times> buddy) option" where
  "alloc_nothrow sz b = do {
     order \<leftarrow> size_to_order sz;
     (ptr, b) \<leftarrow> alloc_order order b;
     if ptr \<noteq> 0
     then let b = b\<lparr>free_bytes := free_bytes b - sz\<rparr>
          in Some (ptr, if free_bytes b < lowest_free_bytes b then b\<lparr>lowest_free_bytes := free_bytes b\<rparr> else b)
     else Some (ptr, b) }"

datatype bad_alloc = Bad_alloc

definition buddy_alloc :: "u64 \<Rightarrow> buddy \<Rightarrow> ((bad_alloc + addr) \<times> buddy) option" where
  "buddy_alloc sz b = do {
     (ptr, b) \<leftarrow> alloc_nothrow sz b;
     Some (if ptr = 0 then Inl Bad_alloc else Inr ptr, b) }"

definition get_base :: "buddy \<Rightarrow> addr" where
  "get_base b = bd_base b"

definition get_limit :: "buddy \<Rightarrow> addr" where
  "get_limit b = bd_limit b"

definition get_free_bytes :: "buddy \<Rightarrow> u64" where
  "get_free_bytes b = free_bytes b"

definition buddy_free :: "addr \<Rightarrow> u64 \<Rightarrow> buddy \<Rightarrow> buddy option" where
  "buddy_free ptr sz b = do {
     let b = b\<lparr>free_bytes := free_bytes b + sz\<rparr>;
     order \<leftarrow> size_to_order sz;
     free_order ptr order b }"

definition buddy_contains :: "addr \<Rightarrow> buddy \<Rightarrow> bool" where
  "buddy_contains ptr b = (get_base b \<le> ptr \<and> ptr < get_limit b)"

definition free_sum :: "nat \<Rightarrow> buddy \<Rightarrow> u64" where
  "free_sum n b = sum_list (map (\<lambda>order. of_nat (length (blocks b order)) * block_size order) [0..<n])"

definition get_stats :: "buddy \<Rightarrow> buddy_stats option" where
  "get_stats b = do {
     let total = free_sum (MAX_ORDER + 1) b;
     _ \<leftarrow> assert_that (total = get_free_bytes b);
     Some \<lparr>st_metadata_bytes = bitmap_bytes b, st_waste_bytes = waste_bytes b, st_free = total,
           st_lowest_free = lowest_free_bytes b, st_nfree = (\<lambda>order. length (blocks b order))\<rparr> }"

section \<open>Construction\<close>

text \<open>The bitmaps are taken from the start of the free memory; \<open>Inl\<close> is the early return when there is no room.
  A bitmap is its contents, so the pointer that the code has already set when it finds no room has none; the allocator is
  empty then and does not read it.\<close>

function place_bitmaps :: "nat \<Rightarrow> u64 \<Rightarrow> addr \<Rightarrow> addr \<Rightarrow> buddy \<Rightarrow> buddy + addr \<times> buddy" where
  "place_bitmaps i nBlocks base free_end b =
     (if i < MAX_ORDER
      then let bitmapSize = (nBlocks + 7) div 8
           in if base + bitmapSize \<ge> free_end then Inl b
              else let b = b\<lparr>bitmap := (bitmap b)(i := replicate (unat bitmapSize) 0)\<rparr>; base = base + bitmapSize
                   in if base + bitmapSize \<ge> free_end then Inl b
                      else let b = b\<lparr>debug := (debug b)(i := replicate (unat bitmapSize) 0)\<rparr>; base = base + bitmapSize
                           in place_bitmaps (i + 1) (nBlocks div 2) base free_end b
      else Inr (base, b))"
  by pat_completeness auto

termination
  by (relation "measure (\<lambda>(i, n, base, e, b). MAX_ORDER - i)") auto

declare place_bitmaps.simps [simp del]

partial_function (option) free_range :: "addr \<Rightarrow> addr \<Rightarrow> buddy \<Rightarrow> buddy option" where
  "free_range blk block_end b =
     (if blk < block_end
      then if blk AND (MAX_SIZE - 1) = 0 \<and> blk + MAX_SIZE \<le> block_end
           then Option.bind (free_order blk MAX_ORDER b) (\<lambda>b. free_range (blk + MAX_SIZE) block_end b)
           else Option.bind (free_order blk 0 b) (\<lambda>b. free_range (blk + MIN_SIZE) block_end b)
      else Some b)"

definition round_down :: "u64 \<Rightarrow> u64 \<Rightarrow> u64" where
  "round_down sz x = x AND NOT (sz - 1)"

definition round_up :: "u64 \<Rightarrow> u64 \<Rightarrow> u64" where
  "round_up sz x = (x + sz - 1) AND NOT (sz - 1)"

text \<open>The constructor on the memory \<open>u\<close> of the new object; the lists of blocks have been constructed empty.\<close>

definition buddy_new :: "buddy \<Rightarrow> addr \<Rightarrow> u64 \<Rightarrow> addr \<Rightarrow> u64 \<Rightarrow> buddy option" where
  "buddy_new u base len track_base track_len = do {
     let b = u\<lparr>blocks := (\<lambda>_. [])\<rparr>;
     let (track_base, track_len) = (if track_base = 0 \<and> track_len = 0 then (base, len) else (track_base, track_len));
     let free_base = base;
     let free_end = base + len;
     let track_end = track_base + track_len;
     _ \<leftarrow> assert_that (track_base \<le> base \<and> free_end \<le> track_end);
     let track_base = round_down MAX_SIZE track_base;
     let track_end = round_up MAX_SIZE track_end;
     let track_len = track_end - track_base;
     case place_bitmaps 0 (track_len div MIN_SIZE) base free_end b of
       Inl b \<Rightarrow> Some b
     | Inr (base, b) \<Rightarrow> do {
         let b = b\<lparr>bitmap := (bitmap b)(MAX_ORDER := []), debug := (debug b)(MAX_ORDER := []),
                   bd_base := track_base, bd_limit := track_end\<rparr>;
         let block_base = round_up MIN_SIZE base;
         let block_end = round_down MIN_SIZE free_end;
         b \<leftarrow> free_range block_base block_end (b\<lparr>highest_avail_order := 0\<rparr>);
         Some (b\<lparr>free_bytes := block_end - block_base, lowest_free_bytes := block_end - block_base,
                 bitmap_bytes := base - free_base, waste_bytes := block_base - base\<rparr>) } }"

end
