(* ===== verification/Buddy_Pairs.thy ===== *)
theory Buddy_Pairs
  imports Buddy
begin

text \<open>
  Blocks of memory and their buddies: tilings of an address range by blocks of powers of two, splitting
  and merging of blocks in a tiling, the addresses of buddies, and the bitmaps that record for each pair
  whether exactly one of the two is free.
\<close>

section \<open>Blocks and tilings\<close>

text \<open>A block is given by its order and its address.\<close>

definition span :: "nat \<times> nat \<Rightarrow> nat set" where
  "span x = {snd x ..< snd x + 2 ^ (12 + fst x)}"

definition tiled :: "(nat \<times> nat) set \<Rightarrow> nat \<Rightarrow> nat \<Rightarrow> bool" where
  "tiled S lo hi \<longleftrightarrow> pairwise (\<lambda>x y. disjnt (span x) (span y)) S \<and> \<Union>(span ` S) = {lo..<hi} \<and>
     (\<forall>x\<in>S. fst x \<le> MAX_ORDER \<and> 2 ^ (12 + fst x) dvd snd x)"

lemma span_halves: "span (Suc k, p) = span (k, p) \<union> span (k, p + 2 ^ (12 + k))" "disjnt (span (k, p)) (span (k, p + 2 ^ (12 + k)))"
proof -
  have e: "(2::nat) ^ (12 + Suc k) = 2 ^ (12 + k) + 2 ^ (12 + k)" by (simp only: add_Suc_right power_Suc mult_2)
  show "span (Suc k, p) = span (k, p) \<union> span (k, p + 2 ^ (12 + k))" unfolding span_def snd_conv fst_conv e by auto
  show "disjnt (span (k, p)) (span (k, p + 2 ^ (12 + k)))" by (auto simp: span_def disjnt_def)
qed

lemma span_mem [simp]: "snd x \<in> span x"
  by (simp add: span_def)

lemma disjnt_span_irrefl: "\<not> disjnt (span x) (span x)"
  using span_mem [of x] by (metis disjnt_self_iff_empty empty_iff)

lemma tiledD:
  assumes "tiled S lo hi"
  shows "x \<in> S \<Longrightarrow> y \<in> S \<Longrightarrow> x \<noteq> y \<Longrightarrow> disjnt (span x) (span y)" "x \<in> S \<Longrightarrow> span x \<subseteq> {lo..<hi}"
    "x \<in> S \<Longrightarrow> fst x \<le> MAX_ORDER" "x \<in> S \<Longrightarrow> 2 ^ (12 + fst x) dvd snd x" "\<Union>(span ` S) = {lo..<hi}"
  using assms by (auto simp: tiled_def pairwise_def)

lemma tiled_bounds:
  assumes "tiled S lo hi" "(k, p) \<in> S"
  shows "lo \<le> p" "p + 2 ^ (12 + k) \<le> hi" "k \<le> MAX_ORDER" "2 ^ (12 + k) dvd p"
proof -
  have s: "{p..<p + 2 ^ (12 + k)} \<subseteq> {lo..<hi}" using tiledD(2) [OF assms] by (simp add: span_def)
  have "p < p + 2 ^ (12 + k)" by simp
  then show "lo \<le> p" "p + 2 ^ (12 + k) \<le> hi" using s by (auto simp: atLeastLessThan_subset_iff)
  show "k \<le> MAX_ORDER" "2 ^ (12 + k) dvd p" using tiledD(3,4) [OF assms] by simp_all
qed

text \<open>One block is replaced by two, or two by one, that cover the same addresses.\<close>

lemma pairwise_split:
  assumes e: "span z = span x \<union> span y" "disjnt (span x) (span y)" and n: "z \<notin> S" "x \<notin> S" "y \<notin> S"
  shows "pairwise (\<lambda>x y. disjnt (span x) (span y)) (insert z S) \<longleftrightarrow> pairwise (\<lambda>x y. disjnt (span x) (span y)) (insert x (insert y S))"
  using assms by (auto simp: pairwise_insert disjnt_Un1 disjnt_Un2 disjnt_sym)

lemma power_dvd_half: "(2::nat) ^ (12 + Suc k) dvd p \<Longrightarrow> 2 ^ (12 + k) dvd p"
  by (rule dvd_trans [OF le_imp_power_dvd]) simp_all

lemma tiled_no_part:
  assumes t: "tiled S lo hi" and x: "(Suc k, p) \<in> S"
  shows "(k, p) \<notin> S" "(k, p + 2 ^ (12 + k)) \<notin> S"
proof -
  note b = span_halves(1) [of k p]
  show "(k, p) \<notin> S" using tiledD(1) [OF t x, of "(k, p)"] disjnt_span_irrefl [of "(k, p)"] by (auto simp: b disjnt_Un1)
  show "(k, p + 2 ^ (12 + k)) \<notin> S"
    using tiledD(1) [OF t x, of "(k, p + 2 ^ (12 + k))"] disjnt_span_irrefl [of "(k, p + 2 ^ (12 + k))"] by (auto simp: b disjnt_Un1)
qed

lemma tiled_split:
  assumes t: "tiled (insert (Suc k, p) S) lo hi" and n: "(Suc k, p) \<notin> S"
  shows "tiled (insert (k, p) (insert (k, p + 2 ^ (12 + k)) S)) lo hi"
proof -
  have out: "(k, p) \<notin> S" "(k, p + 2 ^ (12 + k)) \<notin> S" using tiled_no_part [OF t, of k p] by simp_all
  have al: "Suc k \<le> MAX_ORDER" "2 ^ (12 + Suc k) dvd p" using tiled_bounds(3,4) [OF t, of "Suc k" p] by simp_all
  have "\<Union>(span ` insert (k, p) (insert (k, p + 2 ^ (12 + k)) S)) = {lo..<hi}"
    using tiledD(5) [OF t] span_halves(1) [of k p] by (simp add: Un_assoc)
  moreover have "pairwise (\<lambda>x y. disjnt (span x) (span y)) (insert (k, p) (insert (k, p + 2 ^ (12 + k)) S))"
    using t pairwise_split [OF span_halves n out] by (simp add: tiled_def)
  ultimately show ?thesis using al power_dvd_half [OF al(2)] t by (auto simp: tiled_def)
qed

lemma tiled_merge:
  assumes t: "tiled (insert (k, p) (insert (k, p + 2 ^ (12 + k)) S)) lo hi" and n: "(k, p) \<notin> S" "(k, p + 2 ^ (12 + k)) \<notin> S"
    and al: "k < MAX_ORDER" "2 ^ (12 + Suc k) dvd p"
  shows "tiled (insert (Suc k, p) S) lo hi" "(Suc k, p) \<notin> S"
proof -
  show out: "(Suc k, p) \<notin> S" using tiled_no_part(1) [OF t, of k p] by auto
  have "\<Union>(span ` insert (Suc k, p) S) = {lo..<hi}" using tiledD(5) [OF t] span_halves(1) [of k p] by (simp add: Un_assoc)
  moreover have "pairwise (\<lambda>x y. disjnt (span x) (span y)) (insert (Suc k, p) S)"
    using t pairwise_split [OF span_halves out n] by (simp add: tiled_def)
  ultimately show "tiled (insert (Suc k, p) S) lo hi" using al t by (auto simp: tiled_def)
qed

lemma tiled_extend:
  assumes t: "tiled S lo hi" and le: "lo \<le> hi" and al: "k \<le> MAX_ORDER" "2 ^ (12 + k) dvd hi"
  shows "tiled (insert (k, hi) S) lo (hi + 2 ^ (12 + k))" "(k, hi) \<notin> S"
proof -
  have d: "y \<in> S \<Longrightarrow> disjnt (span (k, hi)) (span y)" for y using tiledD(2) [OF t, of y] by (auto simp: span_def disjnt_def)
  then show "(k, hi) \<notin> S" using disjnt_span_irrefl by blast
  have "\<Union>(span ` insert (k, hi) S) = {lo..<hi + 2 ^ (12 + k)}" using tiledD(5) [OF t] le by (auto simp: span_def)
  moreover have "pairwise (\<lambda>x y. disjnt (span x) (span y)) (insert (k, hi) S)"
    using t d by (auto simp: tiled_def pairwise_insert disjnt_sym)
  ultimately show "tiled (insert (k, hi) S) lo (hi + 2 ^ (12 + k))" using al t by (auto simp: tiled_def)
qed

section \<open>Addresses of buddies\<close>

lemma block_size_power: "block_size k = 2 ^ (12 + k)"
  by (simp add: block_size_def MIN_SIZE_def push_bit_eq_mult power_add)

lemma unat_power:
  assumes "k < 64"
  shows "unat (2 ^ k :: u64) = 2 ^ k"
proof -
  have "unat (2 ^ k :: u64) = unat (word_of_nat (2 ^ k) :: u64)" by (simp only: of_nat_power of_nat_numeral)
  also have "\<dots> = 2 ^ k" by (rule unat_of_nat_u64, rule power_strict_increasing) (use assms in simp_all)
  finally show ?thesis .
qed

lemma unat_block_size: "k \<le> MAX_ORDER \<Longrightarrow> unat (block_size k) = 2 ^ (12 + k)"
  unfolding block_size_power by (rule unat_power) (simp add: MAX_ORDER_def)

lemma bit_unat: "bit (w :: u64) k \<longleftrightarrow> odd (unat w div 2 ^ k)"
proof -
  have "bit (unat w) k \<longleftrightarrow> bit w k" by (simp add: bit_unsigned_iff)
  then show ?thesis by (simp add: bit_iff_odd)
qed

lemma pair_first_unset: "pair_first p k = unset_bit (12 + k) p"
  by (simp add: pair_first_def block_size_power unset_bit_eq_and_not push_bit_eq_mult)

lemma buddy_flip: "p XOR block_size k = flip_bit (12 + k) p"
  by (simp add: block_size_power flip_bit_eq_xor push_bit_eq_mult)

text \<open>The pair of an address: the first and the second of the two buddies.\<close>

lemma pair_of_first:
  assumes "k \<le> MAX_ORDER" "2 ^ (13 + k) dvd unat p"
  shows "pair_first p k = p" "unat p + 2 ^ (12 + k) < 2 ^ 64 \<Longrightarrow> unat (p XOR block_size k) = unat p + 2 ^ (12 + k)"
proof -
  obtain m where "unat p = 2 ^ (13 + k) * m" using assms(2) by (rule dvdE)
  then have "unat p div 2 ^ (12 + k) = 2 * m" by (simp add: power_add)
  then have b: "\<not> bit p (12 + k)" by (simp add: bit_unat)
  then show "pair_first p k = p" by (simp add: pair_first_unset unset_bit_eq)
  have "p XOR block_size k = p + block_size k" 
    using b unfolding buddy_flip unfolding block_size_power by (simp add: flip_bit_eq_if set_bit_eq)
  then show "unat p + 2 ^ (12 + k) < 2 ^ 64 \<Longrightarrow> unat (p XOR block_size k) = unat p + 2 ^ (12 + k)"
    using unat_block_size [OF assms(1)] by (simp add: unat_word_ariths)
qed

lemma pair_of_second:
  assumes "k \<le> MAX_ORDER" "unat p = q + 2 ^ (12 + k)" "2 ^ (13 + k) dvd q"
  shows "unat (pair_first p k) = q" "pair_first p k \<noteq> p" "unat (p XOR block_size k) = q"
proof -
  obtain m where "q = 2 ^ (13 + k) * m" using assms(3) by (rule dvdE)
  then have "unat p div 2 ^ (12 + k) = 2 * m + 1" using assms(2) by (simp add: power_add)
  then have b: "bit p (12 + k)" by (simp add: bit_unat)
  have e: "pair_first p k = p - block_size k" "p XOR block_size k = p - block_size k"
    using b unfolding pair_first_unset buddy_flip unfolding block_size_power by (simp_all add: flip_bit_eq_if unset_bit_eq)
  have "block_size k \<le> p" using assms(2) unat_block_size [OF assms(1)] by (simp add: word_le_nat_alt)
  then have "unat (p - block_size k) = q" using assms(2) unat_block_size [OF assms(1)] by (simp add: unat_sub)
  then show q: "unat (pair_first p k) = q" "unat (p XOR block_size k) = q" using e by simp_all
  show "pair_first p k \<noteq> p"
  proof
    assume "pair_first p k = p"
    then have "unat p = q" using q(1) by simp
    then show False using assms(2) by simp
  qed
qed

lemma pair_bit_nat:
  assumes "bd_base b \<le> p"
  shows "pair_bit p k b = (unat p - unat (bd_base b)) div 2 ^ (13 + k)"
proof -
  have "pair_bit p k b = (unat p - unat (bd_base b)) div 4096 div 2 ^ (k + 1)"
    unfolding pair_bit_def unfolding unat_drop_bit_eq unfolding drop_bit_eq_div using assms by (simp add: MIN_SIZE_def unat_div unat_sub)
  also have "\<dots> = (unat p - unat (bd_base b)) div (4096 * 2 ^ (k + 1))" by (simp only: div_mult2_eq)
  also have "(4096::nat) * 2 ^ (k + 1) = 2 ^ (13 + k)" by (simp add: power_add)
  finally show ?thesis .
qed

section \<open>Pairs\<close>

definition pfirst :: "buddy \<Rightarrow> nat \<Rightarrow> nat \<Rightarrow> nat" where
  "pfirst b k n = unat (bd_base b) + n * 2 ^ (13 + k)"

definition psecond :: "buddy \<Rightarrow> nat \<Rightarrow> nat \<Rightarrow> nat" where
  "psecond b k n = pfirst b k n + 2 ^ (12 + k)"

definition fr :: "buddy \<Rightarrow> nat \<Rightarrow> nat set" where
  "fr b k = unat ` set (blocks b k)"

definition getbit :: "buddy \<Rightarrow> nat \<Rightarrow> nat \<Rightarrow> bool" where
  "getbit b k n = bit (bitmap b k ! (n div 8)) (n mod 8)"

definition in_maps :: "buddy \<Rightarrow> nat \<Rightarrow> nat \<Rightarrow> bool" where
  "in_maps b k n \<longleftrightarrow> n div 8 < length (bitmap b k) \<and> n div 8 < length (debug b k)"

text \<open>A bit is set exactly if one of the buddies is free, and never are both.\<close>

definition pair_ok :: "buddy \<Rightarrow> nat \<Rightarrow> nat \<Rightarrow> bool" where
  "pair_ok b k n \<longleftrightarrow> in_maps b k n \<and> \<not> (pfirst b k n \<in> fr b k \<and> psecond b k n \<in> fr b k) \<and>
     (getbit b k n \<longleftrightarrow> pfirst b k n \<in> fr b k \<or> psecond b k n \<in> fr b k)"

definition aligned :: "buddy \<Rightarrow> bool" where
  "aligned b \<longleftrightarrow> 2 ^ 28 dvd unat (bd_base b) \<and> 2 ^ 28 dvd unat (bd_limit b) \<and> bd_base b \<le> bd_limit b"

definition maps_ok :: "buddy \<Rightarrow> bool" where
  "maps_ok b \<longleftrightarrow> (\<forall>k<MAX_ORDER. \<forall>n. psecond b k n < unat (bd_limit b) \<longrightarrow> pair_ok b k n)"

text \<open>Every aligned address is the first or the second of one pair.\<close>

lemma aligned_dvd:
  assumes "aligned b" "k < MAX_ORDER"
  shows "2 ^ (13 + k) dvd unat (bd_base b)" "2 ^ (13 + k) dvd unat (bd_limit b)"
proof -
  have "(2::nat) ^ (13 + k) dvd 2 ^ 28" using assms(2) by (intro le_imp_power_dvd) (simp add: MAX_ORDER_def)
  then show "2 ^ (13 + k) dvd unat (bd_base b)" "2 ^ (13 + k) dvd unat (bd_limit b)"
    using assms(1) unfolding aligned_def by (blast intro: dvd_trans)+
qed

lemma pair_exists:
  assumes a: "aligned b" and k: "k < MAX_ORDER" and p: "unat (bd_base b) \<le> p" "p < unat (bd_limit b)" "2 ^ (12 + k) dvd p"
  obtains n where "p = pfirst b k n \<or> p = psecond b k n" "psecond b k n < unat (bd_limit b)"
proof -
  let ?n = "(p - unat (bd_base b)) div 2 ^ (13 + k)"
  have "(2::nat) ^ (12 + k) dvd unat (bd_base b)"
    by (rule dvd_trans [OF _ aligned_dvd(1) [OF a k]]) (simp add: le_imp_power_dvd)
  then have "2 ^ (12 + k) dvd p - unat (bd_base b)" using p(3) by (rule dvd_diff_nat [rotated])
  then obtain m where m: "p - unat (bd_base b) = 2 ^ (12 + k) * m" by (rule dvdE)
  have n: "?n = m div 2" using m by (simp add: power_add)
  have e: "p = unat (bd_base b) + 2 ^ (12 + k) * m" using m p(1) by linarith
  have pf: "pfirst b k ?n = unat (bd_base b) + 2 ^ (12 + k) * (2 * (m div 2))" unfolding pfirst_def n by (simp add: power_add)
  have c: "p = pfirst b k ?n \<or> p = psecond b k ?n"
  proof (cases "even m")
    case True then show ?thesis using e pf by simp
  next
    case False
    then have "m = 2 * (m div 2) + 1" by simp
    then have "p = unat (bd_base b) + 2 ^ (12 + k) * (2 * (m div 2)) + 2 ^ (12 + k)" using e by (metis add.assoc distrib_left mult.right_neutral)
    then show ?thesis unfolding psecond_def pf by simp
  qed
  have "2 ^ (13 + k) dvd pfirst b k ?n" using aligned_dvd(1) [OF a k] by (simp add: pfirst_def)
  then obtain x y where x: "pfirst b k ?n = 2 ^ (13 + k) * x" and y: "unat (bd_limit b) = 2 ^ (13 + k) * y"
    using aligned_dvd(2) [OF a k] by (auto elim!: dvdE)
  have "pfirst b k ?n < unat (bd_limit b)" using c p(2) by (auto simp: psecond_def)
  then have "x < y" using x y by simp
  then have "2 ^ (13 + k) * (x + 1) \<le> 2 ^ (13 + k) * y" by (intro mult_le_mono2) simp
  then have "pfirst b k ?n + 2 ^ (13 + k) \<le> unat (bd_limit b)" unfolding x y by (simp only: distrib_left mult.right_neutral)
  moreover have "(2::nat) ^ (12 + k) < 2 ^ (13 + k)" by simp
  ultimately have "psecond b k ?n < unat (bd_limit b)" unfolding psecond_def by linarith
  then show ?thesis using c that by blast
qed

section \<open>Flipping the bit of a pair\<close>

lemma pair_dvd:
  assumes "aligned b" "k < MAX_ORDER"
  shows "2 ^ (13 + k) dvd pfirst b k n"
  using aligned_dvd(1) [OF assms] by (simp add: pfirst_def)

lemma pair_index:
  assumes "x = pfirst b k n \<or> x = psecond b k n"
  shows "(x - unat (bd_base b)) div 2 ^ (13 + k) = n"
proof -
  have "(2::nat) ^ (12 + k) < 2 ^ (13 + k)" by simp
  then have "(n * 2 ^ (13 + k) + 2 ^ (12 + k)) div 2 ^ (13 + k) = n" by (simp only: div_mult_self3 div_less)
  then show ?thesis using assms by (auto simp: pfirst_def psecond_def)
qed

lemma pair_bit_index:
  assumes "unat w = pfirst b k n \<or> unat w = psecond b k n"
  shows "pair_bit w k b = n"
proof -
  have "bd_base b \<le> w" using assms by (auto simp: word_le_nat_alt pfirst_def psecond_def)
  then show ?thesis using pair_index [OF assms] by (simp only: pair_bit_nat)
qed

definition flip_at :: "nat \<Rightarrow> nat \<Rightarrow> buddy \<Rightarrow> buddy" where
  "flip_at k n b = b\<lparr>bitmap := (bitmap b)(k := (bitmap b k)[n div 8 := bitmap b k ! (n div 8) XOR push_bit (n mod 8) 1])\<rparr>"

lemma flip_at_simps [simp]:
  "blocks (flip_at k n b) = blocks b" "debug (flip_at k n b) = debug b" "bd_base (flip_at k n b) = bd_base b"
  "bd_limit (flip_at k n b) = bd_limit b" "highest_avail_order (flip_at k n b) = highest_avail_order b"
  "free_bytes (flip_at k n b) = free_bytes b" "lowest_free_bytes (flip_at k n b) = lowest_free_bytes b"
  "length (bitmap (flip_at k n b) j) = length (bitmap b j)"
  by (simp_all add: flip_at_def)

lemma bit_flip_byte: "j < 8 \<Longrightarrow> bit (v XOR 2 ^ i :: u8) j \<longleftrightarrow> (bit v j \<noteq> (j = i))"
  by (auto simp: bit_xor_iff bit_exp_iff possible_bit_word)

lemma getbit_flip_at:
  assumes "in_maps b k n"
  shows "getbit (flip_at k n b) j i \<longleftrightarrow> (getbit b j i \<noteq> (j = k \<and> i = n))"
proof (cases "j = k \<and> i div 8 = n div 8")
  case True
  have "i = n \<longleftrightarrow> i mod 8 = n mod 8" using True by (metis div_mult_mod_eq)
  then show ?thesis using True assms by (simp add: getbit_def flip_at_def in_maps_def bit_flip_byte)
next
  case False
  then have "i \<noteq> n \<or> j \<noteq> k" by auto
  then show ?thesis using False by (auto simp: getbit_def flip_at_def)
qed

lemma flip_pair_step:
  assumes "in_maps b k n" "pair_bit w k b = n"
  shows "flip_pair w k b = Some (\<not> getbit b k n, flip_at k n b)"
proof -
  have "v AND push_bit m 1 \<noteq> 0 \<longleftrightarrow> bit v m" for v :: u8 and m by (simp add: push_bit_eq_mult and_exp_eq_0_iff_not_bit)
  then show ?thesis
    using assms by (simp add: flip_pair_def Let_def flip_at_def in_maps_def getbit_def bit_flip_byte)
qed

lemma mark_allocated_step:
  assumes "k < MAX_ORDER \<Longrightarrow> in_maps b k (pair_bit w k b)" "k \<le> MAX_ORDER"
  shows "\<exists>d. mark_allocated w k x b = Some (b\<lparr>debug := d\<rparr>) \<and> (\<forall>j. length (d j) = length (debug b j))"
proof (cases "k = MAX_ORDER \<or> w \<noteq> pair_first w k")
  case True
  then have "mark_allocated w k x b = Some (b\<lparr>debug := debug b\<rparr>)" by (auto simp: mark_allocated_def)
  then show ?thesis by blast
next
  case False
  let ?n = "pair_bit w k b" and ?bs = "debug b k"
  let ?v = "if x then ?bs ! (?n div 8) OR push_bit (?n mod 8) 1 else ?bs ! (?n div 8) AND NOT (push_bit (?n mod 8) 1)"
  have "mark_allocated w k x b = Some (b\<lparr>debug := (debug b)(k := ?bs[?n div 8 := ?v])\<rparr>)"
    using False assms by (simp add: mark_allocated_def Let_def in_maps_def)
  then show ?thesis by (intro exI [of _ "(debug b)(k := ?bs[?n div 8 := ?v])"]) simp
qed

section \<open>The invariant\<close>

definition free_set :: "buddy \<Rightarrow> (nat \<times> nat) set" where
  "free_set b = {(k, p). k \<le> MAX_ORDER \<and> p \<in> fr b k}"

definition high_ok :: "nat \<Rightarrow> buddy \<Rightarrow> bool" where
  "high_ok m b \<longleftrightarrow> highest_avail_order b \<le> MAX_ORDER \<and> (\<forall>k\<le>MAX_ORDER. highest_avail_order b < k \<longrightarrow> blocks b k = []) \<and>
     (highest_avail_order b < m \<or> blocks b (highest_avail_order b) \<noteq> [])"

text \<open>
  \<open>A\<close> are the blocks that are allocated.  Free and allocated blocks tile the memory from \<open>lo\<close> to \<open>hi\<close>.  While a block of order \<open>m\<close>
  is being freed, the highest order with a free block may be unknown if it is below \<open>m\<close>.
\<close>

definition buddy_inv :: "nat \<Rightarrow> buddy \<Rightarrow> (nat \<times> nat) set \<Rightarrow> nat \<Rightarrow> nat \<Rightarrow> bool" where
  "buddy_inv m b A lo hi \<longleftrightarrow> aligned b \<and> unat (bd_base b) \<le> lo \<and> hi \<le> unat (bd_limit b) \<and> 0 < lo \<and>
     (\<forall>k\<le>MAX_ORDER. distinct (blocks b k)) \<and> free_set b \<inter> A = {} \<and> tiled (free_set b \<union> A) lo hi \<and> maps_ok b \<and> high_ok m b"

lemma buddy_invD:
  assumes "buddy_inv m b A lo hi"
  shows "aligned b" "unat (bd_base b) \<le> lo" "hi \<le> unat (bd_limit b)" "0 < lo" "k \<le> MAX_ORDER \<Longrightarrow> distinct (blocks b k)"
    "free_set b \<inter> A = {}" "tiled (free_set b \<union> A) lo hi" "maps_ok b" "high_ok m b"
  using assms by (simp_all add: buddy_inv_def)

lemma maps_okD: "maps_ok b \<Longrightarrow> k < MAX_ORDER \<Longrightarrow> psecond b k n < unat (bd_limit b) \<Longrightarrow> pair_ok b k n"
  by (simp add: maps_ok_def)

lemma pair_okD:
  assumes "pair_ok b k n"
  shows "in_maps b k n" "\<not> (pfirst b k n \<in> fr b k \<and> psecond b k n \<in> fr b k)"
    "getbit b k n \<longleftrightarrow> pfirst b k n \<in> fr b k \<or> psecond b k n \<in> fr b k"
  using assms by (simp_all add: pair_ok_def)

text \<open>A change of one pair together with its bit keeps the bitmaps.\<close>

lemma maps_step:
  assumes m: "maps_ok b" and k: "k < MAX_ORDER" "psecond b k n < unat (bd_limit b)"
    and b': "bd_base b' = bd_base b" "bd_limit b' = bd_limit b" "bitmap b' = bitmap (flip_at k n b)" "\<And>j. length (debug b' j) = length (debug b j)"
    and f: "\<And>j. j \<noteq> k \<Longrightarrow> fr b' j = fr b j" "\<And>x. x \<noteq> pfirst b k n \<Longrightarrow> x \<noteq> psecond b k n \<Longrightarrow> x \<in> fr b' k \<longleftrightarrow> x \<in> fr b k"
    and new: "\<not> (pfirst b k n \<in> fr b' k \<and> psecond b k n \<in> fr b' k)" "getbit b k n \<longleftrightarrow> \<not> (pfirst b k n \<in> fr b' k \<or> psecond b k n \<in> fr b' k)"
  shows "maps_ok b'"
  unfolding maps_ok_def
proof (intro allI impI)
  fix j i
  assume j: "j < MAX_ORDER" "psecond b' j i < unat (bd_limit b')"
  have p: "pfirst b' j i = pfirst b j i" "psecond b' j i = psecond b j i" for j i using b' by (simp_all add: pfirst_def psecond_def)
  have old: "pair_ok b j i" using maps_okD [OF m j(1), of i] j(2) p b'(2) by simp
  have inm: "in_maps b' j i = in_maps b j i" using b' by (simp add: in_maps_def)
  have g: "getbit b' j i \<longleftrightarrow> (getbit b j i \<noteq> (j = k \<and> i = n))"
    using getbit_flip_at [OF pair_okD(1) [OF maps_okD [OF m k]], of j i] b'(3) by (simp add: getbit_def)
  show "pair_ok b' j i"
  proof (cases "j = k \<and> i = n")
    case True
    then show ?thesis using new g inm pair_okD(1) [OF old] by (simp add: pair_ok_def p)
  next
    case False
    have "x = pfirst b j i \<or> x = psecond b j i \<Longrightarrow> x \<in> fr b' j \<longleftrightarrow> x \<in> fr b j" for x
    proof (cases "j = k")
      case True
      assume x: "x = pfirst b j i \<or> x = psecond b j i"
      then have "x \<noteq> pfirst b k n" "x \<noteq> psecond b k n" using pair_index [OF x] pair_index [of x b k n] False True by auto
      then show ?thesis using f(2) True by simp
    qed (use f(1) in simp)
    then show ?thesis using old g inm False by (simp add: pair_ok_def p)
  qed
qed

end
