(* ===== verification/Buddy_Steps.thy ===== *)
theory Buddy_Steps
  imports Buddy_Pairs
begin

text \<open>
  The buddy allocator keeps its invariant: taking a block from its list, splitting a block, putting a block
  on its list, merging it with its buddy, and from these whole allocations and frees.
\<close>

section \<open>Changing the lists\<close>

lemma fr_upd [simp]: "fr (b\<lparr>blocks := (blocks b)(k := xs)\<rparr>) j = (if j = k then unat ` set xs else fr b j)"
  by (simp add: fr_def)

lemma fr_frame [simp]: "fr (b\<lparr>bitmap := x\<rparr>) = fr b" "fr (b\<lparr>debug := d\<rparr>) = fr b" "fr (b\<lparr>highest_avail_order := h\<rparr>) = fr b"
  "fr (b\<lparr>free_bytes := s\<rparr>) = fr b" "fr (b\<lparr>lowest_free_bytes := s\<rparr>) = fr b" "fr (flip_at k n b) = fr b"
  by (simp_all add: fr_def fun_eq_iff)

lemma fr_blocks: "blocks b' = blocks b \<Longrightarrow> fr b' = fr b"
  by (simp add: fr_def fun_eq_iff)

lemma free_set_cong: "fr b' = fr b \<Longrightarrow> free_set b' = free_set b"
  by (simp add: free_set_def)

lemma fr_mem: "w \<in> set (blocks b k) \<Longrightarrow> unat w \<in> fr b k"
  by (simp add: fr_def)

lemma unat_eqD: "unat v = unat w \<Longrightarrow> v = (w :: u64)"
  by (simp add: word_unat_eq_iff)

lemma fr_remove: "distinct xs \<Longrightarrow> unat ` set (remove1 w xs) = unat ` set xs - {unat (w :: u64)}"
  by (auto simp: set_remove1_eq dest: unat_eqD)

lemma free_set_push:
  assumes "k \<le> MAX_ORDER" "fr b' = (fr b)(k := insert x (fr b k))"
  shows "free_set b' = insert (k, x) (free_set b)"
  using assms by (auto simp: free_set_def split: if_splits)

lemma free_set_take:
  assumes "k \<le> MAX_ORDER" "fr b' = (fr b)(k := fr b k - {x})"
  shows "free_set b' = free_set b - {(k, x)}"
  using assms by (auto simp: free_set_def split: if_splits)

text \<open>The pair of a block, in a state with the invariant.\<close>

lemma block_pair:
  assumes i: "buddy_inv m b A lo hi" and k: "k < MAX_ORDER" and w: "(k, unat w) \<in> free_set b \<union> A"
  obtains n where "unat w = pfirst b k n \<or> unat w = psecond b k n" "psecond b k n < unat (bd_limit b)" "pair_bit w k b = n" "pair_ok b k n"
proof -
  note t = tiled_bounds [OF buddy_invD(7) [OF i] w]
  have lt: "unat w < unat (bd_limit b)" using t(2) buddy_invD(3) [OF i] 
    by (rule_tac less_le_trans [of _ "unat w + 2 ^ (12 + k)"]) simp_all
  have "unat (bd_base b) \<le> unat w" using t(1) buddy_invD(2) [OF i] by linarith
  from pair_exists [OF buddy_invD(1) [OF i] k this lt t(4)] obtain n
    where n: "unat w = pfirst b k n \<or> unat w = psecond b k n" "psecond b k n < unat (bd_limit b)" by blast
  show ?thesis by (rule that [OF n pair_bit_index [OF n(1)] maps_okD [OF buddy_invD(8) [OF i] k n(2)]])
qed

lemma block_range:
  assumes i: "buddy_inv m b A lo hi" and w: "(k, unat w) \<in> free_set b \<union> A"
  shows "bd_base b \<le> w" "w < bd_limit b" "w \<noteq> 0"
proof -
  note t = tiled_bounds [OF buddy_invD(7) [OF i] w]
  have "unat w < unat w + 2 ^ (12 + k)" by simp
  then show "bd_base b \<le> w" "w < bd_limit b" using t(1,2) buddy_invD(2,3) [OF i] unfolding word_le_nat_alt word_less_nat_alt by linarith+
  show "w \<noteq> 0" using t(1) buddy_invD(4) [OF i] by auto
qed

lemma maps_cong:
  assumes "maps_ok b" "bd_base b' = bd_base b" "bd_limit b' = bd_limit b" "bitmap b' = bitmap b" "\<And>j. length (debug b' j) = length (debug b j)"
    "\<And>j. j < MAX_ORDER \<Longrightarrow> fr b' j = fr b j"
  shows "maps_ok b'"
  using assms by (simp add: maps_ok_def pair_ok_def in_maps_def getbit_def pfirst_def psecond_def)

text \<open>A change of the lists in one pair, followed by flipping and marking it.\<close>

lemma flip_mark:
  assumes m: "maps_ok b" and k: "k < MAX_ORDER" "psecond b k n < unat (bd_limit b)" and w: "unat w = pfirst b k n \<or> unat w = psecond b k n"
    and c: "bd_base c = bd_base b" "bd_limit c = bd_limit b" "bitmap c = bitmap b" "debug c = debug b"
    and f: "\<And>j. j \<noteq> k \<Longrightarrow> fr c j = fr b j" "\<And>x. x \<noteq> pfirst b k n \<Longrightarrow> x \<noteq> psecond b k n \<Longrightarrow> x \<in> fr c k \<longleftrightarrow> x \<in> fr b k"
      "\<not> (pfirst b k n \<in> fr c k \<and> psecond b k n \<in> fr c k)" "getbit b k n \<longleftrightarrow> \<not> (pfirst b k n \<in> fr c k \<or> psecond b k n \<in> fr c k)"
  shows "\<exists>d. flip_pair w k c = Some (\<not> getbit b k n, flip_at k n c) \<and> mark_allocated w k x (flip_at k n c) = Some ((flip_at k n c)\<lparr>debug := d\<rparr>) \<and>
    maps_ok ((flip_at k n c)\<lparr>debug := d\<rparr>)"
proof -
  note p = pair_okD(1) [OF maps_okD [OF m k]]
  have "in_maps c k n" "pair_bit w k c = n" "getbit c k n = getbit b k n" using p pair_bit_index [OF w] c by (simp_all add: in_maps_def pair_bit_def getbit_def)
  then have fl: "flip_pair w k c = Some (\<not> getbit b k n, flip_at k n c)" using flip_pair_step [of c k n w] by simp
  have "in_maps (flip_at k n c) k (pair_bit w k (flip_at k n c))" using p pair_bit_index [OF w] c by (simp add: in_maps_def pair_bit_def)
  from mark_allocated_step [OF this less_imp_le [OF k(1)], of x] obtain d where
    d: "mark_allocated w k x (flip_at k n c) = Some ((flip_at k n c)\<lparr>debug := d\<rparr>)" "\<forall>j. length (d j) = length (debug b j)" using c(4) by auto
  have "maps_ok ((flip_at k n c)\<lparr>debug := d\<rparr>)"
  proof (rule maps_step [OF m k])
    show "bitmap ((flip_at k n c)\<lparr>debug := d\<rparr>) = bitmap (flip_at k n b)" using c(3) by (simp add: flip_at_def)
  qed (use d(2) c f in simp_all)
  then show ?thesis using fl d(1) by blast
qed

section \<open>Taking a block from its list\<close>

lemma next_avail_high:
  assumes "\<And>k. k \<le> MAX_ORDER \<Longrightarrow> n \<le> k \<Longrightarrow> blocks b k = []" "n \<le> Suc MAX_ORDER"
  shows "high_ok 1 (b\<lparr>highest_avail_order := next_avail n b\<rparr>)"
  using assms
proof (induction n)
  case 0
  then show ?case by (simp add: high_ok_def)
next
  case (Suc n)
  show ?case
  proof (cases "blocks b n = []")
    case True
    have "blocks b k = []" if "k \<le> MAX_ORDER" "n \<le> k" for k using Suc.prems(1) [of k] that True by (cases "k = n") auto
    then show ?thesis using Suc.IH Suc.prems(2) True by simp
  next
    case False
    then show ?thesis using Suc.prems by (simp add: high_ok_def)
  qed
qed

lemma pop_high:
  assumes h: "high_ok 1 b" and k: "k \<le> MAX_ORDER" "blocks b k = w # rest" and e: "blocks c = (blocks b)(k := rest)" "highest_avail_order c = highest_avail_order b"
  shows "high_ok 1 (if k = highest_avail_order c \<and> blocks c k = [] then c\<lparr>highest_avail_order := next_avail k c\<rparr> else c)"
proof (cases "k = highest_avail_order c \<and> blocks c k = []")
  case True
  have "blocks c j = []" if "j \<le> MAX_ORDER" "k \<le> j" for j using h that True e by (cases "j = k") (auto simp: high_ok_def)
  then show ?thesis unfolding if_P [OF True] using k(1) by (intro next_avail_high) simp_all
next
  case False
  have "k \<le> highest_avail_order b" using h k by (metis high_ok_def list.distinct(1) not_le)
  then have "high_ok 1 c" using h e False k by (auto simp: high_ok_def)
  then show ?thesis unfolding if_not_P [OF False] .
qed

lemma pop_block_inv:
  assumes i: "buddy_inv 1 b A lo hi" and k: "k \<le> MAX_ORDER" and w: "blocks b k = w # rest"
  shows "\<exists>b'. pop_block k w rest b = Some (w, b') \<and> buddy_inv 1 b' (insert (k, unat w) A) lo hi \<and> (k, unat w) \<notin> A \<and>
    blocks b' = (blocks b)(k := rest) \<and> free_bytes b' = free_bytes b \<and> lowest_free_bytes b' = lowest_free_bytes b"
proof -
  let ?b = "b\<lparr>blocks := (blocks b)(k := rest)\<rparr>"
  have d: "distinct (w # rest)" using buddy_invD(5) [OF i k] w by simp
  have wm: "(k, unat w) \<in> free_set b" using w k by (simp add: free_set_def fr_def)
  have fr: "fr ?b = (fr b)(k := fr b k - {unat w})" using d w by (auto simp: fun_eq_iff fr_def dest: unat_eqD)
  obtain c where c: "(if k < MAX_ORDER then do { (state, b) \<leftarrow> flip_pair w k ?b; _ \<leftarrow> assert_that (\<not> state); mark_allocated w k True b }
      else Some ?b) = Some c" "blocks c = blocks ?b" "bd_base c = bd_base b" "bd_limit c = bd_limit b"
      "highest_avail_order c = highest_avail_order b" "maps_ok c" "free_bytes c = free_bytes b" "lowest_free_bytes c = lowest_free_bytes b"
  proof (cases "k < MAX_ORDER")
    case False
    have "maps_ok ?b" using k False by (intro maps_cong [OF buddy_invD(8) [OF i]]) auto
    then show ?thesis using False by (intro that [of ?b]) simp_all
  next
    case True
    obtain n where n: "unat w = pfirst b k n \<or> unat w = psecond b k n" "psecond b k n < unat (bd_limit b)" "pair_bit w k b = n" "pair_ok b k n"
      using block_pair [OF i True] wm by blast
    note p = pair_okD [OF n(4)]
    have wf: "unat w \<in> fr b k" using wm by (simp add: free_set_def)
    then have g: "getbit b k n" using p(3) n(1) by auto
    have "\<exists>d. flip_pair w k ?b = Some (\<not> getbit b k n, flip_at k n ?b) \<and> mark_allocated w k True (flip_at k n ?b) = Some ((flip_at k n ?b)\<lparr>debug := d\<rparr>) \<and>
        maps_ok ((flip_at k n ?b)\<lparr>debug := d\<rparr>)"
      by (rule flip_mark [OF buddy_invD(8) [OF i] True n(2,1)]) (use n(1) p(2) g wf in \<open>auto simp: fr\<close>)
    then obtain d where f: "flip_pair w k ?b = Some (False, flip_at k n ?b)" "mark_allocated w k True (flip_at k n ?b) = Some ((flip_at k n ?b)\<lparr>debug := d\<rparr>)"
      "maps_ok ((flip_at k n ?b)\<lparr>debug := d\<rparr>)" using g by auto
    then show ?thesis using True by (intro that [of "(flip_at k n ?b)\<lparr>debug := d\<rparr>"]) (simp_all add: assert_that_def flip_at_def)
  qed
  let ?b' = "if k = highest_avail_order c \<and> blocks c k = [] then c\<lparr>highest_avail_order := next_avail k c\<rparr> else c"
  have r: "bd_base b \<le> w" "w < bd_limit b" using block_range [OF i] wm by blast+
  have p: "pop_block k w rest b = Some (w, ?b')" using c(1) r by (simp add: pop_block_def Let_def assert_that_def c(3,4))
  have fs: "free_set ?b' = free_set b - {(k, unat w)}" 
    by (rule free_set_take [OF k]) (simp only: fr [symmetric], rule fr_blocks, simp add: c(2))
  have "free_set ?b' \<union> insert (k, unat w) A = free_set b \<union> A" using fs wm by auto
  moreover have out: "(k, unat w) \<notin> A" using wm buddy_invD(6) [OF i] by auto
  moreover have "maps_ok ?b'" by (rule maps_cong [OF c(6)]) (auto simp: fr_def)
  moreover have "high_ok 1 ?b'" using c(2,5) by (intro pop_high [OF buddy_invD(9) [OF i] k w]) simp_all
  moreover have "j \<le> MAX_ORDER \<Longrightarrow> distinct (blocks ?b' j)" for j using buddy_invD(5) [OF i, of j] d c(2) by simp
  ultimately have "buddy_inv 1 ?b' (insert (k, unat w) A) lo hi"
    using buddy_invD(1-4,6,7) [OF i] fs c(3,4) by (auto simp: buddy_inv_def aligned_def)
  then show ?thesis using p out c(2,7,8) by (intro exI [of _ ?b']) simp
qed

section \<open>Splitting a block\<close>

lemma first_of_pair:
  assumes a: "aligned b" and k: "k < MAX_ORDER" and p: "unat (bd_base b) \<le> p" "2 ^ (13 + k) dvd p"
  obtains n where "p = pfirst b k n"
proof -
  have "2 ^ (13 + k) dvd p - unat (bd_base b)" using p(2) aligned_dvd(1) [OF a k] by (rule dvd_diff_nat)
  then obtain n where "p - unat (bd_base b) = 2 ^ (13 + k) * n" by (rule dvdE)
  then have "p = pfirst b k n" using p(1) by (simp add: pfirst_def mult.commute)
  then show ?thesis by (rule that)
qed

lemma push_free_simps [simp]:
  "blocks (push_free w k b) = (blocks b)(k := w # blocks b k)" "bd_base (push_free w k b) = bd_base b" "bd_limit (push_free w k b) = bd_limit b"
  "bitmap (push_free w k b) = bitmap b" "debug (push_free w k b) = debug b" "free_bytes (push_free w k b) = free_bytes b"
  "lowest_free_bytes (push_free w k b) = lowest_free_bytes b" "highest_avail_order (push_free w k b) = max k (highest_avail_order b)"
  by (simp_all add: push_free_def Let_def)

lemma push_high:
  assumes h: "high_ok m b" and m: "m \<le> max 1 k" "k \<le> MAX_ORDER" and e: "blocks c = (blocks b)(k := w # blocks b k)"
    and hi: "highest_avail_order c = max k (highest_avail_order b)"
  shows "high_ok 1 c"
  using h m hi unfolding high_ok_def e by (auto simp: max_def split: if_splits)

lemma halves:
  assumes i: "buddy_inv m b A lo hi" and k: "k < MAX_ORDER" and p: "lo \<le> unat p" "unat p + 2 ^ (12 + Suc k) \<le> hi" "2 ^ (12 + Suc k) dvd unat p"
  obtains n where "unat p = pfirst b k n" "psecond b k n < unat (bd_limit b)" "unat (p + block_size k) = psecond b k n"
proof -
  have "unat (bd_base b) \<le> unat p" using p(1) buddy_invD(2) [OF i] by linarith
  then obtain n where n: "unat p = pfirst b k n" using first_of_pair [OF buddy_invD(1) [OF i] k] p(3) by auto
  have lim: "unat p + 2 ^ (12 + Suc k) \<le> unat (bd_limit b)" using p(2) buddy_invD(3) [OF i] by linarith
  have half: "(2::nat) ^ (12 + k) < 2 ^ (12 + Suc k)" by simp
  then have s: "psecond b k n < unat (bd_limit b)" using lim unfolding psecond_def n [symmetric] by linarith
  have "unat p + 2 ^ (12 + k) < 18446744073709551616" using lim half unat_u64_lt [of "bd_limit b"] by linarith
  then have "unat (p + block_size k) = psecond b k n"
    using unat_block_size [of k] k by (simp add: unat_word_ariths psecond_def n [symmetric])
  then show ?thesis using n s that by blast
qed

lemma push_second_inv:
  assumes i: "buddy_inv 1 b (insert (Suc k, unat p) A) lo hi" and k: "k < MAX_ORDER" and p: "(Suc k, unat p) \<notin> A"
  shows "\<exists>b'. push_second k p b = Some (p, b') \<and> buddy_inv 1 b' (insert (k, unat p) A) lo hi \<and> (k, unat p) \<notin> A \<and>
    free_bytes b' = free_bytes b \<and> lowest_free_bytes b' = lowest_free_bytes b"
proof -
  let ?q = "p + block_size k" and ?S = "free_set b \<union> A"
  have t: "tiled (insert (Suc k, unat p) ?S) lo hi" using buddy_invD(7) [OF i] by simp
  have pS: "(Suc k, unat p) \<notin> ?S" using p buddy_invD(6) [OF i] by auto
  note tb = tiled_bounds(1,2,4) [OF t insertI1]
  note np = tiled_no_part [OF t insertI1]
  obtain n where n: "unat p = pfirst b k n" and s: "psecond b k n < unat (bd_limit b)" and q: "unat ?q = psecond b k n"
    using halves [OF i k] tb by auto
  define c where "c = push_free ?q k b"
  have c: "blocks c = (blocks b)(k := ?q # blocks b k)" "bd_base c = bd_base b" "bd_limit c = bd_limit b" "bitmap c = bitmap b" "debug c = debug b"
    "highest_avail_order c = max k (highest_avail_order b)" "free_bytes c = free_bytes b" "lowest_free_bytes c = lowest_free_bytes b"
    by (simp_all add: c_def)
  have fr: "fr c = (fr b)(k := insert (psecond b k n) (fr b k))" using q by (simp add: fr_def fun_eq_iff c(1))
  have nf: "pfirst b k n \<notin> fr b k" "psecond b k n \<notin> fr b k"
    using np k unfolding n by (simp_all add: free_set_def psecond_def)
  have g: "\<not> getbit b k n" using pair_okD(3) [OF maps_okD [OF buddy_invD(8) [OF i] k s]] nf by simp
  have "\<exists>d. flip_pair p k c = Some (\<not> getbit b k n, flip_at k n c) \<and> mark_allocated p k True (flip_at k n c) = Some ((flip_at k n c)\<lparr>debug := d\<rparr>) \<and>
      maps_ok ((flip_at k n c)\<lparr>debug := d\<rparr>)"
    by (rule flip_mark [OF buddy_invD(8) [OF i] k s]) (use n g nf c in \<open>auto simp: fr psecond_def\<close>)
  then obtain d where f: "flip_pair p k c = Some (True, flip_at k n c)" "mark_allocated p k True (flip_at k n c) = Some ((flip_at k n c)\<lparr>debug := d\<rparr>)"
    "maps_ok ((flip_at k n c)\<lparr>debug := d\<rparr>)" using g by auto
  let ?b' = "(flip_at k n c)\<lparr>debug := d\<rparr>"
  have r: "bd_base b \<le> p" "p < bd_limit b" using block_range [OF i, of "Suc k" p] by simp_all
  have ps: "push_second k p b = Some (p, ?b')" using f(1,2) r c(2,3) by (simp add: push_second_def assert_that_def c_def [symmetric])
  have fs: "free_set ?b' = insert (k, psecond b k n) (free_set b)" by (rule free_set_push) (use k fr in simp_all)
  have "tiled (free_set ?b' \<union> insert (k, unat p) A) lo hi" using tiled_split [OF t pS] by (simp add: fs psecond_def n insert_commute)
  moreover have "free_set ?b' \<inter> insert (k, unat p) A = {}" "(k, unat p) \<notin> A"
    using np buddy_invD(6) [OF i] unfolding fs n psecond_def by auto
  moreover have "high_ok 1 ?b'" by (rule push_high [OF buddy_invD(9) [OF i], of k _ ?q]) (use k c(1,6) in simp_all)
  moreover have "?q \<notin> set (blocks b k)" using nf(2) fr_mem [of ?q b k] q by auto
  then have "\<forall>j\<le>MAX_ORDER. distinct (blocks ?b' j)" using buddy_invD(5) [OF i] c(1) by simp
  ultimately have "buddy_inv 1 ?b' (insert (k, unat p) A) lo hi \<and> (k, unat p) \<notin> A"
    using buddy_invD(1-4) [OF i] f(3) c(2,3) by (simp add: buddy_inv_def aligned_def)
  then show ?thesis using ps c(7,8) by (intro exI [of _ ?b']) simp
qed

section \<open>Allocation\<close>

lemma no_block_above:
  assumes "high_ok 1 b" "highest_avail_order b < k" "k \<le> j" "j \<le> MAX_ORDER"
  shows "blocks b j = []"
  using assms by (simp add: high_ok_def)

lemma alloc_order_inv:
  assumes "buddy_inv 1 b A lo hi" "k \<le> MAX_ORDER"
  shows "\<exists>w b'. alloc_order k b = Some (w, b') \<and> free_bytes b' = free_bytes b \<and> lowest_free_bytes b' = lowest_free_bytes b \<and>
    (if w = 0 then b' = b \<and> (\<forall>j. k \<le> j \<longrightarrow> j \<le> MAX_ORDER \<longrightarrow> blocks b j = [])
     else buddy_inv 1 b' (insert (k, unat w) A) lo hi \<and> (k, unat w) \<notin> A)"
  using assms
proof (induction k b rule: alloc_order.induct)
  case (1 k b)
  note i = "1.prems"(1)
  show ?case
  proof (cases "highest_avail_order b < k")
    case True
    then have "alloc_order k b = Some (0, b)" by (simp add: alloc_order.simps [of k b])
    then show ?thesis using no_block_above [OF buddy_invD(9) [OF i] True] by simp
  next
    case le: False
    show ?thesis
    proof (cases "blocks b k")
      case (Cons w rest)
      then have e: "alloc_order k b = pop_block k w rest b" using le "1.prems"(2) by (simp add: alloc_order.simps [of k b])
      have "(k, unat w) \<in> free_set b \<union> A" using Cons "1.prems"(2) by (simp add: free_set_def fr_def)
      then have "w \<noteq> 0" by (rule block_range(3) [OF i])
      then show ?thesis using pop_block_inv [OF i "1.prems"(2) Cons] e by auto
    next
      case Nil
      show ?thesis
      proof (cases "k = MAX_ORDER")
        case True
        then have "alloc_order k b = Some (0, b)" using Nil le unfolding alloc_order.simps [of k b] by simp
        then show ?thesis using Nil True by auto
      next
        case False
        then have k: "k < MAX_ORDER" using "1.prems"(2) by simp
        obtain p c where c: "alloc_order (k + 1) b = Some (p, c)" "free_bytes c = free_bytes b" "lowest_free_bytes c = lowest_free_bytes b"
          "if p = 0 then c = b \<and> (\<forall>j. k + 1 \<le> j \<longrightarrow> j \<le> MAX_ORDER \<longrightarrow> blocks b j = [])
           else buddy_inv 1 c (insert (k + 1, unat p) A) lo hi \<and> (k + 1, unat p) \<notin> A"
          using "1.IH" [OF le _ Nil False i] k by auto
        have e: "alloc_order k b = (if p = 0 then Some (0, c) else push_second k p c)"
          using c(1) Nil le k by (simp add: alloc_order.simps [of k b])
        show ?thesis
        proof (cases "p = 0")
          case True
          have "blocks b j = []" if "k \<le> j" "j \<le> MAX_ORDER" for j using c(4) True Nil that by (cases "j = k") auto
          then show ?thesis using True e c by simp
        next
          case False
          then have "buddy_inv 1 c (insert (Suc k, unat p) A) lo hi" "(Suc k, unat p) \<notin> A" using c(4) by simp_all
          from push_second_inv [OF this(1) k this(2)] show ?thesis using False e c(2,3) by auto
        qed
      qed
    qed
  qed
qed

section \<open>Freeing\<close>

lemma buddy_of:
  assumes a: "aligned b" and k: "k < MAX_ORDER" and s: "psecond b k n < unat (bd_limit b)" and p: "unat p = pfirst b k n \<or> unat p = psecond b k n"
  shows "unat (pair_first p k) = pfirst b k n" "{unat p, unat (p XOR block_size k)} = {pfirst b k n, psecond b k n}" "unat (p XOR block_size k) \<noteq> unat p"
proof -
  have d: "2 ^ (13 + k) dvd pfirst b k n" by (rule pair_dvd [OF a k])
  have k': "k \<le> MAX_ORDER" using k by simp
  have lt: "pfirst b k n + 2 ^ (12 + k) < 18446744073709551616" using s unat_u64_lt [of "bd_limit b"] unfolding psecond_def by linarith
  have "unat (pair_first p k) = pfirst b k n \<and> {unat p, unat (p XOR block_size k)} = {pfirst b k n, psecond b k n} \<and> unat (p XOR block_size k) \<noteq> unat p"
  proof (cases "unat p = pfirst b k n")
    case True
    then show ?thesis using pair_of_first [OF k', of p] d lt by (simp add: psecond_def)
  next
    case False
    then have e: "unat p = pfirst b k n + 2 ^ (12 + k)" using p by (simp add: psecond_def)
    then show ?thesis using pair_of_second [OF k' e d] by (auto simp: psecond_def)
  qed
  then show "unat (pair_first p k) = pfirst b k n" "{unat p, unat (p XOR block_size k)} = {pfirst b k n, psecond b k n}"
    "unat (p XOR block_size k) \<noteq> unat p" by blast+
qed

lemma mark_inv:
  assumes i: "buddy_inv m b A lo hi" and k: "k \<le> MAX_ORDER" "(k, unat p) \<in> A"
  shows "\<exists>d. mark_allocated p k x b = Some (b\<lparr>debug := d\<rparr>) \<and> buddy_inv m (b\<lparr>debug := d\<rparr>) A lo hi"
proof -
  have "in_maps b k (pair_bit p k b)" if "k < MAX_ORDER" using block_pair [OF i that, of p] k(2) pair_okD(1) by (metis UnI2)
  from mark_allocated_step [OF this k(1), of x] obtain d
    where d: "mark_allocated p k x b = Some (b\<lparr>debug := d\<rparr>)" "\<forall>j. length (d j) = length (debug b j)" by blast
  have "maps_ok (b\<lparr>debug := d\<rparr>)" by (rule maps_cong [OF buddy_invD(8) [OF i]]) (use d(2) in simp_all)
  then have "buddy_inv m (b\<lparr>debug := d\<rparr>) A lo hi"
    using i free_set_cong [OF fr_frame(2)] by (simp add: buddy_inv_def aligned_def high_ok_def)
  then show ?thesis using d(1) by blast
qed

text \<open>Putting an allocated block on the list of its order.\<close>

lemma push_free_inv:
  assumes i: "buddy_inv m b (insert (k, unat p) A) lo hi" and k: "k \<le> MAX_ORDER" "m \<le> max 1 k" and p: "(k, unat p) \<notin> A"
    and c: "blocks c = blocks b" "bd_base c = bd_base b" "bd_limit c = bd_limit b" "highest_avail_order c = highest_avail_order b"
    and m: "maps_ok (push_free p k c)"
  shows "buddy_inv 1 (push_free p k c) A lo hi"
proof -
  have fr: "fr (push_free p k c) = (fr b)(k := insert (unat p) (fr b k))" using c(1) by (simp add: fr_def fun_eq_iff)
  note fs = free_set_push [OF k(1) fr]
  have "p \<notin> set (blocks b k)" using buddy_invD(6) [OF i] fr_mem [of p b k] k(1) by (auto simp: free_set_def)
  then have "\<forall>j\<le>MAX_ORDER. distinct (blocks (push_free p k c) j)" using buddy_invD(5) [OF i] c(1) by simp
  moreover have "high_ok 1 (push_free p k c)" by (rule push_high [OF buddy_invD(9) [OF i] k(2,1)]) (use c in simp_all)
  moreover have "free_set (push_free p k c) \<union> A = free_set b \<union> insert (k, unat p) A" "free_set (push_free p k c) \<inter> A = {}"
    using fs p buddy_invD(6) [OF i] by auto
  ultimately show ?thesis using buddy_invD(1-4,7) [OF i] m c by (simp add: buddy_inv_def aligned_def)
qed

text \<open>The two blocks of a pair become the allocated block of the next order.\<close>

lemma merge_tiled:
  assumes i: "buddy_inv m b (insert (k, unat p) A) lo hi" and k: "k < MAX_ORDER" and p: "(k, unat p) \<notin> A"
    and n: "unat p = pfirst b k n \<or> unat p = psecond b k n" "psecond b k n < unat (bd_limit b)" and qf: "unat (p XOR block_size k) \<in> fr b k"
  defines "F \<equiv> free_set b - {(k, unat (p XOR block_size k))}"
  shows "tiled (F \<union> insert (Suc k, unat (pair_first p k)) A) lo hi \<and> (Suc k, unat (pair_first p k)) \<notin> F \<union> A"
proof -
  let ?q = "p XOR block_size k" and ?S = "F \<union> A"
  note bo = buddy_of [OF buddy_invD(1) [OF i] k n(2,1)]
  have qb: "(k, unat ?q) \<in> free_set b" using qf k by (simp add: free_set_def)
  have out: "(k, unat p) \<notin> ?S" "(k, unat ?q) \<notin> ?S" using p qb buddy_invD(6) [OF i] by (auto simp: F_def)
  have "{(k, unat p), (k, unat ?q)} = Pair k ` {unat p, unat ?q}" by auto
  then have e: "{(k, unat p), (k, unat ?q)} = {(k, pfirst b k n), (k, psecond b k n)}" unfolding bo(2) by auto
  have "free_set b \<union> insert (k, unat p) A = {(k, unat p), (k, unat ?q)} \<union> ?S" using qb by (auto simp: F_def)
  then have t: "tiled (insert (k, pfirst b k n) (insert (k, pfirst b k n + 2 ^ (12 + k)) ?S)) lo hi"
    using buddy_invD(7) [OF i] unfolding e psecond_def by simp
  have out': "(k, pfirst b k n) \<notin> ?S" "(k, pfirst b k n + 2 ^ (12 + k)) \<notin> ?S" 
    using out e unfolding psecond_def by (auto simp: doubleton_eq_iff)
  have "2 ^ (12 + Suc k) dvd pfirst b k n" using pair_dvd [OF buddy_invD(1) [OF i] k] by simp
  from tiled_merge [OF t out' k this] show ?thesis unfolding bo(1) by simp
qed

lemma merge_inv:
  assumes i: "buddy_inv m b (insert (k, unat p) A) lo hi" and k: "k < MAX_ORDER" "m \<le> max 1 k" and p: "(k, unat p) \<notin> A"
    and n: "unat p = pfirst b k n \<or> unat p = psecond b k n" "psecond b k n < unat (bd_limit b)" and g: "getbit b k n"
  shows "\<exists>c. erase_block k (p XOR block_size k) (flip_at k n b) = Some c \<and> buddy_inv (Suc k) c (insert (Suc k, unat (pair_first p k)) A) lo hi \<and>
    (Suc k, unat (pair_first p k)) \<notin> A \<and> free_bytes c = free_bytes b \<and> lowest_free_bytes c = lowest_free_bytes b"
proof -
  let ?q = "p XOR block_size k"
  note bo = buddy_of [OF buddy_invD(1) [OF i] k(1) n(2,1)]
  note ok = pair_okD [OF maps_okD [OF buddy_invD(8) [OF i] k(1) n(2)]]
  have pf: "unat p \<notin> fr b k" using buddy_invD(6) [OF i] k(1) by (auto simp: free_set_def)
  then have qf: "unat ?q \<in> fr b k" using ok(3) g bo(2) by (auto simp: doubleton_eq_iff)
  then have qs: "?q \<in> set (blocks b k)" by (auto simp: fr_def dest: unat_eqD)
  define c where "c = (flip_at k n b)\<lparr>blocks := (blocks b)(k := remove1 ?q (blocks b k))\<rparr>"
  have er: "erase_block k ?q (flip_at k n b) = Some c" using qs by (simp add: erase_block_def c_def)
  have dist: "distinct (blocks b k)" using buddy_invD(5) [OF i] k(1) by simp
  have fr: "fr c = (fr b)(k := fr b k - {unat ?q})" using fr_remove [OF dist, of ?q] by (simp add: fr_def fun_eq_iff c_def)
  have fs: "free_set c = free_set b - {(k, unat ?q)}" using k(1) by (intro free_set_take fr) simp
  have cs: "bd_base c = bd_base b" "bd_limit c = bd_limit b" "bitmap c = bitmap (flip_at k n b)" "debug c = debug b" by (simp_all add: c_def)
  have "maps_ok c"
    by (rule maps_step [OF buddy_invD(8) [OF i] k(1) n(2)]) (use bo(2) pf g cs in \<open>auto simp: fr doubleton_eq_iff\<close>)
  moreover have "high_ok (Suc k) c" using buddy_invD(9) [OF i] k qs by (auto simp: high_ok_def c_def max_def split: if_splits)
  moreover have "\<forall>j\<le>MAX_ORDER. distinct (blocks c j)" using buddy_invD(5) [OF i] by (simp add: c_def distinct_remove1)
  moreover have "tiled (free_set c \<union> insert (Suc k, unat (pair_first p k)) A) lo hi \<and> (Suc k, unat (pair_first p k)) \<notin> free_set c \<union> A"
    unfolding fs by (rule merge_tiled [OF i k(1) p n qf])
  ultimately have "buddy_inv (Suc k) c (insert (Suc k, unat (pair_first p k)) A) lo hi \<and> (Suc k, unat (pair_first p k)) \<notin> A"
    using buddy_invD(1-4,6) [OF i] fs by (auto simp: buddy_inv_def aligned_def c_def)
  then show ?thesis using er by (intro exI [of _ c]) (simp add: c_def)
qed

lemma free_order_inv:
  assumes "buddy_inv m b (insert (k, unat p) A) lo hi" "k \<le> MAX_ORDER" "m \<le> max 1 k" "(k, unat p) \<notin> A"
  shows "\<exists>b'. free_order p k b = Some b' \<and> buddy_inv 1 b' A lo hi \<and> free_bytes b' = free_bytes b \<and> lowest_free_bytes b' = lowest_free_bytes b"
  using assms
proof (induction p k b arbitrary: m rule: free_order.induct)
  case (1 p k b)
  note i = "1.prems"(1) and k = "1.prems"(2) and out = "1.prems"(4)
  have r: "\<not> (k > MAX_ORDER \<or> \<not> (bd_base b \<le> p \<and> p < bd_limit b))" using block_range [OF i, of k p] k by simp
  obtain d where d: "mark_allocated p k False b = Some (b\<lparr>debug := d\<rparr>)" and ic: "buddy_inv m (b\<lparr>debug := d\<rparr>) (insert (k, unat p) A) lo hi"
    using mark_inv [OF i k, of p False] by auto
  let ?c = "b\<lparr>debug := d\<rparr>"
  show ?case
  proof (cases "k = MAX_ORDER")
    case True
    have e: "free_order p k b = Some (push_free p k ?c)" unfolding free_order.simps [of p k b] using r d True by simp
    have "maps_ok (push_free p k ?c)" by (rule maps_cong [OF buddy_invD(8) [OF ic]]) (use True in \<open>simp_all add: fr_def\<close>)
    then have "buddy_inv 1 (push_free p k ?c) A lo hi" by (rule push_free_inv [OF ic k "1.prems"(3) out refl refl refl refl])
    then show ?thesis using e by simp
  next
    case False
    then have lt: "k < MAX_ORDER" using k by simp
    obtain n where n: "unat p = pfirst ?c k n \<or> unat p = psecond ?c k n" "psecond ?c k n < unat (bd_limit ?c)" "pair_bit p k ?c = n" "pair_ok ?c k n"
      using block_pair [OF ic lt, of p] by auto
    have f: "flip_pair p k ?c = Some (\<not> getbit ?c k n, flip_at k n ?c)" by (rule flip_pair_step [OF pair_okD(1) [OF n(4)] n(3)])
    show ?thesis
    proof (cases "getbit ?c k n")
      case g: False
      have e: "free_order p k b = Some (push_free p k (flip_at k n ?c))"
        unfolding free_order.simps [of p k b] using r d False f g by simp
      have "maps_ok (push_free p k (flip_at k n ?c))"
        by (rule maps_step [OF buddy_invD(8) [OF ic] lt n(2)]) (use n(1) g pair_okD [OF n(4)] in \<open>auto simp: fr_def psecond_def\<close>)
      then have "buddy_inv 1 (push_free p k (flip_at k n ?c)) A lo hi" by (intro push_free_inv [OF ic k "1.prems"(3) out]) simp_all
      then show ?thesis using e by simp
    next
      case g: True
      obtain c where c: "erase_block k (p XOR block_size k) (flip_at k n ?c) = Some c" "buddy_inv (Suc k) c (insert (Suc k, unat (pair_first p k)) A) lo hi"
        "(Suc k, unat (pair_first p k)) \<notin> A" "free_bytes c = free_bytes b" "lowest_free_bytes c = lowest_free_bytes b"
        using merge_inv [OF ic lt "1.prems"(3) out n(1,2) g] by auto
      have e: "free_order p k b = free_order (pair_first p k) (k + 1) c"
        unfolding free_order.simps [of p k b] using r d False f g c(1) by simp
      have "\<exists>b'. free_order (pair_first p k) (k + 1) c = Some b' \<and> buddy_inv 1 b' A lo hi \<and> free_bytes b' = free_bytes c \<and> lowest_free_bytes b' = lowest_free_bytes c"
        by (rule "1.IH" [OF r d False f _ _ c(1), of _ "Suc k"]) (use g c(2,3) lt in simp_all)
      then show ?thesis using e c(4,5) by simp
    qed
  qed
qed

end
