(* ===== verification/Buddy_Spec.thy ===== *)
theory Buddy_Spec
  imports Buddy_Steps
begin

text \<open>
  What the buddy allocator promises: sizes and orders, exact accounting of the free bytes, construction on a
  memory region, and all sequences of requests of a client.
\<close>

section \<open>Sizes\<close>

lemma ctz_power: "ctz (2 ^ n) = n"
proof (induction n)
  case 0 show ?case by (simp add: ctz.simps [of "Suc 0"])
next
  case (Suc n) then show ?case by (simp add: ctz.simps [of "2 * 2 ^ n"])
qed

lemma ctz_min: "ctz (unat MIN_SIZE) = 12"
  using ctz_power [of 12] by (simp add: MIN_SIZE_def)

lemma max_size: "MAX_SIZE = 2 ^ 28" "unat MAX_SIZE = 2 ^ 28"
  by (simp_all add: MAX_SIZE_def MAX_ORDER_def MIN_SIZE_def push_bit_eq_mult)

lemma size_to_order_power:
  assumes "k \<le> MAX_ORDER"
  shows "size_to_order (block_size k) = Some k"
proof -
  note u = unat_block_size [OF assms]
  have "(2::nat) ^ 12 \<le> 2 ^ (12 + k)" "(2::nat) ^ (12 + k) \<le> 2 ^ 28"
    by (rule power_increasing; use assms in \<open>simp add: MAX_ORDER_def\<close>)+
  then have "\<not> block_size k < MIN_SIZE" "\<not> block_size k > MAX_SIZE"
    using u max_size(2) unfolding word_less_nat_alt by (simp_all add: MIN_SIZE_def)
  moreover have "ctz (unat (block_size k)) = 12 + k" unfolding u by (rule ctz_power)
  ultimately show ?thesis by (simp add: size_to_order_def Let_def ctz_min) (simp add: block_size_power)
qed

lemma size_to_orderD:
  assumes "size_to_order sz = Some k"
  shows "k \<le> MAX_ORDER" "sz = block_size k"
proof -
  let ?l = "ctz (unat sz)"
  have s: "MIN_SIZE \<le> sz" "sz \<le> MAX_SIZE" "sz = 2 ^ ?l" "k = ?l - 12"
    using assms by (auto simp: size_to_order_def Let_def ctz_min split: if_splits)
  have lt: "?l < 64"
  proof (rule ccontr)
    assume "\<not> ?l < 64"
    then have "(2::u64) ^ ?l = 0" by (simp add: exp_eq_zero_iff)
    then have "sz = 0" using s(3) by simp
    then show False using s(1) by (simp add: MIN_SIZE_def)
  qed
  have u: "unat sz = 2 ^ ?l" using s(3) unat_power [OF lt] by simp
  have "(2::nat) ^ 12 \<le> 2 ^ ?l" "(2::nat) ^ ?l \<le> 2 ^ 28"
    using s(1,2) max_size(2) unfolding word_le_nat_alt u [symmetric] by (simp_all add: MIN_SIZE_def)
  then have "12 \<le> ?l" "?l \<le> 28" by (simp_all only: power_increasing_iff [of "2::nat"])
  then show "k \<le> MAX_ORDER" "sz = block_size k" using s(3,4) by (simp_all add: MAX_ORDER_def block_size_power)
qed

section \<open>The amount of free memory\<close>

lemma tiled_finite:
  assumes "tiled S lo hi"
  shows "finite S"
proof -
  have "S \<subseteq> {..MAX_ORDER} \<times> {..<hi}" using tiledD(2,3) [OF assms] span_mem by fastforce
  then show ?thesis by (rule finite_subset) simp
qed

lemma tiled_sum:
  assumes "tiled S lo hi"
  shows "(\<Sum>x\<in>S. 2 ^ (12 + fst x)) = hi - lo"
proof -
  have "card (\<Union>x\<in>S. span x) = (\<Sum>x\<in>S. card (span x))"
    using tiledD(1) [OF assms] by (intro card_UN_disjoint [OF tiled_finite [OF assms]]) (auto simp: span_def disjnt_def)
  then show ?thesis unfolding tiledD(5) [OF assms] by (simp add: span_def)
qed

definition free_total :: "buddy \<Rightarrow> nat" where
  "free_total b = (\<Sum>k\<le>MAX_ORDER. length (blocks b k) * 2 ^ (12 + k))"

lemma free_total_set:
  assumes "\<And>k. k \<le> MAX_ORDER \<Longrightarrow> distinct (blocks b k)"
  shows "free_total b = (\<Sum>x\<in>free_set b. 2 ^ (12 + fst x))"
proof -
  have inj: "inj_on unat (set (blocks b k))" for k by (rule inj_onI) (rule unat_eqD)
  have "length (blocks b k) * 2 ^ (12 + k) = (\<Sum>p\<in>fr b k. 2 ^ (12 + fst (k, p)))" if "k \<le> MAX_ORDER" for k
    using assms [OF that] inj by (simp add: fr_def card_image distinct_card)
  then have "free_total b = (\<Sum>k\<le>MAX_ORDER. \<Sum>p\<in>fr b k. 2 ^ (12 + fst (k, p)))" by (simp add: free_total_def)
  also have "\<dots> = (\<Sum>x\<in>Sigma {..MAX_ORDER} (fr b). 2 ^ (12 + fst x))" 
    by (subst sum.Sigma) (auto simp: fr_def intro!: sum.cong)
  also have "Sigma {..MAX_ORDER} (fr b) = free_set b" by (auto simp: free_set_def)
  finally show ?thesis .
qed

lemma free_total_tiled:
  assumes i: "buddy_inv m b A lo hi"
  shows "free_total b + (\<Sum>x\<in>A. 2 ^ (12 + fst x)) = hi - lo" "finite A"
proof -
  note t = buddy_invD(7) [OF i]
  have f: "finite (free_set b)" "finite A" using tiled_finite [OF t] by simp_all
  then show "free_total b + (\<Sum>x\<in>A. 2 ^ (12 + fst x)) = hi - lo"

    using tiled_sum [OF t] sum.union_disjoint [OF f buddy_invD(6) [OF i], of "\<lambda>x. (2::nat) ^ (12 + fst x)"] free_total_set [OF buddy_invD(5) [OF i]] by simp
  show "finite A" by (rule f(2))
qed

lemma free_sum_total: "free_sum (MAX_ORDER + 1) b = of_nat (free_total b)"
proof -
  have "sum_list (map f [0..<n]) = (\<Sum>k<n. f k)" for f :: "nat \<Rightarrow> u64" and n
    by (simp add: interv_sum_list_conv_sum_set_nat atLeast0LessThan)
  then show ?thesis 
    by (simp only: free_sum_def free_total_def block_size_power Suc_eq_plus1 [symmetric] lessThan_Suc_atMost) simp
qed

section \<open>Construction\<close>

lemma unat_round:
  assumes "n < 64"
  shows "unat (round_down (2 ^ n) x) = unat x - unat x mod 2 ^ n"
    "unat x + 2 ^ n \<le> 2 ^ 64 \<Longrightarrow> unat (round_up (2 ^ n) x) = unat x + (2 ^ n - 1) - (unat x + (2 ^ n - 1)) mod 2 ^ n"
proof -
  have m: "(2::u64) ^ n - 1 = mask n" by (simp add: mask_eq_decr_exp)
  show "unat (round_down (2 ^ n) x) = unat x - unat x mod 2 ^ n" unfolding round_down_def m by (rule unat_and_not_mask)
  assume le: "unat x + 2 ^ n \<le> 2 ^ 64"
  have um: "unat (mask n :: u64) = 2 ^ n - 1" using unat_power [OF assms] unfolding m [symmetric] by (subst unat_sub) (simp_all add: word_le_nat_alt)
  have "x + 2 ^ n - 1 = x + mask n" unfolding m [symmetric] by simp
  moreover have "unat (x + mask n) = unat x + (2 ^ n - 1)" using le um unat_add_no_wrap [of x "mask n"] by simp
  ultimately show "unat (round_up (2 ^ n) x) = unat x + (2 ^ n - 1) - (unat x + (2 ^ n - 1)) mod 2 ^ n"
    by (simp only: round_up_def m unat_and_not_mask)
qed

lemma round_facts:
  assumes "n < 64"
  shows "2 ^ n dvd unat (round_down (2 ^ n) x)" "unat (round_down (2 ^ n) x) \<le> unat x" "unat x < unat (round_down (2 ^ n) x) + 2 ^ n"
    "unat x + 2 ^ n \<le> 2 ^ 64 \<Longrightarrow> 2 ^ n dvd unat (round_up (2 ^ n) x)" "unat x + 2 ^ n \<le> 2 ^ 64 \<Longrightarrow> unat x \<le> unat (round_up (2 ^ n) x)"
    "unat x + 2 ^ n \<le> 2 ^ 64 \<Longrightarrow> unat (round_up (2 ^ n) x) < unat x + 2 ^ n"
proof -
  note r = unat_round [OF assms, of x]
  have md: "y mod 2 ^ n \<le> y" "y mod 2 ^ n < 2 ^ n" for y :: nat by simp_all
  show "2 ^ n dvd unat (round_down (2 ^ n) x)" unfolding r(1) by (rule dvd_minus_mod)
  show "unat (round_down (2 ^ n) x) \<le> unat x" "unat x < unat (round_down (2 ^ n) x) + 2 ^ n"
    unfolding r(1) using md [of "unat x"] by linarith+
  assume le: "unat x + 2 ^ n \<le> 2 ^ 64"
  show "2 ^ n dvd unat (round_up (2 ^ n) x)" unfolding r(2) [OF le] by (rule dvd_minus_mod)
  have "0 < (2::nat) ^ n" by simp
  then show "unat x \<le> unat (round_up (2 ^ n) x)" "unat (round_up (2 ^ n) x) < unat x + 2 ^ n"
    unfolding r(2) [OF le] using md [of "unat x + (2 ^ n - 1)"] by linarith+
qed

text \<open>The memory of the allocator: free memory inside of the tracked memory, away from the end of the address space.\<close>

definition region_ok :: "addr \<Rightarrow> u64 \<Rightarrow> addr \<Rightarrow> u64 \<Rightarrow> bool" where
  "region_ok base len tbase tlen \<longleftrightarrow>
     (let (t, n) = (if tbase = 0 \<and> tlen = 0 then (base, len) else (tbase, tlen))
      in 0 < unat base \<and> unat t \<le> unat base \<and> unat base + unat len \<le> unat t + unat n \<and>
         unat t + unat n + unat n div 2 ^ 15 + 2 ^ 30 \<le> 2 ^ 64)"

subsection \<open>Bitmaps\<close>

text \<open>After the bitmaps below \<open>i\<close> have been placed for \<open>N\<close> blocks.\<close>

definition placed :: "nat \<Rightarrow> nat \<Rightarrow> buddy \<Rightarrow> bool" where
  "placed i N b \<longleftrightarrow> (\<forall>k<i. bitmap b k = replicate ((N div 2 ^ k + 7) div 8) 0 \<and> length (debug b k) = (N div 2 ^ k + 7) div 8)"

lemma unat_add_u64: "unat (x :: u64) + unat y < 2 ^ 64 \<Longrightarrow> unat (x + y) = unat x + unat y"
  by (rule unat_add_no_wrap) simp

lemma place_bitmaps_step:
  assumes r: "place_bitmaps i nb base e b = Inr r" and i: "i < MAX_ORDER"
  defines "z \<equiv> (nb + 7) div 8"
  defines "c \<equiv> b\<lparr>bitmap := (bitmap b)(i := replicate (unat z) 0)\<rparr>"
  defines "d \<equiv> c\<lparr>debug := (debug c)(i := replicate (unat z) 0)\<rparr>"
  shows "\<not> base + z \<ge> e \<and> \<not> base + z + z \<ge> e \<and> place_bitmaps (i + 1) (nb div 2) (base + z + z) e d = Inr r"
proof -
  have "place_bitmaps i nb base e b = (if base + z \<ge> e then Inl b else if base + z + z \<ge> e then Inl c
      else place_bitmaps (i + 1) (nb div 2) (base + z + z) e d)"
    using i by (subst place_bitmaps.simps) (simp only: z_def c_def d_def Let_def if_True)
  then have e: "(if base + z \<ge> e then Inl b else if base + z + z \<ge> e then Inl c
      else place_bitmaps (i + 1) (nb div 2) (base + z + z) e d) = Inr r" unfolding r by (rule sym)
  have n1: "\<not> base + z \<ge> e"
  proof
    assume "base + z \<ge> e"
    from e [unfolded if_P [OF this]] show False by (rule notE [OF sum.distinct(1)])
  qed
  note e' = e [unfolded if_not_P [OF n1]]
  have n2: "\<not> base + z + z \<ge> e"
  proof
    assume "base + z + z \<ge> e"
    from e' [unfolded if_P [OF this]] show False by (rule notE [OF sum.distinct(1)])
  qed
  show ?thesis by (rule conjI [OF n1 conjI [OF n2 e' [unfolded if_not_P [OF n2]]]])
qed

lemma place_bitmaps_placed:
  assumes "place_bitmaps i nb base e b = Inr (base', b')" "i \<le> MAX_ORDER" "unat nb = N div 2 ^ i" "placed i N b"
    "unat base \<le> unat e" "unat e + N div 8 + 8 < 2 ^ 64" "N < 2 ^ 60"
  shows "placed MAX_ORDER N b' \<and> unat base \<le> unat base' \<and> unat base' \<le> unat e \<and> blocks b' = blocks b"
  using assms
proof (induction i nb base e b rule: place_bitmaps.induct)
  case (1 i nb base e b)
  show ?case
  proof (cases "i < MAX_ORDER")
    case False
    then have "place_bitmaps i nb base e b = Inr (base, b)" "i = MAX_ORDER" using "1.prems"(2) unfolding place_bitmaps.simps [of i nb base e b] by simp_all
    then show ?thesis using "1.prems" by simp
  next
    case True
    let ?sz = "(nb + 7) div 8" and ?n = "(N div 2 ^ i + 7) div 8"
    let ?b1 = "b\<lparr>bitmap := (bitmap b)(i := replicate (unat ?sz) 0)\<rparr>"
    let ?b2 = "?b1\<lparr>debug := (debug ?b1)(i := replicate (unat ?sz) 0)\<rparr>"
    have Ni: "N div 2 ^ i \<le> N" by simp
    have "unat nb < 2 ^ 60" using "1.prems"(3,7) Ni by linarith
    then have "unat (nb + 7) = unat nb + 7" by (subst unat_add_no_wrap) simp_all
    then have sz: "unat ?sz = ?n" using "1.prems"(3) by (simp add: unat_div)
    have "?n \<le> (N + 8) div 8" using Ni by (intro div_le_mono) linarith
    then have small: "?n \<le> N div 8 + 1" by simp
    note st = place_bitmaps_step [OF "1.prems"(1) True]
    have e1: "\<not> base + ?sz \<ge> e" "\<not> base + ?sz + ?sz \<ge> e" by (rule conjunct1 [OF st], rule conjunct1 [OF conjunct2 [OF st]])
    have rec: "place_bitmaps (i + 1) (nb div 2) (base + ?sz + ?sz) e ?b2 = Inr (base', b')" by (rule conjunct2 [OF conjunct2 [OF st]])
    have "unat base + ?n < 2 ^ 64" using small "1.prems"(5,6) by linarith
    then have u1: "unat (base + ?sz) = unat base + ?n" unfolding sz [symmetric] by (intro unat_add_u64)
    have "unat (base + ?sz) < unat e" using e1(1) by (simp add: word_le_nat_alt)
    then have "unat (base + ?sz) + ?n < 2 ^ 64" using small "1.prems"(6) by linarith
    then have "unat (base + ?sz + ?sz) = unat (base + ?sz) + ?n" unfolding sz [symmetric] by (intro unat_add_u64)
    then have u2: "unat (base + ?sz + ?sz) = unat base + ?n + ?n" unfolding u1 .
    have lt: "unat (base + ?sz + ?sz) < unat e" using e1(2) by (simp add: word_le_nat_alt)
    have pl: "placed (i + 1) N ?b2" using "1.prems"(4) sz by (auto simp: placed_def less_Suc_eq)
    have nb: "unat (nb div 2) = N div 2 ^ (i + 1)" using "1.prems"(3) by (simp add: unat_div div_mult2_eq [symmetric] mult.commute)
    have "placed MAX_ORDER N b' \<and> unat (base + ?sz + ?sz) \<le> unat base' \<and> unat base' \<le> unat e \<and> blocks b' = blocks ?b2"
      using "1.IH" [OF True refl e1(1) refl refl e1(2) refl refl] rec pl nb lt True "1.prems"(6,7) by simp
    then show ?thesis using u2 by simp
  qed
qed

lemma placed_maps:
  assumes pl: "placed MAX_ORDER N b" and a: "aligned b" and N: "N = (unat (bd_limit b) - unat (bd_base b)) div 4096" and e: "\<And>k. k \<le> MAX_ORDER \<Longrightarrow> blocks b k = []"
  shows "maps_ok b"
  unfolding maps_ok_def
proof (intro allI impI)
  fix k n
  assume k: "k < MAX_ORDER" and s: "psecond b k n < unat (bd_limit b)"
  have "2 ^ (13 + k) dvd unat (bd_limit b) - unat (bd_base b)" using aligned_dvd [OF a k] by (rule dvd_diff_nat [rotated])
  then obtain y where y: "unat (bd_limit b) - unat (bd_base b) = 2 ^ (13 + k) * y" by (rule dvdE)
  have "2 ^ (13 + k) * n < 2 ^ (13 + k) * y" using s y [symmetric] unfolding psecond_def pfirst_def by (simp add: mult.commute)
  then have "n < y" by simp
  moreover have e2: "2 ^ (13 + k) * y = 4096 * (2 ^ k * (2 * y))" by (simp add: power_add)
  have "N div 2 ^ k = 2 * y" unfolding N y e2 by simp
  ultimately have len: "n div 8 < (N div 2 ^ k + 7) div 8" by simp
  have bm: "bitmap b k = replicate ((N div 2 ^ k + 7) div 8) 0" "length (debug b k) = (N div 2 ^ k + 7) div 8" using pl k by (simp_all add: placed_def)
  have "in_maps b k n" using len bm by (simp add: in_maps_def)
  moreover have "\<not> getbit b k n" using len bm by (simp add: getbit_def)
  moreover have "fr b k = {}" using e k by (simp add: fr_def)
  ultimately show "pair_ok b k n" by (simp add: pair_ok_def)
qed

subsection \<open>Freeing the blocks\<close>

lemma extend_inv:
  assumes i: "buddy_inv 1 b {} lo hi" and le: "lo \<le> hi" and k: "k \<le> MAX_ORDER" "2 ^ (12 + k) dvd hi" "hi + 2 ^ (12 + k) \<le> unat (bd_limit b)"
  shows "buddy_inv 1 b {(k, hi)} lo (hi + 2 ^ (12 + k))"
proof -
  have t: "tiled (free_set b) lo hi" using buddy_invD(7) [OF i] by simp
  note e = tiled_extend [OF t le k(1,2)]
  have "unat (bd_base b) \<le> lo" "0 < lo" "\<forall>k\<le>MAX_ORDER. distinct (blocks b k)" "free_set b \<inter> {(k, hi)} = {}" "tiled (free_set b \<union> {(k, hi)}) lo (hi + 2 ^ (12 + k))"
    using buddy_invD(2,4,5) [OF i] e by simp_all
  then show ?thesis unfolding buddy_inv_def using buddy_invD(1,8,9) [OF i] k(3) by blast
qed

lemma free_order_frame:
  assumes "free_order p k b = Some b'"
  shows "bd_base b' = bd_base b \<and> bd_limit b' = bd_limit b"
  using assms
proof (induction p k b rule: free_order.induct)
  case (1 p k b)
  obtain c where c: "\<not> (k > MAX_ORDER \<or> \<not> (bd_base b \<le> p \<and> p < bd_limit b))" "mark_allocated p k False b = Some c"
    using "1.prems" unfolding free_order.simps [of p k b] by (auto split: if_splits option.splits)
  have bc: "bd_base c = bd_base b" "bd_limit c = bd_limit b" using c(2) by (auto simp: mark_allocated_def Let_def split: if_splits)
  show ?case
  proof (cases "k = MAX_ORDER")
    case True
    then show ?thesis using "1.prems" c bc unfolding free_order.simps [of p k b] by auto
  next
    case False
    obtain st d where d: "flip_pair p k c = Some (st, d)" using "1.prems" c False unfolding free_order.simps [of p k b] by (auto split: option.splits)
    then have bd: "bd_base d = bd_base b" "bd_limit d = bd_limit b" using bc by (auto simp: flip_pair_def Let_def split: if_splits)
    show ?thesis
    proof (cases st)
      case True
      then show ?thesis using "1.prems" c d bd False unfolding free_order.simps [of p k b] by auto
    next
      case st: False
      obtain x where x: "erase_block k (p XOR block_size k) d = Some x" "free_order (pair_first p k) (k + 1) x = Some b'"
        using "1.prems" c d False st unfolding free_order.simps [of p k b] by (auto split: option.splits)
      then show ?thesis using "1.IH" [OF c(1,2) False d refl st x] bd by (auto simp: erase_block_def split: if_splits)
    qed
  qed
qed

lemma free_step:
  assumes i: "buddy_inv 1 b {} lo (unat w)" "lo \<le> unat w" and k: "k \<le> MAX_ORDER" "2 ^ (12 + k) dvd unat w" "unat w + 2 ^ (12 + k) \<le> unat (bd_limit b)"
  obtains b' where "free_order w k b = Some b'" "buddy_inv 1 b' {} lo (unat w + 2 ^ (12 + k))" "bd_limit b' = bd_limit b"
proof -
  obtain b' where "free_order w k b = Some b'" "buddy_inv 1 b' {} lo (unat w + 2 ^ (12 + k))"
    using free_order_inv [OF extend_inv [OF i k] k(1)] by auto
  then show ?thesis using that free_order_frame by blast
qed

lemma max_aligned: "w AND (MAX_SIZE - 1) = 0 \<longleftrightarrow> 2 ^ 28 dvd unat w"
proof -
  have m: "MAX_SIZE - 1 = mask 28" unfolding max_size(1) by (simp add: mask_eq_decr_exp)
  have "w AND (MAX_SIZE - 1) = 0 \<longleftrightarrow> unat (w AND mask 28) = 0" unfolding m by (simp only: unat_eq_0)
  then show ?thesis unfolding unat_and_mask by (simp only: dvd_eq_mod_eq_0)
qed

lemma dvd_less_add:
  assumes "(d::nat) dvd x" "d dvd y" "x < y"
  shows "x + d \<le> y"
proof -
  obtain i j where e: "x = d * i" "y = d * j" using assms(1,2) by (auto elim!: dvdE)
  then have "i < j" using assms(3) by simp
  then have "d * (i + 1) \<le> d * j" by (intro mult_le_mono2) simp
  then show ?thesis using e by simp
qed

lemma free_range_inv:
  assumes "buddy_inv 1 b {} lo (unat w)" "lo \<le> unat w" "4096 dvd unat w" "4096 dvd unat e" "w \<le> e" "unat e \<le> unat (bd_limit b)"
  shows "\<exists>b'. free_range w e b = Some b' \<and> buddy_inv 1 b' {} lo (unat e)"
  using assms
proof (induction "unat e - unat w" arbitrary: w b rule: less_induct)
  case less
  note i = less.prems(1) and lim = less.prems(6)
  have again: "\<exists>b'. free_range w e b = Some b' \<and> buddy_inv 1 b' {} lo (unat e)"
    if k: "k \<le> MAX_ORDER" "2 ^ (12 + k) dvd unat w" "unat w + 2 ^ (12 + k) \<le> unat e"
      and r: "\<And>b'. free_order w k b = Some b' \<Longrightarrow> free_range w e b = free_range (w + block_size k) e b'" for k
  proof -
    obtain b' where b': "free_order w k b = Some b'" "buddy_inv 1 b' {} lo (unat w + 2 ^ (12 + k))" "bd_limit b' = bd_limit b"
      by (rule free_step [OF i less.prems(2) k(1,2) le_trans [OF k(3) lim]])
    have "unat w + 2 ^ (12 + k) < 2 ^ 64" using le_less_trans [OF k(3) unat_u64_lt [of e]] by simp
    then have u: "unat (w + block_size k) = unat w + 2 ^ (12 + k)" using unat_add_u64 [of w "block_size k"] unat_block_size [OF k(1)] by simp
    have d: "4096 dvd unat (w + block_size k)" unfolding u using less.prems(3) by (simp add: power_add)
    have "\<exists>b''. free_range (w + block_size k) e b' = Some b'' \<and> buddy_inv 1 b'' {} lo (unat e)"
    proof (rule less.hyps)
      have "0 < (2::nat) ^ (12 + k)" by simp
      then show "unat e - unat (w + block_size k) < unat e - unat w" unfolding u using k(3) by linarith
      show "w + block_size k \<le> e" unfolding word_le_nat_alt u by (rule k(3))
    qed (use b'(2,3) u d less.prems(2,4) lim in simp_all)
    then show ?thesis using r [OF b'(1)] by simp
  qed
  show ?case
  proof (cases "w < e")
    case False
    then have "w = e" using less.prems(5) by simp
    moreover have "free_range w e b = Some b" unfolding free_range.simps [of w e b] if_not_P [OF False] ..
    ultimately show ?thesis using i by simp
  next
    case True
    show ?thesis
    proof (cases "w AND (MAX_SIZE - 1) = 0 \<and> w + MAX_SIZE \<le> e")
      case m: True
      have "unat w < unat (bd_limit b)" using True lim unfolding word_less_nat_alt by linarith
      then have lim28: "unat w + 2 ^ 28 \<le> unat (bd_limit b)" using m max_aligned buddy_invD(1) [OF i] by (intro dvd_less_add) (simp_all add: aligned_def)
      have "unat (w + MAX_SIZE) = unat w + 2 ^ 28"
        using le_less_trans [OF lim28 unat_u64_lt] unat_add_u64 [of w MAX_SIZE] unfolding max_size(2) by simp
      then have le: "unat w + 2 ^ 28 \<le> unat e" using m unfolding word_le_nat_alt by simp
      show ?thesis
      proof (rule again)
        show "2 ^ (12 + MAX_ORDER) dvd unat w" using m max_aligned by (simp add: MAX_ORDER_def)
        show "unat w + 2 ^ (12 + MAX_ORDER) \<le> unat e" using le by (simp add: MAX_ORDER_def)
        show "free_order w MAX_ORDER b = Some b' \<Longrightarrow> free_range w e b = free_range (w + block_size MAX_ORDER) e b'" for b'
          unfolding free_range.simps [of w e b] if_P [OF True] if_P [OF m] by (simp add: MAX_SIZE_def block_size_def)
      qed simp
    next
      case m: False
      have le: "unat w + 4096 \<le> unat e" using True by (intro dvd_less_add less.prems(3,4)) (simp add: word_less_nat_alt)
      show ?thesis
      proof (rule again [of 0])
        show "free_order w 0 b = Some b' \<Longrightarrow> free_range w e b = free_range (w + block_size 0) e b'" for b'
          unfolding free_range.simps [of w e b] if_P [OF True] if_not_P [OF m] by (simp add: block_size_def)
      qed (use le less.prems(3) in simp_all)
    qed
  qed
qed

lemma place_bitmaps_blocks:
  "place_bitmaps i nb base e b = Inl c \<Longrightarrow> blocks c = blocks b"
proof (induction i nb base e b rule: place_bitmaps.induct)
  case (1 i nb base e b)
  let ?z = "(nb + 7) div 8"
  let ?b1 = "b\<lparr>bitmap := (bitmap b)(i := replicate (unat ?z) 0)\<rparr>"
  let ?b2 = "?b1\<lparr>debug := (debug ?b1)(i := replicate (unat ?z) 0)\<rparr>"
  have e: "place_bitmaps i nb base e b = (if i < MAX_ORDER then if base + ?z \<ge> e then Inl b else if base + ?z + ?z \<ge> e then Inl ?b1
      else place_bitmaps (i + 1) (nb div 2) (base + ?z + ?z) e ?b2 else Inr (base, b))" by (subst place_bitmaps.simps) (simp only: Let_def)
  consider "b = c" | "?b1 = c" | "i < MAX_ORDER" "\<not> base + ?z \<ge> e" "\<not> base + ?z + ?z \<ge> e" "place_bitmaps (i + 1) (nb div 2) (base + ?z + ?z) e ?b2 = Inl c"
    using "1.prems" unfolding e by (simp only: sum.inject sum.distinct simp_thms split: if_splits)
  then show ?case
  proof cases
    case 3
    from "1.IH" [OF 3(1) refl 3(2) refl refl 3(3) refl refl 3(4)] show ?thesis by simp
  qed auto
qed

lemma buddy_inv_cong:
  assumes "blocks c = blocks b" "bitmap c = bitmap b" "debug c = debug b" "bd_base c = bd_base b" "bd_limit c = bd_limit b"
    "highest_avail_order c = highest_avail_order b"
  shows "buddy_inv m c A lo hi = buddy_inv m b A lo hi"
  using assms by (simp add: buddy_inv_def aligned_def free_set_def fr_def maps_ok_def pair_ok_def in_maps_def getbit_def pfirst_def psecond_def high_ok_def)

lemma empty_inv:
  assumes "aligned b" "placed MAX_ORDER ((unat (bd_limit b) - unat (bd_base b)) div 4096) b" "\<And>k. blocks b k = []" "highest_avail_order b = 0"
    "unat (bd_base b) \<le> lo" "lo \<le> unat (bd_limit b)" "0 < lo"
  shows "buddy_inv 1 b {} lo lo"
proof -
  have "free_set b = {}" using assms(3) by (simp add: free_set_def fr_def)
  moreover have "tiled {} lo lo" by (simp add: tiled_def)
  moreover have "maps_ok b" by (rule placed_maps [OF assms(2,1) refl assms(3)])
  ultimately show ?thesis using assms by (simp add: buddy_inv_def high_ok_def)
qed

lemma unat_diff_u64: "y \<le> (x :: u64) \<Longrightarrow> unat (x - y) = unat x - unat y"
  by (rule unat_sub)

lemma p64: "(2::nat) ^ 64 = 18446744073709551616"
  by simp

text \<open>The rounded region.\<close>

lemma region_rounds:
  assumes "region_ok base len tbase tlen" and t: "(t, n) = (if tbase = 0 \<and> tlen = 0 then (base, len) else (tbase, tlen))"
  defines "lo \<equiv> round_down MAX_SIZE t" and "hi \<equiv> round_up MAX_SIZE (t + n)"
  shows "2 ^ 28 dvd unat lo" "2 ^ 28 dvd unat hi" "unat lo \<le> unat base" "unat (base + len) = unat base + unat len" "unat (base + len) \<le> unat hi"
    "lo \<le> hi" "unat (base + len) + 2 ^ 28 \<le> 2 ^ 64" "0 < unat base" "unat (base + len) + (unat hi - unat lo) div 4096 div 8 + 8 < 2 ^ 64"
proof -
  have r: "0 < unat base" "unat t \<le> unat base" "unat base + unat len \<le> unat t + unat n" "unat t + unat n + unat n div 2 ^ 15 + 2 ^ 30 \<le> 2 ^ 64"
    using assms(1) unfolding region_ok_def Let_def t [symmetric] by simp_all
  have u: "unat (t + n) = unat t + unat n" using r(4) by (intro unat_add_u64) simp
  show bl: "unat (base + len) = unat base + unat len" using r(3,4) by (intro unat_add_u64) simp
  have c: "unat (t + n) + 2 ^ 28 \<le> 2 ^ 64" using r(4) u by simp
  note d = round_facts(1-3) [of 28 t, unfolded max_size(1) [symmetric], folded lo_def]
  note p = round_facts(4-6) [of 28 "t + n", unfolded max_size(1) [symmetric], folded hi_def]
  show "2 ^ 28 dvd unat lo" "2 ^ 28 dvd unat hi" using d(1) p(1) c by simp_all
  show lob: "unat lo \<le> unat base" using d(2) r(2) by simp
  show hib: "unat (base + len) \<le> unat hi" using p(2) c u r(3) bl by simp
  show "lo \<le> hi" using lob hib bl unfolding word_le_nat_alt by linarith
  show "unat (base + len) + 2 ^ 28 \<le> 2 ^ 64" "0 < unat base" using r(1,3,4) bl by simp_all
  have "unat hi - unat lo \<le> unat n + 2 ^ 29" using p(3) c u d(3) by simp
  then have "(unat hi - unat lo) div 32768 \<le> (unat n + 536870912) div 32768" by (intro div_le_mono) simp
  then have q: "(unat hi - unat lo) div 4096 div 8 \<le> unat n div 32768 + 16384" by (simp add: div_mult2_eq [symmetric])
  have "unat t + unat n + unat n div 32768 + 1073741824 \<le> 18446744073709551616" using r(4) by simp
  then have "unat (base + len) + (unat hi - unat lo) div 4096 div 8 + 8 < 18446744073709551616" using q r(3) unfolding bl by linarith
  then show "unat (base + len) + (unat hi - unat lo) div 4096 div 8 + 8 < 2 ^ 64" unfolding p64 .
qed

lemma region_asserts:
  assumes r: "region_ok base len tbase tlen" and t: "(t, n) = (if tbase = 0 \<and> tlen = 0 then (base, len) else (tbase, tlen))"
  shows "t \<le> base" "base + len \<le> t + n"
proof -
  have r: "unat t \<le> unat base" "unat base + unat len \<le> unat t + unat n" "unat t + unat n + unat n div 2 ^ 15 + 2 ^ 30 \<le> 2 ^ 64"
    using r unfolding region_ok_def Let_def t [symmetric] by simp_all
  then have "unat (t + n) = unat t + unat n" "unat (base + len) = unat base + unat len" by (intro unat_add_u64; simp)+
  then show "t \<le> base" "base + len \<le> t + n" using r by (simp_all add: word_le_nat_alt)
qed

text \<open>The object after its bitmaps have been made, and the memory that they leave.\<close>

definition with_region :: "addr \<Rightarrow> addr \<Rightarrow> buddy \<Rightarrow> buddy" where
  "with_region lo hi c = c\<lparr>bitmap := (bitmap c)(MAX_ORDER := []), debug := (debug c)(MAX_ORDER := []), bd_base := lo, bd_limit := hi,
     highest_avail_order := 0\<rparr>"

lemma bitmaps_fit:
  assumes rr: "unat (base + len) = unat base + unat len" "lo \<le> hi" "unat (base + len) + (unat hi - unat lo) div 4096 div 8 + 8 < 2 ^ 64"
    and p: "place_bitmaps 0 ((hi - lo) div MIN_SIZE) base (base + len) (u\<lparr>blocks := (\<lambda>_. [])\<rparr>) = Inr (base', c)"
  shows "placed MAX_ORDER ((unat hi - unat lo) div 4096) c" "unat base \<le> unat base'" "unat base' \<le> unat (base + len)" "blocks c = (\<lambda>_. [])"
proof -
  let ?N = "(unat hi - unat lo) div 4096"
  have "unat ((hi - lo) div MIN_SIZE) = ?N div 2 ^ 0" using unat_sub [OF rr(2)] by (simp add: unat_div MIN_SIZE_def)
  moreover have "unat hi - unat lo < 2 ^ 60 * 4096" using unat_u64_lt [of hi] by (simp del: unat_u64_lt)
  then have "?N < 2 ^ 60" by (rule less_mult_imp_div_less)
  moreover have "unat base \<le> unat (base + len)" using rr(1) by simp
  ultimately have "placed MAX_ORDER ?N c \<and> unat base \<le> unat base' \<and> unat base' \<le> unat (base + len) \<and> blocks c = blocks (u\<lparr>blocks := (\<lambda>_. [])\<rparr>)"
    using rr(3) by (intro place_bitmaps_placed [OF p]) (simp_all only: placed_def not_less_zero le0 simp_thms)
  then show "placed MAX_ORDER ?N c" "unat base \<le> unat base'" "unat base' \<le> unat (base + len)" "blocks c = (\<lambda>_. [])" by simp_all
qed

lemma blocks_freed:
  assumes c: "placed MAX_ORDER ((unat hi - unat lo) div 4096) c" "blocks c = (\<lambda>_. [])" and a: "2 ^ 28 dvd unat lo" "2 ^ 28 dvd unat hi" "lo \<le> hi"
    and w: "2 ^ 12 dvd unat w" "2 ^ 12 dvd unat v" "0 < unat w" "unat lo \<le> unat w" "w < v" "unat v \<le> unat hi"
  shows "\<exists>d. free_range w v (with_region lo hi c) = Some d \<and> buddy_inv 1 d {} (unat w) (unat v)"
proof -
  let ?c = "with_region lo hi c"
  have "buddy_inv 1 ?c {} (unat w) (unat w)"
  proof (rule empty_inv)
    show "placed MAX_ORDER ((unat (bd_limit ?c) - unat (bd_base ?c)) div 4096) ?c" using c(1) by (simp add: placed_def with_region_def)
    show "unat w \<le> unat (bd_limit ?c)" using w(5,6) by (simp add: word_less_nat_alt with_region_def)
  qed (use a c(2) w in \<open>simp_all add: aligned_def with_region_def\<close>)
  from free_range_inv [OF this] show ?thesis using w by (simp add: with_region_def)
qed

lemma buddy_new_eq:
  assumes t: "(t, n) = (if tbase = 0 \<and> tlen = 0 then (base, len) else (tbase, tlen))" and a: "t \<le> base" "base + len \<le> t + n"
  defines "lo \<equiv> round_down MAX_SIZE t" and "hi \<equiv> round_up MAX_SIZE (t + n)" and "e \<equiv> base + len"
  shows "buddy_new u base len tbase tlen =
    (case place_bitmaps 0 ((hi - lo) div MIN_SIZE) base e (u\<lparr>blocks := (\<lambda>_. [])\<rparr>) of
       Inl c \<Rightarrow> Some c
     | Inr (base', c) \<Rightarrow>
         map_option (\<lambda>d. d\<lparr>free_bytes := round_down MIN_SIZE e - round_up MIN_SIZE base', lowest_free_bytes := round_down MIN_SIZE e - round_up MIN_SIZE base',
             bitmap_bytes := base' - base, waste_bytes := round_up MIN_SIZE base' - base'\<rparr>)
           (free_range (round_up MIN_SIZE base') (round_down MIN_SIZE e) (with_region lo hi c)))"
  unfolding buddy_new_def t [symmetric] lo_def hi_def e_def with_region_def
  using a by (auto simp: Let_def assert_that_def map_option_case split: sum.splits option.splits)

text \<open>The constructor returns, and unless the allocator is left empty, all of the memory behind its bitmaps is free.\<close>

lemma buddy_new_inv:
  assumes r: "region_ok base len tbase tlen"
  shows "\<exists>b. buddy_new u base len tbase tlen = Some b \<and> (buddy_empty b \<or> (\<exists>lo hi. buddy_inv 1 b {} lo hi \<and> unat base \<le> lo \<and>
    hi \<le> unat base + unat len \<and> unat (free_bytes b) = hi - lo))"
proof -
  obtain t m where t: "(t, m) = (if tbase = 0 \<and> tlen = 0 then (base, len) else (tbase, tlen))" by (metis surj_pair)
  define lo where "lo = round_down MAX_SIZE t"
  define hi where "hi = round_up MAX_SIZE (t + m)"
  let ?e = "base + len"
  note rr = region_rounds [OF r t, folded lo_def hi_def] and ra = region_asserts [OF r t]
  note eq = buddy_new_eq [OF t ra, folded lo_def hi_def, of u]
  show ?thesis
  proof (cases "place_bitmaps 0 ((hi - lo) div MIN_SIZE) base ?e (u\<lparr>blocks := (\<lambda>_. [])\<rparr>)")
    case (Inl c)
    then have "blocks c = (\<lambda>_. [])" using place_bitmaps_blocks by fastforce
    then show ?thesis using eq Inl by (simp add: buddy_empty_def list_all_iff)
  next
    case (Inr x)
    obtain base' c where x: "x = (base', c)" by (cases x)
    note pl = bitmaps_fit [OF rr(4,6,9) Inr [unfolded x]]
    let ?c = "with_region lo hi c" and ?w = "round_up MIN_SIZE base'" and ?v = "round_down MIN_SIZE ?e"
    let ?f = "\<lambda>d. d\<lparr>free_bytes := ?v - ?w, lowest_free_bytes := ?v - ?w, bitmap_bytes := base' - base, waste_bytes := ?w - base'\<rparr>"
    have n: "buddy_new u base len tbase tlen = map_option ?f (free_range ?w ?v ?c)" unfolding eq Inr x by simp
    have M: "MIN_SIZE = 2 ^ 12" by (simp add: MIN_SIZE_def)
    have l: "12 < (64::nat)" and "unat base' + 2 ^ 12 \<le> 2 ^ 64" using pl(3) rr(7) by simp_all
    note w = round_facts(4-6) [OF l, of base', folded M, OF this(2)] and v = round_facts(1-3) [OF l, of ?e, folded M]
    show ?thesis
    proof (cases "?w < ?v")
      case False
      then have "free_range ?w ?v ?c = Some ?c" by (subst free_range.simps) (simp only: if_False)
      then show ?thesis using n pl(4) by (simp add: buddy_empty_def list_all_iff with_region_def)
    next
      case True
      have "unat ?v \<le> unat hi" "0 < unat ?w" "unat lo \<le> unat ?w" using v(2) rr(3,5,8) w(2) pl(2) by simp_all
      then obtain d where d: "free_range ?w ?v ?c = Some d" "buddy_inv 1 d {} (unat ?w) (unat ?v)"
        using blocks_freed [OF pl(1,4) rr(1,2,6)] w(1) v(1) True by blast
      have "buddy_inv 1 (?f d) {} (unat ?w) (unat ?v)" using d(2) by (subst buddy_inv_cong [of "?f d" d]) simp_all
      moreover have "unat base \<le> unat ?w" "unat ?v \<le> unat base + unat len" using w(2) pl(2) v(2) rr(4) by simp_all
      ultimately show ?thesis using n d(1) unat_sub [OF less_imp_le [OF True]] by auto
    qed
  qed
qed

section \<open>Sequences of requests\<close>

text \<open>What a client does with an allocator \<open>b0\<close>; \<open>H\<close> are the sizes and addresses that it holds.\<close>

inductive buddy_run :: "buddy \<Rightarrow> buddy \<Rightarrow> (u64 \<times> addr) set \<Rightarrow> bool" for b0 where
  start: "buddy_run b0 b0 {}"
| got: "buddy_run b0 b H \<Longrightarrow> alloc_nothrow sz b = Some (p, b') \<Longrightarrow> p \<noteq> 0 \<Longrightarrow> buddy_run b0 b' (insert (sz, p) H)"
| none: "buddy_run b0 b H \<Longrightarrow> alloc_nothrow sz b = Some (0, b') \<Longrightarrow> buddy_run b0 b' H"
| gave: "buddy_run b0 b H \<Longrightarrow> (sz, p) \<in> H \<Longrightarrow> buddy_free p sz b = Some b' \<Longrightarrow> buddy_run b0 b' (H - {(sz, p)})"

definition held_blocks :: "(u64 \<times> addr) set \<Rightarrow> (nat \<times> nat) set" where
  "held_blocks H = {(k, unat p) |k p. k \<le> MAX_ORDER \<and> (block_size k, p) \<in> H}"

lemma block_size_inj:
  assumes "j \<le> MAX_ORDER" "k \<le> MAX_ORDER" "block_size j = block_size k"
  shows "j = k"
proof -
  have "Some j = size_to_order (block_size k)" using size_to_order_power [OF assms(1)] assms(3) by simp
  then show ?thesis using size_to_order_power [OF assms(2)] by simp
qed

lemma held_insert: "k \<le> MAX_ORDER \<Longrightarrow> held_blocks (insert (block_size k, p) H) = insert (k, unat p) (held_blocks H)"
  using block_size_inj by (auto simp: held_blocks_def)

lemma held_remove: "k \<le> MAX_ORDER \<Longrightarrow> held_blocks (H - {(block_size k, p)}) = held_blocks H - {(k, unat p)}"
  using block_size_inj unat_eqD by (auto simp: held_blocks_def)

definition sizes_ok :: "(u64 \<times> addr) set \<Rightarrow> bool" where
  "sizes_ok H \<longleftrightarrow> (\<forall>(s, p)\<in>H. \<exists>k\<le>MAX_ORDER. s = block_size k)"

definition accounts :: "buddy \<Rightarrow> (u64 \<times> addr) set \<Rightarrow> nat \<Rightarrow> nat \<Rightarrow> bool" where
  "accounts b H lo hi \<longleftrightarrow> buddy_inv 1 b (held_blocks H) lo hi \<and> sizes_ok H \<and> unat (free_bytes b) = free_total b"

lemma free_total_cong: "blocks c = blocks b \<Longrightarrow> free_total c = free_total b"
  by (simp add: free_total_def)

lemma alloc_order_none:
  assumes h: "high_ok 1 b" and k: "k \<le> MAX_ORDER" and e: "\<forall>j. k \<le> j \<longrightarrow> j \<le> MAX_ORDER \<longrightarrow> blocks b j = []"
  shows "alloc_order k b = Some (0, b)"
proof (cases "highest_avail_order b < k")
  case True
  then show ?thesis by (simp add: alloc_order.simps [of k b])
next
  case False
  then have z: "highest_avail_order b = 0" "k = 0" using h e by (auto simp: high_ok_def)
  have "alloc_order 1 b = Some (0, b)" unfolding alloc_order.simps [of 1 b] using z by simp
  then show ?thesis unfolding alloc_order.simps [of k b] using z e by (simp add: MAX_ORDER_def)
qed

lemma alloc_accounts:
  assumes a: "accounts b H lo hi" and k: "k \<le> MAX_ORDER"
  shows "\<exists>p b'. alloc_nothrow (block_size k) b = Some (p, b') \<and> (p = 0 \<longleftrightarrow> (\<forall>j. k \<le> j \<longrightarrow> j \<le> MAX_ORDER \<longrightarrow> blocks b j = [])) \<and>
    accounts b' (if p = 0 then H else insert (block_size k, p) H) lo hi"
proof -
  have i: "buddy_inv 1 b (held_blocks H) lo hi" and fb: "unat (free_bytes b) = free_total b" using a by (simp_all add: accounts_def)
  obtain w c where c: "alloc_order k b = Some (w, c)" "free_bytes c = free_bytes b"
    "if w = 0 then c = b \<and> (\<forall>j. k \<le> j \<longrightarrow> j \<le> MAX_ORDER \<longrightarrow> blocks b j = [])
     else buddy_inv 1 c (insert (k, unat w) (held_blocks H)) lo hi \<and> (k, unat w) \<notin> held_blocks H"
    using alloc_order_inv [OF i k] by auto
  show ?thesis
  proof (cases "w = 0")
    case True
    then have "alloc_nothrow (block_size k) b = Some (0, b)" using c(1,3) size_to_order_power [OF k] by (simp add: alloc_nothrow_def)
    then show ?thesis using c(3) True a by simp
  next
    case False
    let ?c = "c\<lparr>free_bytes := free_bytes c - block_size k\<rparr>"
    let ?d = "if free_bytes ?c < lowest_free_bytes ?c then ?c\<lparr>lowest_free_bytes := free_bytes ?c\<rparr> else ?c"
    have e: "alloc_nothrow (block_size k) b = Some (w, ?d)" using c(1) False size_to_order_power [OF k] by (simp add: alloc_nothrow_def Let_def)
    have ic: "buddy_inv 1 c (insert (k, unat w) (held_blocks H)) lo hi" and out: "(k, unat w) \<notin> held_blocks H" using c(3) False by simp_all
    note t = free_total_tiled [OF i] and t' = free_total_tiled [OF ic]
    have sum: "free_total c + 2 ^ (12 + k) = free_total b" using t t'(1) out by simp
    have "block_size k \<le> free_bytes c" using sum fb c(2) unat_block_size [OF k] unfolding word_le_nat_alt by simp
    then have "unat (free_bytes ?d) = free_total c" using sum fb c(2) unat_block_size [OF k] by (simp add: unat_sub)
    moreover have "free_total ?d = free_total c" by (rule free_total_cong) simp
    moreover have "buddy_inv 1 ?d (insert (k, unat w) (held_blocks H)) lo hi" using ic by (subst buddy_inv_cong [of ?d c]) simp_all
    moreover have "sizes_ok (insert (block_size k, w) H)" using a k by (auto simp: accounts_def sizes_ok_def)
    ultimately have "accounts ?d (insert (block_size k, w) H) lo hi" unfolding accounts_def held_insert [OF k] by simp
    moreover have "\<not> (\<forall>j. k \<le> j \<longrightarrow> j \<le> MAX_ORDER \<longrightarrow> blocks b j = [])"
      using alloc_order_none [OF buddy_invD(9) [OF i] k] c(1) False by auto
    ultimately show ?thesis using e False by (intro exI [of _ w] exI [of _ ?d]) simp
  qed
qed

lemma free_accounts:
  assumes a: "accounts b H lo hi" and h: "(s, p) \<in> H"
  shows "\<exists>b'. buddy_free p s b = Some b' \<and> accounts b' (H - {(s, p)}) lo hi"
proof -
  have i: "buddy_inv 1 b (held_blocks H) lo hi" and fb: "unat (free_bytes b) = free_total b" using a by (simp_all add: accounts_def)
  obtain k where k: "k \<le> MAX_ORDER" "s = block_size k" using a h by (auto simp: accounts_def sizes_ok_def)
  have m: "(k, unat p) \<in> held_blocks H" using h k by (auto simp: held_blocks_def)
  let ?A = "held_blocks H - {(k, unat p)}" and ?b = "b\<lparr>free_bytes := free_bytes b + s\<rparr>"
  have "buddy_inv 1 ?b (insert (k, unat p) ?A) lo hi" using i m by (subst buddy_inv_cong [of ?b b]) (simp_all add: insert_absorb)
  from free_order_inv [OF this k(1)] obtain c where c: "free_order p k ?b = Some c" "buddy_inv 1 c ?A lo hi" "free_bytes c = free_bytes b + s" by auto
  have f: "buddy_free p s b = Some c" using c(1) k size_to_order_power [OF k(1)] by (simp add: buddy_free_def)
  note t = free_total_tiled [OF i] and t' = free_total_tiled [OF c(2)]
  have "(\<Sum>x\<in>held_blocks H. 2 ^ (12 + fst x)) = 2 ^ (12 + k) + (\<Sum>x\<in>?A. (2::nat) ^ (12 + fst x))" using sum.remove [OF t(2) m, of "\<lambda>x. 2 ^ (12 + fst x)"] by simp
  then have s: "free_total c = free_total b + 2 ^ (12 + k)" using t(1) t'(1) by simp
  have "free_total c < 2 ^ 64" 
    using t'(1) buddy_invD(3) [OF c(2)] unat_u64_lt [of "bd_limit c"] unfolding p64 by linarith
  then have "unat (free_bytes b + s) = free_total c" using s fb k unat_block_size [OF k(1)] by (subst unat_add_u64) simp_all
  moreover have "sizes_ok (H - {(s, p)})" using a by (auto simp: accounts_def sizes_ok_def)
  ultimately show ?thesis using f c(2,3) k held_remove [OF k(1)] by (simp add: accounts_def)
qed

lemma alloc_valid_size:
  assumes "alloc_nothrow sz b = Some r"
  obtains k where "k \<le> MAX_ORDER" "sz = block_size k"
proof -
  obtain k where "size_to_order sz = Some k" using assms by (cases "size_to_order sz") (simp_all add: alloc_nothrow_def)
  then show ?thesis using size_to_orderD that by blast
qed

lemma buddy_run_accounts:
  assumes "buddy_run b0 b H" "accounts b0 {} lo hi"
  shows "accounts b H lo hi"
  using assms
proof (induction rule: buddy_run.induct)
  case start
  then show ?case .
next
  case (got b H sz p b')
  obtain k where k: "k \<le> MAX_ORDER" "sz = block_size k" by (rule alloc_valid_size [OF got.hyps(2)])
  from alloc_accounts [OF got.IH [OF got.prems] k(1), folded k(2)] show ?case using got.hyps(2,3) by simp
next
  case (none b H sz b')
  obtain k where k: "k \<le> MAX_ORDER" "sz = block_size k" by (rule alloc_valid_size [OF none.hyps(2)])
  from alloc_accounts [OF none.IH [OF none.prems] k(1), folded k(2)] show ?case using none.hyps(2) by simp
next
  case (gave b H sz p b')
  from free_accounts [OF gave.IH [OF gave.prems] gave.hyps(2)] show ?case using gave.hyps(3) by simp
qed

section \<open>What a client observes\<close>

lemma held_mem:
  assumes "accounts b H lo hi" "(s, p) \<in> H"
  obtains k where "k \<le> MAX_ORDER" "s = block_size k" "unat s = 2 ^ (12 + k)" "(k, unat p) \<in> held_blocks H"
proof -
  obtain k where k: "k \<le> MAX_ORDER" "s = block_size k" using assms by (auto simp: accounts_def sizes_ok_def)
  then show ?thesis using assms(2) unat_block_size [OF k(1)] by (intro that [of k]) (auto simp: held_blocks_def)
qed

lemma held_inside:
  assumes a: "accounts b H lo hi" "(s, p) \<in> H"
  shows "unat s dvd unat p" "lo \<le> unat p" "unat p + unat s \<le> hi"
proof -
  obtain k where k: "unat s = 2 ^ (12 + k)" "(k, unat p) \<in> held_blocks H" by (rule held_mem [OF a])
  have i: "buddy_inv 1 b (held_blocks H) lo hi" using a(1) by (simp add: accounts_def)
  note t = tiled_bounds [OF buddy_invD(7) [OF i] UnI2 [OF k(2)]]
  show "unat s dvd unat p" "lo \<le> unat p" "unat p + unat s \<le> hi" using t(1,2,4) k(1) by simp_all
qed

lemma held_disjoint:
  assumes a: "accounts b H lo hi" and h: "(s, p) \<in> H" "(t, q) \<in> H" "(s, p) \<noteq> (t, q)"
  shows "unat p + unat s \<le> unat q \<or> unat q + unat t \<le> unat p"
proof -
  obtain j where j: "j \<le> MAX_ORDER" "s = block_size j" "unat s = 2 ^ (12 + j)" "(j, unat p) \<in> held_blocks H" by (rule held_mem [OF a h(1)])
  obtain k where k: "k \<le> MAX_ORDER" "t = block_size k" "unat t = 2 ^ (12 + k)" "(k, unat q) \<in> held_blocks H" by (rule held_mem [OF a h(2)])
  have i: "buddy_inv 1 b (held_blocks H) lo hi" using a by (simp add: accounts_def)
  have "(j, unat p) \<noteq> (k, unat q)" using h(3) j(2) k(2) unat_eqD by blast
  then have "disjnt (span (j, unat p)) (span (k, unat q))" using tiledD(1) [OF buddy_invD(7) [OF i]] j(4) k(4) by blast
  then have "{unat p..<unat p + unat s} \<inter> {unat q..<unat q + unat t} = {}" using j(3) k(3) by (simp add: span_def disjnt_def)
  moreover have "unat p < unat p + unat s" "unat q < unat q + unat t" using j(3) k(3) by simp_all
  ultimately show ?thesis by (meson atLeastLessThan_iff disjoint_iff leI le_refl linear)
qed

lemma held_sum:
  assumes "accounts b H lo hi"
  shows "(\<Sum>(s, p)\<in>H. unat s) = (\<Sum>x\<in>held_blocks H. 2 ^ (12 + fst x))"
proof (rule sum.reindex_bij_witness [where i = "\<lambda>(k, q). (block_size k, of_nat q :: addr)" and j = "\<lambda>(s, p). (the (size_to_order s), unat p)"])
  fix x assume x: "x \<in> H"
  obtain s p where sp: "x = (s, p)" by (cases x)
  obtain k where k: "k \<le> MAX_ORDER" "s = block_size k" "unat s = 2 ^ (12 + k)" "(k, unat p) \<in> held_blocks H" by (rule held_mem [OF assms x [unfolded sp]])
  then have o: "size_to_order s = Some k" using size_to_order_power by simp
  show "(\<lambda>(k, q). (block_size k, of_nat q :: addr)) ((\<lambda>(s, p). (the (size_to_order s), unat p)) x) = x" using o k(2) sp by simp
  show "(\<lambda>(s, p). (the (size_to_order s), unat p)) x \<in> held_blocks H" using o k(4) sp by simp
  show "2 ^ (12 + fst ((\<lambda>(s, p). (the (size_to_order s), unat p)) x)) = (case x of (s, p) \<Rightarrow> unat s)" using o k(3) sp by simp
next
  fix y assume "y \<in> held_blocks H"
  then obtain k p where y: "y = (k, unat p)" "k \<le> MAX_ORDER" "(block_size k, p) \<in> H" by (auto simp: held_blocks_def)
  show "(\<lambda>(s, p). (the (size_to_order s), unat p)) ((\<lambda>(k, q). (block_size k, of_nat q :: addr)) y) = y" using y size_to_order_power [OF y(2)] by simp
  show "(\<lambda>(k, q). (block_size k, of_nat q :: addr)) y \<in> H" using y by simp
qed

lemma accounts_total:
  assumes "accounts b H lo hi"
  shows "unat (free_bytes b) + (\<Sum>(s, p)\<in>H. unat s) = hi - lo"
  using assms free_total_tiled(1) [of 1 b "held_blocks H" lo hi] held_sum [OF assms] by (simp add: accounts_def)

lemma accounts_stats:
  assumes "accounts b H lo hi"
  shows "get_stats b \<noteq> None"
proof -
  have "free_sum (MAX_ORDER + 1) b = free_bytes b" 
    unfolding free_sum_total using assms [unfolded accounts_def, THEN conjunct2, THEN conjunct2, symmetric] by simp
  then show ?thesis by (simp add: get_stats_def Let_def assert_that_def get_free_bytes_def)
qed

text \<open>Two buddies are never both free.\<close>

lemma accounts_coalesced:
  assumes a: "accounts b H lo hi" and k: "k < MAX_ORDER" and w: "w \<in> set (blocks b k)"
  shows "w XOR block_size k \<notin> set (blocks b k)"
proof
  assume x: "w XOR block_size k \<in> set (blocks b k)"
  have i: "buddy_inv 1 b (held_blocks H) lo hi" using a by (simp add: accounts_def)
  have "(k, unat w) \<in> free_set b \<union> held_blocks H" using k fr_mem [OF w] by (simp add: free_set_def)
  then obtain n where n: "unat w = pfirst b k n \<or> unat w = psecond b k n" "psecond b k n < unat (bd_limit b)" "pair_ok b k n"
    using block_pair [OF i k] by blast
  have "{unat w, unat (w XOR block_size k)} = {pfirst b k n, psecond b k n}" using buddy_of(2) [OF buddy_invD(1) [OF i] k n(2,1)] .
  then show False using pair_okD(2) [OF n(3)] fr_mem [OF w] fr_mem [OF x] by (auto simp: doubleton_eq_iff)
qed

lemma new_accounts:
  assumes "region_ok base len tbase tlen" "buddy_new u base len tbase tlen = Some b" "\<not> buddy_empty b"
  obtains lo hi where "accounts b {} lo hi" "unat base \<le> lo" "hi \<le> unat base + unat len" "unat (free_bytes b) = hi - lo"
proof -
  obtain lo hi where i: "buddy_inv 1 b {} lo hi" "unat base \<le> lo" "hi \<le> unat base + unat len" "unat (free_bytes b) = hi - lo"
    using buddy_new_inv [OF assms(1), of u] assms(2,3) by auto
  moreover have "held_blocks {} = {}" by (simp add: held_blocks_def)
  ultimately have "accounts b {} lo hi" using free_total_tiled(1) [OF i(1)] by (simp add: accounts_def sizes_ok_def)
  then show ?thesis using i that by blast
qed

section \<open>A small allocator\<close>

lemma inv_not_empty:
  assumes "buddy_inv 1 b {} lo hi" "lo < hi"
  shows "\<not> buddy_empty b"
proof
  assume "buddy_empty b"
  then have "free_total b = 0" by (auto simp: buddy_empty_def list_all_iff free_total_def)
  then show False using free_total_tiled(1) [OF assms(1)] assms(2) by simp
qed

lemma bx_bitmaps:
  obtains w c where "place_bitmaps 0 65536 0x10000000 0x10200000 b = Inr (w, c)" "w = 0x10008002"
  using that
  by (simp add: place_bitmaps.simps MAX_ORDER_def Let_def)

lemma bx_region: "region_ok 0x10000000 0x200000 0 0"
  by (simp add: region_ok_def)

lemma bx_new: "\<exists>b. buddy_new u 0x10000000 0x200000 0 0 = Some b \<and> \<not> buddy_empty b"
proof -
  have t: "(0x10000000, 0x200000) = (if (0::addr) = 0 \<and> (0::u64) = 0 then (0x10000000 :: addr, 0x200000 :: u64) else (0, 0))" by simp
  have r: "round_down MAX_SIZE 0x10000000 = 0x10000000" "round_up MAX_SIZE 0x10200000 = 0x20000000"
    "round_up MIN_SIZE 0x10008002 = 0x10009000" "round_down MIN_SIZE 0x10200000 = 0x10200000"
    by (simp_all add: round_down_def round_up_def max_size(1) MIN_SIZE_def)
  have a: "(0x10000000 :: addr) \<le> 0x10000000" "(0x10000000 :: addr) + 0x200000 \<le> 0x10000000 + 0x200000" by simp_all
  obtain c where c: "place_bitmaps 0 65536 0x10000000 0x10200000 (u\<lparr>blocks := (\<lambda>_. [])\<rparr>) = Inr (0x10008002, c)" using bx_bitmaps by metis
  have "place_bitmaps 0 ((0x20000000 - 0x10000000) div MIN_SIZE) 0x10000000 (0x10000000 + 0x200000) (u\<lparr>blocks := (\<lambda>_. [])\<rparr>) = Inr (0x10008002, c)"
    using c by (simp add: MIN_SIZE_def)
  from bitmaps_fit(1,4) [OF _ _ _ this]
  have pl: "placed MAX_ORDER ((unat (0x20000000 :: addr) - unat (0x10000000 :: addr)) div 4096) c" "blocks c = (\<lambda>_. [])" by simp_all
  have "\<exists>d. free_range 0x10009000 0x10200000 (with_region 0x10000000 0x20000000 c) = Some d \<and> buddy_inv 1 d {} (unat (0x10009000 :: addr)) (unat (0x10200000 :: addr))"
    by (rule blocks_freed [OF pl]) simp_all
  then obtain d where d: "free_range 0x10009000 0x10200000 (with_region 0x10000000 0x20000000 c) = Some d"
    "buddy_inv 1 d {} (unat (0x10009000 :: addr)) (unat (0x10200000 :: addr))" by blast
  have "\<not> buddy_empty d" by (rule inv_not_empty [OF d(2)]) simp
  then show ?thesis using buddy_new_eq [OF t a, of u] d(1) c by (simp add: r MIN_SIZE_def [symmetric] buddy_empty_def) (simp add: MIN_SIZE_def r [unfolded MIN_SIZE_def])
qed

end
