(* ===== verification/Spec2Isabelle.thy ===== *)
theory Spec2Isabelle
  imports Mvrlu_Scenario
    Rlu_Scenario
    Xv6_Scenario
    Buddy_Spec
begin

text \<open>
  A verification development for KhronOS: multi-version read-log-update (MV-RLU) in the sv6/ScaleFS kernel, read-log-update
  (RLU), which it is compared with, the memory allocator of that kernel, and the xv6 kernel to which read-copy-update was
  added.

  \<^bold>\<open>The program and its model.\<close>  Sources are under \<open>src/os/\<close>.

  MV-RLU (\<open>sv6/scalefs/kernel/mvrlu/\<close>, \<open>sv6/scalefs/include/mvrlu/\<close>).  A thread reads objects inside of a critical section
  at the clock of its start.  To write, it locks an object and changes a copy in its own log; a commit publishes all copies
  of the section at one clock, and readers choose among the versions of an object by their clock.  A quiescence thread
  detects grace periods, after which logs are reclaimed: the newest version is written back to the object and its log space
  is used again.
    \<^item> \<open>Ordo_Clock\<close>: the clock (\<open>ordo_clock.h\<close> and the clock macros of \<open>mvrlu.c\<close>); locale \<open>version_order\<close>.
    \<^item> \<open>Mvrlu_Types\<close>, \<open>Mvrlu_Object\<close>: headers, write sets, logs, threads (\<open>mvrlu_i.h\<close>, \<open>config.h\<close>), one heap per structure
      type; locking, writing back, detaching and freeing an object.
    \<^item> \<open>Mvrlu_Log\<close>, \<open>Write_Set\<close>: the ring of log space and the entries of an open write set; locale \<open>log_walk\<close>.
    \<^item> \<open>Mvrlu_Commit\<close>, \<open>Mvrlu_Deref\<close>, \<open>Mvrlu_Snapshot\<close>, \<open>Mvrlu_Reclaim\<close>: committing, reading, what a commit means for
      readers, and reclamation.
    \<^item> \<open>Mvrlu_System\<close>, \<open>Mvrlu_Quiescence\<close>: the global state, the quiescence thread, and grace periods as a step relation.
    \<^item> \<open>Thread_List\<close>, \<open>Mvrlu_Lifecycle\<close>: the lists of live and zombie threads and the life of a thread; locale
      \<open>circular_list\<close>.
    \<^item> \<open>Mvrlu_Api\<close>, \<open>Mvrlu_Txn\<close>: the external operations and a whole writing section.
    \<^item> \<open>Log_Allocator\<close>: the pool of log buffers (\<open>log_allocator.cc\<close>, parts of \<open>port-kernel.cc\<close>), under the contract
      \<open>Buffer_Pool\<close>.
    \<^item> \<open>Mvrlu_Chainhash\<close>: the hash table over MV-RLU (\<open>chainhash.hh\<close>, \<open>list.hh\<close>).
    \<^item> \<open>Mvrlu_Scenario\<close>: concrete states for the witnesses.

  RLU (\<open>sv6/scalefs/lib/rlu.c\<close>, \<open>include/rlu.h\<close>, \<open>include/rlu.hh\<close>).
    \<^item> \<open>Rlu\<close>: threads, write sets, sections, locking, synchronisation and write-back.
    \<^item> \<open>Rlu_Quiescence\<close>, \<open>Rlu_Write_Set\<close>, \<open>Rlu_Section\<close>: waiting under interference, the ring of write sets, and whole
      sections.  \<open>Rlu_Scenario\<close>: concrete states and a faulty execution.

  Kernel memory (\<open>sv6/scalefs/kernel/buddy.cc\<close>, \<open>include/buddy.hh\<close>), in the configuration with one list per order.  A block
  is its order and address; the intrusive lists are sequences of addresses and the bitmaps functions.
    \<^item> \<open>Buddy\<close>: construction on a region, allocation and freeing.
    \<^item> \<open>Buddy_Pairs\<close>, \<open>Buddy_Steps\<close>, \<open>Buddy_Spec\<close>: tilings by blocks and the bits of their pairs; the invariant through each
      step of the allocator; sizes, accounting, and all sequences of requests.

  xv6 (\<open>xv6/xv6-public/\<close>).
    \<^item> \<open>Xv6_Bio\<close>, \<open>Xv6_Cache\<close>: the buffer cache over the memory disk (\<open>bio.c\<close>, \<open>memide.c\<close>, \<open>sleeplock.c\<close>).
    \<^item> \<open>Xv6_Log\<close>, \<open>Xv6_Log_Writes\<close>, \<open>Xv6_Crash\<close>: the write-ahead log (\<open>log.c\<close>) and its crash safety.
    \<^item> \<open>Xv6_Fs\<close>, \<open>Xv6_Tx\<close>, \<open>Xv6_Inode\<close>: the file system (\<open>fs.c\<close>): blocks, inodes, directories and paths.
    \<^item> \<open>Xv6_File\<close>, \<open>Xv6_Pipe\<close>: open files and pipes (\<open>file.c\<close>, \<open>pipe.c\<close>).
    \<^item> \<open>Xv6_Mem\<close>, \<open>Xv6_Mem_Spec\<close>: strings and physical pages (\<open>string.c\<close>, \<open>kalloc.c\<close>), under the contract \<open>Buffer_Pool\<close>.
    \<^item> \<open>Xv6_Vm\<close>: page tables and user memory (\<open>vm.c\<close>).
    \<^item> \<open>Xv6_Proc\<close>, \<open>Xv6_Rcu\<close>: processes, the scheduler and read-copy-update (\<open>proc.c\<close>, \<open>rcu.c\<close>).
    \<^item> \<open>Xv6_Spinlock\<close>: spin locks and the nesting of disabled interrupts (\<open>spinlock.c\<close>).
    \<^item> \<open>Xv6_Scenario\<close>: concrete states for the witnesses.

  \<open>Mvrlu_Prelude\<close> holds the types and lemmas that all of them share.

  \<^bold>\<open>How code becomes definitions.\<close>  Structures are records, enumerations are datatypes, unsigned integers are words of their
  width; where an operation is shown to stay within bounds the word is read with \<open>unat\<close>.  An operation takes and returns
  the state that it works on.  No result (\<open>None\<close>) stands for a panic, for an access outside of an array or through a null
  pointer, and for not returning.  Loops are recursive functions with a termination proof, or \<open>partial_function (option)\<close>
  where they wait for others; that a waiting loop returns is then a theorem under a stated condition on the others.
  No fuel is used.

  What other threads do is a parameter \<open>env\<close>, a function on the state that runs where the code can be interrupted by them
  to an effect (around compare-and-swap, while waiting), with rely conditions as hypotheses; every such hypothesis is met
  by the data of a witness.  Where the interleaving itself is the point, grace periods of MV-RLU (\<open>gp_step\<close>), read-copy-update
  (\<open>rcu_run\<close>), references to inodes (\<open>inode_run\<close>), spin locks (\<open>lock_run\<close>) and requests to the buddy allocator (\<open>buddy_run\<close>), it
  is an inductive relation.  The time stamp counter, the addresses that
  a memory allocator of the kernel returns and the symbols of the linker script are parameters.

  \<^bold>\<open>What is shown.\<close>  For MV-RLU: a commit publishes its write set as a whole at one clock, older readers keep their snapshot
  (unless its version is older than their second quiescent-point clock: then they go back to the object, which has been
  written back) and newer ones see the change; locks exclude each other; abort rolls back; reclamation leaves what readers read, writes
  the newest versions back and terminates; grace periods protect readers; the log never overflows its ring; the lists of threads are sequences, rotate
  fairly, and threads come and go without leaks; the hash table refines a finite map.  For RLU: a synchronising writer
  returns, has waited for every older section and has written everything back; a lock excludes
  other threads and gives its owner a copy of the object; the ring of write sets stays well-formed.  For the buddy
  allocator: no two blocks that it hands out overlap, every byte of the region is either free or handed out, and freeing
  merges buddies.  For xv6: reads through the buffer cache are
  coherent; a commit of the log is atomic under crashes at every disk write; block and inode allocation round trips; exact
  reference counts of inodes; pipes are queues; pages are accounted for; the string operations are exact; a grace period of
  \<open>call_rcu\<close> waits for all older sections; spin locks exclude each other, panic only on misuse and restore interrupts exactly.

  Some theorems show defects: the marker of unpublished copies compares as visible, a filler's size is truncated, a thread
  structure is freed while it is on a list, a retry in the hash table loses the parity of its section counter, an RLU reader
  can see two states of one object in one section, a full xv6 transaction cannot commit, and the xv6 scheduler can strand a
  caller of \<open>call_rcu\<close>.

  \<^bold>\<open>Bounds.\<close>  Log space is \<open>MVRLU_LOG_SIZE\<close> bytes per thread and 128 buffers, a transaction has at most \<open>LOGSIZE\<close> blocks, a pipe
  \<open>PIPESIZE\<close> bytes, the inode cache \<open>NINODE\<close> entries and an RLU write set \<open>RLU_MAX_WRITE_SET_BUFFER_SIZE\<close> bytes, as in the sources; thread counts, numbers of CPUs, of objects, of requests
  and the length of executions are not bounded.

  \<^bold>\<open>Not modelled.\<close>  Memory is sequentially consistent: barriers and the weak orderings of the hardware have no effect in
  the model.  Sleep locks and the file-system state of xv6 are those of one process at a time; what other processes do between
  its steps enters where the code waits (\<open>begin_op\<close>, pipes, \<open>wait\<close>).  Statistics, debug output, the condition variables and
  kernel threads of the port layer, device drivers, traps, boot code and assembly are outside of the model, as is third-party
  code that the repository contains (ACPICA, lwIP, zlib, metis) and the rest of the sv6 and ScaleFS kernels, which do not
  take part in MV-RLU; of their memory management only the buddy allocator is modelled.  The second copy of xv6 with kernel
  threads and the user-level copy of MV-RLU repeat code that is modelled here.
\<close>

section \<open>Commit and abort\<close>

text \<open>
  C1.  A commit publishes the whole write set at one clock value: \<open>log_commit\<close> returns, whatever the
  other threads do within their rights while the copies are being linked, and afterwards every
  copy of the write set carries the commit clock, its object is unlocked and the copy is the
  newest version in front of the previous one; an object that was freed stays locked and its copy
  is marked.
\<close>

theorem commit_publishes:
  assumes "commit_ready l m s es fps"
    and "\<And>c k m. keeps (entry l ` set es) (cur_wrt_set l) (entry l ` set es) m (env c k m)"
    and "new_clock tsc n lclk = Some (clk, n1)" and "clk \<noteq> MAX_VERSION"
  shows "\<exists>m'. log_commit tsc env l fps lclk n m = Some (l\<lparr>cur_wrt_set := NULL\<rparr>, [], n1, m') \<and>
    wrt_clk (ws_heap m' (cur_wrt_set l)) = clk \<and>
    (\<forall>e \<in> set es. cpy_type m (entry l e) = TYPE_COPY \<longrightarrow> committed fps clk m m' (entry l e))"
  using assms by (rule log_commit_commits)

theorem commit_publishes_witness:
  "commit_ready ex_log1 ex_mem1 0 [128] [] \<and> new_clock ex_tsc 0 1000 = Some (2000, 1) \<and>
   (\<exists>m'. log_commit ex_tsc quiet_link ex_log1 [] 1000 0 ex_mem1 = Some (ex_log1\<lparr>cur_wrt_set := NULL\<rparr>, [], 1, m') \<and>
     wrt_clk (ws_heap m' 0x100038) = 2000 \<and> committed [] 2000 ex_mem1 m' 0x100088)"
  using commit_publishes [OF ex_commit_ready, where env = quiet_link, OF keeps_quiet_link ex_new_clock] ex_commit_ready
    ex_new_clock by (auto simp: clock_simps cpy_type_def ex_mem1_def)

text \<open>
  C2.  A reader whose clock lies before the commit clock keeps its snapshot.  Dereferencing an object
  returns the same version before and after an undisturbed commit, with one exception: if the newest version before the
  commit is older than the reader's \<open>qp_clk2\<close>, then after the commit the reader may get the object itself instead.  It reads
  the same bytes in this case too, provided that the version had been written back to the object.
\<close>

theorem commit_snapshot_kept:
  assumes "commit_ready l m s es fps" and "new_clock tsc n lclk = Some (clk, n1)" and "clk \<noteq> MAX_VERSION"
    and "log_commit tsc quiet_link l fps lclk n m = Some (l', fps', n', m')"
    and "\<not> lte_clock clk (local_clk self)" and "obj \<noteq> NULL"
    and "vchain m (act_p_copy m (obj_to_ahs (get_act_obj la m obj))) qs"
    and "\<And>q. q \<in> set qs \<Longrightarrow> obj_to_chs q \<notin> entry l ` set es \<and>
      own_wrt_clk (chs_heap m (obj_to_chs q)) \<noteq> MAX_VERSION"
  shows "\<exists>p s1 p' s2. mvrlu_deref la m self obj = Some (p, s1) \<and> mvrlu_deref la m' self obj = Some (p', s2) \<and>
    (p' = p \<or> qs \<noteq> [] \<and> lte_clock (copy_clk m (hd qs)) (qp_clk2 (thr_log self)) \<and> p' = get_act_obj la m obj) \<and>
    (qp_clk2 (thr_log self) \<le> local_clk self \<and> holds_newest m (qp_clk2 (thr_log self)) (get_act_obj la m obj) qs \<longrightarrow>
       obj_heap m' p' = obj_heap m p)"
  using commit_snapshot_stable [OF assms] commit_bytes_stable [OF assms] by blast

theorem commit_snapshot_kept_witness:
  "log_commit ex_tsc2 quiet_link ex_log3 [] 3000 0 ex_mem3 = Some (ex_log3\<lparr>cur_wrt_set := NULL\<rparr>, [], 1, ex_mem4) \<and>
   (\<exists>p s1 s2. mvrlu_deref ex_la ex_mem3 (ex_self 3500) ex_obj = Some (p, s1) \<and>
      mvrlu_deref ex_la ex_mem4 (ex_self 3500) ex_obj = Some (p, s2)) \<and>
   (\<exists>p s1 p' s2. mvrlu_deref ex_la ex_mem3 ex_late ex_obj = Some (p, s1) \<and>
      mvrlu_deref ex_la ex_mem4 ex_late ex_obj = Some (p', s2) \<and> obj_heap ex_mem4 p' = obj_heap ex_mem3 p)"
proof -
  note kept = commit_snapshot_kept [OF ex_commit_ready3 ex_new_clock2 _ ex_commit3, where obj = ex_obj and la = ex_la and qs = "[0x1000B8]"]
  have sep: "obj_to_chs q \<notin> entry ex_log3 ` set [128] \<and> own_wrt_clk (chs_heap ex_mem3 (obj_to_chs q)) \<noteq> MAX_VERSION"
    if "q \<in> set [0x1000B8]" for q using that ex_mem3_facts by (simp add: clock_simps)
  have 1: "\<not> lte_clock 4000 3500" "(4000 :: u64) \<noteq> MAX_VERSION" "ex_obj \<noteq> NULL" by (simp_all add: clock_simps ex_obj_def)
  have "\<not> lte_clock 2000 (qp_clk2 (thr_log (ex_self 3500)))"
    by (simp add: ex_self_def zero_thread_def zero_log_def clock_simps)
  then have "\<exists>p s1 s2. mvrlu_deref ex_la ex_mem3 (ex_self 3500) ex_obj = Some (p, s1) \<and>
      mvrlu_deref ex_la ex_mem4 (ex_self 3500) ex_obj = Some (p, s2)"
    using kept [where self = "ex_self 3500", OF _ _ _ ex_vchain3 sep] 1 ex_mem3_facts by (auto simp: ex_self_def)
  moreover have "holds_newest ex_mem3 3000 (get_act_obj ex_la ex_mem3 ex_obj) [0x1000B8]"
    using ex_mem3_facts by (simp add: holds_newest_def)
  then have "\<exists>p s1 p' s2. mvrlu_deref ex_la ex_mem3 ex_late ex_obj = Some (p, s1) \<and>
      mvrlu_deref ex_la ex_mem4 ex_late ex_obj = Some (p', s2) \<and> obj_heap ex_mem4 p' = obj_heap ex_mem3 p"
    using kept [where self = ex_late, OF _ _ _ ex_vchain3 sep] 1 by (auto simp: ex_late_def ex_self_def)
  ultimately show ?thesis using ex_commit3 by blast
qed

text \<open>
  C20.  A reader that starts after the commit reads the new version of every object of the write
  set: dereferencing the object returns the committed copy.
\<close>

theorem commit_visible:
  assumes "commit_ready l m s es fps"
    and "\<And>c k m. keeps (entry l ` set es) (cur_wrt_set l) (entry l ` set es) m (env c k m)"
    and "new_clock tsc n lclk = Some (clk, n1)" and "clk \<noteq> MAX_VERSION"
    and "e \<in> set es" and "cpy_type m (entry l e) = TYPE_COPY" and "cpy_obj_size m (entry l e) \<noteq> 0"
    and "\<not> fp_is_free fps (ahs_of m (entry l e))"
    and "obj = p_act (chs_heap m (entry l e))" and "obj \<noteq> NULL" and "is_obj_actual la (obj_to_obj_hdr obj)"
    and "lte_clock clk (local_clk self)"
  shows "\<exists>l' m' self'. log_commit tsc env l fps lclk n m = Some (l', [], n1, m') \<and>
    mvrlu_deref la m' self obj = Some (chs_to_obj (entry l e), self')"
proof -
  from log_commit_commits [OF assms(1), where env = env, OF assms(2-4)] assms(5,6) obtain m' where
    m': "log_commit tsc env l fps lclk n m = Some (l\<lparr>cur_wrt_set := NULL\<rparr>, [], n1, m')"
    "committed fps clk m m' (entry l e)" by blast
  have "chs_to_obj (entry l e) \<noteq> NULL" using assms(1) entry_obj_not_NULL by (simp add: commit_ready_def)
  with committed_deref [OF m'(2) assms(8,7)] assms(9-12) m'(1) show ?thesis
    by (auto simp: get_act_obj_def)
qed

theorem commit_visible_witness:
  "commit_ready ex_log1 ex_mem1 0 [128] [] \<and>
   (\<exists>l' m' self'. log_commit ex_tsc quiet_link ex_log1 [] 1000 0 ex_mem1 = Some (l', [], 1, m') \<and>
     mvrlu_deref ex_la m' (ex_self 3000) ex_obj = Some (0x1000B8, self'))"
  using commit_visible [OF ex_commit_ready, where env = quiet_link and e = 128 and la = ex_la and self = "ex_self 3000",
      OF keeps_quiet_link ex_new_clock] ex_commit_ready
  by (simp add: clock_simps cpy_type_def cpy_obj_size_def ex_mem1_def fp_is_free_def ex_obj_def is_obj_actual_def
      port_addr_in_log_region_def addr_in_log_region_def ex_la_def obj_to_obj_hdr_def chs_to_obj_def size_simps ex_self_def)

text \<open>
  C21.  Aborting gives back every lock of the write set and its log space, and leaves all else
  as it was.
\<close>

theorem abort_rolls_back:
  assumes "ws_shape l m s es t'" and "cur_wrt_set l = chs_to_obj (entry l s)"
    and "wrt_clk (ws_heap m (cur_wrt_set l)) = MAX_VERSION"
  shows "\<exists>m'. log_abort l fps m =
      Some (l\<lparr>tail_cnt := of_nat s, cur_wrt_set := NULL\<rparr>, [], m') \<and>
    (\<forall>a. act_p_lock m' a = (if unlocks (entry l ` set es) m a then NULL else act_p_lock m a)) \<and>
    act_p_copy m' = act_p_copy m \<and> chs_heap m' = chs_heap m \<and> ws_heap m' = ws_heap m \<and>
    obj_heap m' = obj_heap m \<and> ahs_live m' = ahs_live m"
  using assms by (rule log_abort_rolls_back)

theorem abort_rolls_back_witness:
  "ws_shape ex_log1 ex_mem1 0 [128] 192 \<and>
   (\<exists>m'. log_abort ex_log1 [] ex_mem1 = Some (ex_log1\<lparr>tail_cnt := 0, cur_wrt_set := NULL\<rparr>, [], m') \<and>
     act_p_lock ex_mem1 0x2000 = 0x1000B8 \<and> act_p_lock m' 0x2000 = NULL)"
proof -
  have 1: "ws_shape ex_log1 ex_mem1 0 [128] 192" "cur_wrt_set ex_log1 = chs_to_obj (entry ex_log1 0)"
    "wrt_clk (ws_heap ex_mem1 (cur_wrt_set ex_log1)) = MAX_VERSION"
    using ex_commit_ready ws_inv_shape [of ex_log1 ex_mem1 0 "[128]"]
    by (simp_all add: commit_ready_def ws_inv_def)
  have "unlocks (entry ex_log1 ` set [128]) ex_mem1 0x2000"
    by (simp add: unlocks_def cpy_type_def ahs_of_def ex_mem1_def ex_obj_def obj_to_ahs_def size_simps)
  with abort_rolls_back [OF 1, of "[]"] 1(1) show ?thesis
    by (auto simp: act_p_lock_def ex_mem1_def)
qed

section \<open>Reading and locking\<close>

text \<open>
  C24.  Dereferencing terminates on every finite chain of versions, ordered by their clocks, in which
  each copy has recorded the clock of the next.  If no version of the chain is visible at the reader's clock it returns
  the object itself.  Otherwise it returns the newest visible version \<open>q\<close>, unless \<open>q\<close> is behind another version and
  older than the reader's \<open>qp_clk2\<close>: then it stops before \<open>q\<close> and returns the object.
\<close>

theorem deref_returns_newest:
  assumes "obj \<noteq> NULL" and "vchain m (act_p_copy m (obj_to_ahs (get_act_obj la m obj))) qs"
    and "sorted_wrt (\<lambda>a b. b \<le> a) (map (copy_clk m) qs)" and "\<forall>q \<in> set qs. clock_ok (copy_clk m q)" and "next_clks m qs"
  shows "\<exists>p self'. mvrlu_deref la m self obj = Some (p, self') \<and>
    (if \<exists>q \<in> set qs. lte_clock (copy_clk m q) (local_clk self)
     then \<exists>q \<in> set qs. lte_clock (copy_clk m q) (local_clk self) \<and>
       (\<forall>v \<in> set qs. lte_clock (copy_clk m v) (local_clk self) \<longrightarrow> copy_clk m v \<le> copy_clk m q) \<and>
       p = (if q = hd qs \<or> \<not> lte_clock (copy_clk m q) (qp_clk2 (thr_log self)) then q else get_act_obj la m obj)
     else p = get_act_obj la m obj)"
proof -
  let ?P = "\<lambda>q. lte_clock (copy_clk m q) (local_clk self)"
  from mvrlu_deref_chain [OF assms(1,2), of self] obtain self' where d: "mvrlu_deref la m self obj =
      Some (case (case find ?P qs of None \<Rightarrow> None
          | Some q \<Rightarrow> if q = hd qs \<or> \<not> lte_clock (copy_clk m q) (qp_clk2 (thr_log self)) then Some q else None)
        of Some q \<Rightarrow> q | None \<Rightarrow> get_act_obj la m obj, self')" unfolding find_live_versions [OF assms(3-5)] by blast
  show ?thesis
  proof (cases "find ?P qs")
    case None
    then have "\<not> (\<exists>q \<in> set qs. ?P q)" by (auto simp: find_None_iff)
    with d None show ?thesis by simp
  next
    case (Some p)
    then have p: "p \<in> set qs" "?P p" by (auto simp: find_Some_iff)
    with d Some deref_newest_visible [OF assms(3,4) Some] show ?thesis by (auto intro!: bexI [of _ p])
  qed
qed

theorem deref_returns_newest_witness:
  "vchain ex_mem4 (act_p_copy ex_mem4 (obj_to_ahs (get_act_obj ex_la ex_mem4 ex_obj))) [0x1200C0, 0x1000B8] \<and>
   (\<exists>s1 s2 s3. mvrlu_deref ex_la ex_mem4 (ex_self 5000) ex_obj = Some (0x1200C0, s1) \<and>
      mvrlu_deref ex_la ex_mem4 (ex_self 3500) ex_obj = Some (0x1000B8, s2) \<and>
      mvrlu_deref ex_la ex_mem4 ex_late ex_obj = Some (ex_obj, s3))"
proof -
  have act: "get_act_obj ex_la ex_mem4 ex_obj = ex_obj" and nc: "next_clks ex_mem4 [0x1200C0, 0x1000B8]"
    and clk: "copy_clk ex_mem4 0x1200C0 = 4000" "copy_clk ex_mem4 0x1000B8 = 2000" by code_simp+
  have qp: "qp_clk2 (thr_log (ex_self c)) = 0" "local_clk (ex_self c) = c" for c
    by (simp_all add: ex_self_def zero_thread_def zero_log_def)
  have late: "qp_clk2 (thr_log ex_late) = 3000" "local_clk ex_late = 3500" by (simp_all add: ex_late_def qp)
  note newest = deref_returns_newest [where obj = ex_obj, OF _ ex_vchain4]
  show ?thesis
    using newest [of "ex_self 5000"] newest [of "ex_self 3500"] newest [of ex_late] act nc clk ex_vchain4
    by (simp add: qp late ex_obj_def clock_ok_def clock_simps)
qed

text \<open>
  C23.  Locks exclude each other: after \<open>try_lock_obj\<close> has succeeded for one copy, it fails for
  every other one and leaves the memory alone, as long as the lock is held; and it only succeeds
  on an object that nobody held and whose newest version is the one the caller has seen.
\<close>

theorem try_lock_excludes:
  assumes "try_lock_obj env1 env2 a old new m = (True, m')" and "new \<noteq> NULL"
    and "\<And>m. act_p_lock m a = new \<Longrightarrow> act_p_lock (env2 m) a = new"
  shows "act_p_lock (env1 m) a = NULL \<and> act_p_lock m' a = new \<and> act_p_copy m' a = old \<and>
    try_lock_obj env3 env4 a old' new' m' = (False, m')"
  using try_lock_obj_success [OF assms(1) assms(3)] assms(2)
  by (simp add: try_lock_obj_def)

theorem try_lock_excludes_witness:
  "\<exists>m'. try_lock_obj id id 0x2000 NULL 0x1000B8 ex_mem0 = (True, m') \<and>
     try_lock_obj id id 0x2000 NULL 0x3000B8 m' = (False, m')"
proof -
  have "try_lock_obj id id 0x2000 NULL 0x1000B8 ex_mem0 = (True, set_p_lock 0x2000 0x1000B8 ex_mem0)"
    by (simp add: try_lock_obj_seq act_p_lock_def act_p_copy_def ex_mem0_def zero_ahs_def zero_obj_hdr_def)
  from try_lock_excludes [OF this, of id id NULL "0x3000B8"] this show ?thesis by auto
qed

text \<open>
  \<open>mvrlu_try_lock\<close> refuses an object that is locked, or whose newest version the caller's
  snapshot does not contain, and changes nothing.
\<close>

theorem try_lock_refused:
  assumes "act = get_act_obj (port_logs s) (memory s) obj"
    and "act_p_lock (memory s) (obj_to_ahs act) \<noteq> NULL \<or>
      (act_p_copy (memory s) (obj_to_ahs act) \<noteq> NULL \<and>
       \<not> lte_clock (copy_clk (memory s) (act_p_copy (memory s) (obj_to_ahs act))) (local_clk (threads s t)))"
  shows "mvrlu_try_lock env t obj sz s = (False, obj, s)"
  using assms by (auto intro: mvrlu_try_lock_refused)

theorem try_lock_refused_witness:
  "mvrlu_try_lock ex_env ex_thr ex_obj 8 (ex_sys0\<lparr>memory := ex_mem1\<rparr>) = (False, ex_obj, ex_sys0\<lparr>memory := ex_mem1\<rparr>)"
proof -
  have "act_p_lock (memory (ex_sys0\<lparr>memory := ex_mem1\<rparr>)) (obj_to_ahs ex_obj) \<noteq> NULL" by code_simp
  moreover have "ex_obj = get_act_obj (port_logs (ex_sys0\<lparr>memory := ex_mem1\<rparr>)) (memory (ex_sys0\<lparr>memory := ex_mem1\<rparr>)) ex_obj"
    by code_simp
  ultimately show ?thesis using try_lock_refused by blast
qed

text \<open>
  C8.  A successful \<open>mvrlu_try_lock\<close> keeps the invariant of the open write set, whatever the other
  threads do within their rights during the call: the new copy (with a filler in front of it
  when the ring wraps) is appended to the log, the object's lock word points to the copy, the
  newest version of the object is still the one seen before, and the write is noted for the
  commit.
\<close>

theorem try_lock_keeps_txn:
  fixes s obj sz l0 m0
  defines "act \<equiv> get_act_obj (port_logs s) (memory s) obj"
  defines "tt \<equiv> unat (tail_cnt l0)" and "n \<equiv> alloc_size (unat (ucast sz :: u32))"
  defines "new \<equiv> entry l0 ` set (append_entries tt n)" and "c \<equiv> entry l0 (alloc_start tt n)"
  assumes "open_txn (log_of s t) (memory s) t = (l0, m0)"
    and "cur_wrt_set (log_of s t) = NULL \<longrightarrow> log_room (unat (tail_cnt (log_of s t))) \<and>
      buf_ok (log_of s t) \<and> unat (tail_cnt (log_of s t)) + 2 * log_sz < 2 ^ 64 \<and> act_p_copy m0 = act_p_copy (memory s)"
    and "txn_inv l0 m0 st es" and "unat (ucast sz :: u32) \<le> 65424"
    and "unat (tail_cnt l0) + 2 * log_sz < 2 ^ 64" and "alloc_end tt n \<le> st + log_sz"
    and "length es + 2 < 2 ^ 32" and "unused new m0"
    and "\<And>m. lock_rely (entry l0 ` set es) new (cur_wrt_set l0) c m (e_lock1 env m)"
    and "\<And>m. lock_rely (entry l0 ` set es) new (cur_wrt_set l0) c m (e_lock2 env m)"
    and "mvrlu_try_lock env t obj sz s = (True, p, s')"
  shows "txn_inv (log_of s' t) (memory s') st (es @ append_entries tt n) \<and>
    p = chs_to_obj c \<and> act_p_lock (memory s') (obj_to_ahs act) = p \<and>
    act_p_copy (memory s') (obj_to_ahs act) = act_p_copy (memory s) (obj_to_ahs act) \<and>
    unat (tail_cnt (log_of s' t)) = alloc_end tt n \<and> is_write_detected (threads s' t)"
  using mvrlu_try_lock_success [OF assms(6) assms(7) [THEN mp] assms(8-16) [unfolded assms(1-5)], folded assms(1-5)]
  by (simp add: c_def)

theorem try_lock_keeps_txn_witness:
  "mvrlu_try_lock ex_env ex_thr ex_obj 8 ex_sys0 = ex_locked \<and> fst ex_locked \<and>
   txn_inv (log_of (snd (snd ex_locked)) ex_thr) (memory (snd (snd ex_locked))) 0 [128] \<and>
   act_p_lock (memory (snd (snd ex_locked))) 0x2000 = fst (snd ex_locked)"
proof -
  obtain l0 m0 where op: "open_txn (log_of ex_sys0 ex_thr) (memory ex_sys0) ex_thr = (l0, m0)" by force
  have l: "cur_wrt_set (log_of ex_sys0 ex_thr) = NULL" "tail_cnt (log_of ex_sys0 ex_thr) = 0"
    "log_buffer (log_of ex_sys0 ex_thr) = ex_buf"
    by (simp_all add: log_of_def ex_defs zero_log_def)
  have none: "act_p_copy (memory ex_sys0) a = NULL" for a
    by (simp add: ex_sys0_def ex_mem0_def act_p_copy_def zero_ahs_def zero_obj_hdr_def)
  have ok: "log_room (unat (tail_cnt (log_of ex_sys0 ex_thr)))" "buf_ok (log_of ex_sys0 ex_thr)"
    "unat (tail_cnt (log_of ex_sys0 ex_thr)) + 2 * log_sz < 2 ^ 64"
    by (simp_all add: l log_room_def buf_ok_def ex_buf_def)
  have un: "unused A (memory ex_sys0)" if "NULL \<notin> chs_to_obj ` A" for A using that by (auto simp: unused_def none)
  have "unused {entry (log_of ex_sys0 ex_thr) (unat (tail_cnt (log_of ex_sys0 ex_thr)))} (memory ex_sys0)"
    using entry_obj_not_NULL [OF ok(2)] by (intro un) force
  note o = open_txn_first [OF l(1) ok op this]
  have t0: "unat (tail_cnt l0) = 128" using o(2) by (simp add: l alloc_end_def alloc_start_def alloc_pad_def wraps_def)
  have n: "alloc_size 8 = 64" by (simp add: alloc_size_def)
  have ae: "append_entries 128 64 = [128]" "alloc_end 128 64 = 192" "alloc_start 128 64 = 128"
    by (simp_all add: append_entries_def alloc_end_def alloc_start_def alloc_pad_def wraps_def)
  have "unused (entry l0 ` set [128]) m0"
    using unused_cong [OF o(4)] un entry_obj_not_NULL [of l0] ok(2) o(3) by (auto simp: buf_ok_def)
  moreover have "mvrlu_try_lock ex_env ex_thr ex_obj 8 ex_sys0 = (True, fst (snd ex_locked), snd (snd ex_locked))"
    using ex_try_lock by (auto simp: ex_locked_def [symmetric] prod_eq_iff)
  moreover have "obj_to_ahs (get_act_obj (port_logs ex_sys0) (memory ex_sys0) ex_obj) = 0x2000" by code_simp
  ultimately show ?thesis
    using try_lock_keeps_txn [OF op, of 0 "[]" 8 ex_env ex_obj "fst (snd ex_locked)" "snd (snd ex_locked)"] ok o(1,4) ex_try_lock
    by (simp add: t0 n ae l ex_locked_def lock_rely_refl ex_env_def)
qed

section \<open>Reclamation and grace periods\<close>

text \<open>
  C3.  Log reclamation is invisible to readers: if \<open>log_reclaim\<close> runs with a quiescent-point clock
  that is not beyond the reader's clock, then dereferencing any object yields the same bytes
  before and after, although versions have been written back to their objects and detached.
\<close>

theorem reclaim_preserves_reads:
  assumes "log_chain l m (unat (head_cnt l)) ws (unat (tail_cnt l))"
    and "clks_sorted l m ws" and "clock_ok (qp_clk1 l)" and "qp_clk2 l \<le> qp_clk1 l"
    and "need_reclaim l" and "\<not> reclaim_lock l" and "copies_ok l m A ws"
    and "qp_clk1 l \<le> local_clk self" and "obj \<noteq> NULL"
    and "vchain m (act_p_copy m (obj_to_ahs (get_act_obj la m obj))) qs" and "set qs \<inter> A = {}"
  shows "\<exists>l' m' p s p' s'. log_reclaim quiet l m = Some (l', m') \<and>
    mvrlu_deref la m self obj = Some (p, s) \<and> mvrlu_deref la m' self obj = Some (p', s') \<and>
    obj_heap m' p' = obj_heap m p"
proof -
  let ?m' = "snd (reclaim_run quiet l (qp_clk1 l) (qp_clk2 l) ws (head_cnt l) m)"
  have "log_reclaim quiet l m =
      Some (l\<lparr>head_cnt := new_head (head_cnt l) (reclaimed l m (qp_clk2 l) ws), need_reclaim := False\<rparr>, ?m')"
    by (rule log_reclaim_run [OF assms(1-6) same_log_quiet])
  moreover have "same_reads A (local_clk self) m ?m'"
    using assms(2) by (intro reclaim_run_same_reads [OF same_reads_refl assms(7) _ assms(8)]) (auto simp: clks_sorted_def)
  ultimately show ?thesis using same_reads_deref [OF _ assms(9-11), of self ?m'] by metis
qed

theorem reclaim_preserves_reads_witness:
  "log_chain ex_log2 ex_mem2 0 [(0, [128], 192)] 192 \<and>
   (\<exists>l' m' p s p' s'. log_reclaim quiet ex_log2 ex_mem2 = Some (l', m') \<and>
      mvrlu_deref ex_la ex_mem2 (ex_self 3500) ex_obj = Some (p, s) \<and>
      mvrlu_deref ex_la m' (ex_self 3500) ex_obj = Some (p', s') \<and> obj_heap m' p' = obj_heap ex_mem2 p)"
  using reclaim_preserves_reads [of ex_log2 ex_mem2 "[(0, [128], 192)]" "{ex_obj}" "ex_self 3500" ex_obj ex_la "[0x1000B8]",
      OF _ ex_clks_sorted _ _ _ _ ex_copies_ok _ _ ex_vchain] ex_log_chain
  by (simp add: ex_log2_sel ex_self_def ex_obj_def clock_ok_def)

text \<open>
  C40.  Reclamation empties the version chains that readers no longer need: every object whose newest
  version was committed before the last quiescent point but after the one before it holds the bytes of that version
  afterwards and has no version any more.
\<close>

theorem reclaim_writes_back:
  assumes "log_chain l m (unat (head_cnt l)) ws (unat (tail_cnt l))"
    and "clks_sorted l m ws" and "clock_ok (qp_clk1 l)" and "qp_clk2 l \<le> qp_clk1 l"
    and "need_reclaim l" and "\<not> reclaim_lock l" and "copies_ok l m A ws"
  shows "\<exists>l' m'. log_reclaim quiet l m = Some (l', m') \<and>
    (\<forall>w \<in> set ws. \<forall>c \<in> set (ws_entries l w). let obj = p_act (chs_heap m c) in
       cpy_type m c = TYPE_COPY \<longrightarrow> act_p_copy m (obj_to_ahs obj) = chs_to_obj c \<longrightarrow>
       \<not> lte_clock (ws_clk l m w) (qp_clk2 l) \<longrightarrow> lte_clock (ws_clk l m w) (qp_clk1 l) \<longrightarrow>
       act_p_copy m' (obj_to_ahs obj) = NULL \<and> obj_heap m' obj = obj_heap m (chs_to_obj c))"
proof -
  let ?m' = "snd (reclaim_run quiet l (qp_clk1 l) (qp_clk2 l) ws (head_cnt l) m)"
  have "log_reclaim quiet l m =
      Some (l\<lparr>head_cnt := new_head (head_cnt l) (reclaimed l m (qp_clk2 l) ws), need_reclaim := False\<rparr>, ?m')"
    by (rule log_reclaim_run [OF assms(1-6) same_log_quiet])
  then show ?thesis using reclaim_run_writes_back [OF assms(2,3,7)] unfolding Let_def by blast
qed

theorem reclaim_writes_back_witness:
  "act_p_copy ex_mem2 (obj_to_ahs ex_obj) = 0x1000B8 \<and>
   (\<exists>l' m'. log_reclaim quiet ex_log2 ex_mem2 = Some (l', m') \<and> act_p_copy m' (obj_to_ahs ex_obj) = NULL \<and>
      obj_heap m' ex_obj = obj_heap ex_mem2 0x1000B8)"
  using reclaim_writes_back [of ex_log2 ex_mem2 "[(0, [128], 192)]" "{ex_obj}", OF _ ex_clks_sorted _ _ _ _ ex_copies_ok]
    ex_log_chain ex_mem2_obj
  by (simp add: ex_log2_sel clock_ok_def ws_entries_def ex_entry2 ex_mem2_hdrs ex_ws_clk chs_to_obj_def size_simps
      act_p_copy_def obj_to_ahs_def ex_obj_def clock_simps Let_def del: log_chain.simps)

text \<open>
  C22.  Reclamation terminates, moves the head of the log past exactly the write sets that two
  grace periods have passed, and frees exactly the objects that these write sets deleted.
\<close>

theorem reclaim_advances_head:
  assumes "log_chain l m (unat (head_cnt l)) ws (unat (tail_cnt l))"
    and "clks_sorted l m ws" and "clock_ok (qp_clk1 l)" and "qp_clk2 l \<le> qp_clk1 l"
    and "need_reclaim l" and "\<not> reclaim_lock l"
  shows "\<exists>m'. log_reclaim quiet l m =
      Some (l\<lparr>head_cnt := new_head (head_cnt l) (reclaimed l m (qp_clk2 l) ws), need_reclaim := False\<rparr>, m') \<and>
    (\<forall>a. ahs_live m' a \<longleftrightarrow> ahs_live m a \<and>
       (\<forall>w \<in> set (reclaimed l m (qp_clk2 l) ws). a \<notin> frees m (ws_entries l w)))"
  using log_reclaim_run [OF assms same_log_quiet] reclaim_run_live [OF assms(2-4), of "head_cnt l"] by simp

theorem reclaim_advances_head_witness:
  "\<exists>m'. log_reclaim quiet (ex_log2\<lparr>qp_clk2 := 3000\<rparr>) ex_mem2 =
     Some (ex_log2\<lparr>qp_clk2 := 3000, head_cnt := 192, need_reclaim := False\<rparr>, m') \<and> (ahs_live m' 0x2000 \<longleftrightarrow> ahs_live ex_mem2 0x2000)"
proof -
  let ?l = "ex_log2\<lparr>qp_clk2 := 3000\<rparr>" and ?ws = "[(0, [128], 192)] :: wset list"
  have buf: "log_buffer ?l = log_buffer ex_log2" by simp
  have 1: "log_chain ?l ex_mem2 (unat (head_cnt ?l)) ?ws (unat (tail_cnt ?l))"
    unfolding log_chain_same_buffer [OF buf] using ex_log_chain by (simp add: ex_log2_sel del: log_chain.simps)
  have clk: "ws_clk ?l ex_mem2 (0, [128], 192) = 2000"
    using ex_ws_clk same_buffer(2) [OF buf] by simp
  have 2: "clks_sorted ?l ex_mem2 ?ws" using clk by (simp add: clks_sorted_def clock_ok_def)
  have 3: "reclaimed ?l ex_mem2 (qp_clk2 ?l) ?ws = ?ws" using clk by (simp add: reclaimed_def clock_simps)
  have "frees ex_mem2 (ws_entries ?l (0, [128], 192)) = {}"
    using ex_obj_not_copy ex_entry same_entry [OF buf] same_entry [of ex_log2 ex_log1]
    by (auto simp: frees_def ws_entries_def ex_log2_sel)
  then show ?thesis
    using reclaim_advances_head [OF 1 2] 3 by (auto simp: ex_log2_sel clock_ok_def new_head_def ws_end_def)
qed

text \<open>
  C4.  A grace period is safe: in every interleaving of critical sections with a detection pass of the
  quiescent-point thread, once the pass is over each thread inside a critical section sees every
  version that the detected clock covers, so no thread still needs what such a version replaced.
\<close>

theorem grace_period_safe:
  assumes "(gp_step tsc live)\<^sup>*\<^sup>* s s'" and "gp_start tsc s" and "ordo_synced tsc"
    and "\<And>k. clock_ok (tsc k)" and "gp_qp s' = Passed" and "t \<in> live" and "gp_phase s' t = Inside"
    and "267 \<le> unat (gp_clk s')" and "clock_ok w" and "lte_clock w (correct_qp_clk (gp_clk s'))"
  shows "lte_clock w (local_clk (gp_threads s' t))"
  using assms by (rule grace_period)

theorem grace_period_safe_witness:
  "(gp_step ex_tsc {ex_thr})\<^sup>*\<^sup>* ex_gp0 ex_gp3 \<and> gp_qp ex_gp3 = Passed \<and> gp_phase ex_gp3 ex_thr = Inside \<and>
   lte_clock 100 (local_clk (gp_threads ex_gp3 ex_thr))"
proof -
  have "gp_start ex_tsc ex_gp0" by (simp add: gp_start_def ex_gp0_def ex_tsc_def zero_thread_def)
  moreover have "ordo_synced ex_tsc" "\<And>k. clock_ok (ex_tsc k)"
    by (simp_all add: ordo_synced_def ex_tsc_def clock_ok_def)
  moreover have "gp_qp ex_gp3 = Passed" "gp_phase ex_gp3 ex_thr = Inside" "gp_clk ex_gp3 = 2000"
    by (simp_all add: ex_gp3_def ex_gp2_def ex_gp1_def ex_gp0_def)
  ultimately show ?thesis
    using grace_period_safe [OF ex_gp_run, of ex_thr 100] ex_gp_run by (simp add: clock_ok_def correct_qp_clk_def clock_simps)
qed

section \<open>Log space\<close>

text \<open>
  C28.  \<open>log_alloc\<close> never hands out space that crosses the end of the ring: the returned header, the
  object behind it and their padding lie inside the log buffer, at a multiple of the cache line from its start.  So the
  header is aligned to a cache line exactly if the log buffer is; that the pool's buffers are not is a defect.
\<close>

theorem log_alloc_in_bounds:
  assumes "unat sz \<le> 130832" and "unat (tail_cnt l) + 2 * log_sz < 2 ^ 64"
    and "unat (log_buffer l) + log_sz < 2 ^ 64" and "64 dvd unat (tail_cnt l)"
    and "log_alloc l m sz False = (c, b, l1, m1)"
  shows "unat (log_buffer l) \<le> unat c \<and> unat c + alloc_size (unat sz) \<le> unat (log_buffer l) + log_sz \<and>
    unat sz + sizeof_chs \<le> alloc_size (unat sz) \<and> 64 dvd unat c - unat (log_buffer l) \<and>
    (cacheline_aligned c \<longleftrightarrow> cacheline_aligned (log_buffer l))"
proof -
  let ?t = "unat (tail_cnt l)" and ?n = "alloc_size (unat sz)"
  let ?T = "alloc_start ?t ?n"
  have c: "c = log_at l (of_nat ?T)" using log_alloc_eq [OF assms(1,2), of m] assms(5) by simp
  have n: "?n + 128 < log_sz" by (rule alloc_size_le [OF assms(1)])
  have "?T < 2 ^ 64" using alloc_start_bound [of ?t ?n] n assms(2) by linarith
  then have T: "unat (of_nat ?T :: u64) = ?T" by (rule unat_of_nat_u64)
  have fits: "?T mod log_sz + ?n \<le> log_sz" using alloc_fits [OF n, of ?t] by linarith
  have "unat c = unat (log_buffer l) + ?T mod log_sz"
    unfolding c log_at_def using assms(3) by (subst unat_add_no_wrap) (simp_all add: ucast_log_index T less_le_trans)
  moreover have "64 dvd ?T mod log_sz" using assms(4) by (auto simp: alloc_start_mod dvd_mod)
  ultimately show ?thesis using fits alloc_size_bounds(1) [of "unat sz"]
    by (auto simp: size_simps cacheline_aligned_def dvd_eq_mod_eq_0 [symmetric] dvd_add_left_iff)
qed

theorem log_alloc_in_bounds_witness:
  "\<exists>c b l1 m1. log_alloc ex_log1 ex_mem1 8 False = (c, b, l1, m1) \<and> 0x100008 \<le> unat c \<and> unat c + 64 \<le> 0x100008 + log_sz \<and>
     64 dvd unat c - 0x100008 \<and> \<not> cacheline_aligned c"
proof -
  obtain c b l1 m1 where r: "log_alloc ex_log1 ex_mem1 8 False = (c, b, l1, m1)" by (metis prod_cases4)
  have "alloc_size 8 = 64" by (simp add: alloc_size_def)
  moreover have "\<not> cacheline_aligned 0x100008" by (simp add: cacheline_aligned_def)
  ultimately show ?thesis using log_alloc_in_bounds [OF _ _ _ _ r] r by auto
qed

text \<open>
  C27.  Appending keeps the write set walkable: after \<open>log_append_begin\<close> and \<open>log_append_end\<close> the
  entries of the write set again tile the log from its header to the tail, the new copy (and the
  filler in front of it if the ring wrapped) at the end, and the recorded number of entries agrees.
\<close>

theorem append_keeps_write_set:
  assumes "ws_inv l m s es" and "log_room (unat (tail_cnt l))" and "unat sz \<le> 65424"
    and "unat (tail_cnt l) + 2 * log_sz < 2 ^ 64"
    and "alloc_end (unat (tail_cnt l)) (alloc_size (unat sz)) \<le> s + log_sz" and "length es + 2 < 2 ^ 32"
    and "log_append_begin l m self act sz = (c, b, l1, m1)" and "log_append_end l1 m1 c b = (l3, m3)"
  shows "ws_inv l3 m3 s (es @ append_entries (unat (tail_cnt l)) (alloc_size (unat sz))) \<and>
    log_room (unat (tail_cnt l3)) \<and> p_act (chs_heap m3 c) = act \<and> cpy_type m3 c = TYPE_COPY"
  using log_append_inv [OF assms(1-7) refl refl assms(8)] by (simp add: cpy_type_def)

theorem append_keeps_write_set_witness:
  "\<exists>c b l1 m1 l3 m3. log_append_begin ex_log1 ex_mem1 ex_thr 0x3000 8 = (c, b, l1, m1) \<and>
     log_append_end l1 m1 c b = (l3, m3) \<and> ws_inv l3 m3 0 [128, 192] \<and> p_act (chs_heap m3 c) = 0x3000"
proof -
  obtain c b l1 m1 where r1: "log_append_begin ex_log1 ex_mem1 ex_thr 0x3000 8 = (c, b, l1, m1)" by (metis prod_cases4)
  obtain l3 m3 where r2: "log_append_end l1 m1 c b = (l3, m3)" by force
  have n: "alloc_size 8 = 64" by (simp add: alloc_size_def)
  have "ws_inv ex_log1 ex_mem1 0 [128]" using ex_commit_ready by (simp add: commit_ready_def)
  from append_keeps_write_set [OF this _ _ _ _ _ r1 r2] r1 r2 show ?thesis
    by (simp add: n log_room_def append_entries_def alloc_end_def alloc_start_def alloc_pad_def wraps_def)
qed

text \<open>
  The size of a filler is kept in sixteen bits: when an allocation of more than 64 KiB wraps
  and the rest of the ring is that long, the filler's recorded size falls short of the distance to
  the next entry by 65536, so a walk over the log goes astray.
\<close>

theorem filler_size_truncated:
  assumes "unat sz \<le> 130832" and "unat (tail_cnt l) + 2 * log_sz < 2 ^ 64"
    and "wraps (unat (tail_cnt l)) (alloc_size (unat sz))" and "65536 \<le> ring_rest (unat (tail_cnt l))"
    and "ring_rest (unat (tail_cnt l)) < log_sz"
    and "log_alloc l m sz False = (c, b, l1, m1)"
  shows "b \<and> tail_cnt l1 = tail_cnt l + of_nat (ring_rest (unat (tail_cnt l))) \<and>
    unat (get_log_size (chs_heap m1 (log_at l (tail_cnt l)))) = ring_rest (unat (tail_cnt l)) - 65536"
proof -
  let ?t = "unat (tail_cnt l)" and ?n = "alloc_size (unat sz)"
  have T: "alloc_start ?t ?n = ?t + ring_rest ?t" using assms(3) by (simp add: alloc_start_def)
  from log_alloc_eq [OF assms(1,2), of m] assms(3,6) have r: "b" "l1 = l\<lparr>tail_cnt := of_nat (?t + ring_rest ?t)\<rparr>"
    "m1 = upd_chs (log_at l (of_nat (?t + ring_rest ?t))) (\<lambda>_. fresh_hdr sz (?n + alloc_pad ?t ?n - unat sz))
      (upd_chs (log_at l (tail_cnt l)) (\<lambda>_. bogus_hdr (ring_rest ?t)) m)"
    by (simp_all add: T)
  have "?t + ring_rest ?t < 2 ^ 64" using assms(2,5) by linarith
  then have u: "unat (of_nat (?t + ring_rest ?t) :: u64) = ?t + ring_rest ?t" by (rule unat_of_nat_u64)
  have "log_at l (tail_cnt l) \<noteq> log_at l (of_nat (?t + ring_rest ?t))"
    unfolding log_at_eq_iff u using mod_window_inj [of ?t "?t + ring_rest ?t" log_sz] assms(4,5) by simp
  then have "chs_heap m1 (log_at l (tail_cnt l)) = bogus_hdr (ring_rest ?t)" by (simp add: r(3))
  moreover have "ring_rest ?t mod 65536 = ring_rest ?t - 65536"
    using assms(4,5) by (simp add: le_mod_geq)
  ultimately show ?thesis using r(1,2) by (simp add: unat_get_log_size_bogus)
qed

theorem filler_size_truncated_witness:
  "\<exists>c b l1 m1. log_alloc (zero_log\<lparr>tail_cnt := 256\<rparr>) ex_mem0 130832 False = (c, b, l1, m1) \<and> tail_cnt l1 = 131072 \<and>
     unat (get_log_size (chs_heap m1 (log_at (zero_log\<lparr>tail_cnt := 256\<rparr>) 256))) = 65280"
proof -
  let ?l = "zero_log\<lparr>tail_cnt := 256\<rparr>"
  obtain c b l1 m1 where r: "log_alloc ?l ex_mem0 130832 False = (c, b, l1, m1)" by (metis prod_cases4)
  have "alloc_size 130832 = 130880" by (simp add: alloc_size_def)
  with filler_size_truncated [OF _ _ _ _ _ r] r show ?thesis
    by (auto simp: wraps_def ring_rest_def)
qed

section \<open>Clocks\<close>

text \<open>
  ORDO comparison is antisymmetric: on clock values whose uncertainty window does not
  overflow, comparing in the other order gives the opposite answer.
\<close>

theorem ordo_cmp_antisymmetric:
  assumes "clock_ok t1" and "clock_ok t2"
  shows "ordo_cmp_clock t2 t1 = - ordo_cmp_clock t1 t2"
  using assms by (rule ordo_cmp_clock_sym)

theorem ordo_cmp_antisymmetric_witness:
  "clock_ok 1000 \<and> clock_ok 2000 \<and> ordo_cmp_clock 2000 1000 = - ordo_cmp_clock 1000 2000"
  using ordo_cmp_antisymmetric [of 1000 2000] by (simp add: clock_ok_def)

text \<open>
  C37.  \<open>new_clock\<close> returns as soon as some reading of the counter is more than two boundaries after
  the thread's clock, and what it returns is a reading that lies that far ahead, so every reader
  that started before can tell it from its own clock.
\<close>

theorem new_clock_returns:
  assumes "unat lclk + 534 < 2 ^ 64" and "n \<le> k" and "unat lclk + 534 < unat (tsc k)"
  shows "\<exists>clk n'. new_clock tsc n lclk = Some (clk, n') \<and> unat lclk + 534 < unat clk \<and>
    (clock_ok clk \<longrightarrow> \<not> lte_clock clk lclk)"
proof -
  have "unat (lclk + ordo_boundary) = unat lclk + 267" using assms(1) by (subst unat_add_no_wrap) (simp_all add: ordo_boundary_def)
  then have "ordo_gt_clock (tsc k) (lclk + ordo_boundary)"
    using assms(1,3) unat_add_no_wrap [of "lclk + ordo_boundary" ordo_boundary]
    by (simp add: ordo_gt_clock_def word_less_unat) (simp add: ordo_boundary_def)
  from ordo_new_clock_returns [where tsc = tsc, OF assms(2) this] obtain clk n' where r: "new_clock tsc n lclk = Some (clk, n')"
    by (auto simp: new_clock_def)
  show ?thesis
    using r new_clock_Some(1) [OF r assms(1)] lte_clock_unat [of clk lclk] by (cases "clock_ok clk") auto
qed

theorem new_clock_returns_witness:
  "\<exists>clk n'. new_clock ex_tsc 0 1000 = Some (clk, n') \<and> 1534 < unat clk \<and> (clock_ok clk \<longrightarrow> \<not> lte_clock clk 1000)"
  using new_clock_returns [of 1000 0 0 ex_tsc] by (simp add: ex_tsc_def)

text \<open>
  C38.  The marker for copies that are not yet published wraps around in the ORDO comparison: a copy
  with clock \<open>MAX_VERSION\<close> counts as visible to every reader whose clock is above 265, so between
  linking and publishing a commit is visible to readers.
\<close>

theorem unpublished_copy_visible:
  assumes "265 < local_clk self" and "get_wrt_clk m c = MAX_VERSION"
    and "act_p_copy m (obj_to_ahs (get_act_obj la m obj)) = chs_to_obj c" and "chs_to_obj c \<noteq> NULL" and "obj \<noteq> NULL"
  shows "\<exists>self'. mvrlu_deref la m self obj = Some (chs_to_obj c, self')"
  using assms by (auto simp: mvrlu_deref_def Let_def deref_walk.simps lte_clock_MAX_VERSION)

theorem unpublished_copy_visible_witness:
  "\<exists>self'. mvrlu_deref ex_la (set_act_p_copy 0x2000 0x1000B8 ex_mem1) (ex_self 1500) ex_obj = Some (0x1000B8, self')"
proof -
  have "get_wrt_clk (set_act_p_copy 0x2000 0x1000B8 ex_mem1) 0x100088 = MAX_VERSION"
    "act_p_copy (set_act_p_copy 0x2000 0x1000B8 ex_mem1)
       (obj_to_ahs (get_act_obj ex_la (set_act_p_copy 0x2000 0x1000B8 ex_mem1) ex_obj)) = chs_to_obj 0x100088"
    by code_simp+
  from unpublished_copy_visible [OF _ this, of "ex_self 1500"] show ?thesis
    by (simp add: ex_self_def chs_to_obj_def size_simps ex_obj_def)
qed

section \<open>Threads\<close>

text \<open>
  C33.  The circular doubly linked lists implement sequences: walking the list after an operation
  gives the sequence with the element put in front, taken out, or the first one moved to the end.
\<close>

theorem list_refines:
  assumes "dlist h head xs"
  shows "list_for_each h head = Some xs \<and> (mvrlu_list_empty head h \<longleftrightarrow> xs = []) \<and>
    list_for_each (mvrlu_list_rotate_left head h) head = Some (rotate1 xs) \<and>
    (x \<in> set xs \<longrightarrow> list_for_each (mvrlu_list_del x h) head = Some (remove1 x xs)) \<and>
    (x \<notin> set (head # xs) \<longrightarrow> list_for_each (mvrlu_list_add x head h) head = Some (x # xs))"
  using assms mvl.repr_delete_member [OF assms]
  by (simp add: list_for_each_dlist mvrlu_list_empty_dlist mvrlu_list_rotate_left_dlist mvrlu_list_add_dlist)

theorem list_refines_witness:
  "list_for_each (mvrlu_list_add 0x300 0x100 ex_list) 0x100 = Some [0x300, 0x200]"
  using list_refines [OF ex_dlist, of "0x300"] by simp

text \<open>
  C34.  Rotation is fair: every thread of the list comes to its front after fewer rotations than the
  list has threads, so the helper that restarts at the front reaches each of them.
\<close>

theorem rotation_is_fair:
  assumes "dlist h head xs" and "x \<in> set xs"
  shows "\<exists>n < length xs. \<exists>ys. dlist ((mvrlu_list_rotate_left head ^^ n) h) head (x # ys)"
  using assms by (rule mvl.rotate_reaches_front)

theorem rotation_is_fair_witness:
  "\<exists>n < 1. \<exists>ys. dlist ((mvrlu_list_rotate_left 0x100 ^^ n) ex_list) 0x100 (0x200 # ys)"
  using rotation_is_fair [OF ex_dlist, of "0x200"] by simp

text \<open>
  C39.  The log buffers through every sequence of requests.  Whatever buffers a client of a fresh log
  allocator asks for with \<open>alloc_log_mem\<close> and gives back with \<open>free_log_mem\<close>, no request panics, no buffer is given out twice,
  the free buffers and those of the client together are all of them, and no two buffers overlap.
\<close>

theorem log_pool_accounts:
  assumes "unat base + 131080 * 128 < 2 ^ 64"
  shows "\<exists>la own. buffer_pool.serve alloc_log_mem give_back NULL rs (log_allocator_init base) [] = Some (la, own) \<and>
    distinct (own @ map log_part (log_pool la)) \<and> set (own @ map log_part (log_pool la)) = log_bufs base \<and>
    (\<forall>a \<in> log_bufs base. \<forall>b \<in> log_bufs base. a \<noteq> b \<longrightarrow> unat a + 131072 \<le> unat b \<or> unat b + 131072 \<le> unat a)"
proof -
  obtain la own where s: "buffer_pool.serve alloc_log_mem give_back NULL rs (log_allocator_init base) [] = Some (la, own)"
    "log_pool.account base (log_bufs base) la own"
    using log_pool.serve_accounts [OF log_pool_init [OF assms]] by blast
  have "unat a + 131072 \<le> unat b \<or> unat b + 131072 \<le> unat a" if ab: "a \<in> log_bufs base" "b \<in> log_bufs base" "a \<noteq> b" for a b
  proof -
    obtain i j where ij: "i < 128" "j < 128" "a = log_part (block_at base i)" "b = log_part (block_at base j)"
      using ab by (auto simp: log_bufs_def)
    then have "i \<noteq> j" using ab(3) by auto
    then show ?thesis using log_parts_disjoint [OF assms, of i j] log_parts_disjoint [OF assms, of j i] ij by (auto simp: nat_neq_iff)
  qed
  then show ?thesis using s unfolding log_pool.account_def pool_repr_def by blast
qed

theorem log_pool_accounts_witness:
  "\<exists>la own. buffer_pool.serve alloc_log_mem give_back NULL [None, None, Some 0x120010] (log_allocator_init 0x100000) [] = Some (la, own) \<and>
     distinct own"
  using log_pool_accounts [of "0x100000" "[None, None, Some 0x120010]"] by (auto simp del: buffer_pool.serve.simps)

section \<open>Life of a thread\<close>

text \<open>
  C30.  \<open>mvrlu_thread_init\<close> puts the thread at the front of the list of live threads with the next
  thread number, a zeroed structure and the log buffer just allocated, and touches no other thread.
\<close>

theorem thread_init_registers:
  assumes "lists_inv s ls zs" and "fresh_node s ls zs t" and "port_alloc_log_mem (port_logs s) = (buf, la)"
  shows "\<exists>s'. mvrlu_thread_init env t s = Some s' \<and> lists_inv s' (t # ls) zs \<and> live_list s' = Some (t # ls) \<and>
    threads s' t = zero_thread\<lparr>tid := cur_tid (g_live_threads s), thr_log := zero_log\<lparr>log_buffer := buf\<rparr>\<rparr> \<and>
    port_logs s' = la \<and> (\<forall>u. u \<noteq> t \<longrightarrow> threads s' u = threads s u)"
  using mvrlu_thread_init_registers [OF assms, of env] live_list_inv by blast

theorem thread_init_registers_witness:
  "\<exists>s' buf. mvrlu_thread_init ex_env ex_thr ex_sys1 = Some s' \<and> live_list s' = Some [ex_thr] \<and>
     log_buffer (log_of s' ex_thr) = buf"
proof -
  obtain buf la where "port_alloc_log_mem (port_logs ex_sys1) = (buf, la)" by force
  from thread_init_registers [OF ex_lists_inv ex_fresh this, of ex_env] show ?thesis by auto
qed

text \<open>
  C31.  \<open>mvrlu_thread_finish\<close> takes the thread off the live list.  If its log is empty the log buffer
  is returned; otherwise the thread becomes a live zombie on the zombie list and keeps its log for
  the quiescent-point thread to drain.
\<close>

theorem thread_finish_unregisters:
  assumes "lists_inv s ls zs" and "t \<in> set ls" and "\<not> need_reclaim (log_of s t)"
    and "port_free_log_mem (port_logs s) (log_buffer (log_of s t)) = Inr la"
  shows "\<exists>s'. mvrlu_thread_finish env t s = Some (Inr s') \<and>
    (if head_cnt (log_of s t) = tail_cnt (log_of s t)
     then lists_inv s' (remove1 t ls) zs \<and> port_logs s' = la \<and> log_buffer (log_of s' t) = NULL
     else lists_inv s' (remove1 t ls) (t # zs) \<and> live_status (threads s' t) = THREAD_LIVE_ZOMBIE \<and>
       log_of s' t = log_of s t)"
proof (cases "head_cnt (log_of s t) = tail_cnt (log_of s t)")
  case True
  with mvrlu_thread_finish_empty [OF assms(1-3) True assms(4), of env] show ?thesis by auto
next
  case False
  with mvrlu_thread_finish_zombie [OF assms(1-3) False, of env] show ?thesis by auto
qed

theorem thread_finish_unregisters_witness:
  "\<exists>s s'. lists_inv s [ex_thr] [] \<and> mvrlu_thread_finish ex_env ex_thr s = Some (Inr s') \<and> lists_inv s' [] []"
proof -
  have "port_alloc_log_mem (port_logs ex_sys1) = (0x120010, ex_la\<lparr>log_pool := []\<rparr>)"
    by (simp add: port_alloc_log_mem_def alloc_log_mem_def ex_sys1_def mvrlu_init_def ex_sys0_def init_thread_list_def
        init_qp_thread_def port_log_region_init_def ex_la_def log_part_def sizeof_islink_def)
  from mvrlu_thread_init_registers [OF ex_lists_inv ex_fresh this, of ex_env] obtain s where
    s: "lists_inv s [ex_thr] []" "threads s ex_thr = zero_thread\<lparr>tid := cur_tid (g_live_threads ex_sys1),
      thr_log := zero_log\<lparr>log_buffer := 0x120010\<rparr>\<rparr>" "port_logs s = ex_la\<lparr>log_pool := []\<rparr>" by blast
  have l: "log_of s ex_thr = zero_log\<lparr>log_buffer := 0x120010\<rparr>" by (simp add: log_of_def s(2))
  have "\<exists>la. port_free_log_mem (port_logs s) (log_buffer (log_of s ex_thr)) = Inr la"
    by (simp add: l s(3) port_free_log_mem_def free_log_mem_def ex_la_def cast_to_block_def sizeof_islink_def
        addr_in_log_region_def zero_log_def)
  then obtain la where "port_free_log_mem (port_logs s) (log_buffer (log_of s ex_thr)) = Inr la" by blast
  from thread_finish_unregisters [OF s(1) _ _ this, of ex_env] s(1) show ?thesis by (auto simp: l zero_log_def)
qed

text \<open>
  \<open>mvrlu_thread_free\<close> on a zombie whose log has already been drained frees the thread structure
  although it is still linked in the zombie list.
\<close>

theorem thread_free_dangles:
  assumes "lists_inv s ls zs" and "t \<in> set zs" and "head_cnt (log_of s t) = tail_cnt (log_of s t)"
  shows "\<not> thr_alloc (mvrlu_thread_free t s) t \<and> zombie_list (mvrlu_thread_free t s) = Some zs"
  using mvrlu_thread_free_zombie [OF assms] thread_list_for_each_inv
  by (auto simp: zombie_list_def lists_inv_def)

theorem thread_free_dangles_witness:
  "\<exists>s. lists_inv s [] [ex_thr] \<and> \<not> thr_alloc (mvrlu_thread_free ex_thr s) ex_thr \<and>
     zombie_list (mvrlu_thread_free ex_thr s) = Some [ex_thr]"
proof -
  from add_zombie_adds [OF ex_lists_inv ex_fresh, of ex_env] obtain s where
    s: "lists_inv s [] [ex_thr]" "threads s ex_thr = (threads ex_sys1 ex_thr)\<lparr>tid := cur_tid (g_zombie_threads ex_sys1)\<rparr>"
    by blast
  have "threads ex_sys1 ex_thr = zero_thread\<lparr>local_clk := 1000, run_cnt := 1, thr_log := ex_log0\<rparr>"
    by (simp add: ex_sys1_def mvrlu_init_def ex_sys0_def init_thread_list_def init_qp_thread_def port_log_region_init_def)
  then have "head_cnt (log_of s ex_thr) = tail_cnt (log_of s ex_thr)"
    using s(2) by (simp add: log_of_def ex_log0_def zero_log_def)
  from thread_free_dangles [OF s(1) _ this] s(1) show ?thesis by auto
qed

text \<open>
  A second \<open>mvrlu_init\<close> is refused with \<open>-EBUSY\<close>, whatever the first one returned, and changes
  nothing.
\<close>

theorem init_once:
  assumes "mvrlu_init rc s = (r, s')"
  shows "mvrlu_init rc' s' = (- EBUSY, s')"
  using assms by (rule mvrlu_init_twice)

theorem init_once_witness:
  "mvrlu_init 0 ex_sys1 = (- EBUSY, ex_sys1)"
  using init_once [of 0 ex_sys0 "fst (mvrlu_init 0 ex_sys0)" ex_sys1 0] by (simp add: ex_sys1_def)

text \<open>
  C29.  A critical section starts with room in the log: when \<open>mvrlu_reader_lock\<close> returns, less than the
  high mark of the log is in use, the run counter has been advanced and the local clock is a fresh
  reading of the counter.
\<close>

theorem reader_lock_bounds_log:
  assumes "mvrlu_reader_lock tsc env t s = Some s'"
  shows "log_used (log_of s' t) < MVRLU_LOG_HIGH_MARK \<and>
    (\<exists>s1. run_cnt (threads s' t) = run_cnt (threads s1 t) + 1 \<and> local_clk (threads s' t) = tsc (n_rdtsc s1) \<and>
       n_rdtsc s' = Suc (n_rdtsc s1) \<and> s' = reader_start tsc t s1)"
  using mvrlu_reader_lock_starts [OF assms] by blast

theorem reader_lock_bounds_log_witness:
  "\<exists>s'. mvrlu_reader_lock ex_tsc ex_env ex_thr ex_sys0 = Some s' \<and> log_used (log_of s' ex_thr) < MVRLU_LOG_HIGH_MARK"
proof -
  have "mvrlu_reader_lock ex_tsc ex_env ex_thr ex_sys0 = Some (reader_start ex_tsc ex_thr ex_sys0)"
    by (simp add: mvrlu_reader_lock_def log_of_def ex_sys0_def ex_log0_def zero_log_def log_used_def size_simps)
  with reader_lock_bounds_log [OF this] show ?thesis by blast
qed

section \<open>The hash table\<close>

text \<open>
  C25.  \<open>chainhash::insert\<close> implements a finite map.  If locks are eventually granted it returns; it reports
  whether the key was absent in the snapshot of its last attempt, and then the table stands for
  that map with the key added, otherwise for the unchanged map.
\<close>

theorem hash_insert_refines:
  fixes s :: "('k :: linorder, 'v) ch_state"
  assumes "table_ok hs T (items s)" and "unlinked T (items s) x"
    and "\<And>n h. table_ok hs T h \<Longrightarrow> unlinked T h x \<Longrightarrow> table_ok hs T (V n h) \<and> unlinked T (V n h) x"
    and "\<And>n. N \<le> n \<Longrightarrow> lk n"
  shows "\<exists>h s'. seen V (items s) h \<and>
    chainhash_insert hs T V lk x k v s = Some (table_map hs T h k = None, s') \<and>
    table_ok hs T (items s') \<and>
    table_map hs T (items s') =
      (if table_map hs T h k = None then (table_map hs T h)(k \<mapsto> v) else table_map hs T h) \<and>
    ch_freed s' = ch_freed s"
  using assms by (rule chainhash_insert_map)

theorem hash_insert_refines_witness:
  "\<exists>s'. chainhash_insert ex_hash ex_table (\<lambda>n h. h) (\<lambda>n. True) 0x500 4 40 ex_ch = Some (True, s') \<and>
     table_map ex_hash ex_table (items s') = (table_map ex_hash ex_table ex_items)(4 \<mapsto> 40)"
proof -
  have "table_ok ex_hash ex_table (items ex_ch)" "unlinked ex_table (items ex_ch) 0x500"
    using ex_table_inv ex_unlinked by (auto simp: table_ok_def ex_ch_def)
  from hash_insert_refines [OF this, of "\<lambda>n h. h" 0 "\<lambda>n. True" 4 40] show ?thesis
    by (auto simp: seen_id ex_table_map ex_ch_def)
qed

text \<open>
  C26.  Both versions of \<open>chainhash::remove\<close> implement deletion from that map: they return once locks are
  granted and report whether the key (with the given value) was there.  If so, the key is gone and exactly the item
  that held it, which is no longer linked, has been handed to \<open>mvrlu_free\<close>; if not, map and freed items are unchanged.
\<close>

theorem hash_remove_refines:
  fixes s :: "('k :: linorder, 'v) ch_state"
  assumes "table_ok hs T (items s)" and "\<And>n h. table_ok hs T h \<Longrightarrow> table_ok hs T (V n h)" and "\<And>n. N \<le> n \<Longrightarrow> lk n"
  shows "(\<exists>h s'. seen V (items s) h \<and> chainhash_remove hs T V lk k s = Some (table_map hs T h k \<noteq> None, s') \<and>
      table_ok hs T (items s') \<and> table_map hs T (items s') = (table_map hs T h)(k := None) \<and>
      (if table_map hs T h k \<noteq> None then frees_item T h k s s' else ch_freed s' = ch_freed s)) \<and>
    (\<exists>h s'. seen V (items s) h \<and> chainhash_remove_val hs T V lk k v s = Some (table_map hs T h k = Some v, s') \<and>
      table_ok hs T (items s') \<and>
      table_map hs T (items s') = (if table_map hs T h k = Some v then (table_map hs T h)(k := None) else table_map hs T h) \<and>
      (if table_map hs T h k = Some v then frees_item T h k s s' else ch_freed s' = ch_freed s))"
proof (rule conjI)
  obtain h s' where "seen V (items s) h" "bucket_remove V lk (\<lambda>i. it_key i = k) (buckets T ! bucket_no hs T k) s =
      Some (table_map hs T h k \<noteq> None, s')" "table_ok hs T (items s')"
    "table_map hs T (items s') = (if table_map hs T h k \<noteq> None then (table_map hs T h)(k := None) else table_map hs T h)"
    "if table_map hs T h k \<noteq> None then frees_item T h k s s' else ch_freed s' = ch_freed s"
    using bucket_remove_map [where V = V and lk = lk and k = k and N = N and Q = "\<lambda>_. True" and P = "\<lambda>i. it_key i = k", OF assms] by auto
  then show "\<exists>h s'. seen V (items s) h \<and> chainhash_remove hs T V lk k s = Some (table_map hs T h k \<noteq> None, s') \<and>
      table_ok hs T (items s') \<and> table_map hs T (items s') = (table_map hs T h)(k := None) \<and>
      (if table_map hs T h k \<noteq> None then frees_item T h k s s' else ch_freed s' = ch_freed s)"
    unfolding chainhash_remove_def by (intro exI [of _ h] exI [of _ s']) auto
  obtain h s' where "seen V (items s) h" "bucket_remove V lk (\<lambda>i. it_key i = k \<and> it_val i = v) (buckets T ! bucket_no hs T k) s =
      Some (table_map hs T h k = Some v, s')" "table_ok hs T (items s')"
    "table_map hs T (items s') = (if table_map hs T h k = Some v then (table_map hs T h)(k := None) else table_map hs T h)"
    "if table_map hs T h k = Some v then frees_item T h k s s' else ch_freed s' = ch_freed s"
    using bucket_remove_map [where V = V and lk = lk and k = k and N = N and Q = "\<lambda>w. w = v" and P = "\<lambda>i. it_key i = k \<and> it_val i = v", OF assms] by auto
  then show "\<exists>h s'. seen V (items s) h \<and> chainhash_remove_val hs T V lk k v s = Some (table_map hs T h k = Some v, s') \<and>
      table_ok hs T (items s') \<and>
      table_map hs T (items s') = (if table_map hs T h k = Some v then (table_map hs T h)(k := None) else table_map hs T h) \<and>
      (if table_map hs T h k = Some v then frees_item T h k s s' else ch_freed s' = ch_freed s)"
    unfolding chainhash_remove_val_def by (intro exI [of _ h] exI [of _ s']) auto
qed

theorem hash_remove_refines_witness:
  "\<exists>s' s''. chainhash_remove ex_hash ex_table (\<lambda>n h. h) (\<lambda>n. True) 2 ex_ch = Some (True, s') \<and>
     table_map ex_hash ex_table (items s') 2 = None \<and> frees_item ex_table ex_items 2 ex_ch s' \<and>
     chainhash_remove_val ex_hash ex_table (\<lambda>n h. h) (\<lambda>n. True) 2 20 ex_ch = Some (True, s'') \<and>
     frees_item ex_table ex_items 2 ex_ch s''"
proof -
  have ok: "table_ok ex_hash ex_table (items ex_ch)" using ex_table_inv by (auto simp: table_ok_def ex_ch_def)
  have "items ex_ch = ex_items" by (simp add: ex_ch_def)
  with hash_remove_refines [OF ok, of "\<lambda>n h. h" 0 "\<lambda>n. True" 2 20] show ?thesis
    by (auto simp: seen_id ex_table_map)
qed

text \<open>
  C35.  \<open>chainhash::lookup\<close> returns the value of the key in the snapshot of its critical section, and
  nothing if the key is not there.
\<close>

theorem hash_lookup_returns:
  assumes "table_ok hs T (V (n_locks s) (items s))"
  shows "chainhash_lookup hs T V k s =
    Some (table_map hs T (V (n_locks s) (items s)) k, section_end (section_begin V s))"
  using assms by (rule chainhash_lookup_map)

theorem hash_lookup_returns_witness:
  "map_option fst (chainhash_lookup ex_hash ex_table (\<lambda>n h. h) 2 ex_ch) = Some (Some 20)"
proof -
  have "table_ok ex_hash ex_table ((\<lambda>n h. h) (n_locks ex_ch) (items ex_ch))"
    using ex_table_inv by (auto simp: table_ok_def ex_ch_def)
  from hash_lookup_returns [where V = "\<lambda>n h. h" and s = ex_ch, OF this, of 2] show ?thesis by (simp add: ex_ch_def ex_table_map)
qed

text \<open>
  C36.  Enumeration visits every key once: without a key \<open>chainhash::enumerate\<close> returns the first of the
  table's keys in bucket order, and given one key it returns the next, or reports the end.
\<close>

theorem hash_enumerates_all:
  fixes V :: "('k :: linorder, 'v) views" and s :: "('k, 'v) ch_state"
  assumes "h = V (n_locks s) (items s)" and "table_inv hs T h X"
  shows "map_option fst (chainhash_enumerate hs T V None s) =
      Some (case keys_of h (concat X) of [] \<Rightarrow> None | k # _ \<Rightarrow> Some k) \<and>
    (\<forall>ks p ls. keys_of h (concat X) = ks @ p # ls \<longrightarrow>
      map_option fst (chainhash_enumerate hs T V (Some p) s) = Some (case ls of [] \<Rightarrow> None | k # _ \<Rightarrow> Some k))"
  using enumerate_first [of hs T V s X] enumerate_next [of hs T V s X] assms by blast

theorem hash_enumerates_all_witness:
  "map_option fst (chainhash_enumerate ex_hash ex_table (\<lambda>n h. h) None ex_ch) = Some (Some 2) \<and>
   map_option fst (chainhash_enumerate ex_hash ex_table (\<lambda>n h. h) (Some 2) ex_ch) = Some (Some 5) \<and>
   map_option fst (chainhash_enumerate ex_hash ex_table (\<lambda>n h. h) (Some 5) ex_ch) = Some None"
proof -
  have k: "keys_of ex_items (concat [[0x300], [0x400]]) = [2, 5]" by (simp add: keys_of_def ex_items_def)
  have h: "ex_items = (\<lambda>n h. h) (n_locks ex_ch) (items ex_ch)" by (simp add: ex_ch_def)
  note e = hash_enumerates_all [where V = "\<lambda>n h. h" and s = ex_ch, OF h ex_table_inv]
  from e k have "map_option fst (chainhash_enumerate ex_hash ex_table (\<lambda>n h. h) (Some 2) ex_ch) = Some (Some 5)"
    by (metis append_Nil list.case(2))
  moreover from e k have "map_option fst (chainhash_enumerate ex_hash ex_table (\<lambda>n h. h) (Some 5) ex_ch) = Some None"
    by (metis append_Cons append_Nil list.case(1))
  ultimately show ?thesis using e k by simp
qed

text \<open>
  A refused lock leaves the run counter out of step: the failed attempt of \<open>chainhash::insert\<close>
  aborts and then also leaves the section's scope, so the counter has grown by three when the next
  attempt starts.
\<close>

theorem hash_retry_flips_parity:
  fixes k :: "'k :: linorder" and s :: "('k, 'v) ch_state"
  assumes "bucket_inv (V (n_locks s) (items s)) b xs"
    and "k \<notin> fst ` set (entries (V (n_locks s) (items s)) xs)" and "\<not> lk (n_locks s)"
  shows "\<exists>s'. bucket_insert V lk x b k v s = bucket_insert V lk x b k v s' \<and>
    ch_run_cnt s' = ch_run_cnt s + 3 \<and> n_locks s' = Suc (n_locks s)"
  using assms by (rule bucket_insert_failed_attempt)

theorem hash_retry_flips_parity_witness:
  "\<exists>s'. bucket_insert (\<lambda>n h. h) (\<lambda>n. 0 < n) 0x500 0x100 4 40 ex_ch = bucket_insert (\<lambda>n h. h) (\<lambda>n. 0 < n) 0x500 0x100 4 40 s' \<and>
     ch_run_cnt s' = 3 \<and> n_locks s' = 1"
proof -
  have "bucket_inv ((\<lambda>n h. h) (n_locks ex_ch) (items ex_ch)) 0x100 [0x300]"
    "4 \<notin> fst ` set (entries ((\<lambda>n h. h) (n_locks ex_ch) (items ex_ch)) [0x300])"
    by (simp_all add: bucket_inv_def ex_ch_def ex_items_def entries_def)
  from hash_retry_flips_parity [where V = "\<lambda>n h. h" and s = ex_ch, OF this, of "\<lambda>n. 0 < n" "0x500" 40] show ?thesis by (simp add: ex_ch_def)
qed

text \<open>
  C32.  Creating and destroying a thread handle is a round trip.  While a buffer is left, the handle takes
  the first of the pool as its log; deleting the handle gives it back: the lists of threads and the pool of log buffers
  are as before and the thread structure is freed.
\<close>

theorem handle_round_trip:
  assumes "lists_inv s ls zs" and "fresh_node s ls zs p" and "mvrlu_is_init s" and "p \<noteq> NULL"
    and "pool_inv base (port_logs s)" and "log_pool (port_logs s) = b # bs"
  shows "\<exists>s1 s2. thread_handle_new env p s = Some (p, s1) \<and> lists_inv s1 (p # ls) zs \<and>
    log_buffer (log_of s1 p) = log_part b \<and> port_logs s1 = (port_logs s)\<lparr>log_pool := bs\<rparr> \<and>
    thread_handle_delete env p s1 = Some (Inr s2) \<and> lists_inv s2 ls zs \<and> port_logs s2 = port_logs s \<and> \<not> thr_alloc s2 p"
  using assms by (rule thread_handle_round_trip)

theorem handle_round_trip_witness:
  "\<exists>s1 s2. thread_handle_new ex_env ex_thr ex_sys1 = Some (ex_thr, s1) \<and> lists_inv s1 [ex_thr] [] \<and>
     log_buffer (log_of s1 ex_thr) = 0x120010 \<and> log_pool (port_logs s1) = [] \<and>
     thread_handle_delete ex_env ex_thr s1 = Some (Inr s2) \<and> lists_inv s2 [] [] \<and> log_pool (port_logs s2) = [0x120008]"
proof -
  have la: "port_logs ex_sys1 = ex_la" and "mvrlu_is_init ex_sys1" "ex_thr \<noteq> NULL"
    by (simp_all add: ex_sys1_def mvrlu_init_def ex_sys0_def init_thread_list_def init_qp_thread_def port_log_region_init_def
        mvrlu_is_init_def ex_thr_def)
  moreover have "log_pool ex_la = [0x120008]" by (simp add: ex_la_def)
  moreover have "log_part 0x120008 = 0x120010" by (simp add: log_part_def sizeof_islink_def)
  ultimately show ?thesis
    using handle_round_trip [OF ex_lists_inv ex_fresh, of "0x100000" "0x120008" "[]" ex_env] ex_pool_inv by auto
qed

section \<open>RLU\<close>

text \<open>
  C7.  \<open>rlu_sync_and_writeback\<close> returns whenever every other section eventually ends or starts late
  enough to read the new versions.  It has then copied every object of the pending write sets from its copy to the
  original and unlocked it, none of the sections that it had to wait for is still running on an old version, and no
  write set is pending any more.
\<close>

theorem rlu_sync_writes_back:
  assumes "quiesces t (g_rlu_writer_version s + 1) env" and "keeps_pending t env"
    and "g_rlu_threads s t = Some self" and "ring_weak self"
    and "ws_tail_counter self \<noteq> ws_head_counter self"
    and "\<not> is_no_quiescence self" and "\<forall>th. \<not> thread_freed s th"
    and "objs_ok (pending_objs (rmem s) self)"
  shows "\<exists>s'. rlu_sync_and_writeback env t s = Some s' \<and>
    (\<forall>(a, c, k) \<in> set (pending_objs (rmem s) self).
       bytes (rmem s') a = written_back (rmem s) a c k \<and> GET_COPY (rmem s') a = NULL) \<and>
    (\<forall>th < g_rlu_cur_threads s. th \<noteq> t \<longrightarrow> g_rlu_threads s th \<noteq> None \<longrightarrow> odd (unat (run_counter (thr s th))) \<longrightarrow>
       passed (run_counter (thr s th)) (g_rlu_writer_version s + 1) th s') \<and>
    pending_objs (rmem s') (thr s' t) = []"
  using assms by (rule rlu_sync_and_writeback_returns)

theorem rlu_sync_writes_back_witness:
  "\<exists>s'. rlu_sync_and_writeback (rx_leave 0) 0 rx_sys = Some s' \<and> bytes (rmem s') rx_p = [2] \<and> GET_COPY (rmem s') rx_p = NULL"
proof -
  have self: "g_rlu_threads rx_sys 0 = Some (rx_thread 0)" by (simp add: rx_sys_def)
  have mem: "rmem rx_sys = rx_mem" by (simp add: rx_sys_def)
  have pend: "pending_objs (rmem rx_sys) (rx_thread 0) = [(rx_p, 0x10000028, 1)]"
    by (simp add: mem rx_pending)
  have wb: "written_back (rmem rx_sys) rx_p 0x10000028 1 = [2]"
    by (simp add: mem written_back_def rx_mem_def rx_p_def rx_q_def rx_addr)
  show ?thesis
    using rlu_sync_writes_back [OF rx_leave_quiesces rx_leave_pending self rx_ring] pend wb rx_objs_ok
    by (force simp: rx_thread_fields rx_sys_def)
qed

text \<open>
  C12.  \<open>rlu_try_lock\<close> on an unlocked object returns while the write set has room for it.  It succeeds
  exactly if nobody else has locked the object when its compare-and-swap runs.  The thread then reads the object through
  its own copy, which holds the bytes of the object, nothing else has changed, and every attempt of another thread on the
  object is refused and leaves the memory alone.  Otherwise the attempt only leaves headers behind that no object
  points to.
\<close>

theorem rlu_lock_exclusive:
  assumes "keeps_thread t env" and "keeps_header (p_cur (obj_write_set self (ws_cur_id self))) env"
    and "g_rlu_threads s t = Some self" and "ws_room self n"
    and "rlu_write_detected self \<longrightarrow> is_check_locks self"
    and "next_copy self \<notin> {NULL, PTR_ID_OBJ_COPY, p}" and "p \<noteq> NULL" and "GET_COPY (rmem s) p = NULL"
    and "s1 = env (lock_header t p n s)"
  shows "\<exists>ok c s'. rlu_try_lock env t p n s = Some (ok, c, s') \<and> (ok \<longleftrightarrow> GET_COPY (rmem s1) p = NULL) \<and>
    (if ok then c = next_copy self \<and> RLU_DEREF t p s' = c \<and>
       bytes (rmem s') = (bytes (rmem s1))(c := written_back (rmem s1) c p n) \<and>
       num_of_objs (obj_write_set (thr s' t) (ws_cur_id self)) = num_of_objs (obj_write_set self (ws_cur_id self)) + 1 \<and>
       (\<forall>u. u \<noteq> t \<longrightarrow> g_rlu_threads s' u = g_rlu_threads s1 u) \<and>
       (\<forall>env' u other k. g_rlu_threads s' u = Some other \<longrightarrow> uniq_id other \<noteq> uniq_id self \<longrightarrow>
          (\<exists>s''. rlu_try_lock env' u p k s' = Some (False, p, s'') \<and> rmem s'' = rmem s'))
     else c = p \<and> s' = s1)"
proof (cases "GET_COPY (rmem s1) p = NULL")
  case True
  let ?s' = "lock_copy t p (next_copy self) n s1"
  note acq = lock_copy_acquired [OF assms(1-4,6,9) refl]
  have "\<exists>s''. rlu_try_lock env' u p k ?s' = Some (False, p, s'') \<and> rmem s'' = rmem ?s'"
    if "g_rlu_threads ?s' u = Some other" "uniq_id other \<noteq> uniq_id self" for env' u other k
    using rlu_try_lock_refused [OF acq(1), of u env' k] that by (simp add: thr_def rlu_send_sync_request_def)
  moreover have "rlu_try_lock env t p n s = Some (True, next_copy self, ?s')"
    using rlu_try_lock_free [OF assms(1,3,8,4)] True assms(9) by (simp add: Let_def)
  ultimately show ?thesis
    using acq(3-6) True assms(5,7) by (intro exI [of _ True] exI [of _ "next_copy self"] exI [of _ ?s']) auto
next
  case False
  then show ?thesis
    using rlu_try_lock_free [OF assms(1,3,8,4)] assms(9) by (intro exI [of _ False] exI [of _ p] exI [of _ s1]) (simp add: Let_def)
qed

theorem rlu_lock_exclusive_witness:
  "\<exists>s'. rlu_try_lock id 2 0x3008 1 rx_free = Some (True, 0x14000028, s') \<and> RLU_DEREF 2 0x3008 s' = 0x14000028 \<and>
     bytes (rmem s') 0x14000028 = [7] \<and>
     (\<exists>s''. rlu_try_lock id 1 0x3008 1 s' = Some (False, 0x3008, s'') \<and> rmem s'' = rmem s')"
proof -
  have kh: "keeps_header a id" for a by (simp add: keeps_header_def)
  obtain s' where s': "rlu_try_lock id 2 0x3008 1 rx_free = Some (True, 0x14000028, s')" "RLU_DEREF 2 0x3008 s' = 0x14000028"
      "bytes (rmem s') 0x14000028 = [7]" "g_rlu_threads s' 1 = Some (rx_thread 1)"
      "\<forall>env' u other k. g_rlu_threads s' u = Some other \<longrightarrow> uniq_id other \<noteq> uniq_id (rx_thread 2) \<longrightarrow>
         (\<exists>s''. rlu_try_lock env' u 0x3008 k s' = Some (False, 0x3008, s'') \<and> rmem s'' = rmem s')"
    using rlu_lock_exclusive [OF keeps_thread_id kh rx_lock_ready refl, unfolded id_apply rx_lock_copy] rx_lock_before
    unfolding id_def by auto
  have "uniq_id (rx_thread 1) \<noteq> uniq_id (rx_thread 2)" by (simp add: rx_thread_def)
  with s' show ?thesis by blast
qed

text \<open>
  C19.  Leaving a section keeps the ring of write sets in order: the counters stay within the ring
  and within the number of write sets that a thread may collect, the slots that are not in use are empty, the current
  slot is empty, and a section that has written takes exactly one slot.
\<close>

theorem rlu_unlock_keeps_ring:
  assumes "keeps_thread t env" and "g_rlu_threads s t = Some self"
    and "section_ok self" and "rlu_reader_unlock env t s = Some s'"
  shows "\<exists>self'. g_rlu_threads s' t = Some self' \<and> ring_inv self' \<and> slots_clean self' \<and>
    ws_empty (obj_write_set self' (ws_cur_id self')) \<and>
    ws_tail_counter self' = ws_tail_counter self + (if rlu_write_detected self then 1 else 0)"
  using assms by (rule rlu_reader_unlock_inv)

theorem rlu_unlock_keeps_ring_witness:
  "\<exists>s' self'. rlu_reader_unlock id 2 rx_section = Some s' \<and> g_rlu_threads s' 2 = Some self' \<and> ring_inv self' \<and>
     ws_tail_counter self' = 1"
proof -
  obtain s' where s': "rlu_reader_unlock id 2 rx_section = Some s'" using rx_section_unlock by blast
  show ?thesis
    using rlu_unlock_keeps_ring [OF keeps_thread_id rx_section_ok s'] s' by (auto simp: rx_thread_fields)
qed

text \<open>
  A writer chooses its version and advances the global one in two steps.  When another writer
  finishes and a reader starts in between, the reader is neither waited for nor does it look at copies: in one section it
  reads an object before and after the first writer's change (a defect).
\<close>

theorem rlu_stale_reader:
  "\<exists>s1 s2. s1 = rx_other rx_chosen \<and> rlu_sync_and_writeback rx_other 0 rx_sys = Some s2 \<and>
     run_counter (thr s1 2) = 1 \<and> run_counter (thr s2 2) = 1 \<and>
     RLU_DEREF 2 rx_p s1 = rx_p \<and> RLU_DEREF 2 rx_p s2 = rx_p \<and>
     bytes (rmem s1) rx_p = [1] \<and> bytes (rmem s2) rx_p = [2]"
  by (rule rx_race)

section \<open>xv6: files\<close>

text \<open>
  C5.  A commit is atomic.  \<open>commit\<close> returns, has then put the contents of every block of the
  transaction in its place on the disk, and if the machine stops after any number of its disk writes and starts again,
  \<open>initlog\<close> returns and leaves outside of the log either all of the transaction or nothing of it.
\<close>

theorem commit_crash_safe:
  fixes s :: xfs
  assumes "tx_ok s" "disk_ok s" "0 < lh_n s"
  shows "\<exists>s' ws. commit s = Some s' \<and> lh_n s' = 0 \<and> dtrace s' = dtrace s @ ws \<and> disk s' = upds ws (disk s) \<and>
    (\<forall>m. m \<notin> log_region s \<longrightarrow> disk s' m = blk s m) \<and>
    (\<forall>k. \<exists>r. initlog 1 (reboot (upds (take k ws) (disk s)) s) = Some r \<and>
       ((\<forall>m. m \<notin> log_region s \<longrightarrow> disk r m = disk s m) \<or> (\<forall>m. m \<notin> log_region s \<longrightarrow> disk r m = blk s m)))"
  using assms by (rule commit_safe)

theorem commit_crash_safe_witness:
  "0 < lh_n fx_dirty \<and> disk fx_dirty 36 \<noteq> fx_data \<and> (\<exists>s'. commit fx_dirty = Some s' \<and> disk s' 36 = fx_data)"
proof -
  have "36 \<notin> log_region fx_dirty"
    using fx_dirty_step by (simp add: tx_stepD(5) [OF fx_dirty_step] fx_log_region)
  then show ?thesis using commit_crash_safe [OF fx_dirty_ok(1,2,3)] fx_dirty_ok(3-5) by fastforce
qed

text \<open>
  C9.  The buffer cache implements a map from block numbers to contents.  While a buffer is clean and
  free, reading a block that nobody holds returns its current contents and changes nothing; releasing the buffer changes
  nothing; assigning to the buffer, writing and releasing it updates the map and the disk at that block alone.  All of
  them keep the invariant of the cache.
\<close>

theorem block_cache_coherent:
  fixes s :: xfs
  assumes "bio_inv s" "\<not> held s n" "n < disksize s" "dirty s n \<or> card (pinned s) < NBUF"
  shows "\<exists>i s1. bread 1 n s = Some (i, s1) \<and> bio_inv s1 \<and> b_data (bufs s1 i) = blk s n \<and> bio_same s s1 \<and>
    (\<forall>m. held s1 m \<longleftrightarrow> held s m \<or> m = n) \<and>
    (\<exists>s2. brelse i s1 = Some s2 \<and> bio_inv s2 \<and> bio_same s s2 \<and> (\<forall>m. held s2 m = held s m)) \<and>
    (\<forall>d. \<exists>s2 s3. bwrite i (set_data i d s1) = Some s2 \<and> brelse i s2 = Some s3 \<and> bio_inv s3 \<and>
       blk s3 = (blk s)(n := d) \<and> disk s3 = (disk s)(n := d) \<and> dtrace s3 = dtrace s @ [(n, d)] \<and> (\<forall>m. held s3 m = held s m))"
  using assms by (rule rewrite_block)

theorem block_cache_coherent_witness:
  "\<exists>i s1. bread 1 34 fx_fs = Some (i, s1) \<and> b_data (bufs s1 i) = fx_map \<and>
     (\<exists>s2 s3. bwrite i (set_data i fx_data s1) = Some s2 \<and> brelse i s2 = Some s3 \<and> blk s3 = fx_disk(34 := fx_data))"
proof -
  have "card (pinned fx_fs) < NBUF" by (simp add: fx_cache(5) NBUF_def MAXOPBLOCKS_def)
  then obtain i s1 where r: "bread 1 34 fx_fs = Some (i, s1)" "b_data (bufs s1 i) = blk fx_fs 34"
    and w: "\<forall>d. \<exists>s2 s3. bwrite i (set_data i d s1) = Some s2 \<and> brelse i s2 = Some s3 \<and> bio_inv s3 \<and>
       blk s3 = (blk fx_fs)(34 := d) \<and> disk s3 = (disk fx_fs)(34 := d) \<and> dtrace s3 = dtrace fx_fs @ [(34, d)] \<and>
       (\<forall>m. held s3 m = held fx_fs m)"
    using block_cache_coherent [OF fx_cache(1) fx_cache(4), of 34] by auto
  have "b_data (bufs s1 i) = fx_map" using r(2) by (simp add: fx_cache(2) fx_disk_def)
  then show ?thesis using r(1) w [rule_format, of fx_data] by (auto simp: fx_cache(2))
qed

text \<open>
  C14.  Allocating a disk block inside of a transaction takes a block that is free, zeroes it and marks
  exactly this block as used, changing no other block but that of the bitmap; freeing it again restores the bitmap.
\<close>

theorem balloc_bfree_round_trip:
  assumes "tx_ok s" "map_ok s" "tx_room 3 s" "\<exists>b < unat (sb_size (fsb s)). \<not> used s b"
  shows "\<exists>b s1 s2. balloc 1 s = Some (b, s1) \<and> unat b < unat (sb_size (fsb s)) \<and> \<not> used s (unat b) \<and> tx_ok s1 \<and>
    blk s1 b = replicate BSIZE 0 \<and> (\<forall>c < unat (sb_size (fsb s)). used s1 c \<longleftrightarrow> c = unat b \<or> used s c) \<and>
    (\<forall>m. m \<noteq> b \<longrightarrow> m \<noteq> map_block s (unat b) \<longrightarrow> blk s1 m = blk s m) \<and>
    bfree 1 b s1 = Some s2 \<and> tx_ok s2 \<and> blk s2 = (blk s)(b := replicate BSIZE 0)"
  using assms by (rule balloc_bfree)

theorem balloc_bfree_round_trip_witness:
  "\<exists>b s1 s2. balloc 1 fx_fs = Some (b, s1) \<and> 36 \<le> unat b \<and> unat b < 40 \<and> bfree 1 b s1 = Some s2 \<and>
     blk s2 = fx_disk(b := replicate BSIZE 0)"
proof -
  obtain b s1 s2 where b: "balloc 1 fx_fs = Some (b, s1)" "unat b < unat (sb_size (fsb fx_fs))" "\<not> used fx_fs (unat b)"
    "bfree 1 b s1 = Some s2" "blk s2 = (blk fx_fs)(b := replicate BSIZE 0)"
    using balloc_bfree_round_trip [OF fx_tx_ok fx_map_ok(1) fx_room fx_map_ok(2)] by blast
  then have "unat b < 40" by (simp add: fx_sb_def)
  with b show ?thesis by (auto simp: fx_used fx_cache(2))
qed

text \<open>
  C15.  \<open>iupdate\<close> writes an inode to its place on the disk: in every later state with the same blocks, the first
  \<open>ilock\<close> of an entry of the cache for this inode reads back its type, device numbers, links, size and addresses, and no
  other inode on the disk has changed.
\<close>

theorem inode_round_trip:
  assumes "tx_ok s" "tx_room (Suc k) s" "i_dev (icache s ip) = 1" "i_type (icache s ip) \<noteq> 0"
    "home s (IBLOCK (i_inum (icache s ip)) (fsb s))" "length (blk s (IBLOCK (i_inum (icache s ip)) (fsb s))) = BSIZE"
  shows "\<exists>s1. iupdate ip s = Some s1 \<and> tx_ok s1 \<and> icache s1 = icache s \<and>
    (\<forall>s2 jp. tx_ok s2 \<longrightarrow> blk s2 = blk s1 \<longrightarrow> fsb s2 = fsb s \<longrightarrow> disksize s2 = disksize s \<longrightarrow>
       unread s2 jp (i_inum (icache s ip)) \<longrightarrow> (\<exists>s3. ilock jp s2 = Some s3 \<and> same_dinode (icache s3 jp) (icache s ip))) \<and>
    (\<forall>inum i. inum \<noteq> i_inum (icache s ip) \<longrightarrow> disk_inode s1 inum i = disk_inode s inum i)"
  using assms by (rule iupdate_ilock)

theorem inode_round_trip_witness:
  "\<exists>s1 s3. iupdate 0 fx_fs = Some s1 \<and> tx_ok s1 \<and> (\<forall>i. disk_inode s1 4 i = disk_inode fx_fs 4 i) \<and>
     ilock 1 (upd_ino 1 (\<lambda>_. no_inode\<lparr>i_dev := 1, i_inum := 3, i_ref := 1\<rparr>) s1) = Some s3 \<and>
     same_dinode (icache s3 1) (icache fx_fs 0)"
proof -
  have b: "IBLOCK 3 fx_sb = 33" by (simp add: IBLOCK_def fx_sb_def IPB_def BSIZE_def DINODE_SIZE_def word_unat_eq_iff unat_div)
  have r: "tx_room (Suc 2) fx_fs" using fx_room by (simp add: numeral_3_eq_3 numeral_2_eq_2)
  have h: "home fx_fs 33" "length (blk fx_fs 33) = BSIZE" by (simp_all add: fx_home fx_cache(2) fx_disk_def)
  obtain s' where s': "iupdate 0 fx_fs = Some s'" "fsb s' = fsb fx_fs" "disksize s' = disksize fx_fs"
    using iupdate_writes [OF fx_tx_ok r, of 0 fx_inode] h b by (auto simp: fx_inode_def)
  obtain s1 where s1: "iupdate 0 fx_fs = Some s1" "tx_ok s1" "\<forall>i. disk_inode s1 4 i = disk_inode fx_fs 4 i"
    and rd: "\<forall>s2 jp. tx_ok s2 \<longrightarrow> blk s2 = blk s1 \<longrightarrow> fsb s2 = fsb fx_fs \<longrightarrow> disksize s2 = disksize fx_fs \<longrightarrow>
       unread s2 jp 3 \<longrightarrow> (\<exists>s3. ilock jp s2 = Some s3 \<and> same_dinode (icache s3 jp) (icache fx_fs 0))"
    using inode_round_trip [OF fx_tx_ok r, of 0] h b by (auto simp: fx_inode_def T_FILE_def)
  let ?s2 = "upd_ino 1 (\<lambda>_. no_inode\<lparr>i_dev := 1, i_inum := 3, i_ref := 1\<rparr>) s1"
  have "unread ?s2 1 3" by (simp add: unread_def upd_ino_def no_inode_def)
  moreover have "tx_ok ?s2" "blk ?s2 = blk s1" using s1(2) by (simp_all only: upd_ino_def icache_frame)
  moreover have "fsb ?s2 = fsb fx_fs" "disksize ?s2 = disksize fx_fs" using s' s1(1) by (simp_all add: upd_ino_def)
  ultimately show ?thesis using s1 rd by blast
qed

text \<open>
  C13.  However \<open>iget\<close>, \<open>idup\<close>, \<open>ilock\<close>, \<open>iunlock\<close> and \<open>iput\<close> follow each other, the reference count of every
  entry of the inode cache is the number of references that are held to it, an entry that is referenced keeps its identity,
  and no inode is cached in two referenced entries.
\<close>

theorem inode_references_exact:
  assumes "inode_run s hs"
  shows "(\<forall>i < NINODE. i_ref (icache s i) = int (size {#h \<in># hs. fst h = i#})) \<and>
    (\<forall>(ip, dev, inum) \<in># hs. ip < NINODE \<and> i_dev (icache s ip) = dev \<and> i_inum (icache s ip) = inum) \<and>
    (\<forall>i < NINODE. \<forall>j < NINODE. i_ref (icache s i) > 0 \<longrightarrow> i_ref (icache s j) > 0 \<longrightarrow>
       i_dev (icache s i) = i_dev (icache s j) \<longrightarrow> i_inum (icache s i) = i_inum (icache s j) \<longrightarrow> i = j)"
  using inode_run_refs [OF assms] by (simp only: refs_ok_def)

theorem inode_references_exact_witness:
  "\<exists>s. inode_run s {#(0, 1, 3), (0, 1, 3)#} \<and> i_ref (icache s 0) = 2"
proof -
  let ?s = "fx_fs\<lparr>icache := \<lambda>_. no_inode\<rparr>"
  let ?s1 = "upd_ino 0 (\<lambda>i. i\<lparr>i_dev := 1, i_inum := 3, i_ref := 1, i_valid := False\<rparr>) ?s"
  have "inode_run ?s {#}" by (rule inode_run.start) (simp add: no_inode_def)
  moreover have "iget 1 3 ?s = Some (0, ?s1)" by (rule iget_empty) (simp add: no_inode_def)
  ultimately have "inode_run ?s1 {#(0, 1, 3)#}" by (rule inode_run.get)
  then have r: "inode_run (snd (idup 0 ?s1)) {#(0, 1, 3), (0, 1, 3)#}" by (rule inode_run.dup) simp
  have "i_ref (icache (snd (idup 0 ?s1)) 0) = 2"
    using inode_references_exact [OF r, THEN conjunct1, rule_format, of 0] by (simp add: NINODE_def)
  with r show ?thesis by blast
qed



section \<open>xv6: memory and processes\<close>

text \<open>
  C10.  Free pages are well-formed through every sequence of requests.  After \<open>kinit1\<close> on a range of
  physical memory, whatever pages a client asks for with \<open>kalloc\<close> and gives back with \<open>kfree\<close>, the free list that is linked
  through the pages is a list of distinct whole pages of the range, it shares no page with the client, and together they are
  all pages of the range: no page is given out twice and none is lost.
\<close>

theorem page_allocator_accounts:
  assumes "kend \<le> PGROUNDUP vstart" "0x80000000 \<le> unat vstart" "unat vstart \<le> unat vend" "unat vend \<le> 0x8E000000"
    and "freelist s = 0"
  shows "\<exists>s1. kinit1 kend vstart vend s = Some s1 \<and>
    (\<forall>rs. \<exists>s2 own bs. buffer_pool.serve kalloc (kfree kend) 0 rs s1 [] = Some (s2, own) \<and> kmem_inv kend s2 bs \<and>
       distinct (own @ bs) \<and> set (own @ bs) = set (pages_from (PGROUNDUP vstart) (whole_pages (PGROUNDUP vstart) vend)))"
proof -
  let ?ps = "pages_from (PGROUNDUP vstart) (whole_pages (PGROUNDUP vstart) vend)"
  have "kmem_inv kend s []" using assms(5) by (simp add: kmem_inv_def)
  from kinit_frees(1) [OF this assms(1-4)] obtain s1 where s1: "kinit1 kend vstart vend s = Some s1" "kmem_inv kend s1 (rev ?ps)"
    by auto
  have "page_pool.account kend (set ?ps) s1 []"
    unfolding page_pool.account_def using s1(2) by (intro exI [of _ "rev ?ps"]) (auto simp: kmem_inv_def)
  from page_pool.serve_accounts [OF this] s1(1) show ?thesis unfolding page_pool.account_def by blast
qed

theorem page_allocator_accounts_witness:
  "\<exists>s1 s2 own bs. kinit1 0x80100000 0x80100000 0x80400000 kx_pages = Some s1 \<and>
     buffer_pool.serve kalloc (kfree 0x80100000) 0 [None, None, Some 0x803FF000] s1 [] = Some (s2, own) \<and>
     kmem_inv 0x80100000 s2 bs \<and> distinct (own @ bs) \<and> length (own @ bs) = 768"
proof -
  have up: "PGROUNDUP 0x80100000 = 0x80100000" by (simp add: PGROUNDUP_def PGSIZE_def)
  have "\<exists>s1. kinit1 0x80100000 0x80100000 0x80400000 kx_pages = Some s1 \<and>
    (\<forall>rs. \<exists>s2 own bs. buffer_pool.serve kalloc (kfree 0x80100000) 0 rs s1 [] = Some (s2, own) \<and> kmem_inv 0x80100000 s2 bs \<and>
       distinct (own @ bs) \<and> set (own @ bs) = set (pages_from 0x80100000 (whole_pages 0x80100000 0x80400000)))"
    by (rule page_allocator_accounts [of "0x80100000" "0x80100000" "0x80400000" kx_pages, unfolded up]) (simp_all add: kx_pages_def)
  then obtain s1 s2 own bs where s: "kinit1 0x80100000 0x80100000 0x80400000 kx_pages = Some s1"
    "buffer_pool.serve kalloc (kfree 0x80100000) 0 [None, None, Some 0x803FF000] s1 [] = Some (s2, own)"
    "kmem_inv 0x80100000 s2 bs" "distinct (own @ bs)" "set (own @ bs) = set (pages_from 0x80100000 (whole_pages 0x80100000 0x80400000))"
    by blast
  have w: "whole_pages 0x80100000 0x80400000 = 768" by (simp add: whole_pages_def)
  have "card (set (pages_from 0x80100000 768)) = 768" using distinct_card [OF distinct_pages [of "0x80100000" 768]] by (simp add: pages_from_def)
  then have "length (own @ bs) = 768" using distinct_card [OF s(4)] s(5) w by simp
  with s show ?thesis by blast
qed

text \<open>
  C11.  \<open>memset\<close>, which stores whole words where it can, and \<open>memmove\<close>, which copies in either direction, are
  equivalent to filling and moving the range of bytes that they name, and change nothing else, also when the ranges overlap.
\<close>

theorem memory_ops_exact:
  assumes "unat d + unat n \<le> 2 ^ 32" "unat s + unat n < 2 ^ 32"
  shows "memset d c n m = (\<lambda>a. if in_range d (unat n) a then ucast c else m a) \<and>
    memmove d s n m = (\<lambda>a. if in_range d (unat n) a then m (s + (a - d)) else m a)"
  using memset_fills [OF assms(1)] memmove_moves [OF assms] by blast

theorem memory_ops_exact_witness:
  "memset 0x1000 0x1FF 8 (\<lambda>_. 0) 0x1007 = 0xFF \<and> memset 0x1000 0x1FF 8 (\<lambda>_. 0) 0x1008 = 0 \<and>
   memmove 0x1001 0x1000 2 (\<lambda>a. ucast a) 0x1002 = 1"
  using memory_ops_exact [of "0x1000" 8 "0x1000" "0x1FF" "\<lambda>_. 0"] memory_ops_exact [of "0x1001" 2 "0x1000" 0 "\<lambda>a. ucast a"]
  by (simp add: in_range_def)

text \<open>
  C6.  \<open>call_rcu\<close> waits for a grace period.  In every interleaving of scheduling, clock ticks, sleeping and
  waking, exits, sections and calls of \<open>call_rcu\<close> on any number of CPUs whose interrupt controllers are numbered like them,
  when a call returns every CPU that was in a section at the time of the call has left that section since.
\<close>

theorem rcu_grace_period:
  assumes "rcu_run s pc old" "c < ncpu s" "cpu_proc (cpus s c) = Some p" "pc p = Some x"
    and "call_rcu_step c p x s = (None, s')"
  shows "old p = {}"
  using assms by (rule call_rcu_grace)

theorem rcu_grace_period_witness:
  "preempt_off kx_section 0 \<and> (\<exists>old. rcu_run kx_second ((\<lambda>_. None)(1 := Some (Test 2))) old \<and> old 1 = {})"
proof -
  obtain old where r: "rcu_run kx_second ((\<lambda>_. None)(1 := Some (Test 2))) old" using kx_run_second by blast
  have "old 1 = {}" by (rule rcu_grace_period [OF r, of 1 1 "Test 2"]) (use kx_returns in simp_all)
  moreover have "preempt_off kx_section 0" by (simp add: kx_defs)
  ultimately show ?thesis using r by blast
qed

section \<open>Spin locks\<close>

text \<open>
  C17.  Spin locks exclude each other and panic only on misuse, in every interleaving of the memory accesses of any
  number of CPUs.  A lock that a CPU owns is owned by no other CPU, is locked and names its owner, and interrupts are off on
  that CPU.  Outside of the operations, \<open>release\<close> passes its check exactly if the CPU owns the lock and \<open>acquire\<close> exactly if it
  does not, and a release that has begun completes.  The nesting counter is exact: interrupts are on exactly if nothing is
  held and the code has turned them on.
\<close>

theorem spin_lock_correct:
  assumes "lock_run s pc own ex fl"
  shows "(l \<in> set (own c) \<longrightarrow> locked (lks s l) \<and> lk_cpu (lks s l) = Some c \<and> \<not> iflag (lcpus s c) \<and> (\<forall>d. l \<in> set (own d) \<longrightarrow> d = c)) \<and>
    (pc c = Out \<longrightarrow> (release_clear c l s \<noteq> None \<longleftrightarrow> l \<in> set (own c)) \<and> (acquire_enter c l s \<noteq> None \<longleftrightarrow> l \<notin> set (own c))) \<and>
    (pc c = Cleared l \<longrightarrow> release_unlock c l s \<noteq> None) \<and>
    ncli (lcpus s c) = int (depth (pc c) (own c) (ex c)) \<and> (iflag (lcpus s c) \<longleftrightarrow> fl c \<and> depth (pc c) (own c) (ex c) = 0)"
  using run_owner [OF assms, of l c] run_release [OF assms, of c l] run_acquire [OF assms, of c l] run_unlock [OF assms, of c l]
    run_flag [OF assms, of c] by blast

theorem spin_lock_correct_witness:
  "locked (lks lx_spin 5) \<and> lk_cpu (lks lx_spin 5) = Some 0 \<and> \<not> iflag (lcpus lx_spin 0) \<and> release_clear 0 5 lx_spin \<noteq> None \<and>
   acquire_enter 0 5 lx_spin = None \<and> ncli (lcpus lx_spin 1) = 1 \<and> iflag (lcpus lx_spin 2)"
  using spin_lock_correct [OF lx_run, of 5 0] spin_lock_correct [OF lx_run, of 5 1] spin_lock_correct [OF lx_run, of 5 2]
  by (simp add: depth_def)

section \<open>The kernel memory allocator\<close>

text \<open>
  C18.  The buddy allocator.  After construction on a memory region, through every sequence of requests and returns,
  the blocks that clients hold are aligned to their sizes, lie inside of the region and do not overlap; the number of free bytes
  is exact; a request returns, and returns null exactly if there is no free block of its size or above; returning a block that
  is held and reading the statistics never fail an assertion; and no two buddies are both free.
\<close>

theorem buddy_allocator_correct:
  assumes "region_ok base len tbase tlen" "buddy_new u base len tbase tlen = Some b0" "\<not> buddy_empty b0" and run: "buddy_run b0 b H"
  shows "(\<forall>(s, p)\<in>H. unat s dvd unat p \<and> unat base \<le> unat p \<and> unat p + unat s \<le> unat base + unat len) \<and>
    (\<forall>(s, p)\<in>H. \<forall>(t, q)\<in>H. (s, p) \<noteq> (t, q) \<longrightarrow> unat p + unat s \<le> unat q \<or> unat q + unat t \<le> unat p) \<and>
    unat (free_bytes b) + (\<Sum>(s, p)\<in>H. unat s) = unat (free_bytes b0) \<and>
    (k \<le> MAX_ORDER \<longrightarrow> (\<exists>p b'. alloc_nothrow (block_size k) b = Some (p, b') \<and> (p = 0 \<longleftrightarrow> (\<forall>j. k \<le> j \<longrightarrow> j \<le> MAX_ORDER \<longrightarrow> blocks b j = [])))) \<and>
    (\<forall>(s, p)\<in>H. buddy_free p s b \<noteq> None) \<and> get_stats b \<noteq> None \<and>
    (k < MAX_ORDER \<longrightarrow> w \<in> set (blocks b k) \<longrightarrow> w XOR block_size k \<notin> set (blocks b k))"
proof -
  obtain lo hi where a: "accounts b0 {} lo hi" "unat base \<le> lo" "hi \<le> unat base + unat len" "unat (free_bytes b0) = hi - lo"
    by (rule new_accounts [OF assms(1-3)])
  note r = buddy_run_accounts [OF run a(1)]
  have "\<forall>(s, p)\<in>H. unat s dvd unat p \<and> unat base \<le> unat p \<and> unat p + unat s \<le> unat base + unat len"
    using held_inside [OF r] a(2,3) by (fastforce intro: le_trans)
  moreover have "\<forall>(s, p)\<in>H. \<forall>(t, q)\<in>H. (s, p) \<noteq> (t, q) \<longrightarrow> unat p + unat s \<le> unat q \<or> unat q + unat t \<le> unat p"
    using held_disjoint [OF r] by blast
  moreover have "\<forall>(s, p)\<in>H. buddy_free p s b \<noteq> None" using free_accounts [OF r] by fastforce
  moreover have "k \<le> MAX_ORDER \<longrightarrow> (\<exists>p b'. alloc_nothrow (block_size k) b = Some (p, b') \<and> (p = 0 \<longleftrightarrow> (\<forall>j. k \<le> j \<longrightarrow> j \<le> MAX_ORDER \<longrightarrow> blocks b j = [])))"
    using alloc_accounts [OF r, of k] by blast
  ultimately show ?thesis using accounts_total [OF r] a(4) accounts_stats [OF r] accounts_coalesced [OF r] by (intro conjI impI) simp_all
qed

theorem buddy_allocator_correct_witness:
  "\<forall>u. \<exists>b0 p b. buddy_new u 0x10000000 0x200000 0 0 = Some b0 \<and> alloc_nothrow (block_size 0) b0 = Some (p, b) \<and> p \<noteq> 0 \<and>
     unat (free_bytes b) + 4096 = unat (free_bytes b0) \<and> unat p + 4096 \<le> 0x10200000 \<and> buddy_free p (block_size 0) b \<noteq> None"
proof
  fix u
  obtain b0 where b0: "buddy_new u 0x10000000 0x200000 0 0 = Some b0" "\<not> buddy_empty b0" using bx_new by blast
  note c = buddy_allocator_correct [OF bx_region b0]
  obtain p b where p: "alloc_nothrow (block_size 0) b0 = Some (p, b)" "p = 0 \<longleftrightarrow> (\<forall>j. 0 \<le> j \<longrightarrow> j \<le> MAX_ORDER \<longrightarrow> blocks b0 j = [])"
    using c [OF buddy_run.start, of 0 0] by auto
  have "p \<noteq> 0" using p(2) b0(2) by (auto simp: buddy_empty_def list_all_iff)
  moreover have "buddy_run b0 b {(block_size 0, p)}" by (rule buddy_run.got [OF buddy_run.start p(1) \<open>p \<noteq> 0\<close>])
  ultimately show "\<exists>b0 p b. buddy_new u 0x10000000 0x200000 0 0 = Some b0 \<and> alloc_nothrow (block_size 0) b0 = Some (p, b) \<and> p \<noteq> 0 \<and>
     unat (free_bytes b) + 4096 = unat (free_bytes b0) \<and> unat p + 4096 \<le> 0x10200000 \<and> buddy_free p (block_size 0) b \<noteq> None"
    using b0(1) p(1) c [of b "{(block_size 0, p)}" 0 0] by (auto simp: block_size_def MIN_SIZE_def)
qed

end
